(* ===== verification/Prelude.thy ===== *)
theory Prelude
  imports Main "HOL-Library.Sublist" "HOL-Library.Monad_Syntax"
begin

text \<open>
  Shared vocabulary of the development: the string functions of Go's standard library that
  the service uses, decimal numbers, and generic lemmas on lists, options and maps.

  A Go string is a sequence of bytes and is modelled as one (\<^typ>\<open>string\<close>, a list of 8-bit
  characters). The functions that Go defines on code points (\<open>strings.ToLower\<close>,
  \<open>strings.TrimSpace\<close>, \<open>strings.Fields\<close>) are modelled on ASCII: a byte above 127 is
  left alone and counts neither as a letter nor as white space. SMTP replies, host names and
  configuration keys are ASCII.

  Times and durations are integers in nanoseconds, as \<open>time.Duration\<close> is.
\<close>

named_theorems go_string \<open>characterisations of the modelled string functions\<close>

type_synonym duration = int
type_synonym instant = int

abbreviation second :: duration where "second \<equiv> 1000000000"
abbreviation millisecond :: duration where "millisecond \<equiv> 1000000"
abbreviation minute :: duration where "minute \<equiv> 60 * second"
abbreviation hour :: duration where "hour \<equiv> 60 * minute"

abbreviation byte_of :: "char \<Rightarrow> nat" where "byte_of c \<equiv> of_char c"

section \<open>Characters\<close>

definition lower_char :: "char \<Rightarrow> char" where
  "lower_char c = (if 65 \<le> byte_of c \<and> byte_of c \<le> 90 then char_of (byte_of c + 32) else c)"

definition upper_char :: "char \<Rightarrow> char" where
  "upper_char c = (if 97 \<le> byte_of c \<and> byte_of c \<le> 122 then char_of (byte_of c - 32) else c)"

definition is_digit :: "char \<Rightarrow> bool" where
  "is_digit c \<longleftrightarrow> 48 \<le> byte_of c \<and> byte_of c \<le> 57"

definition is_lower :: "char \<Rightarrow> bool" where
  "is_lower c \<longleftrightarrow> 97 \<le> byte_of c \<and> byte_of c \<le> 122"

definition is_upper :: "char \<Rightarrow> bool" where
  "is_upper c \<longleftrightarrow> 65 \<le> byte_of c \<and> byte_of c \<le> 90"

text \<open>The regular-expression class \<open>\w\<close>.\<close>

definition is_word :: "char \<Rightarrow> bool" where
  "is_word c \<longleftrightarrow> is_digit c \<or> is_lower c \<or> is_upper c \<or> c = CHR ''_''"

text \<open>ASCII white space of \<open>unicode.IsSpace\<close>: tab, newline, vertical tab, form feed,
  carriage return, space.\<close>

definition is_space :: "char \<Rightarrow> bool" where
  "is_space c \<longleftrightarrow> (9 \<le> byte_of c \<and> byte_of c \<le> 13) \<or> byte_of c = 32"

section \<open>Strings\<close>

definition to_lower :: "string \<Rightarrow> string" where
  "to_lower s = map lower_char s"

definition to_upper :: "string \<Rightarrow> string" where
  "to_upper s = map upper_char s"

definition trim_left :: "(char \<Rightarrow> bool) \<Rightarrow> string \<Rightarrow> string" where
  "trim_left p s = dropWhile p s"

definition trim_right :: "(char \<Rightarrow> bool) \<Rightarrow> string \<Rightarrow> string" where
  "trim_right p s = rev (dropWhile p (rev s))"

definition trim_space :: "string \<Rightarrow> string" where
  "trim_space s = trim_right is_space (trim_left is_space s)"

definition has_prefix :: "string \<Rightarrow> string \<Rightarrow> bool" where
  "has_prefix s w \<longleftrightarrow> take (length w) s = w"

definition has_suffix :: "string \<Rightarrow> string \<Rightarrow> bool" where
  "has_suffix s w \<longleftrightarrow> has_prefix (rev s) (rev w)"

definition trim_suffix :: "string \<Rightarrow> string \<Rightarrow> string" where
  "trim_suffix s w = (if has_suffix s w then take (length s - length w) s else s)"

text \<open>\<open>strings.Contains\<close>: some suffix of the text starts with the word.\<close>

fun contains :: "string \<Rightarrow> string \<Rightarrow> bool" where
  "contains [] w \<longleftrightarrow> w = []"
| "contains (c # s) w \<longleftrightarrow> has_prefix (c # s) w \<or> contains s w"

text \<open>\<open>strings.Index\<close>: the first position at which the word starts.\<close>

fun index_of :: "string \<Rightarrow> string \<Rightarrow> nat option" where
  "index_of [] w = (if w = [] then Some 0 else None)"
| "index_of (c # s) w =
     (if has_prefix (c # s) w then Some 0 else map_option Suc (index_of s w))"

text \<open>\<open>strings.Split\<close> with a one-byte separator: never empty.\<close>

fun split_on :: "char \<Rightarrow> string \<Rightarrow> string list" where
  "split_on d [] = [[]]"
| "split_on d (c # s) =
     (if c = d then [] # split_on d s
      else (case split_on d s of [] \<Rightarrow> [[c]] | w # ws \<Rightarrow> (c # w) # ws))"

fun join_with :: "string \<Rightarrow> string list \<Rightarrow> string" where
  "join_with d [] = []"
| "join_with d [w] = w"
| "join_with d (w # v # ws) = w @ d @ join_with d (v # ws)"

text \<open>\<open>strings.Fields\<close>: the maximal runs of non-space bytes.\<close>

fun fields_aux :: "string \<Rightarrow> string \<Rightarrow> string list" where
  "fields_aux [] acc = (if acc = [] then [] else [rev acc])"
| "fields_aux (c # s) acc =
     (if is_space c then (if acc = [] then fields_aux s [] else rev acc # fields_aux s [])
      else fields_aux s (c # acc))"

definition fields_of :: "string \<Rightarrow> string list" where
  "fields_of s = fields_aux s []"

text \<open>\<open>strings.Cut(s, sep)\<close> for a one-byte separator: the part after the first
  separator, empty when there is none.\<close>

definition after_first :: "char \<Rightarrow> string \<Rightarrow> string" where
  "after_first d s = (case dropWhile (\<lambda>c. c \<noteq> d) s of [] \<Rightarrow> [] | _ # r \<Rightarrow> r)"

text \<open>What follows the last occurrence of a byte, as \<open>strings.LastIndex\<close> finds it.\<close>

definition after_last :: "char \<Rightarrow> string \<Rightarrow> string option" where
  "after_last c s = (if c \<in> set s then Some (rev (takeWhile (\<lambda>x. x \<noteq> c) (rev s))) else None)"

text \<open>\<open>strings.ReplaceAll\<close> of a word that is not empty.\<close>

function replace_all :: "string \<Rightarrow> string \<Rightarrow> string \<Rightarrow> string" where
  "replace_all old new [] = []"
| "replace_all old new (c # s) =
     (if old \<noteq> [] \<and> has_prefix (c # s) old then new @ replace_all old new (drop (length old) (c # s))
      else c # replace_all old new s)"
  by pat_completeness auto
termination by (relation "measure (\<lambda>(old, new, s). length s)") auto

section \<open>Decimal numbers\<close>

definition digit_value :: "char \<Rightarrow> nat" where
  "digit_value c = byte_of c - 48"

fun digits_value :: "nat \<Rightarrow> string \<Rightarrow> nat" where
  "digits_value n [] = n"
| "digits_value n (c # s) = digits_value (10 * n + digit_value c) s"

text \<open>\<open>strconv.Atoi\<close>: an optional sign and at least one digit, within a 64-bit signed
  integer; anything else is an error.\<close>

definition in_int64 :: "int \<Rightarrow> bool" where
  "in_int64 n \<longleftrightarrow> - (2 ^ 63) \<le> n \<and> n < 2 ^ 63"

definition atoi :: "string \<Rightarrow> int option" where
  "atoi s =
     (let neg = (case s of c # _ \<Rightarrow> c = CHR ''-'' | [] \<Rightarrow> False);
          ds = (case s of c # r \<Rightarrow> if c = CHR ''-'' \<or> c = CHR ''+'' then r else s | [] \<Rightarrow> []);
          n = int (digits_value 0 ds);
          v = (if neg then - n else n)
      in if ds \<noteq> [] \<and> list_all is_digit ds \<and> in_int64 v then Some v else None)"

fun nat_digits :: "nat \<Rightarrow> string" where
  "nat_digits n =
     (if n < 10 then [char_of (48 + n)] else nat_digits (n div 10) @ [char_of (48 + n mod 10)])"

declare nat_digits.simps [simp del]

text \<open>\<open>strconv.Itoa\<close> and \<open>strconv.FormatInt(_, 10)\<close>.\<close>

definition itoa :: "int \<Rightarrow> string" where
  "itoa n = (if n < 0 then CHR ''-'' # nat_digits (nat (- n)) else nat_digits (nat n))"

section \<open>Hexadecimal\<close>

definition hex_digit :: "nat \<Rightarrow> char" where
  "hex_digit n = (if n < 10 then char_of (48 + n) else char_of (87 + n))"

text \<open>One byte of \<open>hex.EncodeToString\<close>.\<close>

definition hex_byte :: "nat \<Rightarrow> string" where
  "hex_byte b = [hex_digit (b div 16 mod 16), hex_digit (b mod 16)]"

section \<open>Lemmas on characters and strings\<close>

lemma byte_of_lt [simp]: "byte_of c < 256"
  by simp

lemma byte_of_char_of [simp]: "n < 256 \<Longrightarrow> byte_of (char_of n) = n"
  by simp

lemma lower_char_idem [simp]: "lower_char (lower_char c) = lower_char c"
  by (auto simp: lower_char_def)

lemma lower_char_not_upper: "\<not> (65 \<le> byte_of (lower_char c) \<and> byte_of (lower_char c) \<le> 90)"
  by (auto simp: lower_char_def)

lemma to_lower_idem [simp]: "to_lower (to_lower s) = to_lower s"
  by (simp add: to_lower_def comp_def)

lemma to_lower_append [simp]: "to_lower (s @ t) = to_lower s @ to_lower t"
  by (simp add: to_lower_def)

lemma to_lower_Nil [simp]: "to_lower [] = []"
  by (simp add: to_lower_def)

lemma length_to_lower [simp]: "length (to_lower s) = length s"
  by (simp add: to_lower_def)

lemma is_digit_lower [simp]: "is_digit (lower_char c) = is_digit c"
  by (auto simp: is_digit_def lower_char_def)

lemma is_space_lower [simp]: "is_space (lower_char c) = is_space c"
  by (auto simp: is_space_def lower_char_def)

lemma lower_char_digit [simp]: "is_digit c \<Longrightarrow> lower_char c = c"
  by (auto simp: is_digit_def lower_char_def)

lemma has_prefix_iff [go_string]: "has_prefix s w \<longleftrightarrow> prefix w s"
  by (metis append_eq_conv_conj append_take_drop_id has_prefix_def prefix_def)

lemma has_suffix_iff [go_string]: "has_suffix s w \<longleftrightarrow> suffix w s"
  by (simp add: has_suffix_def has_prefix_iff suffix_to_prefix)

lemma contains_iff [go_string]: "contains s w \<longleftrightarrow> sublist w s"
  by (induction s) (auto simp: has_prefix_iff sublist_Cons_right)

lemma contains_split: "contains s w \<longleftrightarrow> (\<exists>u v. s = u @ w @ v)"
  by (simp add: contains_iff sublist_def)

lemma index_of_None: "index_of s w = None \<longleftrightarrow> \<not> contains s w"
  by (induction s) auto

lemma index_of_Some_prefix: "index_of s w = Some i \<Longrightarrow> has_prefix (drop i s) w"
  by (induction s arbitrary: i) (auto simp: has_prefix_def split: if_splits)

lemma index_of_Some_least: "index_of s w = Some i \<Longrightarrow> j < i \<Longrightarrow> \<not> has_prefix (drop j s) w"
proof (induction s arbitrary: i j)
  case Nil
  then show ?case by (auto split: if_splits)
next
  case (Cons c s)
  then show ?case by (cases j) (auto split: if_splits)
qed

lemma index_of_Some_bound: "index_of s w = Some i \<Longrightarrow> i + length w \<le> length s"
  by (induction s arbitrary: i) (auto simp: has_prefix_iff dest!: prefix_length_le split: if_splits)

lemma trim_suffix_noop [simp]: "\<not> has_suffix s w \<Longrightarrow> trim_suffix s w = s"
  by (simp add: trim_suffix_def)

lemma split_on_ne [simp]: "split_on d s \<noteq> []"
  by (induction s) (auto split: list.splits)

lemma split_on_no_sep: "w \<in> set (split_on d s) \<Longrightarrow> d \<notin> set w"
  by (induction s arbitrary: w) (auto split: if_splits list.splits)

lemma split_on_single: "d \<notin> set w \<Longrightarrow> split_on d w = [w]"
  by (induction w) auto

lemma split_on_append: "d \<notin> set w \<Longrightarrow> split_on d (w @ d # s) = w # split_on d s"
  by (induction w) auto

lemma fields_aux_chars:
  "w \<in> set (fields_aux s acc) \<Longrightarrow> c \<in> set w \<Longrightarrow> c \<in> set acc \<or> c \<in> set s \<and> \<not> is_space c"
  by (induction s acc rule: fields_aux.induct) (auto split: if_splits)

lemma fields_of_chars: "w \<in> set (fields_of s) \<Longrightarrow> c \<in> set w \<Longrightarrow> c \<in> set s \<and> \<not> is_space c"
  unfolding fields_of_def by (drule fields_aux_chars) auto

lemma after_last_Some: "after_last c s = Some d \<longleftrightarrow> (\<exists>u. s = u @ [c] @ d) \<and> c \<notin> set d"
proof
  assume "after_last c s = Some d"
  then have d: "d = rev (takeWhile (\<lambda>x. x \<noteq> c) (rev s))" "c \<in> set s" by (auto simp: after_last_def split: if_splits)
  then obtain u w where s: "s = u @ c # w" "c \<notin> set w" using split_list_last by metis
  then have "takeWhile (\<lambda>x. x \<noteq> c) (rev s) = rev w"
    by (simp add: takeWhile_append takeWhile_eq_all_conv)
  then have "s = u @ [c] @ d" using d(1) s by simp
  moreover have "c \<notin> set d" using d(1) by (auto dest: set_takeWhileD)
  ultimately show "(\<exists>u. s = u @ [c] @ d) \<and> c \<notin> set d" by blast
next
  assume "(\<exists>u. s = u @ [c] @ d) \<and> c \<notin> set d"
  then obtain u where "s = u @ [c] @ d" "c \<notin> set d" by blast
  then show "after_last c s = Some d" by (auto simp: after_last_def takeWhile_append)
qed

lemma join_with_split: "join_with [d] (split_on d s) = s"
proof (induction s)
  case (Cons c s)
  obtain w ws where s: "split_on d s = w # ws" by (cases "split_on d s") auto
  with Cons show ?case by (cases ws) auto
qed simp

section \<open>Lemmas on decimal numbers\<close>

lemma digits_value_append: "digits_value n (s @ t) = digits_value (digits_value n s) t"
  by (induction s arbitrary: n) auto

lemma digits_value_nat_digits: "digits_value 0 (nat_digits n) = n"
proof (induction n rule: nat_digits.induct)
  case (1 n)
  then show ?case
    by (subst nat_digits.simps) (auto simp: digits_value_append digit_value_def)
qed

lemma is_digit_char_of: "k < (10::nat) \<Longrightarrow> is_digit (char_of (48 + k))"
  by (simp add: is_digit_def)

lemma nat_digits_digits: "list_all is_digit (nat_digits n)"
proof (induction n rule: nat_digits.induct)
  case (1 n)
  then show ?case
    by (subst nat_digits.simps) (auto simp del: of_char_eq_iff char_of_eq_iff intro: is_digit_char_of)
qed

lemma nat_digits_ne [simp]: "nat_digits n \<noteq> []"
  by (subst nat_digits.simps) simp

lemma nat_digits_hd: "is_digit (hd (nat_digits n))"
  using nat_digits_digits [of n] nat_digits_ne [of n] by (cases "nat_digits n") auto

text \<open>Printing a 64-bit integer and reading it back gives the integer.\<close>

lemma atoi_itoa: "in_int64 n \<Longrightarrow> atoi (itoa n) = Some n"
proof -
  assume r: "in_int64 n"
  have nosign: "c \<noteq> CHR ''-'' \<and> c \<noteq> CHR ''+''" if "is_digit c" for c
    using that by (auto simp: is_digit_def)
  show ?thesis
  proof (cases "n < 0")
    case True
    then show ?thesis
      using r nat_digits_digits by (simp add: itoa_def atoi_def digits_value_nat_digits)
  next
    case False
    obtain c ds where e: "nat_digits (nat n) = c # ds"
      using nat_digits_ne [of "nat n"] by (cases "nat_digits (nat n)") auto
    with nat_digits_hd [of "nat n"] nosign have "c \<noteq> CHR ''-''" "c \<noteq> CHR ''+''" by auto
    then have "atoi (c # ds) =
        (if list_all is_digit (c # ds) \<and> in_int64 (int (digits_value 0 (c # ds)))
         then Some (int (digits_value 0 (c # ds))) else None)"
      by (simp add: atoi_def Let_def)
    then show ?thesis
      using False r e nat_digits_digits [of "nat n"] digits_value_nat_digits [of "nat n"]
      by (simp add: itoa_def)
  qed
qed

section \<open>Sorting\<close>

text \<open>\<open>sort.Strings\<close> and the sorts with a comparison of their own; Go orders strings by their bytes.\<close>

definition byte_le :: "string \<Rightarrow> string \<Rightarrow> bool" where
  "byte_le s t \<longleftrightarrow> lexordp_eq (map byte_of s) (map byte_of t)"

fun insert_by :: "('a \<Rightarrow> 'a \<Rightarrow> bool) \<Rightarrow> 'a \<Rightarrow> 'a list \<Rightarrow> 'a list" where
  "insert_by le x [] = [x]"
| "insert_by le x (y # ys) = (if le x y then x # y # ys else y # insert_by le x ys)"

definition sort_by :: "('a \<Rightarrow> 'a \<Rightarrow> bool) \<Rightarrow> 'a list \<Rightarrow> 'a list" where
  "sort_by le xs = foldr (insert_by le) xs []"

definition sort_strings :: "string list \<Rightarrow> string list" where
  "sort_strings = sort_by byte_le"

lemma insert_by_members: "set (insert_by le x xs) = insert x (set xs)" "length (insert_by le x xs) = Suc (length xs)"
  by (induction xs) auto

lemma set_sort_by [simp]: "set (sort_by le xs) = set xs"
  unfolding sort_by_def by (induction xs) (auto simp: insert_by_members)

lemma length_sort_by [simp]: "length (sort_by le xs) = length xs"
  unfolding sort_by_def by (induction xs) (auto simp: insert_by_members)

lemma distinct_sort_by [simp]: "distinct (sort_by le xs) \<longleftrightarrow> distinct xs"
  by (metis card_distinct distinct_card length_sort_by set_sort_by)

lemma sorted_insert_by:
  assumes "\<And>x y. le x y \<or> le y x" "\<And>x y z. le x y \<Longrightarrow> le y z \<Longrightarrow> le x z"
  shows "sorted_wrt le xs \<Longrightarrow> sorted_wrt le (insert_by le x xs)"
proof (induction xs)
  case (Cons y ys)
  show ?case
  proof (cases "le x y")
    case True
    with Cons.prems show ?thesis by (auto intro: assms(2))
  next
    case False
    then have "le y x" using assms(1) by blast
    with Cons False show ?thesis by (simp add: insert_by_members)
  qed
qed simp

lemma sorted_sort_by:
  assumes "\<And>x y. le x y \<or> le y x" "\<And>x y z. le x y \<Longrightarrow> le y z \<Longrightarrow> le x z"
  shows "sorted_wrt le (sort_by le xs)"
  unfolding sort_by_def by (induction xs) (auto intro: sorted_insert_by [OF assms])

lemma byte_le_order: "byte_le s t \<or> byte_le t s" "byte_le s t \<Longrightarrow> byte_le t u \<Longrightarrow> byte_le s u"
  unfolding byte_le_def by (rule lexordp_eq_linear) (rule lexordp_eq_trans)

lemma sort_strings_members [simp]: "set (sort_strings xs) = set xs" "distinct (sort_strings xs) \<longleftrightarrow> distinct xs"
  by (simp_all add: sort_strings_def)

lemma sorted_sort_strings: "sorted_wrt byte_le (sort_strings xs)"
  unfolding sort_strings_def by (rule sorted_sort_by) (rule byte_le_order(1), erule (1) byte_le_order(2))

section \<open>Generic lemmas\<close>

lemma list_all_takeWhile: "list_all p (takeWhile p xs)"
  by (induction xs) auto

lemma takeWhile_span:
  "list_all P xs \<Longrightarrow> ys = [] \<or> \<not> P (hd ys) \<Longrightarrow> takeWhile P (xs @ ys) = xs"
  by (induction xs) (auto simp: takeWhile_eq_Nil_iff)

text \<open>A maximal run at the front of a list is determined by the list.\<close>

lemma span_unique:
  assumes "xs @ ys = xs' @ ys'" and "list_all P xs" "ys = [] \<or> \<not> P (hd ys)"
    and "list_all P xs'" "ys' = [] \<or> \<not> P (hd ys')"
  shows "xs = xs' \<and> ys = ys'"
  using assms takeWhile_span [of P xs ys] takeWhile_span [of P xs' ys'] by auto

lemma ex_append_Cons:
  "(\<exists>u v. c # s = u @ v \<and> P u v) \<longleftrightarrow> P [] (c # s) \<or> (\<exists>u v. s = u @ v \<and> P (c # u) v)"
proof
  assume "\<exists>u v. c # s = u @ v \<and> P u v"
  then obtain u v where "c # s = u @ v" "P u v" by blast
  then show "P [] (c # s) \<or> (\<exists>u v. s = u @ v \<and> P (c # u) v)" by (cases u) auto
qed (metis append_Cons append_Nil)

lemma map_upds_fold_dom:
  "dom (fold (\<lambda>a m. m(a \<mapsto> f a)) xs m) = dom m \<union> set xs"
  by (induction xs arbitrary: m) auto

lemma fold_upd_const:
  "fold (\<lambda>a m. m(a \<mapsto> v)) xs m k = (if k \<in> set xs then Some v else m k)"
  by (induction xs arbitrary: m) auto

lemma dom_map_option [simp]: "dom (\<lambda>a. map_option f (m a)) = dom m"
  by (auto simp: dom_def)

section \<open>Messages on a stream\<close>

text \<open>
  The contract between a writer and a reader of messages on one stream of bytes: what was written is read
  back, or what the reader makes of it, and the reader stops right after it. Then any number of messages
  are read one by one, in order, and nothing of one is taken for a part of the next.
\<close>

locale framing =
  fixes put :: "'m \<Rightarrow> string"
    and get :: "string \<Rightarrow> 'v option \<times> string"
    and ok :: "'m \<Rightarrow> bool"
    and heard :: "'m \<Rightarrow> 'v"
  assumes get_put: "ok m \<Longrightarrow> get (put m @ rest) = (Some (heard m), rest)"
begin

primrec get_many :: "nat \<Rightarrow> string \<Rightarrow> 'v option list \<times> string" where
  "get_many 0 s = ([], s)"
| "get_many (Suc n) s = (case get s of (v, r) \<Rightarrow> (case get_many n r of (vs, r) \<Rightarrow> (v # vs, r)))"

lemma in_step: "list_all ok ms \<Longrightarrow> get_many (length ms) (concat (map put ms) @ rest) = (map (\<lambda>m. Some (heard m)) ms, rest)"
  by (induction ms) (simp_all add: get_put)

end

end
