(* ===== verification/Regex.thy ===== *)
theory Regex
  imports Prelude
begin

text \<open>
  The part of Go's \<open>regexp\<close> package the service uses: leftmost-first matching of patterns
  built from literals, byte classes, concatenation, alternation, optional and bounded
  repetition, a starred byte class, the anchors and the word boundary, with numbered groups.

  A position is the text already passed (reversed) and the text ahead. \<open>rx_run r p\<close> lists
  every way to match \<open>r\<close> at \<open>p\<close> in the order a backtracking matcher tries them, so its head
  is the match Go reports. \<open>rx_sem\<close> is the order-free meaning of a pattern, and
  \<open>match_string_sem\<close> shows the two agree.
\<close>

section \<open>Patterns\<close>

datatype rx =
    RLit string
  | RCh "char \<Rightarrow> bool"
  | RMany "char \<Rightarrow> bool"
  | RCat rx rx
  | RAlt rx rx
  | RBeg
  | REnd
  | RWordB
  | RGrp nat rx

type_synonym rpos = "string \<times> string"
type_synonym captures = "(nat \<times> string) list"

abbreviation REps :: rx where "REps \<equiv> RLit []"

text \<open>\<open>r?\<close>, greedy and lazy.\<close>

definition ROpt :: "rx \<Rightarrow> rx" where "ROpt r = RAlt r REps"
definition RLazyOpt :: "rx \<Rightarrow> rx" where "RLazyOpt r = RAlt REps r"

text \<open>\<open>r{0,n}\<close> greedy, \<open>r{0,n}?\<close> lazy and \<open>r{n}\<close>.\<close>

primrec RUpTo :: "nat \<Rightarrow> rx \<Rightarrow> rx" where
  "RUpTo 0 r = REps"
| "RUpTo (Suc n) r = ROpt (RCat r (RUpTo n r))"

primrec RLazyUpTo :: "nat \<Rightarrow> rx \<Rightarrow> rx" where
  "RLazyUpTo 0 r = REps"
| "RLazyUpTo (Suc n) r = RLazyOpt (RCat r (RLazyUpTo n r))"

primrec RTimes :: "nat \<Rightarrow> rx \<Rightarrow> rx" where
  "RTimes 0 r = REps"
| "RTimes (Suc n) r = RCat r (RTimes n r)"

text \<open>\<open>r{1,n}\<close>, greedy.\<close>

definition RRep1 :: "nat \<Rightarrow> rx \<Rightarrow> rx" where "RRep1 n r = RCat r (RUpTo (n - 1) r)"

text \<open>\<open>[cls]+\<close> and an alternation of several patterns.\<close>

definition RSome :: "(char \<Rightarrow> bool) \<Rightarrow> rx" where "RSome p = RCat (RCh p) (RMany p)"

fun RAlts :: "rx list \<Rightarrow> rx" where
  "RAlts [] = RCh (\<lambda>_. False)"
| "RAlts [r] = r"
| "RAlts (r # s # rs) = RAlt r (RAlts (s # rs))"

fun RCats :: "rx list \<Rightarrow> rx" where
  "RCats [] = REps"
| "RCats [r] = r"
| "RCats (r # s # rs) = RCat r (RCats (s # rs))"

text \<open>A literal under \<open>(?i)\<close>: each byte matches either case.\<close>

definition RLitI :: "string \<Rightarrow> rx" where
  "RLitI w = RCats (map (\<lambda>c. RCh (\<lambda>d. lower_char d = lower_char c)) w)"

section \<open>Matching\<close>

definition word_boundary :: "rpos \<Rightarrow> bool" where
  "word_boundary p \<longleftrightarrow>
     (case fst p of [] \<Rightarrow> False | c # _ \<Rightarrow> is_word c) \<noteq>
     (case snd p of [] \<Rightarrow> False | c # _ \<Rightarrow> is_word c)"

fun rx_many :: "(char \<Rightarrow> bool) \<Rightarrow> string \<Rightarrow> string \<Rightarrow> rpos list" where
  "rx_many p pre [] = [(pre, [])]"
| "rx_many p pre (c # s) = (if p c then rx_many p (c # pre) s else []) @ [(pre, c # s)]"

primrec rx_run :: "rx \<Rightarrow> rpos \<Rightarrow> (rpos \<times> captures) list" where
  "rx_run (RLit w) p =
     (if has_prefix (snd p) w then [((rev w @ fst p, drop (length w) (snd p)), [])] else [])"
| "rx_run (RCh f) p =
     (case snd p of [] \<Rightarrow> [] | c # s \<Rightarrow> if f c then [((c # fst p, s), [])] else [])"
| "rx_run (RMany f) p = map (\<lambda>q. (q, [])) (rx_many f (fst p) (snd p))"
| "rx_run (RCat a b) p =
     concat (map (\<lambda>x. map (\<lambda>y. (fst y, snd x @ snd y)) (rx_run b (fst x))) (rx_run a p))"
| "rx_run (RAlt a b) p = rx_run a p @ rx_run b p"
| "rx_run RBeg p = (if fst p = [] then [(p, [])] else [])"
| "rx_run REnd p = (if snd p = [] then [(p, [])] else [])"
| "rx_run RWordB p = (if word_boundary p then [(p, [])] else [])"
| "rx_run (RGrp k a) p =
     map (\<lambda>x. (fst x, (k, rev (take (length (fst (fst x)) - length (fst p)) (fst (fst x)))) # snd x))
       (rx_run a p)"

text \<open>The leftmost match, and at that start the first one in the order of preference.\<close>

fun rx_search :: "rx \<Rightarrow> string \<Rightarrow> string \<Rightarrow> (rpos \<times> captures) option" where
  "rx_search r pre [] = (case rx_run r (pre, []) of [] \<Rightarrow> None | m # _ \<Rightarrow> Some m)"
| "rx_search r pre (c # s) =
     (case rx_run r (pre, c # s) of [] \<Rightarrow> rx_search r (c # pre) s | m # _ \<Rightarrow> Some m)"

text \<open>\<open>MatchString\<close> and \<open>FindStringSubmatch\<close> (the group by its number).\<close>

definition match_string :: "rx \<Rightarrow> string \<Rightarrow> bool" where
  "match_string r s \<longleftrightarrow> rx_search r [] s \<noteq> None"

definition find_submatch :: "rx \<Rightarrow> string \<Rightarrow> captures option" where
  "find_submatch r s = map_option snd (rx_search r [] s)"

definition group :: "nat \<Rightarrow> captures \<Rightarrow> string" where
  "group k cs = (case map_of cs k of None \<Rightarrow> [] | Some w \<Rightarrow> w)"

section \<open>Meaning of a pattern\<close>

text \<open>\<open>rx_sem r p q\<close>: \<open>r\<close> matches the text between the positions \<open>p\<close> and \<open>q\<close>.\<close>

primrec rx_sem :: "rx \<Rightarrow> rpos \<Rightarrow> rpos \<Rightarrow> bool" where
  "rx_sem (RLit w) p q \<longleftrightarrow> snd p = w @ snd q \<and> fst q = rev w @ fst p"
| "rx_sem (RCh f) p q \<longleftrightarrow> (\<exists>c. f c \<and> snd p = c # snd q \<and> fst q = c # fst p)"
| "rx_sem (RMany f) p q \<longleftrightarrow>
     (\<exists>w. list_all f w \<and> snd p = w @ snd q \<and> fst q = rev w @ fst p)"
| "rx_sem (RCat a b) p q \<longleftrightarrow> (\<exists>m. rx_sem a p m \<and> rx_sem b m q)"
| "rx_sem (RAlt a b) p q \<longleftrightarrow> rx_sem a p q \<or> rx_sem b p q"
| "rx_sem RBeg p q \<longleftrightarrow> p = q \<and> fst p = []"
| "rx_sem REnd p q \<longleftrightarrow> p = q \<and> snd p = []"
| "rx_sem RWordB p q \<longleftrightarrow> p = q \<and> word_boundary p"
| "rx_sem (RGrp k a) p q \<longleftrightarrow> rx_sem a p q"

lemma rx_many_iff:
  "q \<in> set (rx_many f pre s) \<longleftrightarrow> (\<exists>w. list_all f w \<and> s = w @ snd q \<and> fst q = rev w @ pre)"
proof (induction f pre s rule: rx_many.induct)
  case (1 p pre)
  then show ?case by (cases q) auto
next
  case (2 p pre c s)
  have "(\<exists>w. list_all p w \<and> c # s = w @ snd q \<and> fst q = rev w @ pre) \<longleftrightarrow>
        (\<exists>u v. c # s = u @ v \<and> (list_all p u \<and> v = snd q \<and> fst q = rev u @ pre))"
    by auto
  also have "\<dots> \<longleftrightarrow> (snd q = c # s \<and> fst q = pre) \<or>
        (p c \<and> (\<exists>w. list_all p w \<and> s = w @ snd q \<and> fst q = rev w @ c # pre))"
    unfolding ex_append_Cons by auto
  finally show ?case using 2 by (cases q) auto
qed

lemma rx_run_sem: "(\<exists>cs. (q, cs) \<in> set (rx_run r p)) \<longleftrightarrow> rx_sem r p q"
proof (induction r arbitrary: p q)
  case (RLit w)
  then show ?case by (cases q) (auto simp: has_prefix_iff prefix_def)
next
  case (RCh f)
  then show ?case by (cases q) (auto split: list.splits)
next
  case (RMany f)
  have "(\<exists>cs. (q, cs) \<in> set (rx_run (RMany f) p)) \<longleftrightarrow> q \<in> set (rx_many f (fst p) (snd p))"
    by auto
  then show ?case by (simp add: rx_many_iff)
next
  case (RCat a b)
  have "(\<exists>cs. (q, cs) \<in> set (rx_run (RCat a b) p)) \<longleftrightarrow>
        (\<exists>x\<in>set (rx_run a p). \<exists>y\<in>set (rx_run b (fst x)). q = fst y)"
    by (auto simp: image_iff)
  also have "\<dots> \<longleftrightarrow>
        (\<exists>m. (\<exists>cs. (m, cs) \<in> set (rx_run a p)) \<and> (\<exists>cs. (q, cs) \<in> set (rx_run b m)))"
    by force
  finally have "(\<exists>cs. (q, cs) \<in> set (rx_run (RCat a b) p)) \<longleftrightarrow>
        (\<exists>m. (\<exists>cs. (m, cs) \<in> set (rx_run a p)) \<and> (\<exists>cs. (q, cs) \<in> set (rx_run b m)))" .
  then show ?case by (simp add: RCat)
next
  case (RAlt a b)
  then show ?case by (auto simp: RAlt [symmetric])
next
  case (RGrp k a)
  have "(\<exists>cs. (q, cs) \<in> set (rx_run (RGrp k a) p)) \<longleftrightarrow> (\<exists>cs. (q, cs) \<in> set (rx_run a p))"
    by (force simp: image_iff)
  then show ?case by (simp add: RGrp)
qed auto

lemma rx_run_Nil: "rx_run r p = [] \<longleftrightarrow> (\<forall>q. \<not> rx_sem r p q)"
proof -
  have "rx_run r p = [] \<longleftrightarrow> (\<forall>q cs. (q, cs) \<notin> set (rx_run r p))"
    by (cases "rx_run r p") auto
  then show ?thesis using rx_run_sem by metis
qed

lemma rx_search_iff:
  "rx_search r pre s \<noteq> None \<longleftrightarrow> (\<exists>u v q. s = u @ v \<and> rx_sem r (rev u @ pre, v) q)"
proof (induction r pre s rule: rx_search.induct)
  case (1 r pre)
  then show ?case using rx_run_Nil [of r "(pre, [])"] by (auto split: list.splits)
next
  case (2 r pre c s)
  have split: "(\<exists>u v q. c # s = u @ v \<and> rx_sem r (rev u @ pre, v) q) \<longleftrightarrow>
      (\<exists>q. rx_sem r (pre, c # s) q) \<or> (\<exists>u v q. s = u @ v \<and> rx_sem r (rev u @ c # pre, v) q)"
    using ex_append_Cons [of c s "\<lambda>u v. \<exists>q. rx_sem r (rev u @ pre, v) q"] by simp
  show ?case
  proof (cases "rx_run r (pre, c # s)")
    case Nil
    with rx_run_Nil [of r "(pre, c # s)"] 2 split show ?thesis by simp
  next
    case (Cons m ms)
    with rx_run_Nil [of r "(pre, c # s)"] split show ?thesis by auto
  qed
qed

text \<open>The matcher finds a match exactly when the pattern matches somewhere in the text.\<close>

lemma match_string_sem: "match_string r s \<longleftrightarrow> (\<exists>u v q. s = u @ v \<and> rx_sem r (rev u, v) q)"
  unfolding match_string_def rx_search_iff by simp

section \<open>Rules for the matcher\<close>

lemma match_string_RLit [simp]: "match_string (RLit w) s \<longleftrightarrow> contains s w"
  by (auto simp: match_string_sem contains_split)

lemma match_string_RAlt [simp]:
  "match_string (RAlt a b) s \<longleftrightarrow> match_string a s \<or> match_string b s"
  by (auto simp: match_string_sem)

lemma match_string_RGrp [simp]: "match_string (RGrp k a) s \<longleftrightarrow> match_string a s"
  by (simp add: match_string_sem)

lemma match_string_no_chars [simp]: "match_string (RCh (\<lambda>_. False)) s \<longleftrightarrow> False"
  by (simp add: match_string_sem)

lemma match_string_RAlts [simp]:
  "match_string (RAlts rs) s \<longleftrightarrow> (\<exists>r\<in>set rs. match_string r s)"
  by (induction rs rule: RAlts.induct) auto

lemma rx_sem_pos: "rx_sem r p q \<Longrightarrow> rev (fst q) @ snd q = rev (fst p) @ snd p"
  by (induction r arbitrary: p q) force+

section \<open>Rules for one run\<close>

text \<open>Membership in the list of matches, one rule per pattern; collected for proofs that
  read the captures of a fixed pattern.\<close>

named_theorems rx_mem

lemma rx_mem_RCat [rx_mem]:
  "x \<in> set (rx_run (RCat a b) p) \<longleftrightarrow>
     (\<exists>m c d. (m, c) \<in> set (rx_run a p) \<and> (fst x, d) \<in> set (rx_run b m) \<and> snd x = c @ d)"
  by (cases x) (force simp: image_iff)

lemma rx_mem_RAlt [rx_mem]:
  "x \<in> set (rx_run (RAlt a b) p) \<longleftrightarrow> x \<in> set (rx_run a p) \<or> x \<in> set (rx_run b p)"
  by simp

lemma rx_mem_RCh [rx_mem]:
  "x \<in> set (rx_run (RCh f) p) \<longleftrightarrow>
     (\<exists>c. f c \<and> snd p = c # snd (fst x) \<and> fst (fst x) = c # fst p \<and> snd x = [])"
  by (cases x) (auto split: list.splits)

lemma rx_mem_RLit [rx_mem]:
  "x \<in> set (rx_run (RLit w) p) \<longleftrightarrow>
     snd p = w @ snd (fst x) \<and> fst (fst x) = rev w @ fst p \<and> snd x = []"
  by (cases x) (auto simp: has_prefix_iff prefix_def)

lemma rx_mem_RMany [rx_mem]:
  "x \<in> set (rx_run (RMany f) p) \<longleftrightarrow>
     (\<exists>w. list_all f w \<and> snd p = w @ snd (fst x) \<and> fst (fst x) = rev w @ fst p) \<and> snd x = []"
proof -
  have "x \<in> set (rx_run (RMany f) p) \<longleftrightarrow> fst x \<in> set (rx_many f (fst p) (snd p)) \<and> snd x = []"
    by (cases x) auto
  then show ?thesis by (simp add: rx_many_iff)
qed

lemma rx_mem_RGrp [rx_mem]:
  "x \<in> set (rx_run (RGrp k a) p) \<longleftrightarrow>
     (\<exists>c. (fst x, c) \<in> set (rx_run a p) \<and>
        snd x = (k, rev (take (length (fst (fst x)) - length (fst p)) (fst (fst x)))) # c)"
  by (cases x) (force simp: image_iff)

text \<open>A sequence that starts with a simple pattern: step over it.\<close>

lemma rx_step_RCh:
  "x \<in> set (rx_run (RCat (RCh f) b) p) \<longleftrightarrow>
     (\<exists>c s. f c \<and> snd p = c # s \<and> x \<in> set (rx_run b (c # fst p, s)))"
  by (cases x; cases "snd p") (auto simp: image_iff)

lemma rx_step_RMany:
  "x \<in> set (rx_run (RCat (RMany f) b) p) \<longleftrightarrow>
     (\<exists>w s. list_all f w \<and> snd p = w @ s \<and> x \<in> set (rx_run b (rev w @ fst p, s)))"
  unfolding rx_mem_RCat rx_mem_RMany by (cases x) auto

lemma rx_step_RBeg:
  "x \<in> set (rx_run (RCat RBeg b) p) \<longleftrightarrow> fst p = [] \<and> x \<in> set (rx_run b p)"
  unfolding rx_mem_RCat by (cases x) auto

lemma rx_step_RWordB:
  "x \<in> set (rx_run (RCat a RWordB) p) \<longleftrightarrow> x \<in> set (rx_run a p) \<and> word_boundary (fst x)"
  unfolding rx_mem_RCat by (cases x) auto

lemmas rx_step = rx_step_RCh rx_step_RMany rx_step_RBeg rx_step_RWordB

lemma rx_sem_consume: "rx_sem r p q \<Longrightarrow> \<exists>w. snd p = w @ snd q \<and> fst q = rev w @ fst p"
proof (induction r arbitrary: p q)
  case (RCat a b)
  then obtain m where "rx_sem a p m" "rx_sem b m q" by auto
  with RCat obtain v w where "snd p = v @ snd m" "fst m = rev v @ fst p"
    "snd m = w @ snd q" "fst q = rev w @ fst m" by metis
  then show ?case by (intro exI [of _ "v @ w"]) simp
qed auto

text \<open>The text captured by a group around \<open>a\<close> is the text \<open>a\<close> matched.\<close>

lemma rx_run_RGrp_text:
  assumes "x \<in> set (rx_run (RGrp k a) p)" and "snd p = w @ snd (fst x)"
    and "fst (fst x) = rev w @ fst p"
  shows "group k (snd x) = w \<and> rx_sem a p (fst x)"
  using assms rx_run_sem [of "fst x" a p] by (auto simp: rx_mem_RGrp group_def)

lemma rx_search_mem:
  "rx_search r pre s = Some m \<Longrightarrow>
   \<exists>u v. s = u @ v \<and> m \<in> set (rx_run r (rev u @ pre, v))"
proof (induction r pre s rule: rx_search.induct)
  case (1 r pre)
  then show ?case by (auto split: list.splits)
next
  case (2 r pre c s)
  show ?case
  proof (cases "rx_run r (pre, c # s)")
    case Nil
    with 2 obtain u v where "s = u @ v" "m \<in> set (rx_run r (rev u @ c # pre, v))" by auto
    then show ?thesis by (intro exI [of _ "c # u"] exI [of _ v]) simp
  next
    case (Cons y ys)
    with 2 show ?thesis by (intro exI [of _ "[]"] exI [of _ "c # s"]) simp
  qed
qed

text \<open>From here on runs are reasoned about with the rules above, not unfolded.\<close>

declare rx_run.simps [simp del]

end
