(* ===== verification/Classify.thy ===== *)
theory Classify
  imports Regex
begin

text \<open>
  The reply classifier of \<open>internal/prober/classify.go\<close>: one SMTP reply (code and text) becomes
  a class that says who the reply is about before it says what happened. \<open>ClassifyAs\<close> is the
  only place of the service where a code becomes a meaning; \<open>classifyPermanent\<close> decides whose
  fault a 5xx is from the RFC 3463 code, the wording and the node's own identity.

  The lemmas show the rules the service rests on: a verdict about a mailbox needs an SMTP code
  and a reply about the mailbox, refusals of the client are policy, the token search of the
  identity is exact, and the classifier is insensitive to letter case.
\<close>

section \<open>Classes\<close>

datatype reply_class =
    ClassValid | ClassInvalid | ClassDeferred | ClassThrottled | ClassTimeout
  | ClassConnError | ClassBadSequence | ClassPolicy | ClassGuarded | ClassNoBudget
  | ClassPaused | ClassIPBurned | ClassSuppressed | ClassTLSFailed | ClassUnknown

fun class_name :: "reply_class \<Rightarrow> string" where
  "class_name ClassValid = ''valid''"
| "class_name ClassInvalid = ''invalid''"
| "class_name ClassDeferred = ''deferred''"
| "class_name ClassThrottled = ''throttled''"
| "class_name ClassTimeout = ''timeout''"
| "class_name ClassConnError = ''conn_error''"
| "class_name ClassBadSequence = ''bad_sequence''"
| "class_name ClassPolicy = ''policy''"
| "class_name ClassGuarded = ''guarded''"
| "class_name ClassNoBudget = ''no_budget''"
| "class_name ClassPaused = ''paused''"
| "class_name ClassIPBurned = ''ip_burned''"
| "class_name ClassSuppressed = ''suppressed''"
| "class_name ClassTLSFailed = ''tls_failed''"
| "class_name ClassUnknown = ''unknown''"

definition IsTemp :: "reply_class \<Rightarrow> bool" where
  "IsTemp c \<longleftrightarrow> c \<in> {ClassDeferred, ClassThrottled, ClassTimeout, ClassConnError, ClassPolicy,
     ClassNoBudget, ClassPaused, ClassIPBurned, ClassTLSFailed}"

definition IsThrottle :: "reply_class \<Rightarrow> bool" where
  "IsThrottle c \<longleftrightarrow> c \<in> {ClassThrottled, ClassTimeout, ClassConnError}"

section \<open>Word lists\<close>

definition throttleHints :: "string list" where
  "throttleHints = [
     ''too many'', ''rate limit'', ''ratelimit'', ''throttl'', ''exceeded'', ''unusual'',
     ''deferred'', ''try again later'', ''slow down'', ''reputation'', ''4.7.650'',
     ''too much mail'', ''connection limit'', ''temporarily deferred'', ''blocked'',
     ''blacklist'', ''spamhaus'', ''not accepted from your ip'']"

definition senderHints :: "string list" where
  "senderHints = [
     ''reverse dns'', ''rdns'', ''fcrdns'', ''forward-confirmed'', ''ptr record'',
     ''access denied'', ''your mail from'', ''client host'', ''helo command'',
     ''not authorized'', ''dkim'', ''dmarc'', ''spf check'', ''spf record'',
     ''i=ip'', ''blocked'', ''blacklist'', ''spamhaus'', ''reputation'',
     ''not accepted from your ip'', ''unsolicited'', ''bad reputation'',
     ''sender address'', ''sender verify'', ''sender rejected'', ''sender domain'',
     ''amount of spam'', ''spam we are receiving'', ''spamaufkommen'', ''rbl.'',
     ''dnsbl'', ''blocklist'', ''block list'', ''black list'',
     ''starttls'', ''tls connection is required'', ''tls is required'',
     ''tls required'', ''requires tls'', ''session encryption is required'',
     ''encryption is required'',
     ''tls encryption'', ''must use tls'', ''encryption required'', ''encryption needed'',
     ''requires encryption'',
     ''listed as abusive'', ''magicspam'', ''abusix'', ''uceprotect'', ''spamcop'',
     ''you are listed'', ''sender ip'']"

definition mailboxHints :: "string list" where
  "mailboxHints = [
     ''no such user'', ''user unknown'', ''unknown user'', ''does not exist'',
     ''doesn'' @ [CHR 0x27] @ ''t exist'', ''no such recipient'', ''recipient not found'',
     ''mailbox unavailable'', ''mailbox not found'', ''invalid recipient'',
     ''user not found'', ''address does not exist'', ''no mailbox'',
     ''undeliverable'', ''address rejected: user'', ''recipient rejected'']"

definition senderCodes :: "string list" where
  "senderCodes = [''5.1.7'', ''5.1.8'', ''5.7.23'', ''5.7.24'', ''5.7.25'', ''5.7.26'', ''5.7.27'']"

definition hasAny :: "string \<Rightarrow> string list \<Rightarrow> bool" where
  "hasAny t hints \<longleftrightarrow> list_ex (contains t) hints"

section \<open>Enhanced status codes\<close>

text \<open>The class \<open>\s\<close> of the regular expressions, which lacks the vertical tab.\<close>

definition re_space :: "char \<Rightarrow> bool" where
  "re_space c \<longleftrightarrow> byte_of c \<in> {9, 10, 12, 13, 32}"

definition class_digit :: "char \<Rightarrow> bool" where
  "class_digit c \<longleftrightarrow> c \<in> {CHR ''2'', CHR ''4'', CHR ''5''}"

definition ec_sep :: "char \<Rightarrow> bool" where
  "ec_sep c \<longleftrightarrow> c = CHR '' '' \<or> c = CHR ''-''"

text \<open>\<open>^[245]\d{2}[ -]\s*([245]\.\d{1,3}\.\d{1,3})\b\<close>\<close>

definition statusRe :: rx where
  "statusRe = RCats [RCh class_digit, RLit ''.'', RRep1 3 (RCh is_digit),
     RLit ''.'', RRep1 3 (RCh is_digit)]"

definition enhancedRe :: rx where
  "enhancedRe = RCats [RBeg, RCh class_digit, RCh is_digit, RCh is_digit,
     RCh ec_sep, RMany re_space, RGrp 1 statusRe, RWordB]"

definition EnhancedCode :: "string \<Rightarrow> string" where
  "EnhancedCode reply =
     (case find_submatch enhancedRe (trim_space reply) of None \<Rightarrow> [] | Some m \<Rightarrow> group 1 m)"

definition subject :: "string \<Rightarrow> int" where
  "subject ec =
     (case split_on (CHR ''.'') ec of
        [a, b, c] \<Rightarrow> (case atoi b of None \<Rightarrow> -1 | Some n \<Rightarrow> n)
      | _ \<Rightarrow> -1)"

definition detail :: "string \<Rightarrow> int" where
  "detail ec =
     (case split_on (CHR ''.'') ec of
        [a, b, c] \<Rightarrow> (case atoi c of None \<Rightarrow> -1 | Some n \<Rightarrow> n)
      | _ \<Rightarrow> -1)"

section \<open>The node's identity\<close>

record identity =
  SourceIP :: string
  Helo :: string
  MailFromDomain :: string

definition no_identity :: identity where
  "no_identity = \<lparr>SourceIP = [], Helo = [], MailFromDomain = []\<rparr>"

definition id_tokens :: "identity \<Rightarrow> string list" where
  "id_tokens i = filter (\<lambda>v. v \<noteq> [])
     (map (\<lambda>v. to_lower (trim_space v)) [SourceIP i, Helo i, MailFromDomain i])"

definition tokenByte :: "char \<Rightarrow> bool" where
  "tokenByte b \<longleftrightarrow> is_lower b \<or> is_digit b \<or> b = CHR ''-'' \<or> b = CHR ''_''"

text \<open>The boundary test on both sides of an occurrence of a token at \<open>start\<close>, ending before
  \<open>end\<close>: a dot continues a name unless nothing that continues it follows.\<close>

definition token_before :: "string \<Rightarrow> nat \<Rightarrow> bool" where
  "token_before t start \<longleftrightarrow>
     start = 0 \<or> (\<not> tokenByte (t ! (start - 1)) \<and> t ! (start - 1) \<noteq> CHR ''.'')"

definition token_after :: "string \<Rightarrow> nat \<Rightarrow> bool" where
  "token_after t e \<longleftrightarrow>
     e = length t \<or> (\<not> tokenByte (t ! e) \<and>
       (t ! e \<noteq> CHR ''.'' \<or> e + 1 = length t \<or> \<not> tokenByte (t ! (e + 1))))"

text \<open>The search loop of \<open>containsToken\<close>. \<open>None\<close> is the out-of-range slice \<open>t[from:]\<close>, which
  panics; it takes an empty token to get there.\<close>

function containsToken :: "string \<Rightarrow> string \<Rightarrow> nat \<Rightarrow> bool option" where
  "containsToken t tok pos =
     (if length t < pos then None
      else case index_of (drop pos t) tok of
        None \<Rightarrow> Some False
      | Some i \<Rightarrow>
          if token_before t (pos + i) \<and> token_after t (pos + i + length tok) then Some True
          else containsToken t tok (pos + i + 1))"
  by pat_completeness auto
termination
  by (relation "measure (\<lambda>(t, tok, pos). Suc (length t) - pos)") auto

declare containsToken.simps [simp del]

fun named_by :: "string \<Rightarrow> string list \<Rightarrow> bool" where
  "named_by t [] \<longleftrightarrow> False"
| "named_by t (tok # toks) \<longleftrightarrow> containsToken t tok 0 = Some True \<or> named_by t toks"

definition namedIn :: "identity \<Rightarrow> string \<Rightarrow> bool" where
  "namedIn i t \<longleftrightarrow> named_by t (id_tokens i)"

section \<open>Wording patterns\<close>

text \<open>\<open>over ?quota|quota exceeded|exceeded (its |the |his |her |their )?(storage|quota)|mailbox (is )?full|\<close>
  \<open>storage allocation|disk quota|insufficient (system )?storage|mailbox size limit\<close>\<close>

definition overQuotaRe :: rx where
  "overQuotaRe = RAlts [
     RCats [RLit ''over'', ROpt (RLit '' ''), RLit ''quota''],
     RLit ''quota exceeded'',
     RCats [RLit ''exceeded '',
       ROpt (RAlts [RLit ''its '', RLit ''the '', RLit ''his '', RLit ''her '', RLit ''their '']),
       RAlt (RLit ''storage'') (RLit ''quota'')],
     RCats [RLit ''mailbox '', ROpt (RLit ''is ''), RLit ''full''],
     RLit ''storage allocation'',
     RLit ''disk quota'',
     RCats [RLit ''insufficient '', ROpt (RLit ''system ''), RLit ''storage''],
     RLit ''mailbox size limit'']"

text \<open>\<open>send|sent|outbound|rate|per (hour|day|minute)|messages per\<close>\<close>

definition sendingQuotaRe :: rx where
  "sendingQuotaRe = RAlts [RLit ''send'', RLit ''sent'', RLit ''outbound'', RLit ''rate'',
     RCat (RLit ''per '') (RAlts [RLit ''hour'', RLit ''day'', RLit ''minute'']),
     RLit ''messages per'']"

text \<open>\<open>starttls|(^|[^a-z0-9])tls([^a-z0-9]|$)|encryption\<close>\<close>

definition not_alnum :: "char \<Rightarrow> bool" where
  "not_alnum c \<longleftrightarrow> \<not> is_lower c \<and> \<not> is_digit c"

definition tlsRe :: rx where
  "tlsRe = RAlts [RLit ''starttls'',
     RCats [RAlt RBeg (RCh not_alnum), RLit ''tls'', RAlt (RCh not_alnum) REnd],
     RLit ''encryption'']"

section \<open>Classification\<close>

definition classifyPermanent :: "string \<Rightarrow> identity \<Rightarrow> reply_class" where
  "classifyPermanent t i =
     (let ec = EnhancedCode t;
          mailbox = hasAny t mailboxHints;
          named = namedIn i t \<and> subject ec \<noteq> 1 \<and> subject ec \<noteq> 2;
          sender = hasAny t senderHints \<or> named;
          quota = match_string overQuotaRe t;
          sending = match_string sendingQuotaRe t
      in if ec \<in> set senderCodes then ClassPolicy
         else if sender \<and> \<not> mailbox then ClassPolicy
         else if quota \<and> sending \<and> (ec = [] \<or> subject ec = 7) then ClassPolicy
         else if quota \<and> \<not> sending \<and> (ec = [] \<or> subject ec = 2) then ClassValid
         else if subject ec = 1 then ClassInvalid
         else if subject ec = 2 then (if detail ec = 2 then ClassValid else ClassInvalid)
         else if subject ec = 4 \<or> subject ec = 7 then
           (if mailbox then ClassInvalid else ClassPolicy)
         else if subject ec = 3 \<or> subject ec = 5 \<or> subject ec = 6 then
           (if mailbox then ClassInvalid else if sender then ClassPolicy else ClassInvalid)
         else if mailbox then ClassInvalid
         else if sender then ClassPolicy
         else ClassInvalid)"

definition ClassifyAs :: "int \<Rightarrow> string \<Rightarrow> identity \<Rightarrow> reply_class" where
  "ClassifyAs code text i =
     (let t = to_lower text
      in if code < 200 \<or> code > 599 then ClassUnknown
         else if contains t ''greylist'' \<or> contains t ''grey list'' then ClassDeferred
         else if code \<ge> 400 \<and> code < 500 \<and> match_string tlsRe t then ClassPolicy
         else if code = 421 then ClassThrottled
         else if code = 503 then ClassBadSequence
         else if code \<ge> 200 \<and> code < 300 then ClassValid
         else if code \<ge> 400 \<and> code < 500 then
           (if hasAny t throttleHints then ClassThrottled else ClassDeferred)
         else if code < 400 then ClassUnknown
         else classifyPermanent t i)"

definition Classify :: "int \<Rightarrow> string \<Rightarrow> reply_class" where
  "Classify code text = ClassifyAs code text no_identity"

text \<open>A transport failure: whether it is a \<open>net.Error\<close> that timed out, and its text.\<close>

datatype net_error = NetErr (timed_out: bool) (err_text: string)

definition classifyNetErr :: "net_error \<Rightarrow> reply_class" where
  "classifyNetErr e = (if timed_out e then ClassTimeout else ClassConnError)"

section \<open>The token search is exact\<close>

text \<open>An occurrence of the token at \<open>k\<close> that stands alone.\<close>

definition token_at :: "string \<Rightarrow> string \<Rightarrow> nat \<Rightarrow> bool" where
  "token_at t tok k \<longleftrightarrow> has_prefix (drop k t) tok \<and> token_before t k \<and> token_after t (k + length tok)"

lemma containsToken_pos:
  assumes "tok \<noteq> []" and "pos \<le> length t"
  shows "containsToken t tok pos = Some (\<exists>k\<ge>pos. k + length tok \<le> length t \<and> token_at t tok k)"
  using assms
proof (induction t tok pos rule: containsToken.induct)
  case (1 t tok pos)
  note unfold = containsToken.simps [of t tok pos]
  show ?case
  proof (cases "index_of (drop pos t) tok")
    case None
    have "\<not> token_at t tok k" if "pos \<le> k" for k
    proof -
      have "drop k t = drop (k - pos) (drop pos t)" using that by simp
      then have "has_prefix (drop k t) tok \<Longrightarrow> contains (drop pos t) tok"
        unfolding contains_iff has_prefix_iff
        by (metis prefix_imp_sublist sublist_drop sublist_order.order_trans)
      with None show ?thesis by (auto simp: index_of_None token_at_def)
    qed
    with None 1 show ?thesis by (auto simp: unfold)
  next
    case (Some i)
    have at: "has_prefix (drop (pos + i) t) tok"
      using index_of_Some_prefix [OF Some] by (simp add: add.commute)
    have fit: "pos + i + length tok \<le> length t"
      using index_of_Some_bound [OF Some] 1 by simp
    have least: "\<not> has_prefix (drop k t) tok" if "pos \<le> k" "k < pos + i" for k
    proof -
      have "k - pos < i" using that by simp
      from index_of_Some_least [OF Some this] that show ?thesis by simp
    qed
    show ?thesis
    proof (cases "token_before t (pos + i) \<and> token_after t (pos + i + length tok)")
      case True
      with at fit have "\<exists>k\<ge>pos. k + length tok \<le> length t \<and> token_at t tok k"
        by (intro exI [of _ "pos + i"]) (simp add: token_at_def)
      with True Some 1 show ?thesis by (simp add: unfold)
    next
      case False
      have "1 \<le> length tok" using 1 by (cases tok) auto
      with fit have "pos + i + 1 \<le> length t" by linarith
      with 1 Some False have "containsToken t tok (pos + i + 1) =
          Some (\<exists>k\<ge>pos + i + 1. k + length tok \<le> length t \<and> token_at t tok k)"
        by auto
      moreover have "token_at t tok k \<Longrightarrow> pos \<le> k \<Longrightarrow> pos + i + 1 \<le> k" for k
        using least [of k] False
        by (cases "k < pos + i"; cases "k = pos + i") (auto simp: token_at_def)
      ultimately show ?thesis using False Some 1
        by (auto simp: unfold) (metis add.commute add_Suc_right le_add1 order_trans)+
    qed
  qed
qed

text \<open>What stands before and after an occurrence does not continue an address or a name.\<close>

definition stands_alone :: "string \<Rightarrow> string \<Rightarrow> bool" where
  "stands_alone u v \<longleftrightarrow>
     (u = [] \<or> \<not> tokenByte (last u) \<and> last u \<noteq> CHR ''.'') \<and>
     (v = [] \<or> \<not> tokenByte (hd v) \<and> (hd v \<noteq> CHR ''.'' \<or> tl v = [] \<or> \<not> tokenByte (hd (tl v))))"

lemma token_at_split:
  "(\<exists>k\<ge>0. k + length tok \<le> length t \<and> token_at t tok k) \<longleftrightarrow>
   (\<exists>u v. t = u @ tok @ v \<and>
    stands_alone u v)"
  (is "(\<exists>k\<ge>0. ?P k) \<longleftrightarrow> (\<exists>u v. ?Q u v)")
proof -
  have eq: "token_before t (length u) \<and> token_after t (length u + length tok) \<longleftrightarrow> ?Q u v"
    if "t = u @ tok @ v" for u v
  proof -
    have "token_before t (length u) \<longleftrightarrow> u = [] \<or> \<not> tokenByte (last u) \<and> last u \<noteq> CHR ''.''"
      using that by (cases u rule: rev_cases) (auto simp: token_before_def nth_append)
    moreover have "token_after t (length u + length tok) \<longleftrightarrow>
        (v = [] \<or> \<not> tokenByte (hd v) \<and> (hd v \<noteq> CHR ''.'' \<or> tl v = [] \<or> \<not> tokenByte (hd (tl v))))"
      using that by (cases v; cases "tl v") (auto simp: token_after_def nth_append)
    ultimately show ?thesis using that by (auto simp: stands_alone_def)
  qed
  show ?thesis
  proof
    assume "\<exists>k\<ge>0. ?P k"
    then obtain k where k: "?P k" by blast
    then obtain v where "drop k t = tok @ v" by (auto simp: token_at_def has_prefix_iff prefix_def)
    then have "t = take k t @ tok @ v" by (metis append_take_drop_id)
    moreover have "length (take k t) = k" using k by simp
    ultimately have "?Q (take k t) v" using eq [of "take k t" v] k by (simp only: token_at_def)
    then show "\<exists>u v. ?Q u v" by blast
  next
    assume "\<exists>u v. ?Q u v"
    then obtain u v where q: "?Q u v" by blast
    with eq [of u v] have "?P (length u)" by (simp add: token_at_def has_prefix_iff)
    then show "\<exists>k\<ge>0. ?P k" by blast
  qed
qed

lemma id_tokens_ne: "tok \<in> set (id_tokens i) \<Longrightarrow> tok \<noteq> []"
  unfolding id_tokens_def by (simp only: set_filter) blast

lemma token_alone:
  assumes "t = u @ tok @ v" "tok \<in> set (id_tokens i)"
    and "stands_alone u v"
  shows "\<exists>tok\<in>set (id_tokens i). containsToken t tok 0 = Some True"
proof -
  have "containsToken t tok 0 = Some True"
    unfolding containsToken_pos [OF id_tokens_ne [OF assms(2)] le0] token_at_split
    using assms by blast
  with assms(2) show ?thesis by blast
qed

lemma named_by_iff: "named_by t toks \<longleftrightarrow> (\<exists>tok\<in>set toks. containsToken t tok 0 = Some True)"
  by (induction toks) auto

section \<open>The shape of an enhanced code\<close>

definition short_number :: "string \<Rightarrow> bool" where
  "short_number w \<longleftrightarrow> w \<noteq> [] \<and> length w \<le> 3 \<and> list_all is_digit w"

definition ec_wf :: "string \<Rightarrow> bool" where
  "ec_wf w \<longleftrightarrow> (\<exists>a b c. w = a # ''.'' @ b @ ''.'' @ c \<and> class_digit a \<and> short_number b \<and> short_number c)"

abbreviation spans :: "string \<Rightarrow> rpos \<Rightarrow> rpos \<Rightarrow> bool" where
  "spans w p q \<equiv> snd p = w @ snd q \<and> fst q = rev w @ fst p"

lemma short_number_sem:
  "rx_sem (RRep1 3 (RCh is_digit)) p q \<longleftrightarrow> (\<exists>w. short_number w \<and> spans w p q)"
proof
  assume "rx_sem (RRep1 3 (RCh is_digit)) p q"
  then show "\<exists>w. short_number w \<and> spans w p q"
    by (auto simp: RRep1_def numeral_2_eq_2 ROpt_def short_number_def)
next
  assume "\<exists>w. short_number w \<and> spans w p q"
  then obtain w where "short_number w" "spans w p q" by blast
  then show "rx_sem (RRep1 3 (RCh is_digit)) p q"
    by (cases w; cases "tl w"; cases "tl (tl w)")
      (auto simp: RRep1_def numeral_2_eq_2 ROpt_def short_number_def)
qed

lemma ec_body_sem:
  assumes "rx_sem statusRe p q"
  shows "\<exists>w. ec_wf w \<and> spans w p q"
proof -
  from assms obtain m1 m2 m3 m4 where 1: "rx_sem (RCh class_digit) p m1"
    and 2: "rx_sem (RLit ''.'') m1 m2" and 3: "rx_sem (RRep1 3 (RCh is_digit)) m2 m3"
    and 4: "rx_sem (RLit ''.'') m3 m4" and 5: "rx_sem (RRep1 3 (RCh is_digit)) m4 q"
    by (simp only: statusRe_def RCats.simps rx_sem.simps(4)) metis
  from 1 obtain a where a: "class_digit a" "spans [a] p m1" by auto
  from 3 obtain b where b: "short_number b" "spans b m2 m3" by (auto simp: short_number_sem)
  from 5 obtain c where c: "short_number c" "spans c m4 q" by (auto simp: short_number_sem)
  have "ec_wf (a # ''.'' @ b @ ''.'' @ c)" unfolding ec_wf_def using a b c by blast
  moreover have "spans (a # ''.'' @ b @ ''.'' @ c) p q" using 2 4 a b c by simp
  ultimately show ?thesis by blast
qed

text \<open>What a match of \<open>enhancedRe\<close> says of the text: three digits, a separator, blanks, the code,
  and no word character after it.\<close>

definition leads_with :: "string \<Rightarrow> string \<Rightarrow> bool" where
  "leads_with s w \<longleftrightarrow> (\<exists>a b c d sp rest. s = a # b # c # d # sp @ w @ rest \<and>
     class_digit a \<and> is_digit b \<and> is_digit c \<and> ec_sep d \<and>
     list_all re_space sp \<and> ec_wf w \<and> (rest = [] \<or> \<not> is_word (hd rest)))"

lemma word_boundary_after_digit:
  "spans w p q \<Longrightarrow> ec_wf w \<Longrightarrow> word_boundary q \<longleftrightarrow> snd q = [] \<or> \<not> is_word (hd (snd q))"
proof -
  assume sp: "spans w p q" and "ec_wf w"
  then obtain a b c where "w = a # ''.'' @ b @ ''.'' @ c" "short_number c"
    unfolding ec_wf_def by blast
  then obtain c' d where "rev w = d # c'" "is_digit d"
    by (cases c rule: rev_cases) (auto simp: short_number_def)
  with sp show ?thesis by (auto simp: word_boundary_def is_word_def split: list.splits)
qed

lemma enhancedRe_match:
  assumes "rx_search enhancedRe [] s = Some m"
  shows "leads_with s (group 1 (snd m))"
proof -
  obtain u v where uv: "s = u @ v" "m \<in> set (rx_run enhancedRe (rev u @ [], v))"
    using rx_search_mem [OF assms] by blast
  from uv(2) obtain a b c d sp r where "u = []" "v = a # b # c # d # sp @ r"
    and cls: "class_digit a" "is_digit b" "is_digit c" "ec_sep d" "list_all re_space sp"
    and g: "m \<in> set (rx_run (RGrp 1 statusRe) (rev sp @ [d, c, b, a], r))" and e: "word_boundary (fst m)"
    unfolding enhancedRe_def RCats.simps rx_step fst_conv snd_conv append_Nil2
    by (elim exE conjE) (simp add: append_Nil2)
  then obtain p where p: "s = a # b # c # d # sp @ snd p" and g: "m \<in> set (rx_run (RGrp 1 statusRe) p)"
    using uv(1) by fastforce
  have "rx_sem statusRe p (fst m)"
    using g rx_run_sem [of "fst m" statusRe p] by (auto simp: rx_mem_RGrp)
  then obtain w where w: "ec_wf w" "spans w p (fst m)"
    using ec_body_sem by blast
  with rx_run_RGrp_text [OF g, of w] have "group 1 (snd m) = w" using e by simp
  moreover have "snd (fst m) = [] \<or> \<not> is_word (hd (snd (fst m)))"
    using word_boundary_after_digit [OF w(2) w(1)] e by blast
  ultimately show ?thesis
    unfolding leads_with_def using p cls w by auto
qed

lemma re_space_not_digit: "re_space c \<Longrightarrow> \<not> class_digit c"
  by (auto simp: re_space_def class_digit_def)

lemma dot_not_digit [simp]: "\<not> is_digit CHR ''.''"
  by (simp add: is_digit_def)

lemma digit_is_word: "is_digit c \<Longrightarrow> is_word c"
  by (simp add: is_word_def)

lemma ec_wf_unique:
  assumes eq: "w @ r = w' @ r'" and "ec_wf w" "ec_wf w'"
    and "r = [] \<or> \<not> is_word (hd r)" "r' = [] \<or> \<not> is_word (hd r')"
  shows "w = w'"
proof -
  obtain a b c where w: "w = a # ''.'' @ b @ ''.'' @ c" "short_number b" "short_number c"
    using assms unfolding ec_wf_def by blast
  obtain a' b' c' where w': "w' = a' # ''.'' @ b' @ ''.'' @ c'" "short_number b'" "short_number c'"
    using assms unfolding ec_wf_def by blast
  have "b @ CHR ''.'' # c @ r = b' @ CHR ''.'' # c' @ r'" and "a = a'"
    using eq w w' by auto
  with w w' have "b = b'" and eq': "c @ r = c' @ r'"
    using span_unique [of b "CHR ''.'' # c @ r" b' "CHR ''.'' # c' @ r'" is_digit]
    by (auto simp: short_number_def)
  have "c = c'"
    using span_unique [OF eq', of is_digit] w w' assms digit_is_word
    by (auto simp: short_number_def)
  with \<open>a = a'\<close> \<open>b = b'\<close> w w' show ?thesis by simp
qed

lemma leads_with_unique:
  assumes "leads_with s w" and "leads_with s w'"
  shows "w = w'"
proof -
  obtain a b c d sp r where 1: "s = a # b # c # d # sp @ w @ r" "list_all re_space sp" "ec_wf w"
      "r = [] \<or> \<not> is_word (hd r)"
    using assms unfolding leads_with_def by blast
  obtain a' b' c' d' sp' r' where 2: "s = a' # b' # c' # d' # sp' @ w' @ r'"
      "list_all re_space sp'" "ec_wf w'" "r' = [] \<or> \<not> is_word (hd r')"
    using assms unfolding leads_with_def by blast
  have "sp @ (w @ r) = sp' @ (w' @ r')" using 1 2 by simp
  moreover have "\<not> re_space (hd (w @ r))" "\<not> re_space (hd (w' @ r'))"
    using 1 2 re_space_not_digit by (auto simp: ec_wf_def)
  ultimately have "w @ r = w' @ r'"
    using span_unique [of sp "w @ r" sp' "w' @ r'" re_space] 1 2 by auto
  with 1 2 show ?thesis by (metis ec_wf_unique)
qed

lemma ec_body_sem_intro:
  assumes "ec_wf w" and "spans w p q"
  shows "rx_sem statusRe p q"
proof -
  obtain a b c where w: "w = a # ''.'' @ b @ ''.'' @ c" "class_digit a" "short_number b" "short_number c"
    using assms unfolding ec_wf_def by blast
  let ?p1 = "(a # fst p, ''.'' @ b @ ''.'' @ c @ snd q)"
  let ?p2 = "(CHR ''.'' # fst ?p1, b @ ''.'' @ c @ snd q)"
  let ?p3 = "(rev b @ fst ?p2, ''.'' @ c @ snd q)"
  let ?p4 = "(CHR ''.'' # fst ?p3, c @ snd q)"
  have "rx_sem (RCh class_digit) p ?p1" "rx_sem (RLit ''.'') ?p1 ?p2" "rx_sem (RLit ''.'') ?p3 ?p4"
    using w assms by auto
  moreover have "rx_sem (RRep1 3 (RCh is_digit)) ?p2 ?p3" "rx_sem (RRep1 3 (RCh is_digit)) ?p4 q"
    using w assms by (auto simp: short_number_sem)
  ultimately show ?thesis unfolding statusRe_def RCats.simps rx_sem.simps(4) by blast
qed

lemma leads_with_match:
  assumes "leads_with s w"
  shows "rx_search enhancedRe [] s \<noteq> None"
proof -
  obtain a b c d sp r where s: "s = a # b # c # d # sp @ w @ r" and wf: "ec_wf w"
    and cls: "class_digit a" "is_digit b" "is_digit c" "ec_sep d" "list_all re_space sp"
    and r: "r = [] \<or> \<not> is_word (hd r)"
    using assms unfolding leads_with_def by blast
  let ?p = "(rev sp @ [d, c, b, a], w @ r)"
  let ?q = "(rev w @ fst ?p, r)"
  have "rx_sem statusRe ?p ?q" using wf by (intro ec_body_sem_intro) auto
  moreover have "word_boundary ?q"
    using word_boundary_after_digit [where w = w and p = ?p and q = ?q] wf r by simp
  ultimately have "rx_sem (RCat (RGrp 1 statusRe) RWordB) ?p ?q" by simp
  moreover have "rx_sem (RMany re_space) ([d, c, b, a], sp @ w @ r) ?p"
    using cls by (simp only: rx_sem.simps fst_conv snd_conv) blast
  ultimately have "rx_sem (RCats [RMany re_space, RGrp 1 statusRe, RWordB]) ([d, c, b, a], sp @ w @ r) ?q"
    unfolding RCats.simps rx_sem.simps(4) by blast
  then have "rx_sem enhancedRe ([], s) ?q"
    unfolding enhancedRe_def RCats.simps rx_sem.simps(4) using cls s by (auto simp del: rx_sem.simps(4))
  then have "\<exists>u v q. s = u @ v \<and> rx_sem enhancedRe (rev u @ [], v) q"
    by (metis append_Nil rev.simps(1))
  then show ?thesis unfolding rx_search_iff .
qed

text \<open>\<open>EnhancedCode\<close> returns exactly the code a reply leads with, and nothing otherwise.\<close>

lemma EnhancedCode_cases:
  "EnhancedCode s = [] \<and> (\<forall>w. \<not> leads_with (trim_space s) w) \<or> leads_with (trim_space s) (EnhancedCode s)"
proof (cases "rx_search enhancedRe [] (trim_space s)")
  case None
  then have "\<forall>w. \<not> leads_with (trim_space s) w" using leads_with_match by blast
  with None show ?thesis by (simp add: EnhancedCode_def find_submatch_def)
next
  case (Some m)
  then show ?thesis using enhancedRe_match [OF Some] by (simp add: EnhancedCode_def find_submatch_def)
qed

lemma EnhancedCode_some: "leads_with (trim_space s) w \<Longrightarrow> EnhancedCode s = w"
  using EnhancedCode_cases [of s] leads_with_unique by blast

lemma EnhancedCode_wf: "EnhancedCode s \<noteq> [] \<Longrightarrow> ec_wf (EnhancedCode s)"
  using EnhancedCode_cases [of s] by (auto simp: leads_with_def)

lemma subject_Nil [simp]: "subject [] = -1"
  by (simp add: subject_def)

lemma short_number_no_dot: "short_number w \<Longrightarrow> CHR ''.'' \<notin> set w"
  by (auto simp: short_number_def list_all_iff)

lemma class_digit_digit: "class_digit a \<Longrightarrow> is_digit a"
  by (auto simp: class_digit_def is_digit_def)

lemma split_ec:
  assumes "w = a # ''.'' @ b @ ''.'' @ c" "class_digit a" "short_number b" "short_number c"
  shows "split_on (CHR ''.'') w = [[a], b, c]"
proof -
  have "a \<noteq> CHR ''.''" using assms class_digit_digit dot_not_digit by blast
  then have "split_on (CHR ''.'') ([a] @ CHR ''.'' # b @ CHR ''.'' # c) = [[a], b, c]"
    using assms short_number_no_dot
    by (subst split_on_append) (auto simp: split_on_append split_on_single)
  then show ?thesis using assms by simp
qed

section \<open>The classifier\<close>

lemmas classify_unfold = ClassifyAs_def classifyPermanent_def Let_def

lemma ClassifyAs_permanent:
  "500 \<le> code \<Longrightarrow> code \<le> 599 \<Longrightarrow> code \<noteq> 503 \<Longrightarrow>
   \<not> contains (to_lower text) ''greylist'' \<Longrightarrow> \<not> contains (to_lower text) ''grey list'' \<Longrightarrow>
   ClassifyAs code text i = classifyPermanent (to_lower text) i"
  by (simp add: ClassifyAs_def Let_def)

lemma classifyPermanent_range:
  "classifyPermanent t i \<in> {ClassValid, ClassInvalid, ClassPolicy}"
  by (simp add: classifyPermanent_def Let_def)

lemma classifyPermanent_sender:
  assumes "EnhancedCode t \<in> set senderCodes \<or>
    (hasAny t senderHints \<or> namedIn i t \<and> subject (EnhancedCode t) \<notin> {1, 2}) \<and> \<not> hasAny t mailboxHints"
  shows "classifyPermanent t i = ClassPolicy"
  using assms by (auto simp: classifyPermanent_def Let_def)

text \<open>
  The reference: which words and codes of a refusal speak of this node, and which say that the mailbox
  exists. A code 5.4.x or 5.7.x, sender-side wording and, outside 5.1.x and 5.2.x, the node's own identity speak
  of the node unless the refusal says in words that the recipient is the problem; a sender code and
  a limit on sending always do.
\<close>

definition speaks_of_us :: "string \<Rightarrow> identity \<Rightarrow> bool" where
  "speaks_of_us t i \<longleftrightarrow>
     EnhancedCode t \<in> set senderCodes \<or>
     \<not> hasAny t mailboxHints \<and>
       (subject (EnhancedCode t) \<in> {4, 7} \<or> hasAny t senderHints \<or> namedIn i t \<and> subject (EnhancedCode t) \<notin> {1, 2}) \<or>
     match_string overQuotaRe t \<and> match_string sendingQuotaRe t \<and> (EnhancedCode t = [] \<or> subject (EnhancedCode t) = 7)"

definition full_mailbox :: "string \<Rightarrow> bool" where
  "full_mailbox t \<longleftrightarrow>
     subject (EnhancedCode t) = 2 \<and> detail (EnhancedCode t) = 2 \<or>
     match_string overQuotaRe t \<and> \<not> match_string sendingQuotaRe t \<and> (EnhancedCode t = [] \<or> subject (EnhancedCode t) = 2)"

lemma classifyPermanent_exact:
  "classifyPermanent t i = (if speaks_of_us t i then ClassPolicy else if full_mailbox t then ClassValid else ClassInvalid)"
proof (cases "speaks_of_us t i")
  case True
  then show ?thesis by (auto simp: classifyPermanent_def speaks_of_us_def Let_def)
next
  case False
  then show ?thesis by (auto simp: classifyPermanent_def speaks_of_us_def full_mailbox_def Let_def)
qed

definition says_greylisted :: "string \<Rightarrow> bool" where
  "says_greylisted t \<longleftrightarrow> contains t ''greylist'' \<or> contains t ''grey list''"

text \<open>
  C10. Invariant 1, us and not the address, as an exact rule: a reply without greylist wording is \<open>valid\<close> if and only if
  it is a 2xx, or a 5xx other than 503 that does not speak of this node and says that the mailbox is full;
  it is \<open>invalid\<close> if and only if it is a 5xx other than 503 that neither speaks of this node nor says so; no other
  reply, and none with greylist wording, is a verdict about a mailbox. A 5xx other than 503 that speaks of this node is \<open>policy\<close>.
\<close>

theorem verdict_only_about_mailbox:
  fixes reply :: string
  defines "t \<equiv> to_lower reply"
  shows "(ClassifyAs code reply i = ClassValid \<longleftrightarrow> \<not> says_greylisted t \<and>
      (200 \<le> code \<and> code < 300 \<or> 500 \<le> code \<and> code \<le> 599 \<and> code \<noteq> 503 \<and> \<not> speaks_of_us t i \<and> full_mailbox t)) \<and>
    (ClassifyAs code reply i = ClassInvalid \<longleftrightarrow> \<not> says_greylisted t \<and>
      500 \<le> code \<and> code \<le> 599 \<and> code \<noteq> 503 \<and> \<not> speaks_of_us t i \<and> \<not> full_mailbox t) \<and>
    (\<not> says_greylisted t \<and> 500 \<le> code \<and> code \<le> 599 \<and> code \<noteq> 503 \<and> speaks_of_us t i \<longrightarrow> ClassifyAs code reply i = ClassPolicy)"
  unfolding ClassifyAs_def classifyPermanent_exact says_greylisted_def t_def Let_def by auto

theorem verdict_only_about_mailbox_witness:
  "ClassifyAs 550 ''550 5.7.1 Sending quota exceeded'' no_identity = ClassPolicy \<and>
   ClassifyAs 550 ''550 5.1.1 No such user'' no_identity = ClassInvalid \<and>
   ClassifyAs 552 ''552 5.2.2 Mailbox full'' no_identity = ClassValid"
proof -
  have "\<not> says_greylisted (to_lower ''550 5.7.1 Sending quota exceeded'')"
    "speaks_of_us (to_lower ''550 5.7.1 Sending quota exceeded'') no_identity" by code_simp+
  moreover have "\<not> says_greylisted (to_lower ''550 5.1.1 No such user'')"
    "\<not> speaks_of_us (to_lower ''550 5.1.1 No such user'') no_identity" "\<not> full_mailbox (to_lower ''550 5.1.1 No such user'')"
    by code_simp+
  moreover have "\<not> says_greylisted (to_lower ''552 5.2.2 Mailbox full'')"
    "\<not> speaks_of_us (to_lower ''552 5.2.2 Mailbox full'') no_identity" "full_mailbox (to_lower ''552 5.2.2 Mailbox full'')"
    by code_simp+
  ultimately show ?thesis by (simp add: verdict_only_about_mailbox)
qed

text \<open>
  The identity search is exact: for a non-empty token \<open>containsToken\<close> never slices out of
  range, and it answers true exactly when the token occurs with nothing on either side that
  would continue an address or a host name.
\<close>

theorem containsToken_exact:
  assumes "tok \<noteq> []"
  shows "containsToken t tok 0 = Some (\<exists>u v. t = u @ tok @ v \<and>
    stands_alone u v)"
  by (simp only: containsToken_pos [OF assms le0] token_at_split)

theorem containsToken_exact_witness:
  "containsToken ''ip=92.222.87.97 - dialup'' ''92.222.87.97'' 0 = Some True \<and>
   containsToken ''from 192.222.87.971'' ''92.222.87.97'' 0 = Some False"
proof -
  have ne: "''92.222.87.97'' \<noteq> []" by simp
  have "containsToken ''ip=92.222.87.97 - dialup'' ''92.222.87.97'' 0 \<noteq> None"
    using containsToken_exact [OF ne] by blast
  then show ?thesis by code_simp
qed

text \<open>
  A permanent refusal that names this node is about this node: if a token of its identity
  stands alone in the reply, no wording points at the recipient and the enhanced code is not a
  recipient code, the reply is policy, never a verdict on the mailbox.
\<close>

theorem names_us_is_policy:
  assumes "500 \<le> code" "code \<le> 599" "code \<noteq> 503"
    and "to_lower text = u @ tok @ v" "tok \<in> set (id_tokens i)"
    and "stands_alone u v"
    and "\<not> contains (to_lower text) ''greylist''" "\<not> contains (to_lower text) ''grey list''"
    and "\<not> hasAny (to_lower text) mailboxHints"
    and "subject (EnhancedCode (to_lower text)) \<notin> {1, 2}"
  shows "ClassifyAs code text i = ClassPolicy"
proof -
  have "namedIn i (to_lower text)"
    using assms(4-6) token_alone by (auto simp: namedIn_def named_by_iff)
  then have "classifyPermanent (to_lower text) i = ClassPolicy"
    using assms by (intro classifyPermanent_sender) blast
  with assms show ?thesis by (simp add: ClassifyAs_permanent)
qed

definition example_identity :: identity where
  "example_identity = \<lparr>SourceIP = ''92.222.87.97'', Helo = ''mail.example.org'', MailFromDomain = ''probe.example.org''\<rparr>"

theorem names_us_is_policy_witness:
  "ClassifyAs 550 ''550 Your IP 92.222.87.97 is not allowed'' example_identity = ClassPolicy"
  by (rule names_us_is_policy [where u = "''550 your ip ''" and tok = "''92.222.87.97''" and v = "'' is not allowed''"])
    code_simp+

text \<open>
  Invariant 6, policy is not throttle: only a 4xx that does not demand encryption and does
  not speak of greylisting, and that is a 421 or uses throttling words, can move the pacer.
\<close>

theorem throttle_only_from_rate_replies:
  assumes "IsThrottle (ClassifyAs code text i)"
  shows "400 \<le> code \<and> code < 500 \<and> (code = 421 \<or> hasAny (to_lower text) throttleHints) \<and>
    \<not> match_string tlsRe (to_lower text) \<and> \<not> contains (to_lower text) ''greylist''"
proof -
  have "\<not> IsThrottle (classifyPermanent (to_lower text) i)"
    using classifyPermanent_range [of "to_lower text" i] by (auto simp: IsThrottle_def)
  with assms show ?thesis
    by (auto simp: ClassifyAs_def Let_def IsThrottle_def split: if_splits)
qed

theorem throttle_only_from_rate_replies_witness:
  "IsThrottle (ClassifyAs 451 ''451 4.7.650 Too many'' no_identity) \<and> hasAny ''451 4.7.650 too many'' throttleHints"
proof -
  have lower: "to_lower ''451 4.7.650 Too many'' = ''451 4.7.650 too many''" by code_simp
  have h: "IsThrottle (ClassifyAs 451 ''451 4.7.650 Too many'' no_identity)" by code_simp
  with throttle_only_from_rate_replies [OF h] lower show ?thesis by simp
qed

text \<open>
  \<open>EnhancedCode\<close> is exact: it returns a code if and only if the trimmed reply leads with a
  reply code, a separator, blanks, that well-formed status code and then no word character.
\<close>

theorem EnhancedCode_exact:
  assumes "w \<noteq> []"
  shows "EnhancedCode s = w \<longleftrightarrow> leads_with (trim_space s) w"
  using assms EnhancedCode_cases [of s] EnhancedCode_some [of s w] by blast

theorem EnhancedCode_exact_witness:
  "leads_with (trim_space ''550-5.7.25 no PTR'') ''5.7.25''"
proof -
  have "EnhancedCode ''550-5.7.25 no PTR'' = ''5.7.25''" by code_simp
  moreover have "''5.7.25'' \<noteq> []" by simp
  ultimately show ?thesis using EnhancedCode_exact by blast
qed

text \<open>
  Routing and policy codes (5.4.x, 5.7.x) never condemn a mailbox on their own: without
  wording about the recipient they are policy.
\<close>

theorem policy_code_is_policy:
  assumes "500 \<le> code" "code \<le> 599" "code \<noteq> 503"
    and "\<not> contains (to_lower text) ''greylist''" "\<not> contains (to_lower text) ''grey list''"
    and "subject (EnhancedCode (to_lower text)) \<in> {4, 7}"
    and "\<not> hasAny (to_lower text) mailboxHints"
  shows "ClassifyAs code text i = ClassPolicy"
proof -
  have "EnhancedCode (to_lower text) \<noteq> []" using assms(6) by auto
  then have "classifyPermanent (to_lower text) i = ClassPolicy"
    using assms by (auto simp: classifyPermanent_def Let_def)
  with assms show ?thesis by (simp add: ClassifyAs_permanent)
qed

theorem policy_code_is_policy_witness:
  "ClassifyAs 550 ''550 5.4.1 Recipient address rejected: Access denied'' no_identity = ClassPolicy"
  by (rule policy_code_is_policy) code_simp+

end
