(* ===== verification/Reply.thy ===== *)
theory Reply
  imports Classify
begin

text \<open>
  Reading an SMTP reply off the wire (\<open>replyCode\<close> and \<open>readReply\<close> of
  \<open>internal/prober/classify.go\<close>) and making one safe to log (\<open>internal/prober/reply.go\<close>).

  The connection is the list of bytes still to come and the error the read returns once they run
  out. \<open>readReply\<close> reads continuation lines to the final one, keeps the text of the first
  \<open>maxReplyBytes\<close> and leaves the bytes after the reply unread, so the session stays in step.
\<close>

section \<open>Reply codes\<close>

definition replyCode :: "string \<Rightarrow> int option" where
  "replyCode line =
     (case line of
        a # b # c # _ \<Rightarrow>
          if byte_of a < 50 \<or> byte_of a > 53 \<or> byte_of b < 48 \<or> byte_of b > 57 \<or>
             byte_of c < 48 \<or> byte_of c > 57 then None
          else Some ((int (byte_of a) - 48) * 100 + (int (byte_of b) - 48) * 10 + (int (byte_of c) - 48))
      | _ \<Rightarrow> None)"

section \<open>Reading a reply\<close>

text \<open>\<open>%q\<close> on ASCII bytes: the escapes of \<open>strconv.Quote\<close>.\<close>

definition quote_char :: "char \<Rightarrow> string" where
  "quote_char c =
     (if c = CHR 0x22 then [CHR 0x5C, CHR 0x22]
      else if c = CHR 0x5C then [CHR 0x5C, CHR 0x5C]
      else if byte_of c = 7 then [CHR 0x5C, CHR ''a'']
      else if byte_of c = 8 then [CHR 0x5C, CHR ''b'']
      else if byte_of c = 12 then [CHR 0x5C, CHR ''f'']
      else if byte_of c = 10 then [CHR 0x5C, CHR ''n'']
      else if byte_of c = 13 then [CHR 0x5C, CHR ''r'']
      else if byte_of c = 9 then [CHR 0x5C, CHR ''t'']
      else if byte_of c = 11 then [CHR 0x5C, CHR ''v'']
      else if byte_of c < 32 \<or> byte_of c \<ge> 127 then
        [CHR 0x5C, CHR ''x'', hex_digit (byte_of c div 16), hex_digit (byte_of c mod 16)]
      else [c])"

definition go_quote :: "string \<Rightarrow> string" where
  "go_quote s = [CHR 0x22] @ concat (map quote_char s) @ [CHR 0x22]"

definition maxReplyBytes :: nat where "maxReplyBytes = 4096"

definition is_crlf :: "char \<Rightarrow> bool" where
  "is_crlf c \<longleftrightarrow> byte_of c = 13 \<or> byte_of c = 10"

abbreviation LF :: char where "LF \<equiv> CHR 0x0A"
abbreviation CR :: char where "CR \<equiv> CHR 0x0D"
abbreviation CRLF :: string where "CRLF \<equiv> [CR, LF]"

text \<open>\<open>ReadString('\n')\<close>: the bytes up to and including the newline, and the rest; \<open>None\<close> when
  the stream ends first.\<close>

fun read_line :: "string \<Rightarrow> (string \<times> string) option" where
  "read_line [] = None"
| "read_line (c # s) =
     (if c = LF then Some ([LF], s) else map_option (\<lambda>(l, r). (c # l, r)) (read_line s))"

lemma read_line_length: "read_line s = Some (l, r) \<Longrightarrow> length r < length s"
  by (induction s arbitrary: l r) (auto split: if_splits)

text \<open>The loop of \<open>readReply\<close>: \<open>acc\<close> is the text kept so far, \<open>eof\<close> the error of a read past
  the last byte.\<close>

function readReply :: "net_error \<Rightarrow> string \<Rightarrow> string \<Rightarrow> (net_error + int \<times> string) \<times> string" where
  "readReply eof acc s =
     (case read_line s of
        None \<Rightarrow> (Inl eof, [])
      | Some (raw, rest) \<Rightarrow>
          let line = trim_right is_crlf raw in
          if length line < 3 then (Inl (NetErr False (''short reply '' @ go_quote line)), rest)
          else case replyCode line of
            None \<Rightarrow> (Inl (NetErr False (''bad reply '' @ go_quote line)), rest)
          | Some code \<Rightarrow>
              let kept = (if length acc < maxReplyBytes
                          then acc @ (if acc = [] then [] else [LF]) @ line else acc) in
              if length line > 3 \<and> line ! 3 = CHR ''-'' then readReply eof kept rest
              else (Inr (code, kept), rest))"
  by pat_completeness auto
termination
  by (relation "measure (\<lambda>(eof, acc, s). length s)") (auto dest: read_line_length)

declare readReply.simps [simp del]

section \<open>Logging a reply\<close>

text \<open>The runes of a byte string as Go's \<open>[]rune(s)\<close> decodes UTF-8, each as the bytes that encode
  it again; an invalid byte becomes the replacement character.\<close>

definition is_cont :: "char \<Rightarrow> bool" where
  "is_cont c \<longleftrightarrow> 128 \<le> byte_of c \<and> byte_of c \<le> 191"

definition rune_error :: string where
  "rune_error = [CHR 0xEF, CHR 0xBF, CHR 0xBD]"

definition second_ok :: "char \<Rightarrow> char \<Rightarrow> bool" where
  "second_ok a b \<longleftrightarrow>
     (if byte_of a = 224 then 160 \<le> byte_of b \<and> byte_of b \<le> 191
      else if byte_of a = 237 then 128 \<le> byte_of b \<and> byte_of b \<le> 159
      else if byte_of a = 240 then 144 \<le> byte_of b \<and> byte_of b \<le> 191
      else if byte_of a = 244 then 128 \<le> byte_of b \<and> byte_of b \<le> 143
      else is_cont b)"

fun next_rune :: "string \<Rightarrow> string \<times> nat" where
  "next_rune (a # b # c # d # s) =
     (if byte_of a < 128 then ([a], 1)
      else if 194 \<le> byte_of a \<and> byte_of a \<le> 223 \<and> is_cont b then ([a, b], 2)
      else if 224 \<le> byte_of a \<and> byte_of a \<le> 239 \<and> second_ok a b \<and> is_cont c then ([a, b, c], 3)
      else if 240 \<le> byte_of a \<and> byte_of a \<le> 244 \<and> second_ok a b \<and> is_cont c \<and> is_cont d
        then ([a, b, c, d], 4)
      else (rune_error, 1))"
| "next_rune [a, b, c] =
     (if byte_of a < 128 then ([a], 1)
      else if 194 \<le> byte_of a \<and> byte_of a \<le> 223 \<and> is_cont b then ([a, b], 2)
      else if 224 \<le> byte_of a \<and> byte_of a \<le> 239 \<and> second_ok a b \<and> is_cont c then ([a, b, c], 3)
      else (rune_error, 1))"
| "next_rune [a, b] =
     (if byte_of a < 128 then ([a], 1)
      else if 194 \<le> byte_of a \<and> byte_of a \<le> 223 \<and> is_cont b then ([a, b], 2)
      else (rune_error, 1))"
| "next_rune [a] = (if byte_of a < 128 then ([a], 1) else (rune_error, 1))"
| "next_rune [] = ([], 1)"

lemma next_rune_pos: "0 < snd (next_rune s)"
  by (induction s rule: next_rune.induct) auto

function runes :: "string \<Rightarrow> string list" where
  "runes s = (if s = [] then [] else fst (next_rune s) # runes (drop (snd (next_rune s)) s))"
  by pat_completeness auto
termination
  using next_rune_pos by (relation "measure length") (auto simp: diff_less)

declare runes.simps [simp del]

definition ellipsis :: string where
  "ellipsis = [CHR 0xE2, CHR 0x80, CHR 0xA6]"

definition DefaultReplyMaxChars :: int where "DefaultReplyMaxChars = 200"

definition redacted :: string where "redacted = ''<redacted>''"

definition redact_field :: "string \<Rightarrow> string" where
  "redact_field f = (if CHR ''@'' \<in> set f then redacted else f)"

definition redactReply :: "string \<Rightarrow> int \<Rightarrow> string" where
  "redactReply s limit =
     (let out = join_with '' '' (map redact_field (fields_of s))
      in if limit \<le> 0 then out
         else if int (length (runes out)) > limit
           then concat (take (nat limit) (runes out)) @ ellipsis
         else out)"

text \<open>\<open>Class.explains\<close>: every class but the two verdicts is logged.\<close>

definition explains :: "reply_class \<Rightarrow> bool" where
  "explains c \<longleftrightarrow> c \<notin> {ClassValid, ClassInvalid}"

section \<open>Lemmas\<close>

lemma replyCode_range: "replyCode line = Some c \<Longrightarrow> 200 \<le> c \<and> c \<le> 599"
  by (auto simp: replyCode_def split: list.splits if_splits)

text \<open>One turn of the reading loop, by what the next line is.\<close>

definition keep_line :: "string \<Rightarrow> string \<Rightarrow> string" where
  "keep_line acc line =
     (if length acc < maxReplyBytes then acc @ (if acc = [] then [] else [LF]) @ line else acc)"

definition continues :: "string \<Rightarrow> bool" where
  "continues line \<longleftrightarrow> length line > 3 \<and> line ! 3 = CHR ''-''"

lemma readReply_eof: "read_line s = None \<Longrightarrow> readReply eof acc s = (Inl eof, [])"
  by (simp add: readReply.simps)

lemma readReply_line:
  "read_line s = Some (raw, rest) \<Longrightarrow> line = trim_right is_crlf raw \<Longrightarrow> 3 \<le> length line \<Longrightarrow>
   replyCode line = Some code \<Longrightarrow>
   readReply eof acc s =
     (if continues line then readReply eof (keep_line acc line) rest
      else (Inr (code, keep_line acc line), rest))"
  by (subst readReply.simps) (simp add: keep_line_def continues_def Let_def)

lemma readReply_bad:
  "read_line s = Some (raw, rest) \<Longrightarrow> line = trim_right is_crlf raw \<Longrightarrow>
   length line < 3 \<or> replyCode line = None \<Longrightarrow>
   \<exists>e. readReply eof acc s = (Inl e, rest)"
  by (subst readReply.simps) (auto simp: Let_def)

lemma readReply_induct [case_names eof bad continue final]:
  assumes "\<And>acc s. read_line s = None \<Longrightarrow> P acc s"
    and "\<And>acc s raw rest. read_line s = Some (raw, rest) \<Longrightarrow>
      length (trim_right is_crlf raw) < 3 \<or> replyCode (trim_right is_crlf raw) = None \<Longrightarrow> P acc s"
    and "\<And>acc s raw rest line code. read_line s = Some (raw, rest) \<Longrightarrow> line = trim_right is_crlf raw \<Longrightarrow>
      3 \<le> length line \<Longrightarrow> replyCode line = Some code \<Longrightarrow> continues line \<Longrightarrow>
      P (keep_line acc line) rest \<Longrightarrow> P acc s"
    and "\<And>acc s raw rest line code. read_line s = Some (raw, rest) \<Longrightarrow> line = trim_right is_crlf raw \<Longrightarrow>
      3 \<le> length line \<Longrightarrow> replyCode line = Some code \<Longrightarrow> \<not> continues line \<Longrightarrow> P acc s"
  shows "P acc s"
proof (induction s arbitrary: acc rule: length_induct)
  case (1 s)
  show ?case
  proof (cases "read_line s")
    case None
    then show ?thesis by (rule assms(1))
  next
    case (Some x)
    obtain raw rest where x: "x = (raw, rest)" by (cases x)
    let ?line = "trim_right is_crlf raw"
    show ?thesis
    proof (cases "length ?line < 3 \<or> replyCode ?line = None")
      case True
      with Some x show ?thesis by (intro assms(2)) auto
    next
      case False
      then obtain code where "replyCode ?line = Some code" "3 \<le> length ?line" by auto
      moreover have "P (keep_line acc ?line) rest"
        using 1 Some x by (auto dest: read_line_length)
      ultimately show ?thesis using Some x assms(3,4) by (cases "continues ?line") blast+
    qed
  qed
qed

lemma readReply_code: "fst (readReply eof acc s) = Inr (code, t) \<Longrightarrow> 200 \<le> code \<and> code \<le> 599"
proof (induction acc s rule: readReply_induct)
  case (eof acc s)
  then show ?case by (simp add: readReply_eof)
next
  case (bad acc s raw rest)
  then show ?case using readReply_bad [of s raw rest _ eof acc] by auto
next
  case (continue acc s raw rest line c)
  then show ?case using readReply_line [of s raw rest line c eof acc] by simp
next
  case (final acc s raw rest line c)
  then show ?case using readReply_line [of s raw rest line c eof acc] replyCode_range by auto
qed

lemma no_at_join:
  "\<forall>w\<in>set ws. c \<notin> set w \<Longrightarrow> c \<notin> set d \<Longrightarrow> c \<notin> set (join_with d ws)"
  by (induction d ws rule: join_with.induct) auto

lemma next_rune_chars: "c \<in> set (fst (next_rune s)) \<Longrightarrow> byte_of c < 128 \<Longrightarrow> c \<in> set s"
  by (induction s rule: next_rune.induct) (auto simp: rune_error_def split: if_splits)

lemma runes_chars: "r \<in> set (runes s) \<Longrightarrow> c \<in> set r \<Longrightarrow> byte_of c < 128 \<Longrightarrow> c \<in> set s"
proof (induction s rule: runes.induct)
  case (1 s)
  show ?case
  proof (cases "s = []")
    case True
    with "1.prems" show ?thesis by (simp add: runes.simps)
  next
    case False
    with "1.prems" consider "r = fst (next_rune s)" | "r \<in> set (runes (drop (snd (next_rune s)) s))"
      by (subst (asm) runes.simps) auto
    then show ?thesis
    proof cases
      case first: 1
      with "1.prems" show ?thesis using next_rune_chars by blast
    next
      case later: 2
      with False "1.IH" "1.prems" show ?thesis by (meson in_set_dropD)
    qed
  qed
qed

lemma redact_fields_no_at: "w \<in> set (map redact_field (fields_of s)) \<Longrightarrow> CHR ''@'' \<notin> set w"
  by (auto simp: redact_field_def redacted_def)

section \<open>Reading back what a server wrote\<close>

text \<open>A reply as RFC 5321 puts it on the wire: continuation lines with a dash, the last with a
  space.\<close>

definition wire_reply :: "string \<Rightarrow> string list \<Rightarrow> string \<Rightarrow> string" where
  "wire_reply cs ls l = concat (map (\<lambda>x. cs @ ''-'' @ x @ CRLF) ls) @ cs @ '' '' @ l @ CRLF"

definition plain :: "string \<Rightarrow> bool" where
  "plain s \<longleftrightarrow> list_all (\<lambda>c. \<not> is_crlf c) s"

lemma read_line_plain: "plain l \<Longrightarrow> read_line (l @ CRLF @ rest) = Some (l @ CRLF, rest)"
  by (induction l) (auto simp: plain_def is_crlf_def)

lemma trim_plain: "plain l \<Longrightarrow> trim_right is_crlf (l @ CRLF) = l"
  by (cases l rule: rev_cases) (auto simp: trim_right_def plain_def is_crlf_def)

lemma plain_append [simp]: "plain (s @ t) \<longleftrightarrow> plain s \<and> plain t"
  by (simp add: plain_def)

lemma plain_Cons [simp]: "plain (c # t) \<longleftrightarrow> \<not> is_crlf c \<and> plain t"
  by (simp add: plain_def)

lemma plain_Nil [simp]: "plain []"
  by (simp add: plain_def)

lemma replyCode_append: "length cs = 3 \<Longrightarrow> replyCode (cs @ x) = replyCode cs"
  by (cases cs; cases "tl cs"; cases "tl (tl cs)"; auto simp: replyCode_def)

lemma replyCode_plain: "length cs = 3 \<Longrightarrow> replyCode cs = Some n \<Longrightarrow> plain cs"
  by (cases cs; cases "tl cs"; cases "tl (tl cs)")
    (auto simp: replyCode_def is_crlf_def split: if_splits)

lemma continues_dash: "length cs = 3 \<Longrightarrow> continues (cs @ ''-'' @ x)"
  by (auto simp: continues_def nth_append)

lemma continues_space: "length cs = 3 \<Longrightarrow> \<not> continues (cs @ '' '' @ x)"
  by (auto simp: continues_def nth_append)

lemma readReply_wire_acc:
  assumes "length cs = 3" "replyCode cs = Some code" "list_all plain ls" "plain l"
  shows "readReply eof acc (wire_reply cs ls l @ rest) =
    (Inr (code, foldl keep_line acc (map (\<lambda>x. cs @ ''-'' @ x) ls @ [cs @ '' '' @ l])), rest)"
  using assms(3)
proof (induction ls arbitrary: acc)
  case Nil
  let ?l = "cs @ '' '' @ l"
  have pl: "plain ?l" using assms replyCode_plain by (simp add: is_crlf_def)
  have "read_line (?l @ CRLF @ rest) = Some (?l @ CRLF, rest)" by (rule read_line_plain [OF pl])
  from readReply_line [OF this refl, unfolded trim_plain [OF pl]] show ?case
    using assms continues_space by (simp add: wire_reply_def replyCode_append)
next
  case (Cons x ls)
  let ?l = "cs @ ''-'' @ x"
  have pl: "plain ?l" using assms Cons.prems replyCode_plain by (simp add: is_crlf_def)
  have "read_line (?l @ CRLF @ (wire_reply cs ls l @ rest)) = Some (?l @ CRLF, wire_reply cs ls l @ rest)"
    by (rule read_line_plain [OF pl])
  from readReply_line [OF this refl, unfolded trim_plain [OF pl], of code eof acc]
  have "readReply eof acc (?l @ CRLF @ (wire_reply cs ls l @ rest)) =
      readReply eof (keep_line acc ?l) (wire_reply cs ls l @ rest)"
    using assms continues_dash by (simp add: replyCode_append)
  moreover have "wire_reply cs (x # ls) l @ rest = ?l @ CRLF @ (wire_reply cs ls l @ rest)"
    by (simp add: wire_reply_def)
  ultimately show ?case using Cons by simp
qed

lemma join_with_step: "join_with d (w # v # ws) = join_with d ((w @ d @ v) # ws)"
  by (cases ws) auto

lemma join_with_length: "length w \<le> length (join_with d (w # ws))"
  by (cases ws) auto

lemma foldl_keep_join:
  "acc \<noteq> [] \<Longrightarrow> length (join_with [LF] (acc # ws)) \<le> maxReplyBytes \<Longrightarrow>
   foldl keep_line acc ws = join_with [LF] (acc # ws)"
proof (induction ws arbitrary: acc)
  case (Cons x ws)
  have "length acc < maxReplyBytes"
    using Cons.prems join_with_length [of "acc @ [LF] @ x" "[LF]" ws] unfolding join_with_step by simp
  then have "keep_line acc x = acc @ [LF] @ x" using Cons.prems by (simp add: keep_line_def)
  with Cons.IH [of "acc @ [LF] @ x"] Cons.prems show ?case unfolding join_with_step by simp
qed simp

lemma readReply_wire:
  assumes "length cs = 3" "replyCode cs = Some code" "list_all plain ls" "plain l"
    and "length (join_with [LF] (map (\<lambda>x. cs @ ''-'' @ x) ls @ [cs @ '' '' @ l])) \<le> maxReplyBytes"
  shows "readReply eof [] (wire_reply cs ls l @ rest) =
    (Inr (code, join_with [LF] (map (\<lambda>x. cs @ ''-'' @ x) ls @ [cs @ '' '' @ l])), rest)"
proof -
  obtain w ws where ws: "map (\<lambda>x. cs @ ''-'' @ x) ls @ [cs @ '' '' @ l] = w # ws" and ne: "w \<noteq> []"
    using assms(1) by (cases ls) auto
  have "keep_line [] w = w" by (simp add: keep_line_def maxReplyBytes_def)
  then have "foldl keep_line [] (w # ws) = join_with [LF] (w # ws)"
    using foldl_keep_join [OF ne, of ws] assms(5) unfolding ws by simp
  then show ?thesis using readReply_wire_acc [OF assms(1-4)] ws by metis
qed

text \<open>The replies of a server are messages on its stream.\<close>

definition reply_get :: "net_error \<Rightarrow> string \<Rightarrow> (int \<times> string) option \<times> string" where
  "reply_get eof s = (case readReply eof [] s of (Inr r, rest) \<Rightarrow> (Some r, rest) | (Inl _, rest) \<Rightarrow> (None, rest))"

definition reply_fits :: "string \<times> string list \<times> string \<Rightarrow> bool" where
  "reply_fits r = (case r of (cs, ls, l) \<Rightarrow> length cs = 3 \<and> replyCode cs \<noteq> None \<and> list_all plain ls \<and> plain l \<and>
     length (join_with [LF] (map (\<lambda>x. cs @ ''-'' @ x) ls @ [cs @ '' '' @ l])) \<le> maxReplyBytes)"

definition reply_heard :: "string \<times> string list \<times> string \<Rightarrow> int \<times> string" where
  "reply_heard r = (case r of (cs, ls, l) \<Rightarrow> (the (replyCode cs), join_with [LF] (map (\<lambda>x. cs @ ''-'' @ x) ls @ [cs @ '' '' @ l])))"

interpretation smtp_stream: framing "\<lambda>(cs, ls, l). wire_reply cs ls l" "reply_get eof" reply_fits reply_heard for eof
proof
  fix r rest assume "reply_fits r"
  then show "reply_get eof ((case r of (cs, ls, l) \<Rightarrow> wire_reply cs ls l) @ rest) = (Some (reply_heard r), rest)"
    by (cases r) (auto simp: reply_fits_def reply_heard_def reply_get_def readReply_wire)
qed

text \<open>Reading many replies never mixes the lines of two.\<close>

lemma replies_in_step:
  assumes "list_all reply_fits rs"
  shows "smtp_stream.get_many eof (length rs) (concat (map (\<lambda>(cs, ls, l). wire_reply cs ls l) rs) @ rest) = (map (\<lambda>r. Some (reply_heard r)) rs, rest)"
  by (rule smtp_stream.in_step [OF assms])

text \<open>Which lines of a longer reply are kept: the first ones, up to the one that reaches \<open>maxReplyBytes\<close>.\<close>

lemma join_with_snoc: "join_with d (ws @ [w]) = (if ws = [] then w else join_with d ws @ d @ w)"
  by (induction d ws rule: join_with.induct) auto

lemma join_with_take_less: "n < length ws \<Longrightarrow> 0 < n \<Longrightarrow> length (join_with [c] (take n ws)) < length (join_with [c] ws)"
proof (induction ws rule: rev_induct)
  case (snoc w ws)
  then show ?case
    by (cases "n = length ws") (auto simp: join_with_snoc intro: less_trans [of _ "length (join_with [c] ws)"])
qed simp

definition kept_lines :: "nat \<Rightarrow> string list \<Rightarrow> bool" where
  "kept_lines n ws \<longleftrightarrow> n \<le> length ws \<and> (\<forall>m < n. length (join_with [LF] (take m ws)) < maxReplyBytes) \<and>
     (n < length ws \<longrightarrow> maxReplyBytes \<le> length (join_with [LF] (take n ws)))"

lemma foldl_keep_lines:
  assumes "\<forall>w \<in> set ws. w \<noteq> []"
  shows "\<exists>n. kept_lines n ws \<and> foldl keep_line [] ws = join_with [LF] (take n ws)"
  using assms
proof (induction ws rule: rev_induct)
  case (snoc w ws)
  then obtain n where n: "kept_lines n ws" "foldl keep_line [] ws = join_with [LF] (take n ws)" by auto
  show ?case
  proof (cases "n = length ws \<and> length (join_with [LF] ws) < maxReplyBytes")
    case True
    have "join_with [LF] ws = [] \<longleftrightarrow> ws = []"
      using snoc.prems by (cases ws rule: rev_cases) (auto simp: join_with_snoc)
    with True n have "foldl keep_line [] (ws @ [w]) = join_with [LF] (take (Suc n) (ws @ [w]))"
      by (simp add: keep_line_def join_with_snoc)
    moreover have "kept_lines (Suc n) (ws @ [w])"
      using True n(1) by (auto simp: kept_lines_def less_Suc_eq)
    ultimately show ?thesis by blast
  next
    case False
    then have "maxReplyBytes \<le> length (join_with [LF] (take n ws))" and le: "n \<le> length ws"
      using n(1) by (auto simp: kept_lines_def)
    with n have "foldl keep_line [] (ws @ [w]) = join_with [LF] (take n (ws @ [w]))" "kept_lines n (ws @ [w])"
      by (auto simp: keep_line_def kept_lines_def)
    then show ?thesis by blast
  qed
qed (simp add: kept_lines_def)

lemma kept_lines_all:
  assumes "kept_lines n ws" "length (join_with [LF] ws) \<le> maxReplyBytes"
  shows "join_with [LF] (take n ws) = join_with [LF] ws"
proof (cases "n < length ws")
  case True
  have "n \<noteq> 0"
    using assms(1) True by (auto simp: kept_lines_def maxReplyBytes_def intro!: Nat.gr0I)
  with join_with_take_less [OF True, of LF] assms True show ?thesis by (simp add: kept_lines_def)
qed simp

text \<open>
  C18. Reading a reply inverts writing it: whatever lines a server sends under one code, none of them with a line break in
  it, the reader returns that code, it leaves precisely the bytes that follow the reply, so the dialogue stays in
  step, and the text it keeps is made of the first lines, joined by newlines: up to the first with which the
  text reaches \<open>maxReplyBytes\<close>, and all of them when the whole text is not longer than that.
\<close>

theorem reply_roundtrip:
  fixes cs l :: string and ls :: "string list"
  defines "lines \<equiv> map (\<lambda>x. cs @ ''-'' @ x) ls @ [cs @ '' '' @ l]"
  assumes "length cs = 3" "replyCode cs = Some code" "list_all plain ls" "plain l"
  shows "\<exists>n. readReply eof [] (wire_reply cs ls l @ rest) = (Inr (code, join_with [LF] (take n lines)), rest) \<and>
    n \<le> length lines \<and> (\<forall>m < n. length (join_with [LF] (take m lines)) < maxReplyBytes) \<and>
    (n < length lines \<longrightarrow> maxReplyBytes \<le> length (join_with [LF] (take n lines))) \<and>
    (length (join_with [LF] lines) \<le> maxReplyBytes \<longrightarrow> join_with [LF] (take n lines) = join_with [LF] lines)"
proof -
  have "\<forall>w \<in> set lines. w \<noteq> []" by (auto simp: lines_def)
  then obtain n where n: "kept_lines n lines" "foldl keep_line [] lines = join_with [LF] (take n lines)"
    using foldl_keep_lines by blast
  then have "readReply eof [] (wire_reply cs ls l @ rest) = (Inr (code, join_with [LF] (take n lines)), rest)"
    using readReply_wire_acc [OF assms(2-5), of eof "[]" rest] by (simp add: lines_def)
  with n(1) kept_lines_all [OF n(1)] show ?thesis unfolding kept_lines_def by blast
qed

theorem reply_roundtrip_witness:
  "readReply (NetErr False ''EOF'') [] (wire_reply ''250'' [''mx.example.org''] ''STARTTLS'' @ ''220 ready'') =
    (Inr (250, ''250-mx.example.org'' @ [LF] @ ''250 STARTTLS''), ''220 ready'')"
proof -
  have "length ''250'' = 3" "replyCode ''250'' = Some 250" "list_all plain [''mx.example.org'']" "plain ''STARTTLS''" by code_simp+
  moreover have "length (join_with [LF] (map (\<lambda>x. ''250'' @ ''-'' @ x) [''mx.example.org''] @ [''250'' @ '' '' @ ''STARTTLS'']))
      \<le> maxReplyBytes" by code_simp
  ultimately show ?thesis
    using reply_roundtrip [of "''250''" 250 "[''mx.example.org'']" "''STARTTLS''" "NetErr False ''EOF''" "''220 ready''"] by auto
qed

text \<open>
  \<open>maxReplyBytes\<close> does not bound the text kept of one reply: the check is made before a whole
  line is appended, so a single long line is kept in full whatever its length.
\<close>

theorem kept_text_unbounded:
  "\<exists>s code t. readReply eof [] s = (Inr (code, t), []) \<and> n \<le> length t"
proof -
  have "readReply eof [] (wire_reply ''250'' [] (replicate n CHR ''x'') @ []) =
      (Inr (250, foldl keep_line [] (map (\<lambda>x. ''250'' @ ''-'' @ x) [] @ [''250'' @ '' '' @ replicate n CHR ''x''])), [])"
    by (rule readReply_wire_acc) (auto simp: replyCode_def plain_def is_crlf_def list_all_iff)
  moreover have "keep_line [] w = w" for w by (simp add: keep_line_def maxReplyBytes_def)
  ultimately show ?thesis by fastforce
qed

text \<open>
  C19. A logged reply carries no address: whatever the server wrote and whatever the length limit,
  no \<open>@\<close> survives redaction, also when the text is cut.
\<close>

theorem redactReply_no_address: "CHR ''@'' \<notin> set (redactReply s limit)"
proof -
  define out where "out = join_with '' '' (map redact_field (fields_of s))"
  have no: "CHR ''@'' \<notin> set out"
    unfolding out_def by (rule no_at_join) (use redact_fields_no_at in auto)
  then have "CHR ''@'' \<notin> set r" if "r \<in> set (runes out)" for r
    using runes_chars [OF that] by fastforce
  then have "CHR ''@'' \<notin> set (concat (take (nat limit) (runes out)) @ ellipsis)"
    by (auto simp: ellipsis_def dest: in_set_takeD)
  with no show ?thesis by (simp add: redactReply_def out_def [symmetric] Let_def)
qed

end
