(* ===== verification/Retry.thy ===== *)
theory Retry
  imports Reply
begin

text \<open>
  Retry hints, \<open>internal/prober/retry.go\<close>: how long the caller is told to wait before asking again.
  A server's own words are read when they have one of a few shapes, and the result is always
  clamped to between one minute and six hours.
\<close>

section \<open>Clamping\<close>

definition minRetryHint :: duration where "minRetryHint = 60 * second"
definition maxRetryHint :: duration where "maxRetryHint = 6 * hour"

definition clampHint :: "duration \<Rightarrow> duration" where
  "clampHint d = min maxRetryHint (max minRetryHint d)"

text \<open>\<open>int(d.Seconds())\<close> of a non-negative duration: the whole seconds in it.\<close>

definition whole_seconds :: "duration \<Rightarrow> int" where
  "whole_seconds d = d div second"

section \<open>Reading a hint\<close>

definition unit_word :: "string \<Rightarrow> rx" where
  "unit_word w = RCat (RLitI w) (ROpt (RLitI ''s''))"

text \<open>\<open>(?i)(?:try again|retry|come back)(?:\s+\w+){0,3}?\s+(\d{1,5})\s*(seconds?|secs?|minutes?|mins?|hours?|hrs?|s|m|h)\b\<close>\<close>

definition explicitHint :: rx where
  "explicitHint = RCats [
     RAlts [RLitI ''try again'', RLitI ''retry'', RLitI ''come back''],
     RLazyUpTo 3 (RCat (RSome re_space) (RSome is_word)),
     RSome re_space,
     RGrp 1 (RRep1 5 (RCh is_digit)),
     RMany re_space,
     RGrp 2 (RAlts [unit_word ''second'', unit_word ''sec'', unit_word ''minute'', unit_word ''min'',
       unit_word ''hour'', unit_word ''hr'', RLitI ''s'', RLitI ''m'', RLitI ''h'']),
     RWordB]"

definition hint_unit :: "string \<Rightarrow> duration option" where
  "hint_unit w =
     (let u = trim_suffix (to_lower w) ''s''
      in if u = ''second'' \<or> u = ''sec'' \<or> u = [] then Some second
         else if u = ''minute'' \<or> u = ''min'' \<or> u = ''m'' then Some minute
         else if u = ''hour'' \<or> u = ''hr'' \<or> u = ''h'' then Some hour
         else None)"

definition parseHint :: "string \<Rightarrow> duration option" where
  "parseHint reply =
     (case find_submatch explicitHint reply of
        None \<Rightarrow> None
      | Some m \<Rightarrow>
          (case atoi (group 1 m) of
             None \<Rightarrow> None
           | Some n \<Rightarrow>
               if n \<le> 0 then None
               else map_option (\<lambda>u. n * u) (hint_unit (group 2 m))))"

section \<open>Hints\<close>

definition carries_hint :: "reply_class \<Rightarrow> bool" where
  "carries_hint c \<longleftrightarrow> c \<in> {ClassDeferred, ClassThrottled, ClassNoBudget, ClassPaused, ClassTLSFailed}"

definition retryHint :: "reply_class \<Rightarrow> string \<Rightarrow> duration \<Rightarrow> int" where
  "retryHint c reply fallback =
     (if \<not> carries_hint c then 0
      else case parseHint reply of
        Some d \<Rightarrow> whole_seconds (clampHint d)
      | None \<Rightarrow> whole_seconds (clampHint fallback))"

text \<open>An error of the pacer: a pause with the time left of it, or any other failure to
  establish a budget. The text is what \<open>err.Error()\<close> returns.\<close>

datatype pacer_error =
    PausedErr (retry_after: duration) (pacer_text: string)
  | BudgetErr (pacer_text: string)

definition retryAfterFor :: "pacer_error \<Rightarrow> string \<Rightarrow> duration \<Rightarrow> int" where
  "retryAfterFor e reply fallback =
     (case e of
        PausedErr d _ \<Rightarrow> whole_seconds (clampHint d)
      | BudgetErr _ \<Rightarrow> retryHint ClassNoBudget reply fallback)"

section \<open>Bounds\<close>

lemma clampHint_bounds: "60 \<le> whole_seconds (clampHint d) \<and> whole_seconds (clampHint d) \<le> 21600"
  by (auto simp: whole_seconds_def clampHint_def minRetryHint_def maxRetryHint_def min_def max_def)

lemma retryAfterFor_bounds: "60 \<le> retryAfterFor e reply fb \<and> retryAfterFor e reply fb \<le> 21600"
  using clampHint_bounds
  by (auto simp: retryAfterFor_def retryHint_def carries_hint_def split: pacer_error.splits option.splits)

text \<open>
  A class that is an answer carries no hint, and a class that means come back later carries
  one between a minute and six hours, whatever the server wrote and whatever the configured
  default is.
\<close>

theorem retryHint_range:
  "retryHint c reply fb = 0 \<and> c \<notin> {ClassDeferred, ClassThrottled, ClassNoBudget, ClassPaused, ClassTLSFailed}
   \<or> 60 \<le> retryHint c reply fb \<and> retryHint c reply fb \<le> 21600 \<and>
     c \<in> {ClassDeferred, ClassThrottled, ClassNoBudget, ClassPaused, ClassTLSFailed}"
  using clampHint_bounds
  by (auto simp: retryHint_def carries_hint_def split: option.splits)

end
