(* ===== verification/Resp.thy ===== *)
theory Resp
  imports Prelude
begin

text \<open>
  The Redis wire protocol of \<open>internal/redis/resp.go\<close>: commands are written as arrays of bulk
  strings, replies are decoded with bounds on every length and on the nesting read off the wire.

  The connection is the list of bytes to come; running out of them is a transport error. The
  round-trip theorem shows that the reader returns the value that was written and stops exactly
  after it, up to the nesting it accepts.
\<close>

section \<open>Values and errors\<close>

datatype resp = RNil | RStr string | RInt int | RArr "resp list"

text \<open>\<open>*redis.Error\<close> is the server rejecting the command; the other errors are the transport's.\<close>

datatype redis_error = RedisError string | Transport string

definition maxBulkLen :: int where "maxBulkLen = 512 * 2 ^ 20"
definition maxArrayLen :: int where "maxArrayLen = 2 ^ 20"
definition maxDepth :: nat where "maxDepth = 8"

abbreviation crlf :: string where "crlf \<equiv> [CHR 0x0D, CHR 0x0A]"

section \<open>Writing a command\<close>

definition encode_bulk :: "string \<Rightarrow> string" where
  "encode_bulk a = ''$'' @ itoa (int (length a)) @ crlf @ a @ crlf"

definition encode :: "string list \<Rightarrow> string" where
  "encode args = ''*'' @ itoa (int (length args)) @ crlf @ concat (map encode_bulk args)"

section \<open>Reading a reply\<close>

fun resp_line :: "string \<Rightarrow> (string \<times> string) option" where
  "resp_line [] = None"
| "resp_line (c # s) =
     (if c = CHR 0x0A then Some ([c], s) else map_option (\<lambda>(l, r). (c # l, r)) (resp_line s))"

definition resp_eol :: "char \<Rightarrow> bool" where
  "resp_eol c \<longleftrightarrow> byte_of c = 13 \<or> byte_of c = 10"

text \<open>\<open>readBulk\<close>: the payload and two more bytes, whatever they are.\<close>

definition readBulk :: "nat \<Rightarrow> string \<Rightarrow> (redis_error + resp) \<times> string" where
  "readBulk n s =
     (if length s < n + 2 then (Inl (Transport ''unexpected EOF''), [])
      else (Inr (RStr (take n s)), drop (n + 2) s))"

text \<open>The elements of an array, stopping at the first error.\<close>

fun read_elems ::
  "(string \<Rightarrow> (redis_error + resp) \<times> string) \<Rightarrow> nat \<Rightarrow> string \<Rightarrow> (redis_error + resp list) \<times> string" where
  "read_elems f 0 s = (Inr [], s)"
| "read_elems f (Suc n) s =
     (case f s of
        (Inl e, r) \<Rightarrow> (Inl e, r)
      | (Inr v, r) \<Rightarrow>
          (case read_elems f n r of
             (Inl e, r') \<Rightarrow> (Inl e, r')
           | (Inr vs, r') \<Rightarrow> (Inr (v # vs), r')))"

text \<open>\<open>readValue\<close>, with the levels still allowed instead of the depth reached: level 0 is a reply
  nested deeper than \<open>maxDepth\<close>.\<close>

fun readValue :: "nat \<Rightarrow> string \<Rightarrow> (redis_error + resp) \<times> string" where
  "readValue 0 s = (Inl (Transport ''redis: reply nested deeper than 8''), s)"
| "readValue (Suc d) s =
     (case resp_line s of
        None \<Rightarrow> (Inl (Transport ''EOF''), [])
      | Some (raw, rest) \<Rightarrow>
          (case trim_right resp_eol raw of
             [] \<Rightarrow> (Inl (Transport ''redis: empty reply''), rest)
           | t # arg \<Rightarrow>
               if t = CHR ''+'' then (Inr (RStr arg), rest)
               else if t = CHR ''-'' then (Inl (RedisError arg), rest)
               else if t = CHR '':'' then
                 (case atoi arg of
                    None \<Rightarrow> (Inl (Transport ''strconv.ParseInt''), rest)
                  | Some n \<Rightarrow> (Inr (RInt n), rest))
               else if t = CHR ''$'' then
                 (case atoi arg of
                    None \<Rightarrow> (Inl (Transport ''redis: bad bulk length''), rest)
                  | Some n \<Rightarrow>
                      if n < 0 then (Inr RNil, rest)
                      else if n > maxBulkLen then (Inl (Transport ''redis: bulk length over the limit''), rest)
                      else readBulk (nat n) rest)
               else if t = CHR ''*'' then
                 (case atoi arg of
                    None \<Rightarrow> (Inl (Transport ''redis: bad array length''), rest)
                  | Some n \<Rightarrow>
                      if n < 0 then (Inr RNil, rest)
                      else if n > maxArrayLen then (Inl (Transport ''redis: array length over the limit''), rest)
                      else (case read_elems (readValue d) (nat n) rest of
                              (Inl e, r) \<Rightarrow> (Inl e, r)
                            | (Inr vs, r) \<Rightarrow> (Inr (RArr vs), r)))
               else (Inl (Transport ''redis: unexpected reply''), rest)))"

definition resp_readReply :: "string \<Rightarrow> (redis_error + resp) \<times> string" where
  "resp_readReply s = readValue (Suc maxDepth) s"

section \<open>Round trip\<close>

text \<open>A value as the server writes it.\<close>

fun serialise :: "resp \<Rightarrow> string" where
  "serialise RNil = ''$-1'' @ crlf"
| "serialise (RStr a) = encode_bulk a"
| "serialise (RInt n) = '':'' @ itoa n @ crlf"
| "serialise (RArr vs) = ''*'' @ itoa (int (length vs)) @ crlf @ concat (map serialise vs)"

text \<open>The value fits the reader's bounds with \<open>d\<close> levels of nesting left.\<close>

fun fits :: "nat \<Rightarrow> resp \<Rightarrow> bool" where
  "fits 0 v \<longleftrightarrow> False"
| "fits (Suc d) RNil \<longleftrightarrow> True"
| "fits (Suc d) (RStr a) \<longleftrightarrow> int (length a) \<le> maxBulkLen"
| "fits (Suc d) (RInt n) \<longleftrightarrow> in_int64 n"
| "fits (Suc d) (RArr vs) \<longleftrightarrow> int (length vs) \<le> maxArrayLen \<and> list_all (fits d) vs"

definition no_eol :: "string \<Rightarrow> bool" where
  "no_eol s \<longleftrightarrow> list_all (\<lambda>c. \<not> resp_eol c) s"

lemma resp_line_crlf: "no_eol l \<Longrightarrow> resp_line (l @ crlf @ r) = Some (l @ crlf, r)"
  by (induction l) (auto simp: no_eol_def resp_eol_def)

lemma trim_right_crlf: "no_eol l \<Longrightarrow> trim_right resp_eol (l @ crlf) = l"
  by (cases l rule: rev_cases) (auto simp: trim_right_def no_eol_def resp_eol_def)

lemma no_eol_itoa: "no_eol (itoa n)"
proof -
  have "list_all (\<lambda>c. \<not> resp_eol c) (nat_digits k)" for k
    using nat_digits_digits [of k] by (auto simp: list_all_iff is_digit_def resp_eol_def)
  then show ?thesis by (simp add: no_eol_def itoa_def resp_eol_def)
qed

lemma readValue_head:
  assumes "no_eol (t # arg)"
  shows "resp_line ((t # arg) @ crlf @ r) = Some ((t # arg) @ crlf, r) \<and>
    trim_right resp_eol ((t # arg) @ crlf) = t # arg"
  using resp_line_crlf [OF assms] trim_right_crlf [OF assms] by blast

lemma in_int64_small: "0 \<le> n \<Longrightarrow> n \<le> 2 ^ 40 \<Longrightarrow> in_int64 n"
  by (simp add: in_int64_def)

lemma readBulk_append: "readBulk (length a) (a @ crlf @ r) = (Inr (RStr a), r)"
  by (simp add: readBulk_def)

lemma read_elems_serialise:
  assumes "\<And>v r. v \<in> set vs \<Longrightarrow> f (serialise v @ r) = (Inr v, r)"
  shows "read_elems f (length vs) (concat (map serialise vs) @ r) = (Inr vs, r)"
  using assms by (induction vs arbitrary: r) auto

lemma readValue_serialise: "fits d v \<Longrightarrow> readValue d (serialise v @ r) = (Inr v, r)"
proof (induction d arbitrary: v r)
  case (Suc d)
  have head: "resp_line ((t # itoa n) @ crlf @ q) = Some ((t # itoa n) @ crlf, q)"
      "trim_right resp_eol ((t # itoa n) @ crlf) = t # itoa n" if "\<not> resp_eol t" for t n q
    using readValue_head [of t "itoa n" q] no_eol_itoa [of n] that by (auto simp: no_eol_def)
  have nil: "resp_line ((CHR ''$'' # ''-1'') @ crlf @ q) = Some ((CHR ''$'' # ''-1'') @ crlf, q)"
      "trim_right resp_eol ((CHR ''$'' # ''-1'') @ crlf) = CHR ''$'' # ''-1''" for q
    using readValue_head [of "CHR ''$''" "''-1''" q] by (auto simp: no_eol_def resp_eol_def)
  show ?case
  proof (cases v)
    case RNil
    have "atoi ''-1'' = Some (-1)" by code_simp
    with nil show ?thesis by (simp add: RNil)
  next
    case (RStr a)
    with Suc.prems have l: "int (length a) \<le> maxBulkLen" by simp
    then have "in_int64 (int (length a))" by (intro in_int64_small) (auto simp: maxBulkLen_def)
    then show ?thesis
      using head(1) [of "CHR ''$''" "int (length a)" "a @ crlf @ r"] head(2) [of "CHR ''$''" "int (length a)"] l
      by (simp add: RStr encode_bulk_def atoi_itoa resp_eol_def readBulk_append [simplified])
  next
    case (RInt n)
    with Suc.prems show ?thesis using head(1) [of "CHR '':''" n r] head(2) [of "CHR '':''" n]
      by (simp add: atoi_itoa resp_eol_def)
  next
    case (RArr vs)
    with Suc.prems have l: "int (length vs) \<le> maxArrayLen" and f: "list_all (fits d) vs" by auto
    then have "in_int64 (int (length vs))" by (intro in_int64_small) (auto simp: maxArrayLen_def)
    moreover have "read_elems (readValue d) (length vs) (concat (map serialise vs) @ r) = (Inr vs, r)"
      using Suc.IH f by (intro read_elems_serialise) (auto simp: list_all_iff)
    ultimately show ?thesis
      using head(1) [of "CHR ''*''" "int (length vs)" "concat (map serialise vs) @ r"]
        head(2) [of "CHR ''*''" "int (length vs)"] l
      by (simp add: RArr atoi_itoa resp_eol_def)
  qed
qed simp

lemma encode_serialise: "encode args = serialise (RArr (map RStr args))"
  by (simp add: encode_def comp_def)

text \<open>
  C20. The Redis protocol round trip: every value whose strings, arrays, integers and nesting are
  within the reader's bounds is read back exactly, and reading stops right after it; and a command
  written by \<open>encode\<close>, of at most \<open>maxArrayLen\<close> arguments of at most \<open>maxBulkLen\<close> bytes each, is read back as the array of its arguments.
\<close>

theorem resp_roundtrip:
  "(fits (Suc maxDepth) v \<longrightarrow> resp_readReply (serialise v @ rest) = (Inr v, rest)) \<and>
   (int (length args) \<le> maxArrayLen \<and> (\<forall>a \<in> set args. int (length a) \<le> maxBulkLen) \<longrightarrow>
     resp_readReply (encode args @ rest) = (Inr (RArr (map RStr args)), rest))"
proof -
  have "fits (Suc maxDepth) (RArr (map RStr args))"
    if "int (length args) \<le> maxArrayLen" "\<forall>a \<in> set args. int (length a) \<le> maxBulkLen"
    using that by (simp add: list_all_iff maxDepth_def eval_nat_numeral)
  then show ?thesis
    using readValue_serialise unfolding resp_readReply_def encode_serialise by blast
qed

theorem resp_roundtrip_witness:
  "resp_readReply (encode [''SET'', ''rt:mx:@google:rate'', ''0.5''] @ ''+OK'') =
    (Inr (RArr [RStr ''SET'', RStr ''rt:mx:@google:rate'', RStr ''0.5'']), ''+OK'') \<and>
   resp_readReply (serialise (RArr [RInt 1, RStr ''2.5'', RNil]) @ ''+OK'') = (Inr (RArr [RInt 1, RStr ''2.5'', RNil]), ''+OK'')"
proof -
  have "int (length [''SET'', ''rt:mx:@google:rate'', ''0.5'']) \<le> maxArrayLen"
    "\<forall>a \<in> set [''SET'', ''rt:mx:@google:rate'', ''0.5'']. int (length a) \<le> maxBulkLen"
    "fits (Suc maxDepth) (RArr [RInt 1, RStr ''2.5'', RNil])" by code_simp+
  with resp_roundtrip [of "RArr [RInt 1, RStr ''2.5'', RNil]" "''+OK''" "[''SET'', ''rt:mx:@google:rate'', ''0.5'']"]
  show ?thesis by simp
qed

text \<open>A connection carries many values: they are read in step.\<close>

definition resp_get :: "string \<Rightarrow> resp option \<times> string" where
  "resp_get s = (case resp_readReply s of (Inr v, rest) \<Rightarrow> (Some v, rest) | (Inl _, rest) \<Rightarrow> (None, rest))"

interpretation resp_stream: framing serialise resp_get "fits (Suc maxDepth)" id
proof
  fix v rest assume "fits (Suc maxDepth) v"
  then have "resp_readReply (serialise v @ rest) = (Inr v, rest)" unfolding resp_readReply_def by (rule readValue_serialise)
  then show "resp_get (serialise v @ rest) = (Some (id v), rest)" by (simp add: resp_get_def)
qed

lemma pipeline_in_step:
  assumes "list_all (fits (Suc maxDepth)) vs"
  shows "resp_stream.get_many (length vs) (concat (map serialise vs) @ rest) = (map Some vs, rest)"
  using resp_stream.in_step [OF assms] by simp

end
