(* ===== verification/Client.thy ===== *)
theory Client
  imports Resp
begin

text \<open>
  The pooled Redis client of \<open>internal/redis/client.go\<close>.

  The network is a parameter: whether a dial and a deadline succeed, and what arrives on a connection
  after a command was written to it, split at the moment the command's deadline passes. A connection is
  its number and the bytes on it that are still to be read. The lock makes each access to the pool
  atomic; a command's own connection is never in the pool, so one command at a time is the general case.

  The theorems show that a caller gets the answer to its own command or an error, that a script runs
  once whether or not the server had it cached, and where the pool goes wrong: a reply that carries an
  error inside an array leaves bytes behind that the next command reads as its answer.
\<close>

section \<open>The pool\<close>

record conn =
  cid :: nat
  pending :: string

record client =
  network :: string
  address :: string
  timeout :: duration
  idle :: "conn list"
  cap :: nat
  dialled :: nat

text \<open>\<open>arrives\<close> is \<open>None\<close> when the write fails; otherwise it gives what comes before the deadline and what
  comes after it.\<close>

record 'n net =
  dial_ok :: "'n \<Rightarrow> bool \<times> 'n"
  deadline_ok :: "'n \<Rightarrow> bool \<times> 'n"
  arrives :: "nat \<Rightarrow> string \<Rightarrow> 'n \<Rightarrow> (string \<times> string) option \<times> 'n"

definition New_client :: "string \<Rightarrow> duration \<Rightarrow> int \<Rightarrow> client" where
  "New_client Addr Timeout PoolSize =
     (let addr = (if Addr = [] then ''127.0.0.1:6379'' else Addr);
          unix = has_prefix addr ''unix:''
      in \<lparr>network = (if unix then ''unix'' else ''tcp''), address = (if unix then drop 5 addr else addr),
          timeout = (if Timeout \<le> 0 then 2 * second else Timeout), idle = [],
          cap = (if PoolSize \<le> 0 then 8 else nat PoolSize), dialled = 0\<rparr>)"

text \<open>The pool is used from its end, as the code appends to it.\<close>

definition get_conn :: "'n net \<Rightarrow> client \<times> 'n \<Rightarrow> conn option \<times> client \<times> 'n" where
  "get_conn nt x =
     (case x of (cl, n) \<Rightarrow>
        if idle cl \<noteq> [] then (Some (last (idle cl)), cl\<lparr>idle := butlast (idle cl)\<rparr>, n)
        else case dial_ok nt n of
               (False, n) \<Rightarrow> (None, cl, n)
             | (True, n) \<Rightarrow> (Some \<lparr>cid = dialled cl, pending = []\<rparr>, cl\<lparr>dialled := Suc (dialled cl)\<rparr>, n))"

definition put_conn :: "conn \<Rightarrow> redis_error + resp \<Rightarrow> client \<Rightarrow> client" where
  "put_conn c r cl =
     (case r of
        Inl (Transport _) \<Rightarrow> cl
      | _ \<Rightarrow> if length (idle cl) \<ge> cap cl then cl else cl\<lparr>idle := idle cl @ [c]\<rparr>)"

definition Close_client :: "client \<Rightarrow> client" where
  "Close_client cl = cl\<lparr>idle := []\<rparr>"

section \<open>Commands\<close>

definition Do :: "'n net \<Rightarrow> string list \<Rightarrow> client \<times> 'n \<Rightarrow> (redis_error + resp) \<times> client \<times> 'n" where
  "Do nt args x =
     (case get_conn nt x of
        (None, cl, n) \<Rightarrow> (Inl (Transport ''dial''), cl, n)
      | (Some c, cl, n) \<Rightarrow>
          (case deadline_ok nt n of
             (False, n) \<Rightarrow> (Inl (Transport ''deadline''), cl, n)
           | (True, n) \<Rightarrow>
               (case arrives nt (cid c) (encode args) n of
                  (None, n) \<Rightarrow> (Inl (Transport ''write''), cl, n)
                | (Some (early, late), n) \<Rightarrow>
                    (case resp_readReply (pending c @ early) of
                       (r, rest) \<Rightarrow> (r, put_conn (c\<lparr>pending := rest @ late\<rparr>) r cl, n)))))"

text \<open>The other operations only need something that runs a command.\<close>

type_synonym 's redis = "string list \<Rightarrow> 's \<Rightarrow> (redis_error + resp) \<times> 's"

definition Ping :: "'s redis \<Rightarrow> 's \<Rightarrow> redis_error option \<times> 's" where
  "Ping run s = (case run [''PING''] s of (Inl e, s) \<Rightarrow> (Some e, s) | (Inr _, s) \<Rightarrow> (None, s))"

definition Get :: "'s redis \<Rightarrow> string \<Rightarrow> 's \<Rightarrow> (redis_error + string option) \<times> 's" where
  "Get run key s =
     (case run [''GET'', key] s of
        (Inl e, s) \<Rightarrow> (Inl e, s)
      | (Inr RNil, s) \<Rightarrow> (Inr None, s)
      | (Inr (RStr v), s) \<Rightarrow> (Inr (Some v), s)
      | (Inr _, s) \<Rightarrow> (Inl (Transport ''redis: GET returned a non-string reply''), s))"

definition Set :: "'s redis \<Rightarrow> string \<Rightarrow> string \<Rightarrow> 's \<Rightarrow> redis_error option \<times> 's" where
  "Set run key val s = (case run [''SET'', key, val] s of (Inl e, s) \<Rightarrow> (Some e, s) | (Inr _, s) \<Rightarrow> (None, s))"

text \<open>\<open>NewScript\<close> takes the digest Redis addresses scripts by, SHA-1, as a parameter.\<close>

record script =
  body :: string
  sha :: string

definition NewScript :: "(string \<Rightarrow> string) \<Rightarrow> string \<Rightarrow> script" where
  "NewScript sha1_hex b = \<lparr>body = b, sha = sha1_hex b\<rparr>"

definition eval_args :: "string \<Rightarrow> string \<Rightarrow> string list \<Rightarrow> string list \<Rightarrow> string list" where
  "eval_args verb scr keys args = [verb, scr, itoa (int (length keys))] @ keys @ args"

definition Run :: "'s redis \<Rightarrow> script \<Rightarrow> string list \<Rightarrow> string list \<Rightarrow> 's \<Rightarrow> (redis_error + resp) \<times> 's" where
  "Run run sc keys args s =
     (case run (eval_args ''EVALSHA'' (sha sc) keys args) s of
        (Inl (RedisError m), s) \<Rightarrow>
          if has_prefix m ''NOSCRIPT'' then run (eval_args ''EVAL'' (body sc) keys args) s else (Inl (RedisError m), s)
      | x \<Rightarrow> x)"

section \<open>A reply that is cut short\<close>

text \<open>What the server writes for an answer: a value, or the error it has for the command.\<close>

fun wire :: "redis_error + resp \<Rightarrow> string" where
  "wire (Inr v) = serialise v"
| "wire (Inl (RedisError m)) = ''-'' @ m @ crlf"
| "wire (Inl (Transport m)) = []"

definition answerable :: "redis_error + resp \<Rightarrow> bool" where
  "answerable r \<longleftrightarrow>
     (case r of Inr v \<Rightarrow> fits (Suc maxDepth) v | Inl (RedisError m) \<Rightarrow> no_eol m | Inl (Transport m) \<Rightarrow> False)"

lemma resp_line_None: "CHR 0x0A \<notin> set s \<Longrightarrow> resp_line s = None"
  by (induction s) auto

lemma no_eol_lf: "no_eol s \<Longrightarrow> CHR 0x0A \<notin> set s"
  by (auto simp: no_eol_def list_all_iff resp_eol_def)

lemma strict_prefix_append: "strict_prefix (u @ s) (u @ t) \<longleftrightarrow> strict_prefix s t"
  by (simp add: strict_prefix_def)

text \<open>A strict prefix of one line with its end has no complete line.\<close>

lemma strict_prefix_line:
  assumes "no_eol l" "strict_prefix s (l @ crlf @ r)"
  shows "resp_line s = None \<or> (\<exists>s'. s = l @ crlf @ s' \<and> strict_prefix s' r)"
proof (cases "prefix (l @ crlf) s")
  case True
  then obtain s' where "s = l @ crlf @ s'" by (auto simp: prefix_def)
  with assms(2) strict_prefix_append [of "l @ crlf" s' r] show ?thesis by auto
next
  case False
  have "prefix s ((l @ crlf) @ r)" using assms(2) by (simp add: strict_prefix_def)
  with False have "strict_prefix s (l @ crlf)"
    using prefix_same_cases [of s "(l @ crlf) @ r" "l @ crlf"] by (auto simp: strict_prefix_def)
  then have "prefix s (l @ [CHR 0x0D])"
    by (metis append.assoc append_Cons append_Nil prefix_snoc strict_prefix_def)
  then have "CHR 0x0A \<notin> set s" using no_eol_lf [OF assms(1)] set_mono_prefix by fastforce
  then show ?thesis by (simp add: resp_line_None)
qed

definition cut_off :: "(redis_error + resp) \<times> string \<Rightarrow> bool" where
  "cut_off x \<longleftrightarrow> (\<exists>m. fst x = Inl (Transport m))"

lemma read_elems_cut:
  assumes "\<And>v r. v \<in> set vs \<Longrightarrow> f (serialise v @ r) = (Inr v, r)"
    and "\<And>v s. v \<in> set vs \<Longrightarrow> strict_prefix s (serialise v) \<Longrightarrow> cut_off (f s)"
    and "strict_prefix s (concat (map serialise vs))"
  shows "\<exists>m. fst (read_elems f (length vs) s) = Inl (Transport m)"
  using assms
proof (induction vs arbitrary: s)
  case (Cons v vs)
  show ?case
  proof (cases "prefix (serialise v) s")
    case True
    then obtain s' where s': "s = serialise v @ s'" by (auto simp: prefix_def)
    with Cons.prems(3) have "strict_prefix s' (concat (map serialise vs))" by (simp add: strict_prefix_append)
    then obtain m where "fst (read_elems f (length vs) s') = Inl (Transport m)"
      using Cons.IH [of s'] Cons.prems(1,2) by (meson list.set_intros(2))
    with Cons.prems(1) [of v s'] show ?thesis
      by (cases "read_elems f (length vs) s'") (auto simp: s')
  next
    case False
    with Cons.prems(3) have "strict_prefix s (serialise v)"
      by (metis concat.simps(2) list.simps(9) prefix_append prefix_order.le_less strict_prefix_def)
    with Cons.prems(2) [of v s] show ?thesis by (cases "f s") (auto simp: cut_off_def split: sum.splits)
  qed
qed simp

lemma readValue_no_line: "resp_line s = None \<Longrightarrow> cut_off (readValue d s)"
  by (cases d) (auto simp: cut_off_def)

lemma readValue_cut: "fits d v \<Longrightarrow> strict_prefix s (serialise v) \<Longrightarrow> cut_off (readValue d s)"
proof (induction d arbitrary: v s)
  case (Suc d)
  have head: "resp_line ((t # itoa n) @ crlf @ q) = Some ((t # itoa n) @ crlf, q)"
      "trim_right resp_eol ((t # itoa n) @ crlf) = t # itoa n" if "\<not> resp_eol t" for t n q
    using readValue_head [of t "itoa n" q] no_eol_itoa [of n] that by (auto simp: no_eol_def)
  have line: "no_eol (t # itoa n)" if "\<not> resp_eol t" for t n using no_eol_itoa that by (simp add: no_eol_def)
  show ?case
  proof (cases v)
    case RNil
    have "no_eol ''$-1''" by (simp add: no_eol_def resp_eol_def)
    from strict_prefix_line [OF this, of s "[]"] Suc.prems RNil show ?thesis
      by (auto simp del: readValue.simps intro: readValue_no_line)
  next
    case (RInt n)
    from strict_prefix_line [OF line [of "CHR '':''" n], of s "[]"] Suc.prems RInt show ?thesis
      by (auto simp del: readValue.simps simp: resp_eol_def intro: readValue_no_line)
  next
    case (RStr a)
    with Suc.prems have l: "int (length a) \<le> maxBulkLen" by simp
    then have i: "in_int64 (int (length a))" by (intro in_int64_small) (auto simp: maxBulkLen_def)
    from strict_prefix_line [OF line [of "CHR ''$''" "int (length a)"], of s "a @ crlf"] Suc.prems RStr
    consider "resp_line s = None"
      | s' where "s = (CHR ''$'' # itoa (int (length a))) @ crlf @ s'" "strict_prefix s' (a @ crlf)"
      by (auto simp: encode_bulk_def resp_eol_def)
    then show ?thesis
    proof cases
      case 2
      from prefix_length_less [OF 2(2)] have "readBulk (length a) s' = (Inl (Transport ''unexpected EOF''), [])"
        by (simp add: readBulk_def)
      with head(1) [of "CHR ''$''" "int (length a)" s'] head(2) [of "CHR ''$''" "int (length a)"] l i show ?thesis
        by (simp add: 2(1) cut_off_def atoi_itoa resp_eol_def)
    qed (rule readValue_no_line)
  next
    case (RArr vs)
    with Suc.prems have l: "int (length vs) \<le> maxArrayLen" and f: "list_all (fits d) vs" by auto
    then have i: "in_int64 (int (length vs))" by (intro in_int64_small) (auto simp: maxArrayLen_def)
    from strict_prefix_line [OF line [of "CHR ''*''" "int (length vs)"], of s "concat (map serialise vs)"] Suc.prems RArr
    consider "resp_line s = None"
      | s' where "s = (CHR ''*'' # itoa (int (length vs))) @ crlf @ s'" "strict_prefix s' (concat (map serialise vs))"
      by (auto simp: resp_eol_def)
    then show ?thesis
    proof cases
      case 2
      have "\<exists>m. fst (read_elems (readValue d) (length vs) s') = Inl (Transport m)"
        using f by (intro read_elems_cut 2(2)) (auto simp: list_all_iff readValue_serialise intro: Suc.IH)
      then obtain m r where "read_elems (readValue d) (length vs) s' = (Inl (Transport m), r)" by (metis prod.collapse)
      with head(1) [of "CHR ''*''" "int (length vs)" s'] head(2) [of "CHR ''*''" "int (length vs)"] l i show ?thesis
        by (simp add: 2(1) cut_off_def atoi_itoa resp_eol_def)
    qed (rule readValue_no_line)
  qed
qed simp

section \<open>A caller gets its own answer\<close>

text \<open>The server writes one answer per command, whole, and nothing else; only when it arrives is open.\<close>

definition one_answer :: "'n net \<Rightarrow> (string \<Rightarrow> 'n \<Rightarrow> redis_error + resp) \<Rightarrow> bool" where
  "one_answer nt answer \<longleftrightarrow> (\<forall>i b n early late n'. arrives nt i b n = (Some (early, late), n') \<longrightarrow>
     early @ late = wire (answer b n) \<and> answerable (answer b n))"

text \<open>Nothing is left to read on a pooled connection, and there are no more than the pool holds.\<close>

definition in_sync :: "client \<Rightarrow> bool" where
  "in_sync cl \<longleftrightarrow> (\<forall>c \<in> set (idle cl). pending c = []) \<and> length (idle cl) \<le> cap cl"

lemma wire_read:
  assumes "answerable r"
  shows "resp_readReply (wire r) = (r, [])"
proof (cases r)
  case (Inr v)
  with assms show ?thesis using readValue_serialise [of _ v "[]"]
    by (simp add: answerable_def resp_readReply_def del: readValue.simps)
next
  case (Inl e)
  with assms obtain m where m: "r = Inl (RedisError m)" "no_eol m" by (cases e) (auto simp: answerable_def)
  then have "no_eol (CHR ''-'' # m)" by (simp add: no_eol_def resp_eol_def)
  from readValue_head [OF this, of "[]"] m show ?thesis by (simp add: resp_readReply_def)
qed

lemma wire_cut:
  assumes "answerable r" "early @ late = wire r" "late \<noteq> []"
  shows "cut_off (resp_readReply early)"
proof -
  have sp: "strict_prefix early (wire r)" using assms(2,3) by (metis append_self_conv prefixI strict_prefix_def)
  show ?thesis
  proof (cases r)
    case (Inr v)
    with assms(1) sp readValue_cut show ?thesis by (auto simp: answerable_def resp_readReply_def simp del: readValue.simps)
  next
    case (Inl e)
    with assms(1) obtain m where m: "r = Inl (RedisError m)" "no_eol m" by (cases e) (auto simp: answerable_def)
    then have "no_eol (CHR ''-'' # m)" by (simp add: no_eol_def resp_eol_def)
    from strict_prefix_line [OF this, of early "[]"] sp m show ?thesis
      unfolding resp_readReply_def by (auto simp del: readValue.simps intro: readValue_no_line)
  qed
qed

lemma get_conn_in_sync:
  assumes "get_conn nt (cl, n) = (c, cl', n')" "in_sync cl"
  shows "in_sync cl' \<and> (case c of None \<Rightarrow> True | Some c \<Rightarrow> pending c = [])"
  using assms by (auto simp: get_conn_def in_sync_def split: if_splits prod.splits bool.splits) (auto dest: in_set_butlastD)

lemma Do_step:
  assumes "Do nt args (cl, n) = (r, cl', n')" "in_sync cl" "one_answer nt answer"
  shows "in_sync cl' \<and> ((\<exists>m. r = Inl (Transport m)) \<or>
    (\<exists>i k early late. arrives nt i (encode args) k = (Some (early, late), n') \<and> r = answer (encode args) k))"
proof -
  obtain oc cl1 n1 where g: "get_conn nt (cl, n) = (oc, cl1, n1)" by (metis prod.exhaust)
  note s1 = get_conn_in_sync [OF g assms(2)]
  show ?thesis
  proof (cases oc)
    case None
    with g assms(1) s1 show ?thesis by (auto simp: Do_def)
  next
    case (Some c)
    obtain ok n2 where d: "deadline_ok nt n1 = (ok, n2)" by fastforce
    obtain a n3 where w: "arrives nt (cid c) (encode args) n2 = (a, n3)" by fastforce
    show ?thesis
    proof (cases "ok \<and> a \<noteq> None")
      case False
      with Some g d w assms(1) s1 show ?thesis by (cases ok; cases a) (auto simp: Do_def)
    next
      case True
      then obtain early late where a: "a = Some (early, late)" and ok by auto
      obtain r1 rest where rd: "resp_readReply early = (r1, rest)" by fastforce
      have out: "r = r1" "cl' = put_conn (c\<lparr>pending := rest @ late\<rparr>) r1 cl1" "n' = n3"
        using assms(1) g d w s1 a rd \<open>ok\<close> Some by (auto simp: Do_def)
      have law: "early @ late = wire (answer (encode args) n2)" "answerable (answer (encode args) n2)"
        using assms(3) w a unfolding one_answer_def by blast+
      show ?thesis
      proof (cases "late = []")
        case True
        with law wire_read [OF law(2)] rd have r1: "r1 = answer (encode args) n2" "rest = []" by auto
        with s1 True have "in_sync (put_conn (c\<lparr>pending := rest @ late\<rparr>) r1 cl1)"
          by (auto simp: put_conn_def in_sync_def split: sum.split redis_error.split)
        with out r1 w a show ?thesis by blast
      next
        case False
        with wire_cut [OF law(2) law(1)] rd obtain m where "r1 = Inl (Transport m)" by (auto simp: cut_off_def)
        with out s1 show ?thesis by (auto simp: put_conn_def)
      qed
    qed
  qed
qed

text \<open>A sequence of commands, with the answers in order.\<close>

fun Dos :: "'n net \<Rightarrow> string list list \<Rightarrow> client \<times> 'n \<Rightarrow> (redis_error + resp) list \<times> client \<times> 'n" where
  "Dos nt [] x = ([], x)"
| "Dos nt (c # cs) x = (case Do nt c x of (r, x) \<Rightarrow> case Dos nt cs x of (rs, x) \<Rightarrow> (r # rs, x))"

lemma Dos_in_sync: "in_sync (fst x) \<Longrightarrow> one_answer nt answer \<Longrightarrow> in_sync (fst (snd (Dos nt cs x)))"
proof (induction cs arbitrary: x)
  case (Cons c cs)
  obtain r x1 where d: "Do nt c x = (r, x1)" by (metis prod.exhaust)
  then have "Do nt c (fst x, snd x) = (r, fst x1, snd x1)" by simp
  from Do_step [OF this Cons.prems] Cons.IH [OF _ Cons.prems(2), of x1] d show ?case
    by (auto split: prod.split)
qed simp

text \<open>
  C13. A caller of the Redis client gets the answer to its own command, or an error: from a new client,
  after any sequence of commands, dials that failed, deadlines that passed in the middle of a reply and
  replies that came too late, the result of a command is a transport error or what the server answered
  to that very command, and no connection kept for reuse has anything left to read. The server is one
  that answers each command once, with one value within the reader's bounds and without an error inside an array, or with
  one error line. (What an error inside an array does is \<open>nested_error_crosses_answers\<close>.)
\<close>

theorem own_answers:
  assumes "one_answer nt answer"
    and "Dos nt cs (New_client Addr Timeout PoolSize, n) = (rs, x)" "Do nt c x = (r, cl, n')"
  shows "((\<exists>m. r = Inl (Transport m)) \<or>
      (\<exists>i k early late. arrives nt i (encode c) k = (Some (early, late), n') \<and> r = answer (encode c) k)) \<and>
    (\<forall>c \<in> set (idle cl). pending c = []) \<and> length (idle cl) \<le> cap cl"
proof -
  have "in_sync (New_client Addr Timeout PoolSize)" by (simp add: in_sync_def New_client_def Let_def)
  then have "in_sync (fst x)"
    using Dos_in_sync [of "(New_client Addr Timeout PoolSize, n)" nt answer cs] assms(1,2) by simp
  then show ?thesis
    using Do_step [of nt c "fst x" "snd x" r cl n' answer] assms(1,3) by (simp add: in_sync_def)
qed

text \<open>A server that answers PONG, the second time in two halves.\<close>

definition pong_net :: "nat net" where
  "pong_net = \<lparr>dial_ok = (\<lambda>n. (True, n)), deadline_ok = (\<lambda>n. (True, n)),
     arrives = (\<lambda>i b n. (Some (if n = 1 then (take 3 (wire (Inr (RStr ''PONG''))), drop 3 (wire (Inr (RStr ''PONG''))))
                          else (wire (Inr (RStr ''PONG'')), [])), Suc n))\<rparr>"

lemma pong_answers: "one_answer pong_net (\<lambda>_ _. Inr (RStr ''PONG''))"
proof -
  have "fits (Suc maxDepth) (RStr ''PONG'')" by (simp add: maxBulkLen_def)
  then show ?thesis
    unfolding one_answer_def pong_net_def answerable_def by (auto simp del: wire.simps split: if_splits)
qed

lemma pong_run:
  "fst (Dos pong_net [[''PING''], [''PING'']] (New_client [] 0 0, 0)) = [Inr (RStr ''PONG''), Inl (Transport ''EOF'')]"
  by code_simp

theorem own_answers_witness:
  "((\<exists>m. fst (Do pong_net [''PING''] (snd (Dos pong_net [[''PING''], [''PING'']] (New_client [] 0 0, 0)))) = Inl (Transport m)) \<or>
    fst (Do pong_net [''PING''] (snd (Dos pong_net [[''PING''], [''PING'']] (New_client [] 0 0, 0)))) = Inr (RStr ''PONG'')) \<and>
   fst (Dos pong_net [[''PING''], [''PING'']] (New_client [] 0 0, 0)) = [Inr (RStr ''PONG''), Inl (Transport ''EOF'')]"
proof -
  let ?x = "Dos pong_net [[''PING''], [''PING'']] (New_client [] 0 0, 0)"
  let ?y = "Do pong_net [''PING''] (snd ?x)"
  have "?x = (fst ?x, snd ?x)" "?y = (fst ?y, fst (snd ?y), snd (snd ?y))" by simp_all
  from own_answers [OF pong_answers this] pong_run show ?thesis by blast
qed

text \<open>
  An error inside an array breaks the pool: the reader stops at it and leaves the rest of the array
  unread, the client takes the error for one of the command and keeps the connection, and the next
  command gets the rest of the array as its answer, whatever the server answers.
\<close>

theorem nested_error_crosses_answers:
  assumes "idle cl = []" "0 < cap cl" "dial_ok nt n = (True, n1)" "deadline_ok nt n1 = (True, n2)"
    and "arrives nt (dialled cl) (encode args) n2 = (Some (''*2'' @ crlf @ ''-'' @ m @ crlf @ serialise v, []), n3)"
    and "no_eol m" "fits (Suc maxDepth) v"
    and "deadline_ok nt n3 = (True, n4)" "arrives nt (dialled cl) (encode args') n4 = (Some (early, late), n5)"
  shows "\<exists>cl' cl''. Do nt args (cl, n) = (Inl (RedisError m), cl', n3) \<and> Do nt args' (cl', n3) = (Inr v, cl'', n5)"
proof -
  have two: "no_eol ''*2''" by (simp add: no_eol_def resp_eol_def)
  have "atoi ''2'' = Some 2" by code_simp
  moreover have "no_eol (CHR ''-'' # m)" using assms(6) by (simp add: no_eol_def resp_eol_def)
  ultimately have r1: "resp_readReply (''*2'' @ crlf @ ''-'' @ m @ crlf @ serialise v) = (Inl (RedisError m), serialise v)"
    using readValue_head [OF two, of "''-'' @ m @ crlf @ serialise v"] readValue_head [of "CHR ''-''" m "serialise v"]
    by (simp add: resp_readReply_def maxDepth_def maxArrayLen_def numeral_eq_Suc)
  have r2: "resp_readReply (serialise v @ early) = (Inr v, early)"
    using readValue_serialise [OF assms(7)] by (simp only: resp_readReply_def)
  show ?thesis
    using assms(1-5,8,9) r1 r2 by (auto simp: Do_def get_conn_def put_conn_def)
qed

section \<open>Scripts\<close>

text \<open>What Redis documents of scripts: \<open>EVALSHA\<close> of a script it has is \<open>EVAL\<close> of it; otherwise it answers
  NOSCRIPT and does nothing.\<close>

definition runs_scripts :: "'s redis \<Rightarrow> (string \<Rightarrow> string) \<Rightarrow> bool" where
  "runs_scripts run sha1_hex \<longleftrightarrow> (\<forall>b keys args s.
     run (eval_args ''EVALSHA'' (sha1_hex b) keys args) s = run (eval_args ''EVAL'' b keys args) s \<or>
     (\<exists>m. run (eval_args ''EVALSHA'' (sha1_hex b) keys args) s = (Inl (RedisError (''NOSCRIPT'' @ m)), s)))"

text \<open>
  C22. Sending a script by its digest is sending the script: whether or not the server has it cached, one
  \<open>Run\<close> has the result and the effect of one \<open>EVAL\<close> of its body. (The script itself does not answer NOSCRIPT.)
\<close>

theorem Run_is_EVAL:
  assumes "runs_scripts run sha1_hex"
    and "\<And>m. fst (run (eval_args ''EVAL'' b keys args) s) \<noteq> Inl (RedisError (''NOSCRIPT'' @ m))"
  shows "Run run (NewScript sha1_hex b) keys args s = run (eval_args ''EVAL'' b keys args) s"
proof -
  let ?x = "run (eval_args ''EVAL'' b keys args) s"
  consider "run (eval_args ''EVALSHA'' (sha1_hex b) keys args) s = ?x"
    | m where "run (eval_args ''EVALSHA'' (sha1_hex b) keys args) s = (Inl (RedisError (''NOSCRIPT'' @ m)), s)"
    using assms(1) unfolding runs_scripts_def by blast
  then show ?thesis
  proof cases
    case 1
    have "\<not> has_prefix m ''NOSCRIPT''" if "fst ?x = Inl (RedisError m)" for m
      using assms(2) that by (auto simp: has_prefix_iff prefix_def)
    with 1 show ?thesis
      by (cases ?x) (auto simp: Run_def NewScript_def split: sum.splits redis_error.splits)
  next
    case 2
    then show ?thesis by (simp add: Run_def NewScript_def has_prefix_def)
  qed
qed

text \<open>A server that counts how often it ran a script and has none cached at first.\<close>

definition counting_server :: "(nat \<times> bool) redis" where
  "counting_server cmd s =
     (case s of (k, cached) \<Rightarrow>
        if hd cmd = ''EVALSHA'' \<and> \<not> cached then (Inl (RedisError ''NOSCRIPT No matching script.''), s)
        else (Inr (RInt (int (Suc k))), (Suc k, cached)))"

theorem Run_is_EVAL_witness:
  "Run counting_server (NewScript (\<lambda>b. b) ''return 1'') [''k''] [''1''] (0, False) = (Inr (RInt 1), (1, False)) \<and>
   Run counting_server (NewScript (\<lambda>b. b) ''return 1'') [''k''] [''1''] (0, True) = (Inr (RInt 1), (1, True))"
proof -
  have r: "runs_scripts counting_server (\<lambda>b. b)"
    unfolding runs_scripts_def counting_server_def eval_args_def by (auto split: prod.splits)
  show ?thesis
    using Run_is_EVAL [OF r, of "''return 1''" "[''k'']" "[''1'']" "(0, False)"]
      Run_is_EVAL [OF r, of "''return 1''" "[''k'']" "[''1'']" "(0, True)"]
    by (simp add: counting_server_def eval_args_def)
qed

end
