(* ===== verification/Limiter.thy ===== *)
theory Limiter
  imports Resp Complex_Main
begin

text \<open>
  The shared limits of \<open>internal/limiter\<close>: the token bucket (\<open>limiter.go\<close> with its script
  \<open>token_bucket.lua\<close>) and the session leases (\<open>lease.go\<close> with \<open>lease.lua\<close>).

  A script is one atomic step of the store, so it is a function from the value under its key to
  the reply and the new value. Rates, token counts and times are exact rationals: the code computes
  them in float64. A key carries the time at which the store drops it. For the bucket the server's clock
  and the callers' are one clock; for the leases they are two.

  The locale \<open>token_source\<close> states what makes a bucket a rate limit and proves, once, the bound
  on what it grants over any window; the script is an interpretation of it. The locale
  \<open>lease_pool\<close> does the same for the leases.
\<close>

section \<open>The token bucket\<close>

record bucket =
  tokens :: rat
  ts :: rat
  drop_at :: rat

text \<open>What the script reads under the key at time \<open>now\<close>: nothing once the key has expired.\<close>

definition bucket_at :: "rat \<Rightarrow> bucket option \<Rightarrow> bucket option" where
  "bucket_at now b = (case b of Some v \<Rightarrow> if now < drop_at v then Some v else None | None \<Rightarrow> None)"

text \<open>The tokens after the refill at \<open>now\<close>.\<close>

definition refilled :: "rat \<Rightarrow> rat \<Rightarrow> rat \<Rightarrow> bucket option \<Rightarrow> rat" where
  "refilled rate burst now b =
     (case bucket_at now b of
        None \<Rightarrow> min burst (burst + max 0 (now - now) * rate)
      | Some v \<Rightarrow> min burst (tokens v + max 0 (now - ts v) * rate))"

text \<open>\<open>token_bucket.lua\<close>: what was allowed, the tokens left, the seconds to wait, the new value.\<close>

definition token_bucket ::
  "rat \<Rightarrow> rat \<Rightarrow> rat \<Rightarrow> rat \<Rightarrow> bucket option \<Rightarrow> (bool \<times> rat \<times> rat) \<times> bucket option" where
  "token_bucket rate burst now want b =
     (let t = refilled rate burst now b;
          allowed = (t \<ge> want);
          t' = (if allowed then t - want else t);
          retry = (if allowed then 0 else (want - t) / rate)
      in ((allowed, t', retry), Some \<lparr>tokens = t', ts = now, drop_at = now + 3600\<rparr>))"

section \<open>Taking a token\<close>

text \<open>\<open>Key\<close>.\<close>

definition Key :: "string \<Rightarrow> string" where
  "Key mxHost = ''rt:mx:'' @ mxHost @ '':bucket''"

record decision =
  Allowed :: bool
  Tokens :: rat
  RetryAfter :: duration

text \<open>\<open>strconv.ParseFloat\<close> on decimal notation, with a fraction and an exponent. The spellings
  of infinities, NaN and hexadecimal floats have no rational value and are left out.\<close>

definition frac_digits :: "string \<Rightarrow> rat" where
  "frac_digits s = of_nat (digits_value 0 s) / 10 ^ length s"

definition parse_mantissa :: "string \<Rightarrow> rat option" where
  "parse_mantissa s =
     (let (i, r) = (takeWhile is_digit s, dropWhile is_digit s)
      in case r of
           [] \<Rightarrow> if i = [] then None else Some (of_nat (digits_value 0 i))
         | c # f \<Rightarrow>
             if c = CHR ''.'' \<and> list_all is_digit f \<and> i @ f \<noteq> []
             then Some (of_nat (digits_value 0 i) + frac_digits f) else None)"

definition is_exp :: "char \<Rightarrow> bool" where
  "is_exp c \<longleftrightarrow> c = CHR ''e'' \<or> c = CHR ''E''"

definition pow10 :: "int \<Rightarrow> rat" where
  "pow10 e = (if e \<ge> 0 then 10 ^ nat e else 1 / 10 ^ nat (- e))"

definition parse_unsigned :: "string \<Rightarrow> rat option" where
  "parse_unsigned s =
     (case dropWhile (\<lambda>c. \<not> is_exp c) s of
        [] \<Rightarrow> parse_mantissa s
      | _ # e \<Rightarrow>
          (case (parse_mantissa (takeWhile (\<lambda>c. \<not> is_exp c) s), atoi e) of
             (Some m, Some x) \<Rightarrow> Some (m * pow10 x)
           | _ \<Rightarrow> None))"

definition ParseFloat :: "string \<Rightarrow> rat option" where
  "ParseFloat s =
     (case s of
        [] \<Rightarrow> None
      | c # r \<Rightarrow>
          if c = CHR ''-'' then map_option uminus (parse_unsigned r)
          else if c = CHR ''+'' then parse_unsigned r
          else parse_unsigned s)"

definition asFloat :: "resp \<Rightarrow> rat option" where
  "asFloat v = (case v of RStr t \<Rightarrow> ParseFloat t | RInt n \<Rightarrow> Some (of_int n) | _ \<Rightarrow> None)"

text \<open>The conversion of a float to an integer drops the fraction.\<close>

definition truncate_rat :: "rat \<Rightarrow> int" where
  "truncate_rat x = (if x \<ge> 0 then floor x else ceiling x)"

definition parseDecision :: "resp \<Rightarrow> string + decision" where
  "parseDecision raw =
     (case raw of
        RArr [a, t, r] \<Rightarrow>
          (case a of
             RInt allowed \<Rightarrow>
               (case asFloat t of
                  None \<Rightarrow> Inl ''limiter: tokens''
                | Some tk \<Rightarrow>
                    (case asFloat r of
                       None \<Rightarrow> Inl ''limiter: retry_after''
                     | Some rt \<Rightarrow>
                         Inr \<lparr>Allowed = (allowed = 1), Tokens = tk,
                              RetryAfter = truncate_rat (rt * of_int second)\<rparr>))
           | _ \<Rightarrow> Inl ''limiter: allowed is not an integer'')
      | _ \<Rightarrow> Inl ''limiter: unexpected reply'')"

text \<open>\<open>Take\<close>. The store is a parameter: \<open>run key rate burst now want\<close> is the script run under
  \<open>key\<close> with its arguments.\<close>

definition Take ::
  "(string \<Rightarrow> rat \<Rightarrow> rat \<Rightarrow> rat \<Rightarrow> rat \<Rightarrow> 's \<Rightarrow> (redis_error + resp) \<times> 's) \<Rightarrow>
   string \<Rightarrow> rat \<Rightarrow> rat \<Rightarrow> rat \<Rightarrow> 's \<Rightarrow> (string + decision) \<times> 's" where
  "Take run mxHost rate burst now s =
     (if mxHost = [] then (Inl ''limiter: mx host is empty'', s)
      else if rate \<le> 0 \<or> burst \<le> 0 then (Inl ''limiter: rate and burst must be positive'', s)
      else (case run (Key mxHost) rate burst now 1 s of
              (Inl e, s') \<Rightarrow> (Inl ''limiter: take'', s')
            | (Inr raw, s') \<Rightarrow> (parseDecision raw, s')))"

text \<open>A store of buckets that runs the script under its keys. Lua writes the numbers it returns
  with \<open>fmt\<close>, which may round.\<close>

definition bucket_store ::
  "(rat \<Rightarrow> string) \<Rightarrow> string \<Rightarrow> rat \<Rightarrow> rat \<Rightarrow> rat \<Rightarrow> rat \<Rightarrow> (string \<Rightarrow> bucket option) \<Rightarrow>
   (redis_error + resp) \<times> (string \<Rightarrow> bucket option)" where
  "bucket_store fmt key rate burst now want s =
     (case token_bucket rate burst now want (s key) of
        ((allowed, t, retry), b) \<Rightarrow>
          (Inr (RArr [RInt (if allowed then 1 else 0), RStr (fmt t), RStr (fmt retry)]), s(key := b)))"

section \<open>A rate limit as a contract\<close>

text \<open>
  A request is its time with a rate and a burst. \<open>level\<close> is what the source could grant at once at
  a given time. The laws: the level stays between zero and the cap, a request never takes it above
  what the rate gives in the elapsed time, and a grant costs one.
\<close>

locale token_source =
  fixes ask :: "'r \<Rightarrow> 's \<Rightarrow> bool \<times> 's"
    and clock :: "'r \<Rightarrow> rat"
    and ok :: "'r \<Rightarrow> bool"
    and inv :: "rat \<Rightarrow> 's \<Rightarrow> bool"
    and level :: "'s \<Rightarrow> rat"
    and cap :: rat
    and speed :: rat
  assumes ask_inv: "ok r \<Longrightarrow> inv t s \<Longrightarrow> t \<le> clock r \<Longrightarrow> inv (clock r) (snd (ask r s))"
    and ask_level: "ok r \<Longrightarrow> inv t s \<Longrightarrow> t \<le> clock r \<Longrightarrow>
      level (snd (ask r s)) \<le> level s + speed * (clock r - t) - (if fst (ask r s) then 1 else 0)"
    and ask_cap: "ok r \<Longrightarrow> inv t s \<Longrightarrow> t \<le> clock r \<Longrightarrow>
      level (snd (ask r s)) \<le> cap - (if fst (ask r s) then 1 else 0)"
    and level_nonneg: "inv t s \<Longrightarrow> 0 \<le> level s"
begin

fun grants :: "'r list \<Rightarrow> 's \<Rightarrow> nat" where
  "grants [] s = 0"
| "grants (r # rs) s = (if fst (ask r s) then 1 else 0) + grants rs (snd (ask r s))"

lemma grants_level:
  assumes "inv t s" "sorted (t # map clock rs)" "list_all ok rs"
  shows "of_nat (grants rs s) \<le> level s + speed * (last (t # map clock rs) - t)"
  using assms
proof (induction rs arbitrary: t s)
  case (Cons r rs)
  let ?s = "snd (ask r s)"
  from Cons.prems have le: "t \<le> clock r" and ok: "ok r" by auto
  note step = ask_inv [OF ok Cons.prems(1) le] ask_level [OF ok Cons.prems(1) le]
  have "of_nat (grants rs ?s) \<le> level ?s + speed * (last (clock r # map clock rs) - clock r)"
    using Cons.prems step(1) by (intro Cons.IH) auto
  moreover have "speed * (last (clock r # map clock rs) - clock r) + speed * (clock r - t) =
      speed * (last (clock r # map clock rs) - t)"
    by (simp add: algebra_simps)
  ultimately show ?case using step(2) by (auto split: if_splits)
qed (use level_nonneg in simp)

text \<open>Over any run of requests: no more than the cap and what the speed gives from the first to the
  last.\<close>

lemma grants_bound:
  assumes "inv t s" "sorted (t # map clock (r # rs))" "list_all ok (r # rs)"
  shows "of_nat (grants (r # rs) s) \<le> cap + speed * (last (map clock (r # rs)) - clock r)"
proof -
  let ?s = "snd (ask r s)"
  have le: "t \<le> clock r" and ok: "ok r" using assms by auto
  have "of_nat (grants rs ?s) \<le> level ?s + speed * (last (clock r # map clock rs) - clock r)"
    using assms ask_inv [OF ok assms(1) le] by (intro grants_level) auto
  with ask_cap [OF ok assms(1) le] show ?thesis by (auto split: if_splits)
qed

end

text \<open>The script as such a source, for requests with rates up to \<open>R\<close> and bursts up to \<open>B\<close>.\<close>

record take_request =
  req_at :: rat
  req_rate :: rat
  req_burst :: rat

definition take_step :: "take_request \<Rightarrow> bucket option \<Rightarrow> bool \<times> bucket option" where
  "take_step r b =
     (case token_bucket (req_rate r) (req_burst r) (req_at r) 1 b of ((a, _, _), b') \<Rightarrow> (a, b'))"

text \<open>How many of a sequence of requests the script grants.\<close>

fun granted :: "take_request list \<Rightarrow> bucket option \<Rightarrow> nat" where
  "granted [] b = 0"
| "granted (r # rs) b = (case take_step r b of (a, b') \<Rightarrow> (if a then 1 else 0) + granted rs b')"

definition req_ok :: "rat \<Rightarrow> rat \<Rightarrow> take_request \<Rightarrow> bool" where
  "req_ok R B r \<longleftrightarrow> 0 < req_rate r \<and> req_rate r \<le> R \<and> 0 < req_burst r \<and> req_burst r \<le> B"

text \<open>A bucket last written at \<open>t\<close>, kept long enough that dropping it gives nothing away.\<close>

definition bucket_inv :: "rat \<Rightarrow> rat \<Rightarrow> rat \<Rightarrow> bucket option \<Rightarrow> bool" where
  "bucket_inv R B t b \<longleftrightarrow> 0 \<le> B \<and> B \<le> 3600 * R \<and>
     (case b of None \<Rightarrow> True
      | Some v \<Rightarrow> 0 \<le> tokens v \<and> ts v = t \<and> drop_at v = t + 3600)"

definition bucket_level :: "rat \<Rightarrow> bucket option \<Rightarrow> rat" where
  "bucket_level B b = (case b of None \<Rightarrow> B | Some v \<Rightarrow> tokens v)"

lemma refilled_cap: "0 < rate \<Longrightarrow> refilled rate burst now b \<le> burst"
  by (simp add: refilled_def split: option.split)

lemma refilled_nonneg:
  "0 < rate \<Longrightarrow> 0 < burst \<Longrightarrow> bucket_inv R B t b \<Longrightarrow> 0 \<le> refilled rate burst now b"
  by (auto simp: refilled_def bucket_at_def bucket_inv_def split: option.splits if_splits)

lemma refilled_level:
  assumes "req_ok R B r" "bucket_inv R B t b" "t \<le> req_at r"
  shows "refilled (req_rate r) (req_burst r) (req_at r) b \<le> bucket_level B b + R * (req_at r - t)"
proof (cases b)
  case None
  with assms show ?thesis
    by (simp add: refilled_def bucket_at_def bucket_level_def req_ok_def)
      (meson add_increasing2 diff_ge_0_iff_ge less_le_trans less_imp_le mult_nonneg_nonneg)
next
  case (Some v)
  from assms Some have v: "0 \<le> tokens v" "ts v = t" "drop_at v = t + 3600"
    and r: "0 < req_rate r" "req_rate r \<le> R" "req_burst r \<le> B" "B \<le> 3600 * R"
    by (auto simp: bucket_inv_def req_ok_def)
  show ?thesis
  proof (cases "req_at r < t + 3600")
    case True
    have "(req_at r - t) * req_rate r \<le> R * (req_at r - t)"
      using r assms(3) by (simp add: mult.commute [of R] mult_left_mono)
    with True Some v assms(3) show ?thesis
      by (simp add: refilled_def bucket_at_def bucket_level_def min_le_iff_disj)
  next
    case False
    then have "3600 * R \<le> R * (req_at r - t)" using r by (simp add: mult.commute [of R] mult_right_mono)
    then have "req_burst r \<le> R * (req_at r - t)" using r by linarith
    with False Some v show ?thesis
      by (simp add: refilled_def bucket_at_def bucket_level_def min_le_iff_disj add_increasing)
  qed
qed

lemma take_step_eq:
  "take_step r b = (1 \<le> refilled (req_rate r) (req_burst r) (req_at r) b,
     Some \<lparr>tokens = refilled (req_rate r) (req_burst r) (req_at r) b
             - (if 1 \<le> refilled (req_rate r) (req_burst r) (req_at r) b then 1 else 0),
           ts = req_at r, drop_at = req_at r + 3600\<rparr>)"
  by (simp add: take_step_def token_bucket_def Let_def)

interpretation script: token_source take_step req_at "req_ok R B" "bucket_inv R B" "bucket_level B" B R
  for R B
proof
  fix r t s assume a: "req_ok R B r" "bucket_inv R B t s" "t \<le> req_at r"
  note r = a(1) [unfolded req_ok_def]
  show "bucket_inv R B (req_at r) (snd (take_step r s))"
    using refilled_nonneg [OF _ _ a(2)] r a(2) by (simp add: take_step_eq bucket_inv_def)
  show "bucket_level B (snd (take_step r s))
      \<le> bucket_level B s + R * (req_at r - t) - (if fst (take_step r s) then 1 else 0)"
    using refilled_level [OF a] by (simp add: take_step_eq bucket_level_def [of B "Some _"])
  show "bucket_level B (snd (take_step r s)) \<le> B - (if fst (take_step r s) then 1 else 0)"
    using refilled_cap [of "req_rate r" "req_burst r" "req_at r" s] r
    by (simp add: take_step_eq bucket_level_def [of B "Some _"])
next
  fix t s assume "bucket_inv R B t s"
  then show "0 \<le> bucket_level B s"
    by (auto simp: bucket_inv_def bucket_level_def split: option.split)
qed

lemma granted_grants: "granted rs b = script.grants rs b"
  by (induction rs arbitrary: b) (simp_all split: prod.split)

text \<open>
  C5. The shared bucket is a rate limit. Whatever nodes ask under one key, with rates of at most
  \<open>R\<close> and bursts of at most \<open>B\<close>, and whatever the bucket held, the script grants over any window of
  requests at most \<open>B\<close> tokens and \<open>R\<close> per second of the window, as long as all clocks are one clock and the requests
  reach the script in its order. A bucket so slow that an hour does not fill it is dropped before it is full:
  then it is \<open>B\<close> per hour instead of \<open>R\<close> per second.
\<close>

theorem bucket_is_rate_limit:
  assumes "sorted (ts0 # map req_at (r # rs))" "list_all (req_ok R B) (r # rs)"
    and "b = None \<or> (\<exists>k. 0 \<le> k \<and> b = Some \<lparr>tokens = k, ts = ts0, drop_at = ts0 + 3600\<rparr>)"
  shows "of_nat (granted (r # rs) b) \<le> B + max R (B / 3600) * (last (map req_at (r # rs)) - req_at r)"
proof -
  let ?R = "max R (B / 3600)"
  from assms(2) have "0 \<le> B" by (auto simp: req_ok_def)
  moreover have "B \<le> 3600 * ?R" using max.cobounded2 [of "B / 3600" R] by linarith
  ultimately have "bucket_inv ?R B ts0 b" using assms(3) by (auto simp: bucket_inv_def)
  moreover have "list_all (req_ok ?R B) (r # rs)" using assms(2) by (auto simp: list_all_iff req_ok_def)
  ultimately show ?thesis using script.grants_bound [OF _ assms(1)] by (simp only: granted_grants)
qed

theorem bucket_is_rate_limit_witness:
  "of_nat (granted (map (\<lambda>t. \<lparr>req_at = t, req_rate = 1/2, req_burst = 1\<rparr>) [100, 101, 102, 103]) None)
    \<le> (1 :: rat) + 1/2 * (103 - 100)"
  using bucket_is_rate_limit [of 100 "\<lparr>req_at = 100, req_rate = 1/2, req_burst = 1\<rparr>"
      "map (\<lambda>t. \<lparr>req_at = t, req_rate = 1/2, req_burst = 1\<rparr>) [101, 102, 103]" "1/2" 1 None]
  by (simp add: req_ok_def max_def)

text \<open>Out of clock order the bound fails: the script writes the caller's time even when it is earlier
  than the one it read, so two nodes whose clocks differ by \<open>d\<close> refill the bucket on every
  alternation.\<close>

definition skewed :: "rat \<Rightarrow> rat \<Rightarrow> nat \<Rightarrow> take_request list" where
  "skewed t d n = concat (replicate n
     [\<lparr>req_at = t, req_rate = 1, req_burst = 1\<rparr>, \<lparr>req_at = t - d, req_rate = 1, req_burst = 1\<rparr>])"

lemma granted_skewed:
  "0 \<le> k \<Longrightarrow> k \<le> 1 \<Longrightarrow> 1 \<le> d \<Longrightarrow> d < 3600 \<Longrightarrow>
   granted (skewed t d n) (Some \<lparr>tokens = k, ts = t - d, drop_at = t - d + 3600\<rparr>) \<ge> n"
proof (induction n arbitrary: k)
  case (Suc n)
  have "refilled 1 1 t (Some \<lparr>tokens = k, ts = t - d, drop_at = t - d + 3600\<rparr>) = 1"
    using Suc.prems by (simp add: refilled_def bucket_at_def)
  moreover have "refilled 1 1 (t - d) (Some \<lparr>tokens = 0, ts = t, drop_at = t + 3600\<rparr>) = 0"
    using Suc.prems by (simp add: refilled_def bucket_at_def)
  ultimately show ?case
    using Suc.IH [of 0] Suc.prems by (simp add: skewed_def take_step_eq)
qed simp

text \<open>
  The order of the clocks is needed: for two nodes whose clocks are at least one second apart,
  there are sequences of requests, all at the two clock values, on which the script grants as many
  tokens as one likes at a rate of one per second and a burst of one.
\<close>

theorem skewed_clocks_overdraw:
  assumes "1 \<le> d" "d < 3600"
  shows "\<exists>rs. list_all (req_ok 1 1) rs \<and> (\<forall>r. List.member rs r \<longrightarrow> req_at r \<in> {t - d, t})
    \<and> n \<le> granted rs (Some \<lparr>tokens = 0, ts = t - d, drop_at = t - d + 3600\<rparr>)"
proof (intro exI conjI)
  show "n \<le> granted (skewed t d n) (Some \<lparr>tokens = 0, ts = t - d, drop_at = t - d + 3600\<rparr>)"
    using assms by (intro granted_skewed) auto
  show "list_all (req_ok 1 1) (skewed t d n)"
    by (auto simp: skewed_def list_all_iff req_ok_def)
  show "\<forall>r. List.member (skewed t d n) r \<longrightarrow> req_at r \<in> {t - d, t}"
    by (auto simp: skewed_def)
qed

theorem skewed_clocks_overdraw_witness:
  "\<exists>rs. list_all (req_ok 1 1) rs \<and> (\<forall>r. List.member rs r \<longrightarrow> req_at r \<in> {1000 - 2, 1000})
    \<and> 50 \<le> granted rs (Some \<lparr>tokens = 0, ts = 1000 - 2, drop_at = 1000 - 2 + 3600\<rparr>)"
  by (rule skewed_clocks_overdraw) simp_all

text \<open>
  \<open>Take\<close> reports exactly what the script decided, whatever rounding Lua prints its numbers
  with: with a store that answers, the decision allows exactly
  when the script granted the token, and only the bucket of that host is written.
\<close>

theorem Take_reports_script:
  assumes "mxHost \<noteq> []" "0 < rate" "0 < burst" "\<And>x. \<exists>y. ParseFloat (fmt x) = Some y"
  shows "\<exists>d. Take (bucket_store fmt) mxHost rate burst now s =
      (Inr d, s(Key mxHost := snd (token_bucket rate burst now 1 (s (Key mxHost)))))
    \<and> Allowed d = fst (fst (token_bucket rate burst now 1 (s (Key mxHost))))"
proof -
  obtain a tk rt b where b: "token_bucket rate burst now 1 (s (Key mxHost)) = ((a, tk, rt), b)"
    by (metis prod.exhaust)
  obtain x y where "ParseFloat (fmt tk) = Some x" "ParseFloat (fmt rt) = Some y"
    using assms(4) by blast
  with b assms(1-3) show ?thesis
    by (simp add: Take_def bucket_store_def parseDecision_def asFloat_def)
qed

lemma ParseFloat_itoa: "ParseFloat (itoa n) = Some (of_int n)"
proof -
  have dig: "is_digit c \<Longrightarrow> \<not> is_exp c \<and> c \<noteq> CHR ''-'' \<and> c \<noteq> CHR ''+''" for c
    by (auto simp: is_digit_def is_exp_def)
  have noexp: "dropWhile (\<lambda>c. \<not> is_exp c) (nat_digits k) = []" for k
    using nat_digits_digits [of k] dig by (auto simp: list_all_iff dropWhile_eq_Nil_conv)
  have alldig: "dropWhile is_digit (nat_digits k) = []" "takeWhile is_digit (nat_digits k) = nat_digits k" for k
    using nat_digits_digits [of k] by (auto simp: list_all_iff dropWhile_eq_Nil_conv takeWhile_eq_all_conv)
  have "parse_mantissa (nat_digits k) = Some (of_nat k)" for k
    unfolding parse_mantissa_def alldig by (simp add: digits_value_nat_digits)
  then have uns: "parse_unsigned (nat_digits k) = Some (of_nat k)" for k
    unfolding parse_unsigned_def noexp by simp
  show ?thesis
  proof (cases "n < 0")
    case True
    then show ?thesis by (simp add: ParseFloat_def itoa_def uns)
  next
    case False
    obtain c ds where e: "nat_digits (nat n) = c # ds"
      using nat_digits_ne [of "nat n"] by (cases "nat_digits (nat n)") auto
    then have "c \<noteq> CHR ''-''" "c \<noteq> CHR ''+''" using dig nat_digits_hd [of "nat n"] by auto
    with False e uns [of "nat n"] show ?thesis by (simp add: ParseFloat_def itoa_def)
  qed
qed

theorem Take_reports_script_witness:
  "\<exists>d. Take (bucket_store (\<lambda>x. itoa (truncate_rat x))) ''@google'' (1/2) 1 100 Map.empty =
      (Inr d, Map.empty(Key ''@google'' := snd (token_bucket (1/2) 1 100 1 (Map.empty (Key ''@google'')))))
    \<and> Allowed d = fst (fst (token_bucket (1/2) 1 100 1 (Map.empty (Key ''@google''))))"
  by (rule Take_reports_script) (simp_all add: ParseFloat_itoa)

section \<open>The session leases\<close>

text \<open>The sorted set under a pace key: a lease and its expiry in milliseconds, and the time at which
  the store drops the whole key.\<close>

record lease_set =
  leases :: "(string \<times> int) list"
  set_drop :: int

definition InflightKey :: "string \<Rightarrow> string" where
  "InflightKey paceKey = ''rt:mx:'' @ paceKey @ '':inflight''"

text \<open>The members left at \<open>now\<close>: none once the key is dropped, which happens on the clock of the
  store, otherwise those not expired on the clock of the caller.\<close>

definition lease_live :: "int \<Rightarrow> int \<Rightarrow> lease_set \<Rightarrow> (string \<times> int) list" where
  "lease_live srv now s = (if set_drop s \<le> srv then [] else filter (\<lambda>(_, e). now < e) (leases s))"

text \<open>\<open>lease.lua\<close>, run when the clock of the store is \<open>srv\<close>.\<close>

definition lease_script ::
  "int \<Rightarrow> int \<Rightarrow> int \<Rightarrow> int \<Rightarrow> string \<Rightarrow> lease_set \<Rightarrow> (bool \<times> nat \<times> int) \<times> lease_set" where
  "lease_script srv limit now ttl i s =
     (let live = lease_live srv now s; held = length live
      in if int held < limit
         then ((True, held + 1, 0),
               \<lparr>leases = (i, now + ttl) # filter (\<lambda>(j, _). j \<noteq> i) live, set_drop = srv + ttl\<rparr>)
         else ((False, held, if live = [] then 0 else max 0 (Min (set (map snd live)) - now)),
               s\<lparr>leases := live\<rparr>))"

definition release_script :: "string \<Rightarrow> lease_set \<Rightarrow> lease_set" where
  "release_script i s = s\<lparr>leases := filter (\<lambda>(j, _). j \<noteq> i) (leases s)\<rparr>"

record lease_decision =
  Granted :: bool
  lease_id :: string
  Held :: int
  lease_retry :: duration

text \<open>\<open>Leases.Lease\<close>, over a store that runs the script and a fresh identifier (\<open>None\<close> when the
  random source fails).\<close>

definition Lease ::
  "(string \<Rightarrow> int \<Rightarrow> int \<Rightarrow> int \<Rightarrow> string \<Rightarrow> 's \<Rightarrow> (redis_error + resp) \<times> 's) \<Rightarrow>
   string option \<Rightarrow> string \<Rightarrow> int \<Rightarrow> duration \<Rightarrow> instant \<Rightarrow> 's \<Rightarrow> (string + lease_decision) \<times> 's" where
  "Lease run fresh paceKey limit ttl now s =
     (if paceKey = [] then (Inl ''limiter: pace key is empty'', s)
      else if limit < 1 \<or> ttl \<le> 0 then (Inl ''limiter: lease limit and ttl must be positive'', s)
      else (case fresh of
              None \<Rightarrow> (Inl ''limiter: lease id'', s)
            | Some i \<Rightarrow>
                (case run (InflightKey paceKey) limit (now div millisecond) (ttl div millisecond) i s of
                   (Inl e, s') \<Rightarrow> (Inl ''limiter: lease'', s')
                 | (Inr (RArr [RInt g, RInt h, r]), s') \<Rightarrow>
                     (case asFloat r of
                        None \<Rightarrow> (Inl ''limiter: unexpected lease reply'', s')
                      | Some rt \<Rightarrow>
                          (Inr \<lparr>Granted = (g = 1), lease_id = (if g = 1 then i else []), Held = h,
                                lease_retry = truncate_rat rt * millisecond\<rparr>, s'))
                 | (Inr _, s') \<Rightarrow> (Inl ''limiter: unexpected lease reply'', s'))))"

text \<open>\<open>Leases.Release\<close>: nothing to give back without an identifier.\<close>

definition Release ::
  "(string \<Rightarrow> string \<Rightarrow> 's \<Rightarrow> (redis_error + resp) \<times> 's) \<Rightarrow> string \<Rightarrow> string \<Rightarrow> 's \<Rightarrow> (string + unit) \<times> 's" where
  "Release run paceKey i s =
     (if i = [] then (Inr (), s)
      else (case run (InflightKey paceKey) i s of
              (Inl e, s') \<Rightarrow> (Inl ''limiter: release'', s')
            | (Inr _, s') \<Rightarrow> (Inr (), s')))"


subsection \<open>A bounded pool as a contract\<close>

text \<open>
  A client asks for a lease and gives it back; \<open>held u s\<close> are the leases the pool counts on at time
  \<open>u\<close> of the store. The clock of a client may differ from that of the store by up to \<open>skew\<close>. The laws: the pool
  never counts more than there is room for, a granted lease is counted until \<open>skew\<close> before its end,
  and asking never forgets somebody else's.
\<close>

locale lease_pool =
  fixes ask :: "'i \<Rightarrow> int \<Rightarrow> int \<Rightarrow> 's \<Rightarrow> bool \<times> 's"
    and give :: "'i \<Rightarrow> 's \<Rightarrow> 's"
    and held :: "int \<Rightarrow> 's \<Rightarrow> 'i set"
    and inv :: "int \<Rightarrow> 's \<Rightarrow> bool"
    and life :: int
    and skew :: int
    and room :: nat
  assumes ask_inv: "inv t s \<Longrightarrow> t \<le> srv \<Longrightarrow> \<bar>now - srv\<bar> \<le> skew \<Longrightarrow> inv srv (snd (ask i srv now s))"
    and give_inv: "inv t s \<Longrightarrow> inv t (give i s)"
    and held_room: "inv t s \<Longrightarrow> finite (held u s) \<and> card (held u s) \<le> room"
    and ask_keeps: "inv t s \<Longrightarrow> t \<le> srv \<Longrightarrow> \<bar>now - srv\<bar> \<le> skew \<Longrightarrow> srv \<le> u \<Longrightarrow>
      held u s - (if fst (ask i srv now s) then {i} else {}) \<subseteq> held u (snd (ask i srv now s))"
    and ask_counts: "inv t s \<Longrightarrow> t \<le> srv \<Longrightarrow> \<bar>now - srv\<bar> \<le> skew \<Longrightarrow> fst (ask i srv now s) \<Longrightarrow> srv \<le> u \<Longrightarrow>
      u + skew < now + life \<Longrightarrow> i \<in> held u (snd (ask i srv now s))"
    and give_drops: "inv t s \<Longrightarrow> held u s - {i} \<subseteq> held u (give i s)"
begin

text \<open>The clients' own view: who was granted a lease and until when it lives. The events carry the time of
  the store and that of the client; a give-back ends the client's session.\<close>

fun outstanding :: "('i \<times> int \<times> int \<times> bool) list \<Rightarrow> 's \<Rightarrow> ('i \<rightharpoonup> int) \<Rightarrow> 'i \<rightharpoonup> int" where
  "outstanding [] s h = h"
| "outstanding ((i, srv, now, asks) # es) s h =
     (if asks then outstanding es (snd (ask i srv now s)) (if fst (ask i srv now s) then h(i \<mapsto> now + life) else h)
      else outstanding es (give i s) (h(i := None)))"

definition near :: "'i \<times> int \<times> int \<times> bool \<Rightarrow> bool" where
  "near = (\<lambda>(_, srv, now, _). \<bar>now - srv\<bar> \<le> skew)"

definition tracked :: "int \<Rightarrow> 's \<Rightarrow> ('i \<rightharpoonup> int) \<Rightarrow> bool" where
  "tracked t s h \<longleftrightarrow> (\<forall>i e u. h i = Some e \<longrightarrow> t \<le> u \<longrightarrow> u + skew < e \<longrightarrow> i \<in> held u s)"

lemma tracked_ask:
  assumes "inv t s" "t \<le> srv" "\<bar>now - srv\<bar> \<le> skew" "tracked t s h"
  shows "tracked srv (snd (ask i srv now s)) (if fst (ask i srv now s) then h(i \<mapsto> now + life) else h)"
  unfolding tracked_def
proof (intro allI impI)
  fix j e u
  assume j: "(if fst (ask i srv now s) then h(i \<mapsto> now + life) else h) j = Some e" "srv \<le> u" "u + skew < e"
  show "j \<in> held u (snd (ask i srv now s))"
  proof (cases "fst (ask i srv now s) \<and> j = i")
    case True
    with j ask_counts [OF assms(1-3)] show ?thesis by simp
  next
    case False
    with j(1) have "h j = Some e" by (auto split: if_splits)
    with assms j have "j \<in> held u s" unfolding tracked_def by auto
    with ask_keeps [OF assms(1-3) j(2), of i] False show ?thesis by (auto split: if_splits)
  qed
qed

lemma tracked_give: "inv t s \<Longrightarrow> tracked t s h \<Longrightarrow> tracked t (give i s) (h(i := None))"
  unfolding tracked_def using give_drops [of t s _ i] by (force split: if_splits)

lemma outstanding_room:
  assumes "inv t s" "tracked t s h" "sorted (t # map (\<lambda>e. fst (snd e)) es)" "last (t # map (\<lambda>e. fst (snd e)) es) \<le> u"
    and "list_all near es"
  shows "finite {i. \<exists>e. outstanding es s h i = Some e \<and> u + skew < e} \<and>
    card {i. \<exists>e. outstanding es s h i = Some e \<and> u + skew < e} \<le> room"
  using assms
proof (induction es arbitrary: t s h)
  case Nil
  then have "{i. \<exists>e. h i = Some e \<and> u + skew < e} \<subseteq> held u s" by (auto simp: tracked_def)
  with held_room [OF Nil(1), of u] show ?case
    by (auto intro: finite_subset dest: card_mono [rotated] order_trans)
next
  case (Cons ev es)
  obtain i srv now asks where ev: "ev = (i, srv, now, asks)" by (cases ev)
  with Cons.prems have le: "t \<le> srv" "\<bar>now - srv\<bar> \<le> skew" and so: "sorted (srv # map (\<lambda>e. fst (snd e)) es)"
    and la: "last (srv # map (\<lambda>e. fst (snd e)) es) \<le> u" and ne: "list_all near es" by (auto simp: near_def)
  show ?case
  proof (cases asks)
    case True
    show ?thesis using Cons.IH [OF ask_inv tracked_ask so la ne] Cons.prems le True ev by simp
  next
    case False
    have "sorted (t # map (\<lambda>e. fst (snd e)) es)" "last (t # map (\<lambda>e. fst (snd e)) es) \<le> u"
      using Cons.prems ev so la le by (auto split: if_splits)
    from Cons.IH [OF give_inv [OF Cons.prems(1)] tracked_give [OF Cons.prems(1,2)] this ne] False ev
    show ?thesis by (simp del: fun_upd_apply)
  qed
qed

end


text \<open>The two scripts as such a pool, whatever limits the callers pass, up to \<open>room\<close>.\<close>

definition lease_ask :: "(string \<Rightarrow> int \<Rightarrow> int) \<Rightarrow> int \<Rightarrow> string \<Rightarrow> int \<Rightarrow> int \<Rightarrow> lease_set \<Rightarrow> bool \<times> lease_set" where
  "lease_ask limit ttl i srv now s =
     (case lease_script srv (limit i now) now ttl i s of ((g, _, _), s') \<Rightarrow> (g, s'))"

definition lease_held :: "int \<Rightarrow> int \<Rightarrow> lease_set \<Rightarrow> string set" where
  "lease_held skew u s = fst ` {l \<in> set (leases s). u + skew < snd l}"

definition lease_inv :: "(string \<Rightarrow> int \<Rightarrow> int) \<Rightarrow> int \<Rightarrow> int \<Rightarrow> nat \<Rightarrow> int \<Rightarrow> lease_set \<Rightarrow> bool" where
  "lease_inv limit ttl skew room t s \<longleftrightarrow> (\<forall>i u. limit i u \<le> int room) \<and> length (leases s) \<le> room \<and>
     (\<forall>(j, e) \<in> set (leases s). e \<le> t + skew + ttl \<and> e \<le> set_drop s + skew)"

lemma lease_live_length: "length (lease_live srv now s) \<le> length (leases s)"
  by (simp add: lease_live_def)

lemma lease_live_iff: "(j, e) \<in> set (lease_live srv now s) \<longleftrightarrow> (j, e) \<in> set (leases s) \<and> now < e \<and> srv < set_drop s"
  by (auto simp: lease_live_def)

lemma lease_ask_eq:
  "lease_ask limit ttl i srv now s =
     (if int (length (lease_live srv now s)) < limit i now
      then (True, \<lparr>leases = (i, now + ttl) # filter (\<lambda>(j, _). j \<noteq> i) (lease_live srv now s), set_drop = srv + ttl\<rparr>)
      else (False, s\<lparr>leases := lease_live srv now s\<rparr>))"
  by (simp add: lease_ask_def lease_script_def Let_def)

lemma lease_held_iff: "j \<in> lease_held skew u s \<longleftrightarrow> (\<exists>e. (j, e) \<in> set (leases s) \<and> u + skew < e)"
  by (force simp: lease_held_def)

lemma lease_held_ask:
  assumes "lease_inv limit ttl skew room t s" "\<bar>now - srv\<bar> \<le> skew" "srv \<le> u"
  shows "lease_held skew u s - (if fst (lease_ask limit ttl i srv now s) then {i} else {})
    \<subseteq> lease_held skew u (snd (lease_ask limit ttl i srv now s))"
proof
  fix j assume j: "j \<in> lease_held skew u s - (if fst (lease_ask limit ttl i srv now s) then {i} else {})"
  then obtain e where e: "(j, e) \<in> set (leases s)" "u + skew < e" by (auto simp: lease_held_iff)
  with assms have "(j, e) \<in> set (lease_live srv now s)" by (auto simp: lease_inv_def lease_live_iff)
  with j e show "j \<in> lease_held skew u (snd (lease_ask limit ttl i srv now s))"
    by (auto simp: lease_held_iff lease_ask_eq split: if_splits)
qed

interpretation pool: lease_pool "lease_ask limit ttl" release_script "lease_held skew" "lease_inv limit ttl skew room" ttl skew room
  for limit ttl skew room
proof
  fix t srv now i s assume inv: "lease_inv limit ttl skew room t s" and le: "t \<le> srv" "\<bar>now - srv\<bar> \<le> skew"
  show "lease_inv limit ttl skew room srv (snd (lease_ask limit ttl i srv now s))"
  proof (cases "int (length (lease_live srv now s)) < limit i now")
    case True
    have "length (filter (\<lambda>(j, _). j \<noteq> i) (lease_live srv now s)) \<le> length (lease_live srv now s)" by simp
    moreover from inv have "limit i now \<le> int room" by (simp add: lease_inv_def)
    ultimately have "Suc (length (filter (\<lambda>(j, _). j \<noteq> i) (lease_live srv now s))) \<le> room" using True by linarith
    with True inv le show ?thesis by (fastforce simp: lease_ask_eq lease_inv_def lease_live_iff)
  next
    case False
    with inv le lease_live_length [of srv now s] show ?thesis
      by (fastforce simp: lease_ask_eq lease_inv_def lease_live_iff)
  qed
  fix u assume u: "srv \<le> u"
  with inv le show "lease_held skew u s - (if fst (lease_ask limit ttl i srv now s) then {i} else {})
      \<subseteq> lease_held skew u (snd (lease_ask limit ttl i srv now s))"
    by (intro lease_held_ask)
  assume "fst (lease_ask limit ttl i srv now s)" "u + skew < now + ttl"
  then show "i \<in> lease_held skew u (snd (lease_ask limit ttl i srv now s))"
    by (cases "int (length (lease_live srv now s)) < limit i now") (auto simp: lease_held_iff lease_ask_eq)
next
  fix t s i assume inv: "lease_inv limit ttl skew room t s"
  then show "lease_inv limit ttl skew room t (release_script i s)"
    by (auto simp: lease_inv_def release_script_def intro: order_trans [OF length_filter_le])
  fix u show "lease_held skew u s - {i} \<subseteq> lease_held skew u (release_script i s)"
    by (force simp: lease_held_def release_script_def)
next
  fix t s and u :: int assume inv: "lease_inv limit ttl skew room t s"
  have "card (lease_held skew u s) \<le> card (set (leases s))"
    unfolding lease_held_def by (intro order_trans [OF card_image_le] card_mono) auto
  also have "\<dots> \<le> length (leases s)" by (rule card_length)
  finally show "finite (lease_held skew u s) \<and> card (lease_held skew u s) \<le> room"
    using inv by (simp add: lease_held_def lease_inv_def)
qed

text \<open>Who holds a session after a sequence of asks and give-backs, by the clients' own count. An event has the
  client, the time of the store, the time of the client and whether it asks.\<close>

fun sessions ::
  "(string \<Rightarrow> int \<Rightarrow> int) \<Rightarrow> int \<Rightarrow> (string \<times> int \<times> int \<times> bool) list \<Rightarrow> lease_set \<Rightarrow> (string \<rightharpoonup> int) \<Rightarrow> string \<rightharpoonup> int" where
  "sessions limit ttl [] s h = h"
| "sessions limit ttl ((i, srv, now, asks) # es) s h =
     (if asks
      then (case lease_script srv (limit i now) now ttl i s of
              ((g, _, _), s') \<Rightarrow> sessions limit ttl es s' (if g then h(i \<mapsto> now + ttl) else h))
      else sessions limit ttl es (release_script i s) (h(i := None)))"

lemma sessions_outstanding: "sessions limit ttl es s h = pool.outstanding limit ttl es s h"
  by (induction es arbitrary: s h) (auto simp: lease_ask_def split: prod.split)

text \<open>
  C15. The sessions of one receiving system are bounded: after any sequence of lease requests and
  releases of any number of nodes, with limits of at most \<open>room\<close>, one time to live and clocks that differ from that of
  the store by at most \<open>skew\<close>, no more than \<open>room\<close> clients hold, at any later moment of the store, a lease that was granted, was
  not given back and has more than \<open>skew\<close> left of its time to live. (In its last \<open>skew\<close> a lease may have been
  dropped already, by a node whose clock is ahead.)
\<close>

theorem sessions_bounded:
  assumes "\<And>i t. limit i t \<le> int room" "sorted (map (\<lambda>(_, srv, _). srv) ((i, srv, now, asks) # es))"
    and "list_all (\<lambda>(_, srv, now, _). \<bar>now - srv\<bar> \<le> skew) ((i, srv, now, asks) # es)"
    and "last (map (\<lambda>(_, srv, _). srv) ((i, srv, now, asks) # es)) \<le> u"
  shows "card {j. \<exists>e. sessions limit ttl ((i, srv, now, asks) # es) \<lparr>leases = [], set_drop = d\<rparr> Map.empty j = Some e \<and> u + skew < e}
    \<le> room"
proof -
  have eq: "(\<lambda>(_, srv, _). srv) = (\<lambda>e :: string \<times> int \<times> int \<times> bool. fst (snd e))" by auto
  have "lease_inv limit ttl skew room srv \<lparr>leases = [], set_drop = d\<rparr>"
    using assms(1) by (simp add: lease_inv_def)
  moreover have "pool.tracked skew srv \<lparr>leases = [], set_drop = d\<rparr> Map.empty"
    by (simp add: pool.tracked_def)
  moreover have "sorted (srv # map (\<lambda>e. fst (snd e)) ((i, srv, now, asks) # es))"
    "last (srv # map (\<lambda>e. fst (snd e)) ((i, srv, now, asks) # es)) \<le> u"
    using assms(2,4) unfolding eq by simp_all
  moreover have "list_all (pool.near skew) ((i, srv, now, asks) # es)" using assms(3) by (simp only: pool.near_def)
  ultimately show ?thesis
    unfolding sessions_outstanding by (blast dest: pool.outstanding_room)
qed

theorem sessions_bounded_witness:
  "card {j. \<exists>e. sessions (\<lambda>_ _. 1) 50000 [(''a'', 1000, 1200, True), (''b'', 1500, 1400, True), (''a'', 2000, 2200, False),
      (''c'', 2500, 2400, True)] \<lparr>leases = [], set_drop = 0\<rparr> Map.empty j = Some e \<and> 3000 + 200 < e} \<le> 1"
  by (rule sessions_bounded) simp_all

text \<open>
  The wait the script reports is enough: a request refused with \<open>retry\<close> milliseconds to wait,
  while no more leases are held than the limit allows, is granted when it is made again that much
  later, even if nobody gives a lease back.
\<close>

theorem lease_retry_enough:
  assumes "lease_script srv limit now ttl i s = ((False, h, retry), s')" "1 \<le> limit" "int h \<le> limit"
  shows "fst (fst (lease_script srv' limit (now + retry) ttl i s'))"
proof -
  let ?live = "lease_live srv now s"
  from assms(1) have h: "h = length ?live" and s': "s' = s\<lparr>leases := ?live\<rparr>" and full: "limit \<le> int h"
    and r: "retry = (if ?live = [] then 0 else max 0 (Min (set (map snd ?live)) - now))"
    by (auto simp: lease_script_def Let_def split: if_splits)
  from full assms(2) h have ne: "?live \<noteq> []" by auto
  then obtain p where p: "p \<in> set ?live" "snd p = Min (set (map snd ?live))"
    using Min_in [of "snd ` set ?live"] by (force simp only: set_map finite_imageI finite_set)
  then have "snd p \<le> now + retry" using r ne by auto
  with p(1) have "length (filter (\<lambda>(_, e). now + retry < e) ?live) < length ?live"
    by (intro length_filter_less [of p]) (auto simp: case_prod_beta)
  then have "length (lease_live srv' (now + retry) s') < length ?live"
    by (auto simp: s' lease_live_def [of srv'] intro: le_less_trans)
  with assms(3) h show ?thesis by (simp add: lease_script_def Let_def)
qed

theorem lease_retry_enough_witness:
  "fst (fst (lease_script 50000 1 (1000 + 49000) 50000 ''b'' \<lparr>leases = [(''a'', 50000)], set_drop = 50000\<rparr>))"
  by (rule lease_retry_enough [where srv = 1000 and s = "\<lparr>leases = [(''a'', 50000)], set_drop = 50000\<rparr>" and h = 1])
    (simp_all add: lease_script_def lease_live_def)

end
