(* ===== verification/Band.thy ===== *)
theory Band
  imports Limiter
begin

text \<open>
  Receiving systems and their working ranges: \<open>internal/pacer/family.go\<close>, which maps the host
  names of one system to one pace key, and \<open>internal/pacer/band.go\<close>, the calibrated range of a
  key. The two embedded tables (\<open>families.json\<close> and \<open>bands/*.json\<close>) are part of the model, decoded.

  The lemmas show that a key is a fixed point, that a host is mapped only on a label boundary, that
  the shipped table loads and never groups one key two ways, and that every band the program works
  with is well formed.
\<close>

section \<open>Families\<close>

record family =
  Suffix :: string
  FKey :: string
  Multi :: bool

definition normaliseHost :: "string \<Rightarrow> string" where
  "normaliseHost h = to_lower (trim_suffix (trim_space h) ''.'')"

text \<open>The decoded \<open>families.json\<close>.\<close>

definition familiesJSON :: "family list" where
  "familiesJSON =
   [\<lparr>Suffix = ''mail.protection.outlook.com'', FKey = ''@microsoft-eop'', Multi = False\<rparr>,
    \<lparr>Suffix = ''aspmx.l.google.com'', FKey = ''@google'', Multi = True\<rparr>,
    \<lparr>Suffix = ''googlemail.com'', FKey = ''@google'', Multi = True\<rparr>,
    \<lparr>Suffix = ''smtp.google.com'', FKey = ''@google'', Multi = True\<rparr>,
    \<lparr>Suffix = ''pphosted.com'', FKey = ''@proofpoint'', Multi = False\<rparr>,
    \<lparr>Suffix = ''mimecast.com'', FKey = ''@mimecast'', Multi = False\<rparr>,
    \<lparr>Suffix = ''mimecast.co.za'', FKey = ''@mimecast'', Multi = False\<rparr>,
    \<lparr>Suffix = ''hornetsecurity.com'', FKey = ''@hornetsecurity'', Multi = False\<rparr>,
    \<lparr>Suffix = ''ionos.de'', FKey = ''@ionos'', Multi = False\<rparr>,
    \<lparr>Suffix = ''kundenserver.de'', FKey = ''@ionos'', Multi = False\<rparr>]"

text \<open>\<open>mustFamilies\<close>: the loop over the entries with the flags seen so far; \<open>None\<close> is a panic.\<close>

fun load_families :: "(string \<rightharpoonup> bool) \<Rightarrow> family list \<Rightarrow> family list option" where
  "load_families multi [] = Some []"
| "load_families multi (f # fs) =
     (let f = f\<lparr>Suffix := normaliseHost (Suffix f)\<rparr>
      in if Suffix f = [] \<or> \<not> has_prefix (FKey f) ''@'' \<or> length (FKey f) < 2 then None
         else if multi (FKey f) \<noteq> None \<and> multi (FKey f) \<noteq> Some (Multi f) then None
         else map_option (\<lambda>r. f # r) (load_families (multi(FKey f \<mapsto> Multi f)) fs))"

definition mustFamilies :: "family list \<Rightarrow> family list option" where
  "mustFamilies raw = load_families Map.empty raw"

definition families :: "family list" where
  "families = (case mustFamilies familiesJSON of Some fs \<Rightarrow> fs | None \<Rightarrow> [])"

definition multiDomainKeys :: "family list \<Rightarrow> string \<Rightarrow> bool" where
  "multiDomainKeys fs k \<longleftrightarrow> (\<exists>f \<in> set fs. Multi f \<and> FKey f = k)"

text \<open>\<open>h == f.Suffix || strings.HasSuffix(h, "."+f.Suffix)\<close>.\<close>

definition in_family :: "string \<Rightarrow> family \<Rightarrow> bool" where
  "in_family h f \<longleftrightarrow> h = Suffix f \<or> has_suffix h (''.'' @ Suffix f)"

definition PaceKey :: "string \<Rightarrow> string" where
  "PaceKey mxHost =
     (if has_prefix mxHost ''@'' then mxHost
      else (case find (in_family (normaliseHost mxHost)) families of
              Some f \<Rightarrow> FKey f
            | None \<Rightarrow> mxHost))"

definition MultiDomain :: "string \<Rightarrow> string \<times> bool" where
  "MultiDomain mxHost = (PaceKey mxHost, multiDomainKeys families (PaceKey mxHost))"

section \<open>Bands\<close>

record band =
  MinRate :: rat
  MaxRate :: rat
  MinConc :: int
  MaxConc :: int
  Burst :: rat
  Cooldown :: int
  Pause :: int
  PauseAlt :: int

definition conservative :: band where
  "conservative = \<lparr>MinRate = 1/10, MaxRate = 1/2, MinConc = 1, MaxConc = 1, Burst = 1,
     Cooldown = 300, Pause = 600, PauseAlt = 0\<rparr>"

text \<open>\<open>normalise\<close>, one assignment of the source after the other.\<close>

definition normalise :: "band \<Rightarrow> band" where
  "normalise b0 =
     (let b = (if Pause b0 = 0 then b0\<lparr>Pause := PauseAlt b0\<rparr> else b0);
          d = conservative;
          b = (if MaxRate b \<le> 0 then b\<lparr>MaxRate := MaxRate d\<rparr> else b);
          b = (if MinRate b \<le> 0 \<or> MinRate b > MaxRate b
               then b\<lparr>MinRate := min (MinRate d) (MaxRate b)\<rparr> else b);
          b = (if MinConc b \<le> 0 then b\<lparr>MinConc := 1\<rparr> else b);
          b = (if MaxConc b < MinConc b then b\<lparr>MaxConc := MinConc b\<rparr> else b);
          b = (if Burst b \<le> 0 then b\<lparr>Burst := 1\<rparr> else b);
          b = (if Cooldown b \<le> 0 then b\<lparr>Cooldown := Cooldown d\<rparr> else b);
          b = (if Pause b \<le> 0 then b\<lparr>Pause := Pause d\<rparr> else b)
      in b)"

definition pauseFor :: "band \<Rightarrow> duration" where
  "pauseFor b = Pause b * second"

text \<open>The embedded seeds, by what they hold; none of the files sets \<open>pause_seconds\<close>.\<close>

definition seed_band :: "rat \<Rightarrow> rat \<Rightarrow> int \<Rightarrow> int \<Rightarrow> rat \<Rightarrow> int \<Rightarrow> int \<Rightarrow> band" where
  "seed_band mi ma mic mac bu co pa = \<lparr>MinRate = mi, MaxRate = ma, MinConc = mic, MaxConc = mac,
     Burst = bu, Cooldown = co, Pause = 0, PauseAlt = pa\<rparr>"

definition seeds :: "(string list \<times> band) list" where
  "seeds =
   [([''126.com'', ''163.com'', ''daum.net'', ''hanmail.net'', ''naver.com'',
      ''qq.com''],
     seed_band (1/10) (3/10) 1 1 (1) 600 900),
    ([''@google'', ''@microsoft-eop'', ''gmail.com'', ''googlemail.com'', ''hotmail.be'',
      ''hotmail.co.uk'', ''hotmail.com'', ''hotmail.de'', ''hotmail.es'', ''hotmail.fr'',
      ''hotmail.it'', ''live.co.uk'', ''live.com'', ''live.de'', ''live.fr'',
      ''live.it'', ''live.nl'', ''msn.com'', ''outlook.co.uk'', ''outlook.com.au'',
      ''outlook.com'', ''outlook.de'', ''outlook.dk'', ''outlook.es'', ''outlook.fr'',
      ''outlook.ie'', ''outlook.it'', ''outlook.jp'', ''outlook.sa'', ''passport.com'',
      ''windowslive.com'', ''zoho.com'', ''zoho.eu'', ''zohomail.com''],
     seed_band (1/2) (1) 1 1 (1) 300 600),
    ([''aol.com'', ''rocketmail.com'', ''yahoo.ca'', ''yahoo.co.uk'', ''yahoo.com.au'',
      ''yahoo.com'', ''yahoo.de'', ''yahoo.es'', ''yahoo.fr'', ''yahoo.it'',
      ''ymail.com''],
     seed_band (3/10) (1/2) 1 1 (1) 600 900),
    ([''bk.ru'', ''futurefertility.com'', ''gmx.com'', ''gmx.de'', ''gmx.net'',
      ''icloud.com'', ''inbox.ru'', ''list.ru'', ''mac.com'', ''mail.com'',
      ''mail.ru'', ''me.com'', ''rediffmail.com'', ''web.de'', ''yandex.com'',
      ''yandex.ru''],
     seed_band (1/5) (1/2) 1 1 (1) 600 900),
    ([''fastmail.com''],
     seed_band (3/10) (1/2) 1 1 (1) 400 600),
    ([''pm.me'', ''proton.me'', ''protonmail.ch'', ''protonmail.com''],
     seed_band (1/5) (1/2) 1 1 (1) 300 600),
    ([''seznam.cz''],
     seed_band (1/5) (1/2) 1 1 (1) 400 600)]"

text \<open>\<open>readSeed\<close>, for names without a path separator.\<close>

definition readSeed :: "string \<Rightarrow> band option" where
  "readSeed domain = map_option (\<lambda>(_, b). normalise b) (find (\<lambda>(ns, _). domain \<in> set ns) seeds)"

text \<open>The loop of \<open>seedFor\<close>: the name, then what follows its first dot.\<close>

function seed_search :: "string \<Rightarrow> band option" where
  "seed_search d =
     (if d = [] then None
      else case readSeed d of
             Some b \<Rightarrow> Some b
           | None \<Rightarrow>
               (case index_of d ''.'' of
                  None \<Rightarrow> None
                | Some i \<Rightarrow> seed_search (drop (i + 1) d)))"
  by pat_completeness auto
termination
  by (relation "measure length") auto

declare seed_search.simps [simp del]

definition seedFor :: "string \<Rightarrow> band option" where
  "seedFor domain = seed_search (to_lower (trim_suffix (trim_space domain) ''.''))"

text \<open>What the store holds under a key, as its reader decodes it: nothing, a text it cannot decode, or
  a value.\<close>

datatype 'a cell = NoKey | BadText | Holds 'a

text \<open>\<open>bandFor\<close>: the reply of the store to the read of \<open>limits:mx:<key>\<close> (\<open>None\<close> is an error), the
  key and the recipient domain.\<close>

definition bandFor :: "band cell option \<Rightarrow> string \<Rightarrow> string \<Rightarrow> band" where
  "bandFor stored key domain =
     (case stored of
        Some (Holds b) \<Rightarrow> normalise b
      | _ \<Rightarrow>
          (case (if has_prefix key ''@'' then readSeed key else None) of
             Some b \<Rightarrow> b
           | None \<Rightarrow> (case seedFor domain of Some b \<Rightarrow> b | None \<Rightarrow> conservative)))"

definition SeedCount :: nat where
  "SeedCount = sum_list (map (\<lambda>(ns, _). length ns) seeds)"

section \<open>Lemmas\<close>

definition band_wf :: "band \<Rightarrow> bool" where
  "band_wf b \<longleftrightarrow> 0 < MinRate b \<and> MinRate b \<le> MaxRate b \<and> 1 \<le> MinConc b \<and> MinConc b \<le> MaxConc b
     \<and> 0 < Burst b \<and> 0 < Cooldown b \<and> 0 < Pause b"

lemma normalise_wf: "band_wf (normalise b)"
  by (auto simp: normalise_def band_wf_def conservative_def Let_def min_def)

lemma normalise_id: "band_wf b \<Longrightarrow> normalise b = b"
  by (auto simp: normalise_def band_wf_def Let_def)

lemma conservative_wf: "band_wf conservative"
  by (simp add: conservative_def band_wf_def)

lemma readSeed_wf: "readSeed d = Some b \<Longrightarrow> band_wf b"
  by (auto simp: readSeed_def normalise_wf)

lemma seed_search_wf: "seed_search d = Some b \<Longrightarrow> band_wf b"
  by (induction d rule: seed_search.induct)
    (subst (asm) (2) seed_search.simps, auto split: if_splits option.splits dest: readSeed_wf)

lemma bandFor_wf_lemma: "band_wf (bandFor stored key domain)"
  by (auto simp: bandFor_def seedFor_def normalise_wf conservative_wf
      split: option.split cell.split if_splits dest: readSeed_wf seed_search_wf)

text \<open>
  Every band the pacer works with is well formed, whatever the store holds or fails to return:
  positive rates with the floor below the ceiling, at least one session, a positive burst, cooldown
  and pause.
\<close>

theorem bandFor_wf: "band_wf (bandFor stored key domain)"
  by (rule bandFor_wf_lemma)

lemma load_families_ConsE:
  assumes "load_families multi (f # raw) = Some fs"
  obtains g r where "fs = g # r" "has_prefix (FKey g) ''@''" "Suffix g \<noteq> []"
    "multi (FKey g) = None \<or> multi (FKey g) = Some (Multi g)"
    "load_families (multi(FKey g \<mapsto> Multi g)) raw = Some r"
  using assms by (auto simp: Let_def split: if_splits)

lemma load_families_keys:
  "load_families multi raw = Some fs \<Longrightarrow> f \<in> set fs \<Longrightarrow> has_prefix (FKey f) ''@'' \<and> Suffix f \<noteq> []"
  by (induction raw arbitrary: multi fs) (auto elim!: load_families_ConsE simp del: load_families.simps(2))

lemma load_families_seen:
  "load_families multi raw = Some fs \<Longrightarrow> f \<in> set fs \<Longrightarrow> multi (FKey f) = None \<or> multi (FKey f) = Some (Multi f)"
proof (induction raw arbitrary: multi fs)
  case (Cons f0 raw)
  from Cons.prems(1) obtain g r where g: "fs = g # r" "multi (FKey g) = None \<or> multi (FKey g) = Some (Multi g)"
    and r: "load_families (multi(FKey g \<mapsto> Multi g)) raw = Some r"
    by (rule load_families_ConsE)
  show ?case
  proof (cases "f \<in> set r")
    case True
    from Cons.IH [OF r True] g(2) show ?thesis by (cases "FKey f = FKey g") auto
  qed (use g Cons.prems in auto)
qed simp

lemma load_families_agree:
  "load_families multi raw = Some fs \<Longrightarrow> f \<in> set fs \<Longrightarrow> g \<in> set fs \<Longrightarrow> FKey g = FKey f \<Longrightarrow> Multi g = Multi f"
proof (induction raw arbitrary: multi fs)
  case (Cons f0 raw)
  from Cons.prems(1) obtain h r where h: "fs = h # r"
    and r: "load_families (multi(FKey h \<mapsto> Multi h)) raw = Some r"
    by (rule load_families_ConsE)
  have "FKey k = FKey h \<Longrightarrow> Multi k = Multi h" if "k \<in> set r" for k
    using load_families_seen [OF r that] by simp
  with Cons h r show ?case by (metis set_ConsD)
qed simp

text \<open>
  A family table that loads never treats one key two ways: whether a system may be asked about
  several domains in one session is what every one of its entries says.
\<close>

theorem families_consistent:
  assumes "mustFamilies raw = Some fs" "f \<in> set fs"
  shows "multiDomainKeys fs (FKey f) = Multi f"
  using assms load_families_agree unfolding multiDomainKeys_def mustFamilies_def by blast

lemma families_load: "mustFamilies familiesJSON = Some families"
proof -
  have "mustFamilies familiesJSON \<noteq> None" by code_simp
  then show ?thesis by (auto simp: families_def)
qed

theorem families_consistent_witness:
  "multiDomainKeys families (FKey (hd families)) = Multi (hd families)"
proof -
  have "families \<noteq> []" by code_simp
  then show ?thesis using families_consistent [OF families_load, of "hd families"] by simp
qed

lemma family_key: "f \<in> set families \<Longrightarrow> has_prefix (FKey f) ''@'' \<and> Suffix f \<noteq> []"
  using families_load load_families_keys unfolding mustFamilies_def by blast

lemma PaceKey_cases:
  obtains (key) "PaceKey h = h"
  | (family) f where "f \<in> set families" "in_family (normaliseHost h) f" "\<not> has_prefix h ''@''" "PaceKey h = FKey f"
proof (cases "has_prefix h ''@'' \<or> find (in_family (normaliseHost h)) families = None")
  case True
  then show ?thesis using key by (auto simp: PaceKey_def)
next
  case False
  then obtain f where f: "find (in_family (normaliseHost h)) families = Some f" by auto
  then have "f \<in> set families" "in_family (normaliseHost h) f" by (auto simp: find_Some_iff)
  with False f show ?thesis using family [of f] by (simp add: PaceKey_def)
qed

lemma PaceKey_idem [simp]: "PaceKey (PaceKey h) = PaceKey h"
proof (cases rule: PaceKey_cases [of h])
  case (family f)
  then show ?thesis using family_key [of f] by (simp add: PaceKey_def)
qed simp

lemma in_family_label: "in_family h f \<longleftrightarrow> h = Suffix f \<or> (\<exists>p. h = p @ ''.'' @ Suffix f)"
  by (auto simp: in_family_def has_suffix_iff suffix_def)

text \<open>
  The pace key of a host: asking for the key of a key changes nothing, a host whose key is a
  different name lies in the family of that key on a label boundary, and every host of a family has a
  family key.
\<close>

theorem PaceKey_exact:
  "PaceKey (PaceKey h) = PaceKey h \<and>
   (PaceKey h = h \<or> (\<exists>f \<in> set families. FKey f = PaceKey h \<and>
     (normaliseHost h = Suffix f \<or> (\<exists>p. normaliseHost h = p @ ''.'' @ Suffix f)))) \<and>
   has_prefix (PaceKey h) ''@'' =
     (has_prefix h ''@'' \<or> (\<exists>f \<in> set families. in_family (normaliseHost h) f))"
proof (intro conjI)
  show "PaceKey (PaceKey h) = PaceKey h" by simp
  show "PaceKey h = h \<or> (\<exists>f \<in> set families. FKey f = PaceKey h \<and>
     (normaliseHost h = Suffix f \<or> (\<exists>p. normaliseHost h = p @ ''.'' @ Suffix f)))"
    by (cases rule: PaceKey_cases [of h]) (auto simp: in_family_label)
  have "find (in_family (normaliseHost h)) families = None \<Longrightarrow> \<forall>f \<in> set families. \<not> in_family (normaliseHost h) f"
    by (simp add: find_None_iff)
  moreover have "f \<in> set families \<and> in_family (normaliseHost h) f"
    if "find (in_family (normaliseHost h)) families = Some f" for f
    using that by (auto simp: find_Some_iff)
  ultimately show "has_prefix (PaceKey h) ''@'' =
     (has_prefix h ''@'' \<or> (\<exists>f \<in> set families. in_family (normaliseHost h) f))"
    using family_key by (auto simp: PaceKey_def split: option.split)
qed

end
