(* ===== verification/Pacer.thy ===== *)
theory Pacer
  imports Band Retry
begin

text \<open>
  The adaptive pacer of \<open>internal/pacer/pacer.go\<close>: for every pace key a working rate and a working
  concurrency inside the key's band, halved on a throttle, raised slowly on clean answers, and a
  pause when the floor is still too fast.

  The operations of the source hold a mutex over a few sections and talk to the store between them.
  Each section is one function on the pacer here, the store's replies are arguments of it, and the
  operations are composed from the sections. \<open>pacer_step\<close> lets the sections of any number of
  goroutines follow each other in any order with any replies: the invariant is proved for it, so it
  holds for every interleaving and every failure of the store.

  The store keeps, per key, the values the pacer reads and writes, decoded; every call of it may
  fail, following an arbitrary schedule of faults. Go iterates a map in an unspecified order: the
  list of entries stands for one such order and nothing below depends on which.
\<close>

section \<open>State\<close>

datatype pace_state = Probing | Steady | Backoff | Paused

definition cleanBeforeClimb :: int where "cleanBeforeClimb = 10"
definition backoffFactor :: rat where "backoffFactor = 1/2"
definition climbFactor :: rat where "climbFactor = 11/10"

definition defaultLeaseWait :: duration where "defaultLeaseWait = 60 * second"
definition defaultLeaseTTL :: duration where "defaultLeaseTTL = 50 * second"

record promotion =
  After :: int
  Step :: rat
  Ceiling :: rat

record options =
  IdleTTL :: duration
  MaxTracked :: int
  Promo :: promotion
  LeaseTTL :: duration
  LeaseWait :: duration

text \<open>A zero \<open>time.Time\<close> is \<open>None\<close>.\<close>

record mxState =
  mband :: band
  rate :: rat
  conc :: int
  clean :: int
  state :: pace_state
  pausedUntil :: "instant option"
  lastUsed :: instant
  cleanAtCeiling :: int
  proposed :: bool

record pacer =
  opts :: options
  mx :: "(string \<times> mxState) list"
  inflight :: "string \<Rightarrow> int"
  pauses :: "string list"

definition New :: "options \<Rightarrow> pacer" where
  "New o0 =
     (let o1 = (if IdleTTL o0 \<le> 0 then o0\<lparr>IdleTTL := 30 * minute\<rparr> else o0);
          o2 = (if MaxTracked o1 \<le> 0 then o1\<lparr>MaxTracked := 512\<rparr> else o1);
          o3 = (if Step (Promo o2) \<le> 1 then o2\<lparr>Promo := (Promo o2)\<lparr>Step := 3/2\<rparr>\<rparr> else o2);
          o4 = (if Ceiling (Promo o3) \<le> 0 then o3\<lparr>Promo := (Promo o3)\<lparr>Ceiling := 20\<rparr>\<rparr> else o3);
          o5 = (if LeaseTTL o4 \<le> 0 then o4\<lparr>LeaseTTL := defaultLeaseTTL\<rparr> else o4);
          o6 = (if LeaseWait o5 \<le> 0 then o5\<lparr>LeaseWait := defaultLeaseWait\<rparr> else o5)
      in \<lparr>opts = o6, mx = [], inflight = (\<lambda>_. 0), pauses = []\<rparr>)"

definition before_opt :: "instant \<Rightarrow> instant option \<Rightarrow> bool" where
  "before_opt now u = (case u of None \<Rightarrow> False | Some t \<Rightarrow> now < t)"

section \<open>The store\<close>

record proposal =
  PMXHost :: string
  CurrentMax :: rat
  ProposedMax :: rat
  CleanAt :: int
  FormedAt :: int

text \<open>The values under \<open>limits:mx:<key>\<close>, \<open>limits:mx:<key>:proposed\<close> and \<open>rt:mx:<key>:rate\<close>,
  \<open>conc\<close>, \<open>state\<close>, \<open>pause_until\<close>; \<open>fault n\<close> says whether the n-th call fails.\<close>

record pstore =
  band_at :: "string \<Rightarrow> band cell"
  proposal_at :: "string \<Rightarrow> proposal cell"
  rate_at :: "string \<Rightarrow> rat cell"
  conc_at :: "string \<Rightarrow> int cell"
  state_at :: "string \<Rightarrow> pace_state cell"
  pause_at :: "string \<Rightarrow> int cell"
  fault :: "nat \<Rightarrow> bool"
  calls :: nat

definition store_get :: "(pstore \<Rightarrow> 'a cell) \<Rightarrow> pstore \<Rightarrow> 'a cell option \<times> pstore" where
  "store_get f s = (if fault s (calls s) then None else Some (f s), s\<lparr>calls := Suc (calls s)\<rparr>)"

definition store_set :: "(pstore \<Rightarrow> pstore) \<Rightarrow> pstore \<Rightarrow> bool \<times> pstore" where
  "store_set f s =
     (\<not> fault s (calls s), (if fault s (calls s) then s else f s)\<lparr>calls := Suc (calls s)\<rparr>)"

text \<open>\<open>savedRate\<close> and \<open>savedPause\<close>, from the reply of the store.\<close>

definition savedRate :: "rat cell option \<Rightarrow> rat option" where
  "savedRate r = (case r of Some (Holds v) \<Rightarrow> if v \<le> 0 then None else Some v | _ \<Rightarrow> None)"

definition savedPause :: "int cell option \<Rightarrow> instant option" where
  "savedPause r = (case r of Some (Holds sec) \<Rightarrow> Some (sec * second) | _ \<Rightarrow> None)"

text \<open>\<open>persist\<close>: the errors are dropped.\<close>

definition persist :: "string \<Rightarrow> mxState \<Rightarrow> pstore \<Rightarrow> pstore" where
  "persist key st s =
     (let s = snd (store_set (\<lambda>s. s\<lparr>rate_at := (rate_at s)(key := Holds (rate st))\<rparr>) s);
          s = snd (store_set (\<lambda>s. s\<lparr>conc_at := (conc_at s)(key := Holds (conc st))\<rparr>) s);
          s = snd (store_set (\<lambda>s. s\<lparr>state_at := (state_at s)(key := Holds (state st))\<rparr>) s)
      in case pausedUntil st of
           None \<Rightarrow> s
         | Some u \<Rightarrow> snd (store_set (\<lambda>s. s\<lparr>pause_at := (pause_at s)(key := Holds (u div second))\<rparr>) s))"

definition proposeBand :: "options \<Rightarrow> instant \<Rightarrow> string \<Rightarrow> mxState \<Rightarrow> pstore \<Rightarrow> pstore" where
  "proposeBand o0 now key st s =
     (let nxt = min (Ceiling (Promo o0)) (MaxRate (mband st) * Step (Promo o0))
      in if nxt \<le> MaxRate (mband st) then s
         else snd (store_set (\<lambda>s. s\<lparr>proposal_at := (proposal_at s)(PaceKey key :=
                Holds \<lparr>PMXHost = key, CurrentMax = MaxRate (mband st), ProposedMax = nxt,
                       CleanAt = cleanAtCeiling st, FormedAt = now div second\<rparr>)\<rparr>) s))"

section \<open>The sections under the mutex\<close>

definition adjust :: "string \<Rightarrow> (mxState \<Rightarrow> mxState) \<Rightarrow> (string \<times> mxState) list \<Rightarrow> (string \<times> mxState) list" where
  "adjust key f xs = map (\<lambda>(k, st). (k, if k = key then f st else st)) xs"

definition remove_key :: "string \<Rightarrow> (string \<times> mxState) list \<Rightarrow> (string \<times> mxState) list" where
  "remove_key key xs = filter (\<lambda>(k, _). k \<noteq> key) xs"

text \<open>The scan for the least recently used entry; the empty name means none was found.\<close>

definition older :: "string \<times> instant \<Rightarrow> string \<times> mxState \<Rightarrow> string \<times> instant" where
  "older o1 e = (if fst o1 = [] \<or> lastUsed (snd e) < snd o1 then (fst e, lastUsed (snd e)) else o1)"

definition oldest :: "(string \<times> mxState) list \<Rightarrow> string" where
  "oldest xs = fst (foldl older ([], 0) xs)"

lemma oldest_in: "oldest xs \<noteq> [] \<Longrightarrow> oldest xs \<in> fst ` set xs"
proof -
  have "fst (foldl older a xs) = fst a \<or> fst (foldl older a xs) \<in> fst ` set xs" for a
  proof (induction xs arbitrary: a)
    case (Cons e xs)
    from Cons [of "older a e"] show ?case by (auto simp: older_def split: if_splits)
  qed simp
  from this [of "([], 0)"] show "oldest xs \<noteq> [] \<Longrightarrow> ?thesis" by (auto simp: oldest_def)
qed

lemma remove_key_shorter: "k \<in> fst ` set xs \<Longrightarrow> length (remove_key k xs) < length xs"
  unfolding remove_key_def by (auto intro: length_filter_less)

text \<open>\<open>evictLocked\<close>: idle entries first, then the oldest ones while the cap is reached.\<close>

function evict_lru :: "int \<Rightarrow> (string \<times> mxState) list \<Rightarrow> (string \<times> mxState) list" where
  "evict_lru cap xs =
     (if cap \<le> int (length xs) \<and> oldest xs \<noteq> [] then evict_lru cap (remove_key (oldest xs) xs) else xs)"
  by pat_completeness auto
termination
  by (relation "measure (\<lambda>(_, xs). length xs)") (auto intro: remove_key_shorter oldest_in)

declare evict_lru.simps [simp del]

definition evictLocked :: "instant \<Rightarrow> options \<Rightarrow> (string \<times> mxState) list \<Rightarrow> (string \<times> mxState) list" where
  "evictLocked now o0 xs =
     evict_lru (MaxTracked o0) (filter (\<lambda>(_, st). \<not> lastUsed st < now - IdleTTL o0) xs)"

text \<open>The two sections of \<open>stateFor\<close>: the entry is there, or it is looked for again and made.\<close>

definition state_hit :: "instant \<Rightarrow> string \<Rightarrow> pacer \<Rightarrow> (mxState \<times> pacer) option" where
  "state_hit now key p =
     (case map_of (mx p) key of
        None \<Rightarrow> None
      | Some st \<Rightarrow> Some (st\<lparr>lastUsed := now\<rparr>, p\<lparr>mx := adjust key (\<lambda>s. s\<lparr>lastUsed := now\<rparr>) (mx p)\<rparr>))"

definition start_rate :: "band \<Rightarrow> rat cell option \<Rightarrow> rat" where
  "start_rate b r =
     (case savedRate r of
        Some v \<Rightarrow> if v < MaxRate b then max (MinRate b) v else MaxRate b
      | None \<Rightarrow> MaxRate b)"

definition fresh_state :: "instant \<Rightarrow> band \<Rightarrow> rat \<Rightarrow> int cell option \<Rightarrow> mxState" where
  "fresh_state now b start pause =
     (let st = \<lparr>mband = b, rate = start, conc = MinConc b, clean = 0, state = Probing,
                pausedUntil = None, lastUsed = now, cleanAtCeiling = 0, proposed = False\<rparr>
      in case savedPause pause of
           None \<Rightarrow> st
         | Some u \<Rightarrow> st\<lparr>pausedUntil := Some u, state := (if now < u then Paused else state st)\<rparr>)"

definition state_insert :: "instant \<Rightarrow> string \<Rightarrow> band \<Rightarrow> rat \<Rightarrow> int cell option \<Rightarrow> pacer \<Rightarrow> mxState \<times> pacer" where
  "state_insert now key b start pause p =
     (case state_hit now key p of
        Some r \<Rightarrow> r
      | None \<Rightarrow>
          (let st = fresh_state now b start pause
           in (st, p\<lparr>mx := (key, st) # evictLocked now (opts p) (mx p)\<rparr>)))"

text \<open>\<open>stateFor\<close>. The pause is read inside the second section, and only when the entry is made.\<close>

definition stateFor :: "instant \<Rightarrow> string \<Rightarrow> string \<Rightarrow> pacer \<times> pstore \<Rightarrow> mxState \<times> pacer \<times> pstore" where
  "stateFor now key domain ps =
     (case state_hit now key (fst ps) of
        Some (st, p) \<Rightarrow> (st, p, snd ps)
      | None \<Rightarrow>
          (let (rb, s) = store_get (\<lambda>s. band_at s key) (snd ps);
               b = bandFor rb key domain;
               (rr, s) = store_get (\<lambda>s. rate_at s key) s;
               (rp, s) = store_get (\<lambda>s. pause_at s key) s;
               (st, p) = state_insert now key b (start_rate b rr) rp (fst ps)
           in (st, p, s)))"

text \<open>The switch of \<open>Observe\<close>: the entry, whether it was paused, whether a band is proposed.\<close>

definition observe_throttled :: "instant \<Rightarrow> mxState \<Rightarrow> mxState \<times> bool" where
  "observe_throttled now st0 =
     (let st = st0\<lparr>clean := 0, cleanAtCeiling := 0\<rparr>; b = mband st
      in if rate st > MinRate b
         then (st\<lparr>rate := max (MinRate b) (rate st * backoffFactor),
                  conc := max (MinConc b) (conc st - 1), state := Backoff\<rparr>, False)
         else (st\<lparr>pausedUntil := Some (now + pauseFor b), state := Paused\<rparr>, True))"

definition climb :: "mxState \<Rightarrow> mxState" where
  "climb st =
     (if clean st \<ge> cleanBeforeClimb \<and> rate st < MaxRate (mband st)
      then st\<lparr>clean := 0, rate := min (MaxRate (mband st)) (rate st * climbFactor),
              conc := min (MaxConc (mband st)) (conc st + 1)\<rparr>
      else st)"

definition settle :: "mxState \<Rightarrow> mxState" where
  "settle st = (if state st \<noteq> Paused then st\<lparr>state := Steady\<rparr> else st)"

definition evidence :: "promotion \<Rightarrow> mxState \<Rightarrow> mxState \<times> bool" where
  "evidence pr st0 =
     (if rate st0 \<ge> MaxRate (mband st0)
      then (let st = st0\<lparr>cleanAtCeiling := cleanAtCeiling st0 + 1\<rparr>
            in if After pr > 0 \<and> \<not> proposed st \<and> cleanAtCeiling st \<ge> After pr
               then (st\<lparr>proposed := True\<rparr>, True) else (st, False))
      else (st0, False))"

definition observe_clean :: "promotion \<Rightarrow> mxState \<Rightarrow> mxState \<times> bool" where
  "observe_clean pr st = evidence pr (settle (climb (st\<lparr>clean := clean st + 1\<rparr>)))"

definition observe_entry :: "instant \<Rightarrow> promotion \<Rightarrow> bool \<Rightarrow> mxState \<Rightarrow> mxState \<times> bool \<times> bool" where
  "observe_entry now pr throttled st0 =
     (let st = st0\<lparr>lastUsed := now\<rparr>
      in if throttled then (let (st, paused) = observe_throttled now st in (st, paused, False))
         else (let (st, propose) = observe_clean pr st in (st, False, propose)))"

section \<open>The operations\<close>

definition Observe :: "instant \<Rightarrow> string \<Rightarrow> bool \<Rightarrow> pacer \<times> pstore \<Rightarrow> pacer \<times> pstore" where
  "Observe now mxHost throttled ps =
     (let key = PaceKey mxHost; (p, s) = ps
      in case map_of (mx p) key of
           None \<Rightarrow> (p, s)
         | Some st0 \<Rightarrow>
             (let (st, paused, propose) = observe_entry now (Promo (opts p)) throttled st0;
                  p = p\<lparr>mx := adjust key (\<lambda>_. st) (mx p)\<rparr>;
                  p = (if paused then p\<lparr>pauses := key # pauses p\<rparr> else p);
                  s = (if propose then proposeBand (opts p) now key st s else s)
              in (p, persist key st s)))"

text \<open>\<open>PausedError\<close> with the key and the end of the pause, an error of the bucket or the leases, or the
  end of the caller's context.\<close>

datatype acquire_error = PausedError string instant | NoBudget string | Cancelled

text \<open>\<open>RetryAfter\<close> of a \<open>PausedError\<close>.\<close>

definition PausedRetryAfter :: "instant \<Rightarrow> instant \<Rightarrow> duration" where
  "PausedRetryAfter now until = max 0 (until - now)"

text \<open>The loop of \<open>Acquire\<close>, which ends only with a token, an error or the context: \<open>None\<close> is a loop that
  never ends. \<open>take\<close> returns its decision and how long it took.\<close>

type_synonym 'w take_op = "string \<Rightarrow> rat \<Rightarrow> rat \<Rightarrow> instant \<Rightarrow> 'w \<Rightarrow> (string + decision) \<times> nat \<times> 'w"

partial_function (option) take_loop ::
  "'w take_op \<Rightarrow> (instant \<Rightarrow> bool) \<Rightarrow> string \<Rightarrow> rat \<Rightarrow> rat \<Rightarrow> instant \<Rightarrow> 'w \<Rightarrow>
   ((acquire_error + unit) \<times> instant \<times> 'w) option" where
  "take_loop ask cancelled key r b now w =
     (case ask key r b now w of
        (Inl e, el, w') \<Rightarrow> Some (Inl (NoBudget e), now + int el, w')
      | (Inr d, el, w') \<Rightarrow>
          if Allowed d then Some (Inr (), now + int el, w')
          else if cancelled (now + int el + (if RetryAfter d \<le> 0 then second else RetryAfter d))
               then Some (Inl Cancelled, now + int el + (if RetryAfter d \<le> 0 then second else RetryAfter d), w')
          else take_loop ask cancelled key r b
                 (now + int el + (if RetryAfter d \<le> 0 then second else RetryAfter d)) w')"

definition Acquire ::
  "'w take_op \<Rightarrow> (instant \<Rightarrow> bool) \<Rightarrow> instant \<Rightarrow> string \<Rightarrow> string \<Rightarrow> pacer \<times> pstore \<times> 'w \<Rightarrow>
   ((acquire_error + unit) \<times> instant \<times> pacer \<times> pstore \<times> 'w) option" where
  "Acquire ask cancelled now mxHost domain psw =
     (let key = PaceKey mxHost; (p, s, w) = psw;
          (st, p, s) = stateFor now key domain (p, s)
      in case pausedUntil st of
           Some u \<Rightarrow>
             if now < u then Some (Inl (PausedError key u), now, p, s, w)
             else map_option (\<lambda>(r, t, w'). (r, t, p, s, w')) (take_loop ask cancelled key (rate st) (Burst (mband st)) now w)
         | None \<Rightarrow>
             map_option (\<lambda>(r, t, w'). (r, t, p, s, w')) (take_loop ask cancelled key (rate st) (Burst (mband st)) now w))"

text \<open>The loop of \<open>AcquireSession\<close>, until a lease, an error, the deadline or the context. The result
  carries how a granted lease was obtained.\<close>

datatype lease_outcome = LeaseImmediate | LeaseAfterWait | LeaseTimedOut

type_synonym 'w lease_op = "string \<Rightarrow> int \<Rightarrow> duration \<Rightarrow> instant \<Rightarrow> 'w \<Rightarrow> (string + lease_decision) \<times> nat \<times> 'w"

definition poll_wait :: "duration \<Rightarrow> duration" where
  "poll_wait r = (if r \<le> 0 \<or> r > 250 * millisecond then 250 * millisecond else r)"

lemma poll_wait_pos: "0 < poll_wait r"
  by (simp add: poll_wait_def)

function lease_loop ::
  "'w lease_op \<Rightarrow> (instant \<Rightarrow> bool) \<Rightarrow> string \<Rightarrow> int \<Rightarrow> duration \<Rightarrow> instant \<Rightarrow> bool \<Rightarrow> instant \<Rightarrow> 'w \<Rightarrow>
   (acquire_error + string) \<times> lease_outcome option \<times> instant \<times> 'w" where
  "lease_loop ask cancelled key limit ttl deadline refused now w =
     (case ask key limit ttl now w of
        (Inl e, el, w') \<Rightarrow> (Inl (NoBudget e), None, now + int el, w')
      | (Inr d, el, w') \<Rightarrow>
          if Granted d
          then (Inr (lease_id d), Some (if refused then LeaseAfterWait else LeaseImmediate), now + int el, w')
          else if now + int el + poll_wait (lease_retry d) > deadline
          then (Inl (PausedError key (now + int el + (if lease_retry d \<le> 0 then second else lease_retry d))),
                Some LeaseTimedOut, now + int el, w')
          else if cancelled (now + int el + poll_wait (lease_retry d))
          then (Inl Cancelled, None, now + int el + poll_wait (lease_retry d), w')
          else lease_loop ask cancelled key limit ttl deadline True (now + int el + poll_wait (lease_retry d)) w')"
  by pat_completeness auto
termination
proof (relation "measure (\<lambda>(_, _, _, _, _, deadline, _, now, _). nat (deadline - now))", goal_cases)
  case (2 ask cancelled key limit ttl deadline refused now w r p d el w')
  with poll_wait_pos [of "lease_retry d"] show ?case by auto
qed simp

declare lease_loop.simps [simp del]

text \<open>\<open>AcquireSession\<close>: the key and the lease to give back. Without a lease set every session is
  granted.\<close>

definition AcquireSession ::
  "'w lease_op option \<Rightarrow> (instant \<Rightarrow> bool) \<Rightarrow> instant \<Rightarrow> string \<Rightarrow> string \<Rightarrow> pacer \<times> pstore \<times> 'w \<Rightarrow>
   (acquire_error + (string \<times> string) option) \<times> duration \<times> pacer \<times> pstore \<times> 'w" where
  "AcquireSession lset cancelled now mxHost domain psw =
     (let key = PaceKey mxHost; (p, s, w) = psw
      in case lset of
           None \<Rightarrow> (Inr None, 0, p, s, w)
         | Some ask \<Rightarrow>
             (let (st, p, s) = stateFor now key domain (p, s); limit = max 1 (conc st)
              in if before_opt now (pausedUntil st)
                 then (Inl (PausedError key (the (pausedUntil st))), 0, p, s, w)
                 else (case lease_loop ask cancelled key limit (LeaseTTL (opts p)) (now + LeaseWait (opts p)) False now w of
                         (Inl e, _, t, w') \<Rightarrow> (Inl e, t - now, p, s, w')
                       | (Inr i, _, t, w') \<Rightarrow>
                           (Inr (Some (key, i)), t - now,
                            p\<lparr>inflight := (inflight p)(key := inflight p key + 1)\<rparr>, s, w'))))"

text \<open>The function \<open>AcquireSession\<close> returns: the gauge goes down, the lease goes back.\<close>

definition ReleaseSession ::
  "(string \<Rightarrow> string \<Rightarrow> 'w \<Rightarrow> 'w) \<Rightarrow> (string \<times> string) option \<Rightarrow> pacer \<times> 'w \<Rightarrow> pacer \<times> 'w" where
  "ReleaseSession give handle pw =
     (case handle of
        None \<Rightarrow> pw
      | Some (key, i) \<Rightarrow>
          (let (p, w) = pw
           in ((if inflight p key > 0 then p\<lparr>inflight := (inflight p)(key := inflight p key - 1)\<rparr> else p),
               give key i w)))"

definition Proposal :: "string \<Rightarrow> pstore \<Rightarrow> proposal option \<times> pstore" where
  "Proposal mxHost s =
     (case store_get (\<lambda>s. proposal_at s (PaceKey mxHost)) s of
        (Some (Holds pr), s') \<Rightarrow> (Some pr, s')
      | (_, s') \<Rightarrow> (None, s'))"

text \<open>\<open>Promote\<close>. Clearing a proposal writes the empty text, which no longer decodes.\<close>

definition Promote :: "string \<Rightarrow> pacer \<times> pstore \<Rightarrow> (string + proposal) \<times> pacer \<times> pstore" where
  "Promote mxHost ps =
     (let key = PaceKey mxHost; (p, s) = ps
      in case Proposal key s of
           (None, s) \<Rightarrow> (Inl ''pacer: no standing proposal'', p, s)
         | (Some pr, s) \<Rightarrow>
             (let (rb, s) = store_get (\<lambda>s. band_at s key) s;
                  b = (bandFor rb key [])\<lparr>MaxRate := ProposedMax pr\<rparr>;
                  (ok, s) = store_set (\<lambda>s. s\<lparr>band_at := (band_at s)(key := Holds b)\<rparr>) s
              in if \<not> ok then (Inl ''pacer: writing the promoted band'', p, s)
                 else let (ok, s) = store_set (\<lambda>s. s\<lparr>proposal_at := (proposal_at s)(PaceKey key := BadText)\<rparr>) s
                      in if \<not> ok then (Inl ''redis'', p, s)
                         else (Inr pr, p\<lparr>mx := remove_key key (mx p)\<rparr>, s)))"

definition PauseKey :: "string \<Rightarrow> instant \<Rightarrow> pacer \<times> pstore \<Rightarrow> bool \<times> pacer \<times> pstore" where
  "PauseKey mxHost until ps =
     (let key = PaceKey mxHost; (p, s) = ps;
          p = p\<lparr>mx := adjust key (\<lambda>st. st\<lparr>pausedUntil := Some until, state := Paused\<rparr>) (mx p)\<rparr>;
          p = p\<lparr>pauses := key # pauses p\<rparr>;
          (ok, s) = store_set (\<lambda>s. s\<lparr>pause_at := (pause_at s)(key := Holds (until div second))\<rparr>) s
      in (ok, p, s))"

definition ResumeKey :: "string \<Rightarrow> pacer \<times> pstore \<Rightarrow> bool \<times> pacer \<times> pstore" where
  "ResumeKey mxHost ps =
     (let key = PaceKey mxHost; (p, s) = ps;
          p = p\<lparr>mx := adjust key (\<lambda>st. st\<lparr>pausedUntil := None, state := Steady\<rparr>) (mx p)\<rparr>;
          (ok, s) = store_set (\<lambda>s. s\<lparr>pause_at := (pause_at s)(key := Holds 0)\<rparr>) s
      in (ok, p, s))"

definition Rate :: "string \<Rightarrow> pacer \<Rightarrow> rat option" where
  "Rate mxHost p = map_option rate (map_of (mx p) (PaceKey mxHost))"

definition State :: "string \<Rightarrow> pacer \<Rightarrow> pace_state option" where
  "State mxHost p = map_option state (map_of (mx p) (PaceKey mxHost))"

definition Tracked :: "pacer \<Rightarrow> nat" where
  "Tracked p = length (mx p)"

definition Snapshot :: "pacer \<Rightarrow> (string \<times> rat \<times> rat \<times> int \<times> pace_state \<times> int) list" where
  "Snapshot p = map (\<lambda>(h, st). (h, rate st, MaxRate (mband st), conc st, state st, inflight p h)) (mx p)"


section \<open>Interleavings\<close>

text \<open>
  The section of \<open>Observe\<close> and the ones of the operator's calls, alone. An entry is inserted under a key that is not
  empty: \<open>stateFor\<close> does not check it, but both callers refuse an empty host before they pace it.
\<close>

definition observe_section :: "instant \<Rightarrow> string \<Rightarrow> bool \<Rightarrow> pacer \<Rightarrow> pacer" where
  "observe_section now key throttled p =
     p\<lparr>mx := adjust key (\<lambda>st. fst (observe_entry now (Promo (opts p)) throttled st)) (mx p)\<rparr>"

inductive pacer_step :: "pacer \<Rightarrow> pacer \<Rightarrow> bool" where
  hit: "state_hit now key p = Some (st, p') \<Longrightarrow> pacer_step p p'"
| insert: "key \<noteq> [] \<Longrightarrow> b = bandFor rb key domain \<Longrightarrow>
    state_insert now key b (start_rate b rr) rp p = (st, p') \<Longrightarrow> pacer_step p p'"
| observe: "pacer_step p (observe_section now key throttled p)"
| count: "pacer_step p (p\<lparr>pauses := key # pauses p\<rparr>)"
| leased: "pacer_step p (p\<lparr>inflight := (inflight p)(key := inflight p key + 1)\<rparr>)"
| returned: "inflight p key > 0 \<Longrightarrow> pacer_step p (p\<lparr>inflight := (inflight p)(key := inflight p key - 1)\<rparr>)"
| promoted: "pacer_step p (p\<lparr>mx := remove_key key (mx p)\<rparr>)"
| stood_down: "pacer_step p (p\<lparr>mx := adjust key (\<lambda>st. st\<lparr>pausedUntil := Some until, state := Paused\<rparr>) (mx p)\<rparr>)"
| resumed: "pacer_step p (p\<lparr>mx := adjust key (\<lambda>st. st\<lparr>pausedUntil := None, state := Steady\<rparr>) (mx p)\<rparr>)"

section \<open>The invariant\<close>

definition mx_wf :: "mxState \<Rightarrow> bool" where
  "mx_wf st \<longleftrightarrow> band_wf (mband st) \<and> MinRate (mband st) \<le> rate st \<and> rate st \<le> MaxRate (mband st) \<and>
     MinConc (mband st) \<le> conc st \<and> conc st \<le> MaxConc (mband st) \<and> 0 \<le> clean st"

definition pacer_wf :: "pacer \<Rightarrow> bool" where
  "pacer_wf p \<longleftrightarrow> list_all (\<lambda>(k, st). mx_wf st) (mx p) \<and> distinct (map fst (mx p)) \<and>
     [] \<notin> fst ` set (mx p) \<and> 0 < MaxTracked (opts p) \<and> int (length (mx p)) \<le> MaxTracked (opts p)
     \<and> (\<forall>k. 0 \<le> inflight p k)"

lemma adjust_keys [simp]: "map fst (adjust key f xs) = map fst xs"
  by (auto simp: adjust_def)

lemma adjust_fst [simp]: "fst ` set (adjust key f xs) = fst ` set xs"
  by (force simp: adjust_def)

lemma adjust_length [simp]: "length (adjust key f xs) = length xs"
  by (simp add: adjust_def)

lemma adjust_all:
  "list_all (\<lambda>(k, st). mx_wf st) xs \<Longrightarrow> (\<And>st. mx_wf st \<Longrightarrow> mx_wf (f st)) \<Longrightarrow> list_all (\<lambda>(k, st). mx_wf st) (adjust key f xs)"
  by (auto simp: adjust_def list_all_iff)

lemma adjust_map_of [simp]:
  "map_of (adjust key f xs) k = (if k = key then map_option f (map_of xs k) else map_of xs k)"
  by (induction xs) (auto simp: adjust_def)

lemma adjust_wf:
  assumes "pacer_wf p" "\<And>st. mx_wf st \<Longrightarrow> mx_wf (f st)"
  shows "pacer_wf (p\<lparr>mx := adjust key f (mx p)\<rparr>)"
  using assms by (simp add: pacer_wf_def adjust_all)

lemma filter_wf:
  assumes "pacer_wf p" shows "pacer_wf (p\<lparr>mx := filter P (mx p)\<rparr>)"
proof -
  have "int (length (filter P (mx p))) \<le> MaxTracked (opts p)"
    using assms length_filter_le [of P "mx p"] unfolding pacer_wf_def by linarith
  then show ?thesis using assms
    by (auto simp: pacer_wf_def list_all_iff distinct_map_filter)
qed

lemma foldl_older_ne: "fst a \<noteq> [] \<Longrightarrow> [] \<notin> fst ` set xs \<Longrightarrow> fst (foldl older a xs) \<noteq> []"
  by (induction xs arbitrary: a) (auto simp: older_def)

lemma oldest_found: "xs \<noteq> [] \<Longrightarrow> [] \<notin> fst ` set xs \<Longrightarrow> oldest xs \<noteq> []"
  using foldl_older_ne [of "older ([], 0) (hd xs)" "tl xs"]
  by (cases xs) (auto simp: oldest_def older_def)

lemma evict_lru_spec:
  assumes "[] \<notin> fst ` set xs"
  shows "(\<exists>P. evict_lru cap xs = filter P xs) \<and> (0 < cap \<longrightarrow> int (length (evict_lru cap xs)) < cap)"
  using assms
proof (induction cap xs rule: evict_lru.induct)
  case (1 cap xs)
  show ?case
  proof (cases "cap \<le> int (length xs) \<and> oldest xs \<noteq> []")
    case True
    have "[] \<notin> fst ` set (remove_key (oldest xs) xs)" using 1(2) by (auto simp: remove_key_def)
    with 1(1) True True show ?thesis
      by (subst (1 2) evict_lru.simps) (auto simp: remove_key_def filter_filter)
  next
    case False
    with oldest_found [OF _ 1(2)] have "xs = [] \<or> int (length xs) < cap" by linarith
    with False show ?thesis
      by (subst (1 2) evict_lru.simps) (auto intro: exI [of _ "\<lambda>_. True"])
  qed
qed

lemma evictLocked_spec:
  assumes "[] \<notin> fst ` set xs" "0 < MaxTracked o0"
  shows "(\<exists>P. evictLocked now o0 xs = filter P xs) \<and> int (length (evictLocked now o0 xs)) < MaxTracked o0"
proof -
  have "[] \<notin> fst ` set (filter Q xs)" for Q using assms(1) by auto
  from evict_lru_spec [OF this] assms(2) show ?thesis
    unfolding evictLocked_def by (metis (no_types, lifting) filter_filter)
qed

lemma evictLocked_subset: "set (evictLocked now o0 xs) \<subseteq> set xs"
proof -
  have "set (evict_lru cap ys) \<subseteq> set ys" for cap ys
  proof (induction cap ys rule: evict_lru.induct)
    case (1 cap ys)
    then show ?case by (subst evict_lru.simps) (auto simp: remove_key_def)
  qed
  then show ?thesis by (fastforce simp: evictLocked_def)
qed

lemma evidence_fields [simp]:
  "mband (fst (evidence pr st)) = mband st" "rate (fst (evidence pr st)) = rate st"
  "conc (fst (evidence pr st)) = conc st" "clean (fst (evidence pr st)) = clean st"
  "pausedUntil (fst (evidence pr st)) = pausedUntil st"
  by (simp_all add: evidence_def Let_def)

lemma settle_fields [simp]:
  "mband (settle st) = mband st" "rate (settle st) = rate st" "conc (settle st) = conc st"
  "clean (settle st) = clean st" "pausedUntil (settle st) = pausedUntil st"
  by (simp_all add: settle_def)

lemma climb_fields [simp]:
  "mband (climb st) = mband st" "pausedUntil (climb st) = pausedUntil st"
  by (simp_all add: climb_def)

lemma observe_entry_clean:
  "observe_entry now pr False st =
     (fst (observe_clean pr (st\<lparr>lastUsed := now\<rparr>)), False, snd (observe_clean pr (st\<lparr>lastUsed := now\<rparr>)))"
  by (simp add: observe_entry_def Let_def case_prod_beta)

lemma observe_entry_throttled:
  "observe_entry now pr True st =
     (fst (observe_throttled now (st\<lparr>lastUsed := now\<rparr>)), snd (observe_throttled now (st\<lparr>lastUsed := now\<rparr>)), False)"
  by (simp add: observe_entry_def Let_def case_prod_beta)

lemma observe_entry_clean_pause: "pausedUntil (fst (observe_entry now pr False st)) = pausedUntil st"
  by (simp add: observe_entry_def observe_clean_def evidence_def settle_def climb_def Let_def case_prod_beta)

lemma mx_wf_climb: "mx_wf st \<Longrightarrow> mx_wf (climb st)"
  by (auto simp: mx_wf_def band_wf_def climb_def climbFactor_def)

lemma mx_wf_throttled: "mx_wf st \<Longrightarrow> mx_wf (fst (observe_throttled now st))"
  by (auto simp: mx_wf_def band_wf_def observe_throttled_def backoffFactor_def Let_def)

lemma mx_wf_observe:
  assumes "mx_wf st" shows "mx_wf (fst (observe_entry now pr throttled st))"
proof (cases throttled)
  case True
  with assms show ?thesis by (auto simp: observe_entry_throttled mx_wf_def intro!: mx_wf_throttled [unfolded mx_wf_def])
next
  case False
  have "mx_wf (climb (st\<lparr>lastUsed := now, clean := clean st + 1\<rparr>))"
    using assms by (intro mx_wf_climb) (simp add: mx_wf_def)
  with False show ?thesis by (simp add: observe_entry_clean observe_clean_def mx_wf_def)
qed

lemma start_rate_band: "band_wf b \<Longrightarrow> MinRate b \<le> start_rate b r \<and> start_rate b r \<le> MaxRate b"
  by (auto simp: start_rate_def band_wf_def split: option.split)

lemma fresh_state_wf:
  "band_wf b \<Longrightarrow> MinRate b \<le> r \<Longrightarrow> r \<le> MaxRate b \<Longrightarrow> mx_wf (fresh_state now b r pause)"
  by (auto simp: fresh_state_def mx_wf_def Let_def band_wf_def split: option.split)

lemma state_hit_wf: "pacer_wf p \<Longrightarrow> state_hit now key p = Some (st, p') \<Longrightarrow> pacer_wf p' \<and> opts p' = opts p"
  by (auto simp: state_hit_def mx_wf_def intro!: adjust_wf split: option.splits)

lemma state_hit_None: "state_hit now key p = None \<longleftrightarrow> key \<notin> fst ` set (mx p)"
  using map_of_eq_None_iff [of "mx p" key] by (auto simp: state_hit_def split: option.split)

lemma state_insert_wf:
  assumes "pacer_wf p" "key \<noteq> []" "b = bandFor rb key domain"
    and "state_insert now key b (start_rate b rr) rp p = (st, p')"
  shows "pacer_wf p'"
proof (cases "state_hit now key p")
  case None
  have "band_wf b" using assms(3) bandFor_wf_lemma by simp
  then have "mx_wf (fresh_state now b (start_rate b rr) rp)"
    using start_rate_band by (auto intro: fresh_state_wf)
  moreover from assms(1) obtain P where
    "evictLocked now (opts p) (mx p) = filter P (mx p)" "int (length (evictLocked now (opts p) (mx p))) < MaxTracked (opts p)"
    using evictLocked_spec [of "mx p" "opts p" now] by (auto simp: pacer_wf_def)
  moreover note filter_wf [OF assms(1), of P] None [unfolded state_hit_None]
  ultimately show ?thesis
    using assms(2,4) None by (auto simp: state_insert_def Let_def pacer_wf_def)
next
  case (Some r)
  with assms(4) state_hit_wf [OF assms(1)] show ?thesis by (cases r) (auto simp: state_insert_def)
qed

lemma pacer_step_wf: "pacer_step p p' \<Longrightarrow> pacer_wf p \<Longrightarrow> pacer_wf p'"
proof (induction rule: pacer_step.induct)
  case (hit now key p st p')
  then show ?case using state_hit_wf by blast
next
  case (insert key b rb domain now rr rp p st p')
  then show ?case using state_insert_wf by blast
next
  case (observe p now key throttled)
  then show ?case unfolding observe_section_def by (intro adjust_wf mx_wf_observe)
next
  case (promoted p key)
  then show ?case unfolding remove_key_def by (rule filter_wf)
next
  case (stood_down p key until)
  then show ?case by (intro adjust_wf) (auto simp: mx_wf_def)
next
  case (resumed p key)
  then show ?case by (intro adjust_wf) (auto simp: mx_wf_def)
qed (auto simp: pacer_wf_def)

lemma New_wf: "pacer_wf (New o0)"
  by (simp add: New_def pacer_wf_def Let_def)

text \<open>
  C9. The pacer never leaves its bands. In every state that any interleaving of the sections of any
  number of goroutines reaches from a new pacer, with any replies and failures of the store: every
  tracked key works at a rate and a concurrency inside its well-formed band, no key is tracked twice,
  no more keys are tracked than the cap, and the gauge of open sessions is never negative.
\<close>

theorem pacer_invariant: "pacer_step\<^sup>*\<^sup>* (New o0) p \<Longrightarrow> pacer_wf p"
  by (induction rule: rtranclp_induct) (auto intro: New_wf pacer_step_wf)


definition example_promotion :: promotion where
  "example_promotion = \<lparr>After = 100, Step = 3/2, Ceiling = 20\<rparr>"

definition example_pacer :: pacer where
  "example_pacer = New \<lparr>IdleTTL = 0, MaxTracked = 1, Promo = example_promotion, LeaseTTL = 0, LeaseWait = 0\<rparr>"

definition example_insert :: "mxState \<times> pacer" where
  "example_insert = state_insert 0 ''mx.example.org'' (bandFor None ''mx.example.org'' ''example.org'')
     (start_rate (bandFor None ''mx.example.org'' ''example.org'') None) None example_pacer"

theorem pacer_invariant_witness: "pacer_wf (snd example_insert)"
proof -
  have "pacer_step example_pacer (snd example_insert)"
    by (rule pacer_step.insert [where st = "fst example_insert"]) (simp_all add: example_insert_def)
  then have "pacer_step\<^sup>*\<^sup>* example_pacer (snd example_insert)" by (rule r_into_rtranclp)
  then show ?thesis unfolding example_pacer_def by (rule pacer_invariant)
qed

section \<open>The loop\<close>

text \<open>An entry after a number of throttled, and of clean, answers.\<close>

primrec throttled_times :: "instant \<Rightarrow> promotion \<Rightarrow> nat \<Rightarrow> mxState \<Rightarrow> mxState" where
  "throttled_times now pr 0 st = st"
| "throttled_times now pr (Suc n) st = fst (observe_entry now pr True (throttled_times now pr n st))"

primrec clean_times :: "instant \<Rightarrow> promotion \<Rightarrow> nat \<Rightarrow> mxState \<Rightarrow> mxState" where
  "clean_times now pr 0 st = st"
| "clean_times now pr (Suc n) st = fst (observe_entry now pr False (clean_times now pr n st))"

lemma observe_band [simp]: "mband (fst (observe_entry now pr t st)) = mband st"
  by (cases t) (simp_all add: observe_entry_throttled observe_entry_clean observe_clean_def observe_throttled_def Let_def)

lemma observe_clean_rate:
  "rate (fst (observe_entry now pr False st)) =
     (if clean st + 1 \<ge> 10 \<and> rate st < MaxRate (mband st)
      then min (MaxRate (mband st)) (rate st * (11/10)) else rate st)"
  "clean (fst (observe_entry now pr False st)) =
     (if clean st + 1 \<ge> 10 \<and> rate st < MaxRate (mband st) then 0 else clean st + 1)"
  by (simp_all add: observe_entry_clean observe_clean_def climb_def cleanBeforeClimb_def climbFactor_def)

lemma throttled_times_band [simp]: "mband (throttled_times now pr n st) = mband st"
  by (induction n) simp_all

lemma clean_times_band [simp]: "mband (clean_times now pr n st) = mband st"
  by (induction n) simp_all

lemma throttled_times_rate:
  assumes "mx_wf st"
  shows "rate (throttled_times now pr n st) = max (MinRate (mband st)) (rate st / 2 ^ n)"
proof (induction n)
  case 0
  from assms show ?case by (simp add: mx_wf_def)
next
  case (Suc n)
  have pos: "0 < MinRate (mband st)" using assms by (simp add: mx_wf_def band_wf_def)
  let ?s = "throttled_times now pr n st" and ?m = "MinRate (mband st)" and ?r = "rate st / 2 ^ n"
  have "rate (throttled_times now pr (Suc n) st) = (if ?m < rate ?s then max ?m (rate ?s / 2) else rate ?s)"
    by (simp add: observe_entry_throttled observe_throttled_def backoffFactor_def Let_def)
  moreover have "rate st / 2 ^ Suc n = ?r / 2" by simp
  moreover have "(if ?m < max ?m ?r then max ?m (max ?m ?r / 2) else max ?m ?r) = max ?m (?r / 2)"
    using pos by (auto simp: max_def)
  ultimately show ?case by (simp only: Suc)
qed

lemma throttled_at_floor:
  "rate st \<le> MinRate (mband st) \<Longrightarrow>
   pausedUntil (fst (observe_entry now pr True st)) = Some (now + pauseFor (mband st)) \<and>
   state (fst (observe_entry now pr True st)) = Paused \<and> fst (snd (observe_entry now pr True st))"
  by (simp add: observe_entry_def observe_throttled_def Let_def)

text \<open>
  C21. A receiver that keeps throttling is left alone. After \<open>n\<close> throttled answers the rate is its
  n-th half, never below the floor of the band; and once that many halvings cover the band, the next
  throttled answer pauses the key for the band's pause.
\<close>

theorem throttles_lead_to_pause:
  assumes "mx_wf st" "MaxRate (mband st) \<le> MinRate (mband st) * 2 ^ n"
  shows "rate (throttled_times now pr k st) = max (MinRate (mband st)) (rate st / 2 ^ k) \<and>
    pausedUntil (throttled_times now pr (Suc n) st) = Some (now + pauseFor (mband st)) \<and>
    state (throttled_times now pr (Suc n) st) = Paused"
proof -
  from assms have "rate st \<le> MinRate (mband st) * 2 ^ n" by (auto simp: mx_wf_def)
  then have "rate (throttled_times now pr n st) \<le> MinRate (mband (throttled_times now pr n st))"
    by (simp add: throttled_times_rate [OF assms(1)] field_simps)
  from throttled_at_floor [OF this] throttled_times_rate [OF assms(1)] show ?thesis by simp
qed

theorem throttles_lead_to_pause_witness:
  "rate (throttled_times 0 example_promotion 1 (fresh_state 0 conservative (1/2) None)) =
      max (MinRate (mband (fresh_state 0 conservative (1/2) None))) (rate (fresh_state 0 conservative (1/2) None) / 2 ^ 1) \<and>
    pausedUntil (throttled_times 0 example_promotion (Suc 3) (fresh_state 0 conservative (1/2) None)) =
      Some (0 + pauseFor (mband (fresh_state 0 conservative (1/2) None))) \<and>
    state (throttled_times 0 example_promotion (Suc 3) (fresh_state 0 conservative (1/2) None)) = Paused"
  by (rule throttles_lead_to_pause)
    (simp_all add: fresh_state_def savedPause_def mx_wf_def band_wf_def conservative_def)

text \<open>
  Climbing is slow and stops at the ceiling. From a key with no clean answers counted, \<open>m\<close> clean
  answers in a row raise the rate by a tenth for every ten of them, up to the ceiling of the band and
  never past it.
\<close>

theorem clean_answers_climb:
  assumes "mx_wf st" "clean st = 0"
  shows "rate (clean_times now pr m st) = min (MaxRate (mband st)) (rate st * (11/10) ^ (m div 10))"
proof -
  define g where "g k = rate st * (11/10) ^ k" for k :: nat
  have g_Suc: "g (Suc k) = g k * (11/10)" for k by (simp add: g_def)
  have grow: "g k \<le> g (Suc k)" for k using assms(1) by (simp add: g_def mx_wf_def band_wf_def)
  let ?M = "MaxRate (mband st)" and ?s = "\<lambda>m. clean_times now pr m st"
  have "rate (?s m) = min ?M (g (m div 10)) \<and> (rate (?s m) < ?M \<longrightarrow> clean (?s m) = int (m mod 10))"
  proof (induction m)
    case 0
    then show ?case using assms by (simp add: mx_wf_def g_def)
  next
    case (Suc m)
    have step: "rate (?s (Suc m)) =
        (if clean (?s m) + 1 \<ge> 10 \<and> rate (?s m) < ?M then min ?M (rate (?s m) * (11/10)) else rate (?s m))"
      "clean (?s (Suc m)) = (if clean (?s m) + 1 \<ge> 10 \<and> rate (?s m) < ?M then 0 else clean (?s m) + 1)"
      by (simp_all only: clean_times.simps observe_clean_rate clean_times_band)
    consider "?M \<le> g (m div 10)" | "g (m div 10) < ?M" "m mod 10 = 9" | "g (m div 10) < ?M" "m mod 10 < 9"
      by linarith
    then show ?case
    proof cases
      case 1
      have "g (m div 10) \<le> g (Suc m div 10)"
        by (rule lift_Suc_mono_le [of g, OF grow]) (rule div_le_mono, simp)
      with 1 have "?M \<le> g (Suc m div 10)" by (rule order_trans)
      then have top: "min ?M (g (Suc m div 10)) = ?M" by (rule min_absorb1)
      have "rate (?s m) = ?M" using 1 Suc by (simp only: min_absorb1)
      then have "rate (?s (Suc m)) = ?M" using step(1) by (simp only: less_irrefl if_False simp_thms)
      with top show ?thesis by (simp only: less_irrefl simp_thms)
    next
      case 2
      from 2(2) have "Suc m div 10 = Suc (m div 10)" "Suc m mod 10 = 0" by (simp_all add: div_Suc mod_Suc)
      with 2 Suc step show ?thesis by (simp only: g_Suc) simp
    next
      case 3
      from 3(2) have "Suc m div 10 = m div 10" "Suc m mod 10 = Suc (m mod 10)" by (simp_all add: div_Suc mod_Suc)
      with 3 Suc step show ?thesis by simp
    qed
  qed
  then show ?thesis by (simp add: g_def)
qed

theorem clean_answers_climb_witness:
  "rate (clean_times 0 example_promotion 25 (fresh_state 0 conservative (1/10) None)) =
     min (MaxRate (mband (fresh_state 0 conservative (1/10) None)))
       (rate (fresh_state 0 conservative (1/10) None) * (11/10) ^ (25 div 10))"
  by (rule clean_answers_climb)
    (simp_all add: fresh_state_def savedPause_def mx_wf_def band_wf_def conservative_def)


section \<open>Budget\<close>






text \<open>A bucket, for the witnesses: one grant, at the first call, and none later.\<close>

definition example_take :: "nat take_op" where
  "example_take key r b now n =
     (if n < 1 then (Inr \<lparr>Allowed = True, Tokens = 0, RetryAfter = 0\<rparr>, 5, Suc n)
      else (Inr \<lparr>Allowed = False, Tokens = 0, RetryAfter = second\<rparr>, 5, n))"

definition example_store :: pstore where
  "example_store = \<lparr>band_at = (\<lambda>_. NoKey), proposal_at = (\<lambda>_. NoKey), rate_at = (\<lambda>_. NoKey),
     conc_at = (\<lambda>_. NoKey), state_at = (\<lambda>_. NoKey), pause_at = (\<lambda>_. NoKey), fault = (\<lambda>_. False), calls = 0\<rparr>"


section \<open>Pauses\<close>

lemma PauseKey_store:
  "PauseKey mxHost until (p, s) = (True, p', s') \<Longrightarrow> pause_at s' (PaceKey mxHost) = Holds (until div second)"
  by (auto simp: PauseKey_def store_set_def Let_def split: if_splits)

lemma stateFor_fresh_pause:
  assumes "map_of (mx p) key = None" "\<not> fault s (Suc (Suc (calls s)))" "pause_at s key = Holds u"
  shows "pausedUntil (fst (stateFor now key domain (p, s))) = Some (u * second)"
proof -
  have "state_hit now key p = None" using assms(1) by (simp add: state_hit_def)
  with assms show ?thesis
    by (simp add: stateFor_def store_get_def state_insert_def fresh_state_def savedPause_def Let_def split: prod.split)
qed

lemma Acquire_paused:
  assumes "pausedUntil (fst (stateFor now (PaceKey mxHost) domain (p, s))) = Some u" "now < u"
  shows "\<exists>p' s'. Acquire ask cancelled now mxHost domain (p, s, w) = Some (Inl (PausedError (PaceKey mxHost) u), now, p', s', w)"
  using assms by (cases "stateFor now (PaceKey mxHost) domain (p, s)") (auto simp: Acquire_def)

text \<open>
  A stand-down survives a restart and an eviction: once \<open>PauseKey\<close> has written it, a pacer that
  no longer (or never) tracked the key refuses every probe of it before that time, to the second,
  without drawing a token, as long as it can read the pause back.
\<close>

theorem pause_survives_restart:
  assumes "PauseKey mxHost until (p, s) = (True, p1, s1)"
    and "map_of (mx p2) (PaceKey mxHost) = None" "pause_at s2 = pause_at s1" "\<not> fault s2 (Suc (Suc (calls s2)))"
    and "now < until div second * second"
  shows "\<exists>p' s'. Acquire ask cancelled now mxHost domain (p2, s2, w) =
    Some (Inl (PausedError (PaceKey mxHost) (until div second * second)), now, p', s', w)"
  using assms PauseKey_store [OF assms(1)]
  by (intro Acquire_paused stateFor_fresh_pause) auto

theorem pause_survives_restart_witness:
  "\<exists>p' s'. Acquire example_take (\<lambda>t. t > 0) 0 ''mx.example.org'' ''example.org''
      (example_pacer, snd (snd (PauseKey ''mx.example.org'' (90 * second) (example_pacer, example_store))), 0) =
    Some (Inl (PausedError (PaceKey ''mx.example.org'') (90 * second div second * second)), 0, p', s', 0)"
  by (rule pause_survives_restart [where p = example_pacer and s = example_store
        and ?p1.0 = "fst (snd (PauseKey ''mx.example.org'' (90 * second) (example_pacer, example_store)))"
        and ?s1.0 = "snd (snd (PauseKey ''mx.example.org'' (90 * second) (example_pacer, example_store)))"])
    (simp_all add: PauseKey_def store_set_def example_store_def example_pacer_def New_def Let_def)

text \<open>
  A stand-down can be cut short by the loop it is meant to overrule: a throttled answer of a
  session still open when the key is stood down, at the floor of its band, replaces the end of the
  stand-down by the end of the band's own pause, in the entry and in the store, however much later
  the stand-down was to end.
\<close>

theorem throttle_shortens_standdown:
  assumes "map_of (mx p) (PaceKey mxHost) = Some st" "pausedUntil st = Some until"
    and "rate st \<le> MinRate (mband st)" "now + pauseFor (mband st) < until" "\<And>n. \<not> fault s n"
  shows "\<exists>st'. map_of (mx (fst (Observe now mxHost True (p, s)))) (PaceKey mxHost) = Some st' \<and>
    pausedUntil st' = Some (now + pauseFor (mband st)) \<and> now + pauseFor (mband st) < until \<and>
    pause_at (snd (Observe now mxHost True (p, s))) (PaceKey mxHost) = Holds ((now + pauseFor (mband st)) div second)"
proof -
  obtain st' a b where o: "observe_entry now (Promo (opts p)) True st = (st', a, b)" by (metis prod.exhaust)
  have "b = False" using o by (simp add: observe_entry_throttled)
  with assms o throttled_at_floor [OF assms(3), of now "Promo (opts p)"] show ?thesis
    by (auto simp: Observe_def persist_def store_set_def Let_def)
qed

definition stood_down_pacer :: pacer where
  "stood_down_pacer = example_pacer\<lparr>mx := [(''mx.example.org'',
     (fresh_state 0 conservative (1/10) None)\<lparr>pausedUntil := Some (24 * hour), state := Paused\<rparr>)]\<rparr>"

theorem throttle_shortens_standdown_witness:
  "\<exists>st'. map_of (mx (fst (Observe 0 ''mx.example.org'' True (stood_down_pacer, example_store)))) (PaceKey ''mx.example.org'') = Some st' \<and>
    pausedUntil st' = Some (0 + pauseFor conservative) \<and> 0 + pauseFor conservative < 24 * hour \<and>
    pause_at (snd (Observe 0 ''mx.example.org'' True (stood_down_pacer, example_store))) (PaceKey ''mx.example.org'')
      = Holds ((0 + pauseFor conservative) div second)"
proof -
  have k: "PaceKey ''mx.example.org'' = ''mx.example.org''" by code_simp
  show ?thesis
    using throttle_shortens_standdown [where p = stood_down_pacer and mxHost = "''mx.example.org''" and now = 0
        and until = "24 * hour" and s = example_store
        and st = "(fresh_state 0 conservative (1/10) None)\<lparr>pausedUntil := Some (24 * hour), state := Paused\<rparr>"]
    by (simp add: k stood_down_pacer_def fresh_state_def savedPause_def conservative_def pauseFor_def example_store_def)
qed

section \<open>Ceilings\<close>

datatype call =
    Ask instant string string
  | Answer instant string bool
  | Stop string instant
  | Lift string
  | Approve string

fun serve :: "call \<Rightarrow> pacer \<times> pstore \<Rightarrow> pacer \<times> pstore" where
  "serve (Ask now host domain) ps = snd (stateFor now (PaceKey host) domain ps)"
| "serve (Answer now host throttled) ps = Observe now host throttled ps"
| "serve (Stop host until) ps = snd (PauseKey host until ps)"
| "serve (Lift host) ps = snd (ResumeKey host ps)"
| "serve (Approve host) ps = snd (Promote host ps)"

definition is_approval :: "call \<Rightarrow> bool" where
  "is_approval c = (case c of Approve _ \<Rightarrow> True | _ \<Rightarrow> False)"

text \<open>Proposals and stored bands stay below \<open>c\<close>.\<close>

definition capped :: "rat \<Rightarrow> pstore \<Rightarrow> bool" where
  "capped c s \<longleftrightarrow> (\<forall>k pr. proposal_at s k = Holds pr \<longrightarrow> CurrentMax pr < ProposedMax pr \<and> ProposedMax pr \<le> c) \<and>
     (\<forall>k b. band_at s k = Holds b \<longrightarrow> MaxRate b \<le> c)"

lemma store_get_fields [simp]:
  "band_at (snd (store_get f s)) = band_at s" "proposal_at (snd (store_get f s)) = proposal_at s"
  by (simp_all add: store_get_def)

lemma persist_fields [simp]:
  "band_at (persist key st s) = band_at s" "proposal_at (persist key st s) = proposal_at s"
  by (simp_all add: persist_def store_set_def Let_def split: option.split)

lemma proposeBand_band [simp]: "band_at (proposeBand o0 now key st s) = band_at s"
  by (simp add: proposeBand_def store_set_def Let_def)

lemma proposeBand_capped: "capped c s \<Longrightarrow> Ceiling (Promo o0) \<le> c \<Longrightarrow> capped c (proposeBand o0 now key st s)"
  by (auto simp: proposeBand_def store_set_def Let_def capped_def not_le)


lemma stateFor_rest [simp]:
  "band_at (snd (snd (stateFor now key d ps))) = band_at (snd ps)"
  "proposal_at (snd (snd (stateFor now key d ps))) = proposal_at (snd ps)"
  "opts (fst (snd (stateFor now key d ps))) = opts (fst ps)"
  by (simp_all add: stateFor_def store_get_def state_insert_def state_hit_def Let_def split: option.split)

lemma Observe_rest [simp]:
  "band_at (snd (Observe now host t ps)) = band_at (snd ps)" "opts (fst (Observe now host t ps)) = opts (fst ps)"
  by (simp_all add: Observe_def Let_def case_prod_beta split: option.split)

lemma capped_calls [simp]: "capped c (s\<lparr>calls := n\<rparr>) = capped c s"
  by (simp add: capped_def)

lemma Observe_capped:
  assumes "capped c (snd ps)" "Ceiling (Promo (opts (fst ps))) \<le> c"
  shows "capped c (snd (Observe now host t ps))"
proof -
  have p: "capped c (persist k st s)" if "capped c s" for k st s
    using that by (simp add: capped_def)
  show ?thesis
    using assms
    by (auto simp: Observe_def Let_def case_prod_beta intro!: p proposeBand_capped split: option.split)
qed

lemma PauseKey_rest [simp]:
  "band_at (snd (snd (PauseKey h u ps))) = band_at (snd ps)" "proposal_at (snd (snd (PauseKey h u ps))) = proposal_at (snd ps)"
  "opts (fst (snd (PauseKey h u ps))) = opts (fst ps)"
  by (simp_all add: PauseKey_def store_set_def Let_def case_prod_beta)

lemma ResumeKey_rest [simp]:
  "band_at (snd (snd (ResumeKey h ps))) = band_at (snd ps)" "proposal_at (snd (snd (ResumeKey h ps))) = proposal_at (snd ps)"
  "opts (fst (snd (ResumeKey h ps))) = opts (fst ps)"
  by (simp_all add: ResumeKey_def store_set_def Let_def case_prod_beta)

lemma Promote_opts [simp]: "opts (fst (snd (Promote h ps))) = opts (fst ps)"
  by (simp add: Promote_def Proposal_def store_get_def store_set_def Let_def case_prod_beta split: option.split cell.split)

lemma Promote_capped:
  assumes "capped c (snd ps)" shows "capped c (snd (snd (Promote h ps)))"
proof (cases "Proposal (PaceKey h) (snd ps)")
  case (Pair o1 s1)
  then have s1: "capped c s1" using assms
    by (auto simp: Proposal_def store_get_def split: option.splits cell.splits if_splits)
  show ?thesis
  proof (cases o1)
    case None
    with Pair s1 show ?thesis by (simp add: Promote_def Let_def case_prod_beta)
  next
    case (Some pr)
    with Pair assms have "ProposedMax pr \<le> c"
      by (auto simp: Proposal_def store_get_def capped_def split: option.splits cell.splits if_splits)
    with Some Pair s1 show ?thesis
      by (simp add: Promote_def Let_def case_prod_beta store_get_def store_set_def) (auto simp: capped_def)
  qed
qed

lemma serve_capped:
  "capped c (snd ps) \<Longrightarrow> Ceiling (Promo (opts (fst ps))) \<le> c \<Longrightarrow>
    capped c (snd (serve x ps)) \<and> opts (fst (serve x ps)) = opts (fst ps)"
  by (cases x) (auto simp: Observe_capped Promote_capped, auto simp: capped_def)

text \<open>
  The loop never widens a band, and an operator widens it only as far as was sanctioned. After any
  sequence of probes, answers, stand-downs and approvals, with any failures of the store: without an
  approval the stored bands are the ones it began with; and no standing proposal and no stored ceiling
  is above \<open>c\<close>, if none was at the start and \<open>c\<close> is at least the configured ceiling.
\<close>

theorem ceilings_sanctioned:
  assumes "capped c s" "Ceiling (Promo (opts p)) \<le> c"
  shows "capped c (snd (fold serve cs (p, s))) \<and>
    ((\<exists>x \<in> set cs. is_approval x) \<or> band_at (snd (fold serve cs (p, s))) = band_at s)"
proof -
  have "capped c (snd (fold serve cs ps)) \<and>
    ((\<exists>x \<in> set cs. is_approval x) \<or> band_at (snd (fold serve cs ps)) = band_at (snd ps))"
    if "capped c (snd ps)" "Ceiling (Promo (opts (fst ps))) \<le> c" for ps
    using that
  proof (induction cs arbitrary: ps)
    case (Cons x cs)
    have "is_approval x \<or> band_at (snd (serve x ps)) = band_at (snd ps)"
      by (cases x) (simp_all add: is_approval_def)
    with Cons.IH [of "serve x ps"] serve_capped [OF Cons.prems, of x] Cons.prems(2) show ?case by auto
  qed simp
  from this [of "(p, s)"] assms show ?thesis by simp
qed

theorem ceilings_sanctioned_witness:
  "capped 20 (snd (fold serve [Ask 0 ''mx.example.org'' ''example.org'', Answer 1 ''mx.example.org'' False, Approve ''mx.example.org'']
      (example_pacer, example_store))) \<and>
    ((\<exists>x \<in> set [Ask 0 ''mx.example.org'' ''example.org'', Answer 1 ''mx.example.org'' False, Approve ''mx.example.org''].
        is_approval x) \<or>
     band_at (snd (fold serve [Ask 0 ''mx.example.org'' ''example.org'', Answer 1 ''mx.example.org'' False, Approve ''mx.example.org'']
      (example_pacer, example_store))) = band_at example_store)"
  by (rule ceilings_sanctioned)
    (simp_all add: capped_def example_store_def example_pacer_def New_def example_promotion_def Let_def)

end
