(* ===== verification/Resolver.thy ===== *)
theory Resolver
  imports Prelude "HOL-Library.Word" "HOL-Library.Multiset"
begin

unbundle bit_operations_syntax

text \<open>
  The resolver and its guard against server-side request forgery: \<open>internal/resolver\<close>. \<open>guard.go\<close>
  decides which addresses may be dialled at all, \<open>cache.go\<close> remembers vetted answers and refusals for
  a while, \<open>resolver.go\<close> resolves a host and vets every answer.

  Addresses are machine words; the predicates of \<open>net/netip\<close> and the parser of IP literals are
  translated with them. DNS is a parameter: nothing is assumed of its answers.

  The theorems characterise the refused IPv4 addresses as intervals, show that no sequence of
  resolutions and answers makes \<open>Resolve\<close> return a refused address, and that the mail exchangers are
  returned in order of preference.
\<close>

section \<open>Addresses\<close>

datatype addr = NoAddr | V4 "32 word" | V6 "128 word" string

definition v4 :: "nat \<Rightarrow> nat \<Rightarrow> nat \<Rightarrow> nat \<Rightarrow> 32 word" where
  "v4 a b c d = of_nat (((a * 256 + b) * 256 + c) * 256 + d)"

text \<open>The address lies in the prefix of \<open>n\<close> bits of the given one.\<close>

definition in4 :: "32 word \<Rightarrow> 32 word \<Rightarrow> nat \<Rightarrow> bool" where
  "in4 x p n \<longleftrightarrow> drop_bit (32 - n) x = drop_bit (32 - n) p"

definition in6 :: "128 word \<Rightarrow> 128 word \<Rightarrow> nat \<Rightarrow> bool" where
  "in6 x p n \<longleftrightarrow> drop_bit (128 - n) x = drop_bit (128 - n) p"

text \<open>\<open>Unmap\<close>: an IPv4-mapped address as the IPv4 address, its zone dropped.\<close>

definition Unmap :: "addr \<Rightarrow> addr" where
  "Unmap a = (case a of V6 x z \<Rightarrow> if in6 x 0xFFFF00000000 96 then V4 (ucast x) else a | _ \<Rightarrow> a)"

definition IsUnspecified :: "addr \<Rightarrow> bool" where
  "IsUnspecified a \<longleftrightarrow> a = V4 0 \<or> a = V6 0 []"

definition IsLoopback :: "addr \<Rightarrow> bool" where
  "IsLoopback a = (case Unmap a of V4 x \<Rightarrow> in4 x (v4 127 0 0 0) 8 | V6 x _ \<Rightarrow> x = 1 | NoAddr \<Rightarrow> False)"

definition IsPrivate :: "addr \<Rightarrow> bool" where
  "IsPrivate a =
     (case Unmap a of
        V4 x \<Rightarrow> in4 x (v4 10 0 0 0) 8 \<or> in4 x (v4 172 16 0 0) 12 \<or> in4 x (v4 192 168 0 0) 16
      | V6 x _ \<Rightarrow> in6 x (push_bit 120 0xFC) 7
      | NoAddr \<Rightarrow> False)"

definition IsLinkLocalUnicast :: "addr \<Rightarrow> bool" where
  "IsLinkLocalUnicast a =
     (case Unmap a of V4 x \<Rightarrow> in4 x (v4 169 254 0 0) 16 | V6 x _ \<Rightarrow> in6 x (push_bit 112 0xFE80) 10 | NoAddr \<Rightarrow> False)"

definition IsMulticast :: "addr \<Rightarrow> bool" where
  "IsMulticast a =
     (case Unmap a of V4 x \<Rightarrow> in4 x (v4 224 0 0 0) 4 | V6 x _ \<Rightarrow> in6 x (push_bit 120 0xFF) 8 | NoAddr \<Rightarrow> False)"

definition IsLinkLocalMulticast :: "addr \<Rightarrow> bool" where
  "IsLinkLocalMulticast a =
     (case Unmap a of V4 x \<Rightarrow> in4 x (v4 224 0 0 0) 24 | V6 x _ \<Rightarrow> x AND push_bit 112 0xFF0F = push_bit 112 0xFF02 | NoAddr \<Rightarrow> False)"

definition IsInterfaceLocalMulticast :: "addr \<Rightarrow> bool" where
  "IsInterfaceLocalMulticast a =
     (case a of V6 x _ \<Rightarrow> \<not> in6 x 0xFFFF00000000 96 \<and> x AND push_bit 112 0xFF0F = push_bit 112 0xFF01 | _ \<Rightarrow> False)"

definition IsGlobalUnicast :: "addr \<Rightarrow> bool" where
  "IsGlobalUnicast a \<longleftrightarrow> a \<noteq> NoAddr \<and> Unmap a \<noteq> V4 0 \<and> Unmap a \<noteq> V4 (v4 255 255 255 255) \<and> Unmap a \<noteq> V6 0 []
     \<and> \<not> IsLoopback a \<and> \<not> IsMulticast a \<and> \<not> IsLinkLocalUnicast a"

section \<open>The guard\<close>

definition blocked4 :: "(32 word \<times> nat \<times> string) list" where
  "blocked4 =
     [(v4 0 0 0 0, 8, ''this network''),
      (v4 100 64 0 0, 10, ''carrier-grade NAT''),
      (v4 192 0 0 0, 24, ''IETF protocol assignments''),
      (v4 192 0 2 0, 24, ''documentation (TEST-NET-1)''),
      (v4 192 88 99 0, 24, ''6to4 relay anycast''),
      (v4 198 18 0 0, 15, ''benchmarking''),
      (v4 198 51 100 0, 24, ''documentation (TEST-NET-2)''),
      (v4 203 0 113 0, 24, ''documentation (TEST-NET-3)''),
      (v4 240 0 0 0, 4, ''reserved'')]"

definition blocked6 :: "(128 word \<times> nat \<times> string) list" where
  "blocked6 =
     [(0, 96, ''IPv4-compatible IPv6''),
      (0xFFFF00000000, 96, ''IPv4-mapped IPv6''),
      (push_bit 96 0x64FF9B, 96, ''NAT64''),
      (push_bit 112 0x100, 64, ''discard-only''),
      (push_bit 96 0x20010000, 32, ''Teredo''),
      (push_bit 96 0x20010020, 28, ''ORCHIDv2''),
      (push_bit 96 0x20010DB8, 32, ''documentation''),
      (push_bit 112 0x2002, 16, ''6to4'')]"

text \<open>The first entry of the table that contains the address. An IPv4 address is in no IPv6 prefix
  and the other way round; \<open>Contains\<close> refuses an address with a zone.\<close>

definition table_reason :: "addr \<Rightarrow> string option" where
  "table_reason a =
     (case a of
        NoAddr \<Rightarrow> None
      | V4 x \<Rightarrow> map_option (\<lambda>(_, _, r). r) (find (\<lambda>(p, n, _). in4 x p n) blocked4)
      | V6 x z \<Rightarrow> if z \<noteq> [] then None else map_option (\<lambda>(_, _, r). r) (find (\<lambda>(p, n, _). in6 x p n) blocked6))"

text \<open>\<open>Blocked\<close>: the reason, or \<open>None\<close> for an address that may be dialled.\<close>

definition Blocked :: "addr \<Rightarrow> string option" where
  "Blocked a =
     (if a = NoAddr then Some ''invalid address''
      else if (case a of V6 _ z \<Rightarrow> z \<noteq> [] | _ \<Rightarrow> False) then Some ''zoned address''
      else if IsUnspecified a then Some ''unspecified''
      else if IsLoopback a then Some ''loopback''
      else if IsPrivate a then Some ''private''
      else if IsLinkLocalUnicast a then Some ''link-local''
      else if IsLinkLocalMulticast a \<or> IsInterfaceLocalMulticast a \<or> IsMulticast a then Some ''multicast''
      else (case table_reason a of
              Some r \<Rightarrow> Some r
            | None \<Rightarrow> if \<not> IsGlobalUnicast a then Some ''not global unicast'' else None))"

section \<open>IP literals\<close>

text \<open>\<open>netip.ParseAddr\<close>: four decimal fields without leading zeros, or up to eight hexadecimal
  groups with at most one gap, possibly ending in an IPv4 address, and a zone.\<close>

definition octet :: "string \<Rightarrow> nat option" where
  "octet f =
     (if f \<noteq> [] \<and> list_all is_digit f \<and> (length f = 1 \<or> hd f \<noteq> CHR ''0'') \<and> digits_value 0 f \<le> 255
      then Some (digits_value 0 f) else None)"

definition parse4 :: "string \<Rightarrow> (nat \<times> nat \<times> nat \<times> nat) option" where
  "parse4 s =
     (case map octet (split_on CHR ''.'' s) of
        [Some a, Some b, Some c, Some d] \<Rightarrow> Some (a, b, c, d)
      | _ \<Rightarrow> None)"

definition hex_value :: "char \<Rightarrow> nat option" where
  "hex_value c =
     (if is_digit c then Some (digit_value c)
      else if 97 \<le> byte_of c \<and> byte_of c \<le> 102 then Some (byte_of c - 87)
      else if 65 \<le> byte_of c \<and> byte_of c \<le> 70 then Some (byte_of c - 55)
      else None)"

definition is_hex :: "char \<Rightarrow> bool" where
  "is_hex c \<longleftrightarrow> hex_value c \<noteq> None"

definition hex_group :: "string \<Rightarrow> nat" where
  "hex_group s = foldl (\<lambda>n c. 16 * n + the (hex_value c)) 0 s"

text \<open>The groups, \<open>None\<close> standing for the gap; \<open>n\<close> groups may still follow.\<close>

fun v6_groups :: "nat \<Rightarrow> bool \<Rightarrow> string \<Rightarrow> nat option list option" where
  "v6_groups 0 gap s = (if s = [] then Some [] else None)"
| "v6_groups (Suc n) gap s =
     (let h = takeWhile is_hex s; r = dropWhile is_hex s; v = hex_group h
      in if h = [] \<or> length h > 4 then None
         else case r of
                [] \<Rightarrow> Some [Some v]
              | c # t \<Rightarrow>
                  if c = CHR ''.'' then
                    (if n = 0 \<or> \<not> gap \<and> n \<noteq> 1 then None
                     else map_option (\<lambda>(a, b, c, d). [Some (a * 256 + b), Some (c * 256 + d)]) (parse4 s))
                  else if c \<noteq> CHR '':'' then None
                  else (case t of
                          [] \<Rightarrow> None
                        | c' # t' \<Rightarrow>
                            if c' = CHR '':'' then
                              (if gap then None
                               else if t' = [] then Some [Some v, None]
                               else map_option (\<lambda>l. Some v # None # l) (v6_groups n True t'))
                            else map_option (\<lambda>l. Some v # l) (v6_groups n gap t)))"

definition v6_value :: "nat option list \<Rightarrow> 128 word option" where
  "v6_value gs =
     (let k = length (filter (\<lambda>g. g \<noteq> None) gs);
          full = concat (map (\<lambda>g. case g of Some v \<Rightarrow> [v] | None \<Rightarrow> replicate (8 - k) 0) gs)
      in if None \<in> set gs \<and> 8 \<le> k \<or> None \<notin> set gs \<and> k \<noteq> 8 then None
         else Some (foldl (\<lambda>w v. push_bit 16 w + of_nat v) 0 full))"

definition parse6 :: "string \<Rightarrow> 128 word option" where
  "parse6 s =
     (if s = ''::'' then Some 0
      else if has_prefix s ''::'' then Option.bind (v6_groups 8 True (drop 2 s)) (\<lambda>gs. v6_value (None # gs))
      else Option.bind (v6_groups 8 False s) v6_value)"

definition ParseAddr :: "string \<Rightarrow> addr option" where
  "ParseAddr s =
     (case find (\<lambda>c. c = CHR ''.'' \<or> c = CHR '':'' \<or> c = CHR ''%'') s of
        None \<Rightarrow> None
      | Some c \<Rightarrow>
          if c = CHR ''.'' then map_option (\<lambda>(a, b, c, d). V4 (v4 a b c d)) (parse4 s)
          else if c = CHR '':'' then
            (let (a, z) = (takeWhile (\<lambda>c. c \<noteq> CHR ''%'') s, dropWhile (\<lambda>c. c \<noteq> CHR ''%'') s)
             in if z = ''%'' then None else map_option (\<lambda>w. V6 w (tl z)) (parse6 a))
          else None)"

section \<open>The cache\<close>

datatype resolve_error =
    EmptyHost
  | LookupFailed string
  | NoRoutableAddress
  | BlockedError string addr string

record entry =
  addrs :: "addr list"
  err :: "resolve_error option"
  expires :: instant

record cache =
  entries :: "(string \<times> entry) list"
  ttl :: duration
  negTTL :: duration
  max_size :: int

definition newCache :: "duration \<Rightarrow> duration \<Rightarrow> int \<Rightarrow> cache" where
  "newCache t n sz =
     \<lparr>entries = [], ttl = (if t \<le> 0 then 5 * minute else t), negTTL = (if n \<le> 0 then minute else n),
      max_size = (if sz \<le> 0 then 4096 else sz)\<rparr>"

definition drop_entry :: "string \<Rightarrow> (string \<times> entry) list \<Rightarrow> (string \<times> entry) list" where
  "drop_entry host es = filter (\<lambda>(k, _). k \<noteq> host) es"

text \<open>\<open>get\<close>: an expired entry is removed and is a miss.\<close>

definition cache_get :: "instant \<Rightarrow> string \<Rightarrow> cache \<Rightarrow> entry option \<times> cache" where
  "cache_get now host c =
     (case map_of (entries c) host of
        None \<Rightarrow> (None, c)
      | Some e \<Rightarrow>
          if expires e < now then (None, c\<lparr>entries := drop_entry host (entries c)\<rparr>) else (Some e, c))"

text \<open>\<open>evictLocked\<close>: the expired entries, and one more (the first in the iteration order, which is
  arbitrary) when that freed nothing.\<close>

definition cache_evict :: "instant \<Rightarrow> cache \<Rightarrow> cache" where
  "cache_evict now c =
     (let es = filter (\<lambda>(_, e). \<not> expires e < now) (entries c)
      in c\<lparr>entries := (if int (length es) < max_size c then es else tl es)\<rparr>)"

definition cache_put :: "instant \<Rightarrow> string \<Rightarrow> addr list \<Rightarrow> resolve_error option \<Rightarrow> cache \<Rightarrow> cache" where
  "cache_put now host as e c =
     (let t = (if e = None then ttl c else negTTL c);
          c = (if int (length (entries c)) \<ge> max_size c then cache_evict now c else c)
      in c\<lparr>entries := (host, \<lparr>addrs = as, err = e, expires = now + t\<rparr>) # drop_entry host (entries c)\<rparr>)"

section \<open>Resolving\<close>

text \<open>The vetting loop of \<open>Resolve\<close>: the addresses that may be dialled and the first refusal.\<close>

fun vet :: "string \<Rightarrow> addr list \<Rightarrow> addr list \<times> resolve_error option" where
  "vet host [] = ([], None)"
| "vet host (a # as) =
     (let a = Unmap a; (out, first) = vet host as
      in case Blocked a of
           None \<Rightarrow> (a # out, first)
         | Some r \<Rightarrow> (out, Some (BlockedError host a r)))"

definition Resolve ::
  "(string \<Rightarrow> string \<Rightarrow> string + addr list) \<Rightarrow> string \<Rightarrow> instant \<Rightarrow> string \<Rightarrow> cache \<Rightarrow> (resolve_error + addr list) \<times> cache" where
  "Resolve lookup network now host c =
     (if host = [] then (Inl EmptyHost, c)
      else case ParseAddr host of
             Some a \<Rightarrow> ((case Blocked a of Some r \<Rightarrow> Inl (BlockedError host a r) | None \<Rightarrow> Inr [a]), c)
           | None \<Rightarrow>
               (case cache_get now host c of
                  (Some e, c) \<Rightarrow> ((case err e of Some x \<Rightarrow> Inl x | None \<Rightarrow> Inr (addrs e)), c)
                | (None, c) \<Rightarrow>
                    (case lookup network host of
                       Inl e \<Rightarrow> (Inl (LookupFailed e), cache_put now host [] (Some (LookupFailed e)) c)
                     | Inr as \<Rightarrow>
                         if as = [] then (Inl NoRoutableAddress, cache_put now host [] (Some NoRoutableAddress) c)
                         else (case vet host as of
                                 ([], first) \<Rightarrow>
                                   (case first of
                                      Some x \<Rightarrow> (Inl x, cache_put now host [] (Some x) c)
                                    | None \<Rightarrow> (Inr [], cache_put now host [] None c))
                               | (out, _) \<Rightarrow> (Inr out, cache_put now host out None c)))))"

section \<open>Mail exchangers\<close>

datatype mx_error = EmptyDomain | MXLookup string | NullMX | NoMX

text \<open>\<open>sort.SliceStable\<close> by preference; the host loop stops at a null MX.\<close>

fun mx_hosts :: "(string \<times> int) list \<Rightarrow> mx_error + string list" where
  "mx_hosts [] = Inr []"
| "mx_hosts ((h, _) # rs) =
     (let host = trim_suffix h ''.''
      in if host = [] then Inl NullMX
         else case mx_hosts rs of Inl e \<Rightarrow> Inl e | Inr hs \<Rightarrow> Inr (host # hs))"

definition MX :: "(string \<Rightarrow> string + (string \<times> int) list) \<Rightarrow> string \<Rightarrow> mx_error + string list" where
  "MX lookup domain =
     (if domain = [] then Inl EmptyDomain
      else case lookup domain of
             Inl e \<Rightarrow> Inl (MXLookup e)
           | Inr rs \<Rightarrow>
               (case mx_hosts (sort_key snd rs) of
                  Inl e \<Rightarrow> Inl e
                | Inr hs \<Rightarrow> if hs = [] then Inl NoMX else Inr hs))"


section \<open>The refused addresses\<close>

lemma in4_range:
  assumes "2 ^ (32 - n) dvd p" "p < 2 ^ 32"
  shows "in4 x (of_nat p) n \<longleftrightarrow> p \<le> unat x \<and> unat x < p + 2 ^ (32 - n)"
proof -
  obtain q where q: "p = 2 ^ (32 - n) * q" using assms(1) by (auto elim: dvdE)
  have p: "unat (of_nat p :: 32 word) = p" using assms(2) by (simp add: unat_of_nat)
  have "in4 x (of_nat p) n \<longleftrightarrow> drop_bit (32 - n) (unat x) = drop_bit (32 - n) (unat (of_nat p :: 32 word))"
    by (simp only: in4_def word_unat_eq_iff unat_drop_bit_eq)
  also have "\<dots> \<longleftrightarrow> unat x div 2 ^ (32 - n) = q"
    unfolding p drop_bit_eq_div by (simp add: q)
  also have "\<dots> \<longleftrightarrow> p \<le> unat x \<and> unat x < p + 2 ^ (32 - n)"
  proof
    assume "unat x div 2 ^ (32 - n) = q"
    then show "p \<le> unat x \<and> unat x < p + 2 ^ (32 - n)"
      using times_div_less_eq_dividend [of "2 ^ (32 - n)" "unat x"]
        dividend_less_times_div [of "2 ^ (32 - n)" "unat x"] by (auto simp: q algebra_simps)
  next
    assume "p \<le> unat x \<and> unat x < p + 2 ^ (32 - n)"
    then show "unat x div 2 ^ (32 - n) = q" by (intro div_nat_eqI) (auto simp: q)
  qed
  finally show ?thesis .
qed

definition ip :: "nat \<Rightarrow> nat \<Rightarrow> nat \<Rightarrow> nat \<Rightarrow> nat" where
  "ip a b c d = ((a * 256 + b) * 256 + c) * 256 + d"

text \<open>The refused IPv4 addresses, first and last of each range.\<close>

definition refused4 :: "(nat \<times> nat) list" where
  "refused4 =
     [(ip 0 0 0 0, ip 0 255 255 255), (ip 10 0 0 0, ip 10 255 255 255),
      (ip 100 64 0 0, ip 100 127 255 255), (ip 127 0 0 0, ip 127 255 255 255),
      (ip 169 254 0 0, ip 169 254 255 255), (ip 172 16 0 0, ip 172 31 255 255),
      (ip 192 0 0 0, ip 192 0 0 255), (ip 192 0 2 0, ip 192 0 2 255),
      (ip 192 88 99 0, ip 192 88 99 255), (ip 192 168 0 0, ip 192 168 255 255),
      (ip 198 18 0 0, ip 198 19 255 255), (ip 198 51 100 0, ip 198 51 100 255),
      (ip 203 0 113 0, ip 203 0 113 255), (ip 224 0 0 0, ip 239 255 255 255),
      (ip 240 0 0 0, ip 255 255 255 255)]"

lemma in4_v4:
  assumes "2 ^ (32 - n) dvd ip a b c d" "ip a b c d < 2 ^ 32"
  shows "in4 x (v4 a b c d) n \<longleftrightarrow> ip a b c d \<le> unat x \<and> unat x \<le> ip a b c d + (2 ^ (32 - n) - 1)"
proof -
  have "in4 x (v4 a b c d) n \<longleftrightarrow> ip a b c d \<le> unat x \<and> unat x < ip a b c d + 2 ^ (32 - n)"
    unfolding v4_def ip_def [symmetric] by (rule in4_range) (use assms in simp_all)
  moreover have "(0 :: nat) < 2 ^ (32 - n)" by simp
  ultimately show ?thesis by linarith
qed

lemma table_reason_V4: "table_reason (V4 x) = None \<longleftrightarrow> \<not> (\<exists>(p, n, r) \<in> set blocked4. in4 x p n)"
  by (fastforce simp: table_reason_def find_None_iff)

lemma Blocked_V4:
  "Blocked (V4 x) = None \<longleftrightarrow> \<not> (x = 0 \<or> x = v4 255 255 255 255 \<or> in4 x (v4 127 0 0 0) 8
     \<or> in4 x (v4 10 0 0 0) 8 \<or> in4 x (v4 172 16 0 0) 12 \<or> in4 x (v4 192 168 0 0) 16
     \<or> in4 x (v4 169 254 0 0) 16 \<or> in4 x (v4 224 0 0 0) 4 \<or> in4 x (v4 224 0 0 0) 24
     \<or> (\<exists>(p, n, r) \<in> set blocked4. in4 x p n))"
  using table_reason_V4 [of x]
  by (cases "table_reason (V4 x)")
    (auto simp: Blocked_def IsUnspecified_def IsLoopback_def IsPrivate_def IsLinkLocalUnicast_def
      IsLinkLocalMulticast_def IsInterfaceLocalMulticast_def IsMulticast_def IsGlobalUnicast_def
      Unmap_def)

lemma guard_ranges:
  "Blocked (V4 x) = None \<longleftrightarrow> \<not> (\<exists>(lo, hi) \<in> set refused4. lo \<le> unat x \<and> unat x \<le> hi)"
proof -
  have ranges:
    "ip 0 0 0 0 \<le> unat x \<and> unat x \<le> ip 0 255 255 255 \<longleftrightarrow> in4 x (v4 0 0 0 0) 8"
    "ip 10 0 0 0 \<le> unat x \<and> unat x \<le> ip 10 255 255 255 \<longleftrightarrow> in4 x (v4 10 0 0 0) 8"
    "ip 100 64 0 0 \<le> unat x \<and> unat x \<le> ip 100 127 255 255 \<longleftrightarrow> in4 x (v4 100 64 0 0) 10"
    "ip 127 0 0 0 \<le> unat x \<and> unat x \<le> ip 127 255 255 255 \<longleftrightarrow> in4 x (v4 127 0 0 0) 8"
    "ip 169 254 0 0 \<le> unat x \<and> unat x \<le> ip 169 254 255 255 \<longleftrightarrow> in4 x (v4 169 254 0 0) 16"
    "ip 172 16 0 0 \<le> unat x \<and> unat x \<le> ip 172 31 255 255 \<longleftrightarrow> in4 x (v4 172 16 0 0) 12"
    "ip 192 0 0 0 \<le> unat x \<and> unat x \<le> ip 192 0 0 255 \<longleftrightarrow> in4 x (v4 192 0 0 0) 24"
    "ip 192 0 2 0 \<le> unat x \<and> unat x \<le> ip 192 0 2 255 \<longleftrightarrow> in4 x (v4 192 0 2 0) 24"
    "ip 192 88 99 0 \<le> unat x \<and> unat x \<le> ip 192 88 99 255 \<longleftrightarrow> in4 x (v4 192 88 99 0) 24"
    "ip 192 168 0 0 \<le> unat x \<and> unat x \<le> ip 192 168 255 255 \<longleftrightarrow> in4 x (v4 192 168 0 0) 16"
    "ip 198 18 0 0 \<le> unat x \<and> unat x \<le> ip 198 19 255 255 \<longleftrightarrow> in4 x (v4 198 18 0 0) 15"
    "ip 198 51 100 0 \<le> unat x \<and> unat x \<le> ip 198 51 100 255 \<longleftrightarrow> in4 x (v4 198 51 100 0) 24"
    "ip 203 0 113 0 \<le> unat x \<and> unat x \<le> ip 203 0 113 255 \<longleftrightarrow> in4 x (v4 203 0 113 0) 24"
    "ip 224 0 0 0 \<le> unat x \<and> unat x \<le> ip 239 255 255 255 \<longleftrightarrow> in4 x (v4 224 0 0 0) 4"
    "ip 240 0 0 0 \<le> unat x \<and> unat x \<le> ip 255 255 255 255 \<longleftrightarrow> in4 x (v4 240 0 0 0) 4"
    by (simp_all add: in4_v4 ip_def)
  have "x = 0 \<Longrightarrow> in4 x (v4 0 0 0 0) 8" "in4 x (v4 224 0 0 0) 24 \<Longrightarrow> in4 x (v4 224 0 0 0) 4"
    by (simp_all add: in4_v4 ip_def)
  moreover have "x = v4 255 255 255 255 \<Longrightarrow> in4 x (v4 240 0 0 0) 4"
    by (simp add: in4_v4 ip_def) (simp add: v4_def)
  ultimately show ?thesis
    unfolding Blocked_V4 refused4_def blocked4_def
    by (simp only: ranges list.set bex_simps case_prod_conv) blast
qed

text \<open>
  The guard refuses exactly these IPv4 addresses: an address may be dialled if and only if it lies
  in none of the listed ranges, among them the private networks, loopback, link-local (the cloud
  metadata service), carrier-grade NAT, multicast, the documentation networks and everything reserved.
\<close>

theorem guard_exact_v4:
  "Blocked (V4 x) = None \<longleftrightarrow> \<not> (\<exists>(lo, hi) \<in> set refused4. lo \<le> unat x \<and> unat x \<le> hi)"
  by (rule guard_ranges)

section \<open>A resolver as a contract\<close>

text \<open>
  What the prober relies on: a resolver hands out only addresses that may be dialled, at least one
  when it succeeds, and keeps doing so whatever it has answered before. \<open>q\<close> is one question with
  everything the outside world answers to it.
\<close>

locale vetting_resolver =
  fixes resolve :: "'q \<Rightarrow> 's \<Rightarrow> ('e + addr list) \<times> 's"
    and inv :: "'s \<Rightarrow> bool"
  assumes resolve_inv: "inv s \<Longrightarrow> inv (snd (resolve q s))"
    and resolve_vetted: "inv s \<Longrightarrow> fst (resolve q s) = Inr as \<Longrightarrow> as \<noteq> [] \<and> (\<forall>a \<in> set as. Blocked a = None)"
begin

fun answers :: "'q list \<Rightarrow> 's \<Rightarrow> addr list" where
  "answers [] s = []"
| "answers (q # qs) s =
     (case resolve q s of (r, s') \<Rightarrow> (case r of Inr as \<Rightarrow> as | Inl _ \<Rightarrow> []) @ answers qs s')"

lemma answers_vetted: "inv s \<Longrightarrow> a \<in> set (answers qs s) \<Longrightarrow> Blocked a = None"
proof (induction qs arbitrary: s)
  case (Cons q qs)
  obtain r s' where r: "resolve q s = (r, s')" by (cases "resolve q s")
  with Cons resolve_inv [of s q] resolve_vetted [of s q] show ?case by (cases r) auto
qed simp

end

text \<open>The cache holds only vetted answers, never an empty one, and no more than its cap.\<close>

definition entry_ok :: "entry \<Rightarrow> bool" where
  "entry_ok e \<longleftrightarrow> err e \<noteq> None \<or> addrs e \<noteq> [] \<and> list_all (\<lambda>a. Blocked a = None) (addrs e)"

definition cache_ok :: "cache \<Rightarrow> bool" where
  "cache_ok c \<longleftrightarrow> list_all (\<lambda>(_, e). entry_ok e) (entries c) \<and> 0 < max_size c \<and> int (length (entries c)) \<le> max_size c"

lemma newCache_ok: "cache_ok (newCache t n sz)"
  by (simp add: newCache_def cache_ok_def)

lemma drop_entry_ok:
  "list_all P es \<Longrightarrow> list_all P (drop_entry h es)" "length (drop_entry h es) \<le> length es"
  by (auto simp: drop_entry_def list_all_iff)

lemma cache_get_ok:
  assumes "cache_ok c" shows "cache_ok (snd (cache_get now h c)) \<and> (\<forall>e. fst (cache_get now h c) = Some e \<longrightarrow> entry_ok e)"
proof -
  have "int (length (drop_entry h (entries c))) \<le> max_size c"
    using assms drop_entry_ok(2) [of h "entries c"] unfolding cache_ok_def by linarith
  then show ?thesis using assms
    by (auto simp: cache_get_def cache_ok_def list_all_iff drop_entry_def dest!: map_of_SomeD split: option.splits)
qed

lemma cache_evict_ok:
  assumes "cache_ok c" shows "cache_ok (cache_evict now c) \<and> int (length (entries (cache_evict now c))) < max_size c"
proof -
  let ?es = "filter (\<lambda>(_, e). \<not> expires e < now) (entries c)"
  have l: "int (length ?es) \<le> max_size c"
    using assms length_filter_le [of "\<lambda>(_, e). \<not> expires e < now" "entries c"] unfolding cache_ok_def by linarith
  have s: "list_all (\<lambda>(_, e). entry_ok e) ?es" using assms by (auto simp: cache_ok_def list_all_iff)
  then have "list_all (\<lambda>(_, e). entry_ok e) (tl ?es)" by (cases ?es) auto
  with s l assms show ?thesis by (auto simp: cache_evict_def cache_ok_def Let_def)
qed

lemma cache_put_ok:
  assumes "cache_ok c" "entry_ok \<lparr>addrs = as, err = e, expires = 0\<rparr>"
  shows "cache_ok (cache_put now h as e c)"
proof -
  define c' where "c' = (if int (length (entries c)) \<ge> max_size c then cache_evict now c else c)"
  have m: "max_size c' = max_size c" by (simp add: c'_def cache_evict_def Let_def)
  have ok: "cache_ok c'" "int (length (entries c')) < max_size c"
    using assms(1) cache_evict_ok [OF assms(1), of now] by (auto simp: c'_def)
  then have "int (length (drop_entry h (entries c'))) < max_size c"
    using drop_entry_ok(2) [of h "entries c'"] by linarith
  with ok m assms(2) drop_entry_ok(1) [of _ "entries c'" h] show ?thesis
    by (auto simp: cache_put_def Let_def c'_def [symmetric] cache_ok_def entry_ok_def)
qed

lemma vet_spec:
  "list_all (\<lambda>a. Blocked a = None) (fst (vet h as)) \<and> (as \<noteq> [] \<longrightarrow> fst (vet h as) = [] \<longrightarrow> snd (vet h as) \<noteq> None)"
  by (induction as) (auto simp: Let_def split: prod.splits option.splits)

lemma Resolve_ok:
  assumes "cache_ok c"
  shows "cache_ok (snd (Resolve lookup network now host c)) \<and>
    (\<forall>as. fst (Resolve lookup network now host c) = Inr as \<longrightarrow> as \<noteq> [] \<and> (\<forall>a \<in> set as. Blocked a = None))"
proof -
  obtain oe c' where g: "cache_get now host c = (oe, c')" by (cases "cache_get now host c")
  with cache_get_ok [OF assms, of now host] have c': "cache_ok c'" and e: "\<And>e. oe = Some e \<Longrightarrow> entry_ok e" by auto
  have neg: "cache_ok (cache_put now host [] (Some x) c')" for x
    by (rule cache_put_ok [OF c']) (simp add: entry_ok_def)
  have pos: "cache_ok (cache_put now host as None c')" if "as \<noteq> []" "list_all (\<lambda>a. Blocked a = None) as" for as
    using that by (intro cache_put_ok [OF c']) (simp add: entry_ok_def)
  have looked: "cache_ok c'' \<and> (\<forall>as. r = Inr as \<longrightarrow> as \<noteq> [] \<and> (\<forall>a \<in> set as. Blocked a = None))"
    if "as \<noteq> []" "(case vet host as of
          ([], first) \<Rightarrow> (case first of Some x \<Rightarrow> (Inl x, cache_put now host [] (Some x) c')
            | None \<Rightarrow> (Inr [], cache_put now host [] None c'))
        | (out, _) \<Rightarrow> (Inr out, cache_put now host out None c')) = (r, c'')" for as r c''
    using that vet_spec [of host as] neg pos
    by (auto simp: list_all_iff split: prod.splits list.splits option.splits)
  show ?thesis
  proof (cases "ParseAddr host")
    case (Some a)
    with assms show ?thesis by (auto simp: Resolve_def split: option.splits)
  next
    case None
    show ?thesis
    proof (cases oe)
      case (Some x)
      with None g assms c' e [OF Some] show ?thesis
        by (auto simp: Resolve_def entry_ok_def list_all_iff split: option.splits)
    next
      case miss: None
      show ?thesis
      proof (cases "lookup network host")
        case (Inl x)
        with None g miss assms neg show ?thesis by (simp add: Resolve_def)
      next
        case (Inr as)
        have "Resolve lookup network now host c = (Inl EmptyHost, c)" if "host = []"
          using that by (simp add: Resolve_def)
        moreover have "Resolve lookup network now host c =
            (if as = [] then (Inl NoRoutableAddress, cache_put now host [] (Some NoRoutableAddress) c')
             else (case vet host as of
                ([], first) \<Rightarrow> (case first of Some x \<Rightarrow> (Inl x, cache_put now host [] (Some x) c')
                  | None \<Rightarrow> (Inr [], cache_put now host [] None c'))
              | (out, _) \<Rightarrow> (Inr out, cache_put now host out None c')))" if "host \<noteq> []"
          unfolding Resolve_def None option.case g miss prod.case Inr sum.case using that by simp
        ultimately show ?thesis
          using assms neg looked [of as] by (cases "host = []"; cases "as = []") (simp_all add: prod_eq_iff)
      qed
    qed
  qed
qed


record question =
  q_lookup :: "string \<Rightarrow> string \<Rightarrow> string + addr list"
  q_network :: string
  q_now :: instant
  q_host :: string

definition ask_resolver :: "question \<Rightarrow> cache \<Rightarrow> (resolve_error + addr list) \<times> cache" where
  "ask_resolver q c = Resolve (q_lookup q) (q_network q) (q_now q) (q_host q) c"

interpretation guarded: vetting_resolver ask_resolver cache_ok
  using Resolve_ok by unfold_locales (auto simp: ask_resolver_def)

text \<open>Every address the resolver hands out in a sequence of questions.\<close>

fun resolved :: "question list \<Rightarrow> cache \<Rightarrow> addr list" where
  "resolved [] c = []"
| "resolved (q # qs) c =
     (case Resolve (q_lookup q) (q_network q) (q_now q) (q_host q) c of
        (Inr as, c') \<Rightarrow> as @ resolved qs c'
      | (Inl _, c') \<Rightarrow> resolved qs c')"

lemma resolved_answers: "resolved qs c = guarded.answers qs c"
  by (induction qs arbitrary: c) (simp_all add: ask_resolver_def split: prod.split sum.split)

text \<open>
  C6. Nothing smuggles a refused address past the guard. Starting from a new cache, in any sequence of
  questions with any DNS answers (changing from one moment to the next, mixing public and internal
  addresses, IPv4-mapped ones, literals instead of names), every address handed out is one the
  guard lets through, from the cache or not.
\<close>

theorem only_vetted_addresses:
  assumes "a \<in> set (resolved qs (newCache t n sz))"
  shows "Blocked a = None"
  using assms guarded.answers_vetted [OF newCache_ok] by (simp add: resolved_answers)

definition rebinding :: "string \<Rightarrow> string \<Rightarrow> string + addr list" where
  "rebinding network host = Inr [V4 (v4 169 254 169 254), V4 (v4 8 8 4 4)]"

theorem only_vetted_addresses_witness:
  "resolved [\<lparr>q_lookup = rebinding, q_network = ''ip4'', q_now = 0, q_host = ''mx.example.org''\<rparr>] (newCache 0 0 0)
     = [V4 (v4 8 8 4 4)] \<and> Blocked (V4 (v4 8 8 4 4)) = None"
proof -
  have p: "ParseAddr ''mx.example.org'' = None" by code_simp
  have g: "Blocked (V4 (v4 8 8 4 4)) = None"
    unfolding guard_ranges by (simp add: refused4_def ip_def v4_def)
  have "Blocked (V4 (v4 169 254 169 254)) \<noteq> None"
    unfolding guard_ranges by (simp add: refused4_def ip_def v4_def)
  with p g have r: "resolved [\<lparr>q_lookup = rebinding, q_network = ''ip4'', q_now = 0, q_host = ''mx.example.org''\<rparr>] (newCache 0 0 0)
     = [V4 (v4 8 8 4 4)]"
    by (auto simp: Resolve_def newCache_def cache_get_def rebinding_def Unmap_def Let_def)
  then have "V4 (v4 8 8 4 4) \<in> set (resolved
      [\<lparr>q_lookup = rebinding, q_network = ''ip4'', q_now = 0, q_host = ''mx.example.org''\<rparr>] (newCache 0 0 0))" by simp
  from only_vetted_addresses [OF this] r show ?thesis by blast
qed

text \<open>
  The mail exchangers of a domain come in order of preference, each one exactly as often as it is
  published, without the trailing dot; equal preferences keep the order of the answer.
\<close>

theorem MX_in_order:
  assumes "MX lookup domain = Inr hs" "lookup domain = Inr rs"
  shows "\<exists>ordered. hs = map (\<lambda>(h, _). trim_suffix h ''.'') ordered \<and> mset ordered = mset rs \<and>
    sorted (map snd ordered) \<and> (\<forall>k. filter (\<lambda>r. snd r = k) ordered = filter (\<lambda>r. snd r = k) rs) \<and> [] \<notin> set hs \<and> hs \<noteq> []"
proof -
  have hosts: "mx_hosts l = Inr hs \<Longrightarrow> hs = map (\<lambda>(h, _). trim_suffix h ''.'') l \<and> [] \<notin> set hs" for l hs
    by (induction l arbitrary: hs rule: mx_hosts.induct) (auto simp: Let_def split: if_splits sum.splits)
  have "mx_hosts (sort_key snd rs) = Inr hs" "hs \<noteq> []"
    using assms by (auto simp: MX_def split: if_splits sum.splits)
  with hosts show ?thesis
    by (intro exI [of _ "sort_key snd rs"]) (auto simp: sort_key_stable)
qed

theorem MX_in_order_witness:
  "\<exists>ordered. [''mx1.example.org'', ''mx2.example.org''] = map (\<lambda>(h, _). trim_suffix h ''.'') ordered \<and>
    mset ordered = mset [(''mx2.example.org.'', 20 :: int), (''mx1.example.org.'', 10)] \<and> sorted (map snd ordered) \<and>
    (\<forall>k. filter (\<lambda>r. snd r = k) ordered = filter (\<lambda>r. snd r = k) [(''mx2.example.org.'', 20), (''mx1.example.org.'', 10)]) \<and>
    [] \<notin> set [''mx1.example.org'', ''mx2.example.org''] \<and> [''mx1.example.org'', ''mx2.example.org''] \<noteq> []"
proof (rule MX_in_order)
  show "MX (\<lambda>_. Inr [(''mx2.example.org.'', 20), (''mx1.example.org.'', 10)]) ''example.org'' =
    Inr [''mx1.example.org'', ''mx2.example.org'']" by code_simp
qed simp

end
