(* ===== verification/Standdown.thy ===== *)
theory Standdown
  imports Pacer Client
begin

text \<open>
  \<open>internal/standdown/standdown.go\<close>: several hosts of one receiving system refusing us, or one refusal
  that names a blocklist, pause the pace key through the pacer.

  The evidence is a sorted set per key in the Redis that the nodes share; what runs a command there is
  a parameter, and \<open>keeps_scores\<close> states what the code relies on of it. A guard is one node's: its
  thresholds, the keys it stood down, and the refusals it reported. The log lines are not modelled.
\<close>

section \<open>Replies\<close>

definition benignRe :: rx where
  "benignRe = RAlts (map RLit
     [''5.4.1'', ''access denied'', ''5.7.4'', ''5.4.4'', ''5.7.64'',
      ''starttls'', ''tls connection is required'', ''tls is required'', ''tls required'', ''requires tls'',
      ''session encryption is required'', ''encryption is required'', ''encryption required'',
      ''encryption needed'', ''requires encryption'', ''tls encryption'', ''must use tls'', ''tls version'',
      ''relay access denied'', ''relaying denied'', ''unable to relay'', ''not permitted to relay'',
      ''exceeded storage allocation'', ''quota exceeded'', ''mailbox full'', ''mailbox is full'', ''over quota''])"

definition blocklistRe :: rx where
  "blocklistRe = RAlts
     [RLit ''blocked using'', RCats [RLit ''block'', ROpt (RLit '' ''), RLit ''list''],
      RCats [RLit ''black'', ROpt (RLit '' ''), RLit ''list''], RCats [RWordB, RLit ''listed'', RWordB],
      RLit ''spamhaus'', RLit ''abusix'', RLit ''spamcop'', RLit ''barracudacentral'', RLit ''uceprotect'', RLit ''dnsbl'',
      RCats [RWordB, RLit ''rbl'', RWordB], RLit ''rbl.'', RLit ''magicspam'', RLit ''spam-source'',
      RLit ''(s3150)'', RLit ''(s3140)'', RLit ''poor reputation'', RLit ''bad reputation'']"

definition Benign :: "string \<Rightarrow> bool" where
  "Benign reply \<longleftrightarrow> match_string benignRe (to_lower reply)"

definition NamesBlocklist :: "string \<Rightarrow> bool" where
  "NamesBlocklist reply \<longleftrightarrow> match_string blocklistRe (to_lower reply)"

definition RefusalsKey :: "string \<Rightarrow> string" where
  "RefusalsKey key = ''rt:mx:'' @ key @ '':refusals''"

section \<open>The guard\<close>

record guard =
  g_hosts :: int
  g_window :: duration
  g_pause :: duration
  stood :: "string \<rightharpoonup> instant"
  refusals_of_us :: "string list"

definition guard_New :: "int \<Rightarrow> duration \<Rightarrow> duration \<Rightarrow> guard" where
  "guard_New hosts window pause =
     \<lparr>g_hosts = (if hosts < 2 then 3 else hosts), g_window = (if window \<le> 0 then 30 * minute else window),
      g_pause = (if pause \<le> 0 then 6 * hour else pause), stood = Map.empty, refusals_of_us = []\<rparr>"

text \<open>\<open>count\<close>: an error of one of the first three commands ends it; the fourth is best effort.\<close>

definition zadd_cmd :: "string \<Rightarrow> int \<Rightarrow> string \<Rightarrow> string list" where
  "zadd_cmd rk nowMs host = [''ZADD'', rk, itoa nowMs, host]"

definition ztrim_cmd :: "string \<Rightarrow> int \<Rightarrow> string list" where
  "ztrim_cmd rk cutoff = [''ZREMRANGEBYSCORE'', rk, ''-inf'', ''('' @ itoa cutoff]"

definition evidence_count ::
  "'s redis \<Rightarrow> guard \<Rightarrow> string \<Rightarrow> string \<Rightarrow> instant \<Rightarrow> 's \<Rightarrow> (redis_error + int) \<times> 's" where
  "evidence_count run g key host now s =
     (let rk = RefusalsKey key; nowMs = now div millisecond; cutoff = nowMs - g_window g div millisecond
      in case run (zadd_cmd rk nowMs host) s of
           (Inl e, s) \<Rightarrow> (Inl e, s)
         | (Inr _, s) \<Rightarrow>
             (case run (ztrim_cmd rk cutoff) s of
                (Inl e, s) \<Rightarrow> (Inl e, s)
              | (Inr _, s) \<Rightarrow>
                  (case run [''ZCARD'', rk] s of
                     (Inl e, s) \<Rightarrow> (Inl e, s)
                   | (Inr v, s) \<Rightarrow>
                       (Inr (case v of RInt n \<Rightarrow> n | _ \<Rightarrow> 0),
                        snd (run [''PEXPIRE'', rk, itoa (2 * (g_window g div millisecond))] s)))))"

definition guard_Observe ::
  "'s redis \<Rightarrow> instant \<Rightarrow> string \<Rightarrow> string \<Rightarrow> guard \<times> 's \<times> pacer \<times> pstore \<Rightarrow>
   string \<times> guard \<times> 's \<times> pacer \<times> pstore" where
  "guard_Observe run now mxHost reply x =
     (case x of (g, es, ps) \<Rightarrow>
        if mxHost = [] \<or> Benign reply then ([], g, es, ps)
        else let key = PaceKey mxHost;
                 host = to_lower (trim_suffix (trim_space mxHost) ''.'');
                 g = g\<lparr>refusals_of_us := key # refusals_of_us g\<rparr>
             in if (case stood g key of Some until \<Rightarrow> now < until | None \<Rightarrow> False) then ([], g, es, ps)
                else case evidence_count run g key host now es of
                  (Inl _, es) \<Rightarrow> ([], g, es, ps)
                | (Inr hosts, es) \<Rightarrow>
                    (let rule = (if NamesBlocklist reply then ''A'' else if hosts \<ge> g_hosts g then ''B'' else [])
                     in if rule = [] then ([], g, es, ps)
                        else let until = now + g_pause g
                             in case PauseKey key until ps of
                                  (False, ps) \<Rightarrow> ([], g, es, ps)
                                | (True, ps) \<Rightarrow> (rule, g\<lparr>stood := (stood g)(key \<mapsto> until)\<rparr>, es, ps)))"

definition guard_Resume ::
  "'s redis \<Rightarrow> string \<Rightarrow> guard \<times> 's \<times> pacer \<times> pstore \<Rightarrow> bool \<times> guard \<times> 's \<times> pacer \<times> pstore" where
  "guard_Resume run mxHost x =
     (case x of (g, es, ps) \<Rightarrow>
        let key = PaceKey mxHost
        in case ResumeKey key ps of
             (False, ps) \<Rightarrow> (False, g, es, ps)
           | (True, ps) \<Rightarrow>
               (True, g\<lparr>stood := (stood g)(key := None)\<rparr>, snd (run [''DEL'', RefusalsKey key] es), ps))"

definition StoodDown :: "instant \<Rightarrow> guard \<Rightarrow> string \<rightharpoonup> bool" where
  "StoodDown now g k = map_option (\<lambda>until. now < until) (stood g k)"

section \<open>Where the evidence comes from\<close>

text \<open>A refusal some node observed: when, of which host, with which reply.\<close>

record refusal =
  at_time :: instant
  of_host :: string
  saying :: string

definition refuser :: "string \<Rightarrow> string" where
  "refuser h = to_lower (trim_suffix (trim_space h) ''.'')"

text \<open>One of them put host h on the evidence of key k at millisecond t.\<close>

definition counted :: "refusal set \<Rightarrow> string \<Rightarrow> string \<Rightarrow> int \<Rightarrow> bool" where
  "counted R k h t \<longleftrightarrow>
     (\<exists>r \<in> R. PaceKey (of_host r) = k \<and> refuser (of_host r) = h \<and> at_time r div millisecond = t \<and> \<not> Benign (saying r))"

text \<open>What the code relies on of the server: \<open>scores s rk\<close> are the members of the sorted set with their
  scores, one each. A command changes no other set; \<open>ZADD\<close> adds its member only; after a trim that
  succeeded nothing older is left; \<open>ZCARD\<close> does not count more than there are. A failed command may or may
  not have run, and a set may lose members at any time, as it expires.\<close>

type_synonym 's scores = "'s \<Rightarrow> string \<Rightarrow> (string \<times> int) set"

definition shrinks :: "'s scores \<Rightarrow> 's \<Rightarrow> 's \<Rightarrow> bool" where
  "shrinks scores s s' \<longleftrightarrow> (\<forall>rk. scores s' rk \<subseteq> scores s rk)"

definition keeps_scores :: "'s redis \<Rightarrow> 's scores \<Rightarrow> bool" where
  "keeps_scores run scores \<longleftrightarrow>
     (\<forall>s rk. finite (scores s rk) \<and> inj_on fst (scores s rk)) \<and>
     (\<forall>s rk t h rk'. scores (snd (run (zadd_cmd rk t h) s)) rk' \<subseteq> scores s rk' \<union> (if rk' = rk then {(h, t)} else {})) \<and>
     (\<forall>s rk c. shrinks scores s (snd (run (ztrim_cmd rk c) s)) \<and>
        (\<forall>v s'. run (ztrim_cmd rk c) s = (Inr v, s') \<longrightarrow> (\<forall>(h, t) \<in> scores s' rk. c \<le> t))) \<and>
     (\<forall>s rk. shrinks scores s (snd (run [''ZCARD'', rk] s)) \<and>
        (\<forall>n s'. run [''ZCARD'', rk] s = (Inr (RInt n), s') \<longrightarrow> n \<le> int (card (scores s rk)))) \<and>
     (\<forall>s rk ms. shrinks scores s (snd (run [''PEXPIRE'', rk, ms] s))) \<and>
     (\<forall>s rk. shrinks scores s (snd (run [''DEL'', rk] s)))"

lemma keeps_scores_laws:
  assumes "keeps_scores run scores"
  shows "finite (scores s rk)" "inj_on fst (scores s rk)"
    "scores (snd (run (zadd_cmd rk t h) s)) rk' \<subseteq> scores s rk' \<union> (if rk' = rk then {(h, t)} else {})"
    "shrinks scores s (snd (run (ztrim_cmd rk c) s))"
    "run (ztrim_cmd rk c) s = (Inr v, s') \<Longrightarrow> (x, y) \<in> scores s' rk \<Longrightarrow> c \<le> y"
    "shrinks scores s (snd (run [''ZCARD'', rk] s))"
    "run [''ZCARD'', rk] s = (Inr (RInt n), s') \<Longrightarrow> n \<le> int (card (scores s rk))"
    "shrinks scores s (snd (run [''PEXPIRE'', rk, ms] s))" "shrinks scores s (snd (run [''DEL'', rk] s))"
  using assms unfolding keeps_scores_def by (metis, metis, metis, metis, blast, metis, metis, metis, metis)

definition from_refusals :: "refusal set \<Rightarrow> 's scores \<Rightarrow> 's \<Rightarrow> bool" where
  "from_refusals R scores s \<longleftrightarrow> (\<forall>k. \<forall>(h, t) \<in> scores s (RefusalsKey k). counted R k h t)"

lemma RefusalsKey_inj [simp]: "RefusalsKey k = RefusalsKey k' \<longleftrightarrow> k = k'"
  by (simp add: RefusalsKey_def)

lemma from_refusals_shrinks: "from_refusals R scores s \<Longrightarrow> shrinks scores s s' \<Longrightarrow> from_refusals R scores s'"
  unfolding from_refusals_def shrinks_def by blast

lemma from_refusals_zadd:
  assumes "from_refusals R scores s" "keeps_scores run scores"
    and "r \<in> R" "PaceKey (of_host r) = k" "\<not> Benign (saying r)"
  shows "from_refusals R scores (snd (run (zadd_cmd (RefusalsKey k) (at_time r div millisecond) (refuser (of_host r))) s))"
  unfolding from_refusals_def
proof (intro allI ballI, clarify)
  fix k' h t
  let ?rk = "RefusalsKey k" and ?t = "at_time r div millisecond" and ?h = "refuser (of_host r)"
  assume h: "(h, t) \<in> scores (snd (run (zadd_cmd ?rk ?t ?h) s)) (RefusalsKey k')"
  have "scores (snd (run (zadd_cmd ?rk ?t ?h) s)) (RefusalsKey k') \<subseteq>
      scores s (RefusalsKey k') \<union> (if RefusalsKey k' = ?rk then {(?h, ?t)} else {})"
    by (rule keeps_scores_laws(3) [OF assms(2)])
  with h have "(h, t) \<in> scores s (RefusalsKey k') \<or> k' = k \<and> h = ?h \<and> t = ?t" by (auto split: if_splits)
  then show "counted R k' h t"
  proof
    assume "(h, t) \<in> scores s (RefusalsKey k')"
    then show ?thesis using assms(1) unfolding from_refusals_def by blast
  next
    assume "k' = k \<and> h = ?h \<and> t = ?t"
    then show ?thesis using assms(3-5) unfolding counted_def by blast
  qed
qed

text \<open>What a count leaves, and what it counted.\<close>

lemma evidence_count_from:
  assumes from_s: "from_refusals R scores s" and laws: "keeps_scores run scores"
    and r: "r \<in> R" "PaceKey (of_host r) = k" "\<not> Benign (saying r)"
    and count: "evidence_count run g k (refuser (of_host r)) (at_time r) s = (n, s')"
  shows "from_refusals R scores s' \<and> (\<forall>m. n = Inr m \<longrightarrow> (\<exists>H. finite H \<and> m \<le> int (card H) \<and>
      (\<forall>h \<in> H. \<exists>t \<ge> at_time r div millisecond - g_window g div millisecond. counted R k h t)))"
proof -
  let ?now = "at_time r div millisecond" and ?rk = "RefusalsKey k" and ?w = "g_window g div millisecond"
  obtain x1 s1 where r1: "run (zadd_cmd ?rk ?now (refuser (of_host r))) s = (x1, s1)" by (metis prod.exhaust)
  obtain x2 s2 where r2: "run (ztrim_cmd ?rk (?now - ?w)) s1 = (x2, s2)" by (metis prod.exhaust)
  obtain x3 s3 where r3: "run [''ZCARD'', ?rk] s2 = (x3, s3)" by (metis prod.exhaust)
  obtain x4 s4 where r4: "run [''PEXPIRE'', ?rk, itoa (2 * ?w)] s3 = (x4, s4)" by (metis prod.exhaust)
  have f1: "from_refusals R scores s1" using from_refusals_zadd [OF from_s laws r] r1 by simp
  have f2: "from_refusals R scores s2"
    using keeps_scores_laws(4) [OF laws] r2 by (intro from_refusals_shrinks [OF f1]) (metis snd_conv)
  have f3: "from_refusals R scores s3"
    using keeps_scores_laws(6) [OF laws] r3 by (intro from_refusals_shrinks [OF f2]) (metis snd_conv)
  have f4: "from_refusals R scores s4"
    using keeps_scores_laws(8) [OF laws] r4 by (intro from_refusals_shrinks [OF f3]) (metis snd_conv)
  note run_eqs = evidence_count_def Let_def
  show ?thesis
  proof (cases "isl x1 \<or> isl x2 \<or> isl x3")
    case True
    then have "isl n \<and> s' \<in> {s1, s2, s3}"
      using count unfolding run_eqs by (cases x1; cases x2; cases x3) (simp_all add: r1 r2 r3, auto)
    with f1 f2 f3 show ?thesis by auto
  next
    case False
    then obtain v1 v2 v3 where v: "x1 = Inr v1" "x2 = Inr v2" "x3 = Inr v3" by (cases x1; cases x2; cases x3) auto
    then have out: "n = Inr (case v3 of RInt n \<Rightarrow> n | _ \<Rightarrow> 0)" "s' = s4" using count r1 r2 r3 r4 unfolding run_eqs by simp_all
    let ?z = "scores s2 ?rk"
    have recent: "\<forall>(h, t) \<in> ?z. ?now - ?w \<le> t" using keeps_scores_laws(5) [OF laws] r2 v(2) by blast
    note z = keeps_scores_laws(1,2) [OF laws, of s2 ?rk]
    have "m \<le> int (card (fst ` ?z))" if "n = Inr m" for m
      using that keeps_scores_laws(7) [OF laws, of ?rk s2] r3 v(3) out z(2) by (auto simp: card_image split: resp.splits)
    moreover have "\<exists>t \<ge> ?now - ?w. counted R k h t" if "h \<in> fst ` ?z" for h
      using that recent f2 unfolding from_refusals_def by fastforce
    ultimately show ?thesis using f4 out z(1) by (metis finite_imageI)
  qed
qed

section \<open>Standing a key down\<close>

text \<open>The store after any number of refusals and resumes, by any nodes: the guards and the pacers
  that take part are arbitrary. An observation is one step here: in the code
  its four commands may have those of another observation between them.\<close>

inductive shared_evidence :: "'s redis \<Rightarrow> 's scores \<Rightarrow> refusal set \<Rightarrow> 's \<Rightarrow> bool" for run scores where
  fresh: "(\<And>k. scores es (RefusalsKey k) = {}) \<Longrightarrow> shared_evidence run scores {} es"
| refused: "shared_evidence run scores R es \<Longrightarrow> guard_Observe run now h reply (g, es, ps) = (rule, g', es', ps') \<Longrightarrow>
    shared_evidence run scores (insert \<lparr>at_time = now, of_host = h, saying = reply\<rparr> R) es'"
| resumed: "shared_evidence run scores R es \<Longrightarrow> guard_Resume run h (g, es, ps) = (ok, g', es', ps') \<Longrightarrow>
    shared_evidence run scores R es'"

lemma counted_mono: "counted R k h t \<Longrightarrow> R \<subseteq> R' \<Longrightarrow> counted R' k h t"
  unfolding counted_def by blast

lemma from_refusals_mono: "from_refusals R scores s \<Longrightarrow> R \<subseteq> R' \<Longrightarrow> from_refusals R' scores s"
  unfolding from_refusals_def using counted_mono by blast

text \<open>One observation: it changed nothing, or it counted; and what a rule rests on.\<close>

lemma Observe_cases:
  assumes "guard_Observe run now h reply (g, es, ps) = (rule, g', es', ps')"
  shows "rule = [] \<and> es' = es \<or>
    (h \<noteq> [] \<and> \<not> Benign reply \<and> (\<exists>n gr. evidence_count run gr (PaceKey h) (refuser h) now es = (n, es') \<and>
      g_hosts gr = g_hosts g \<and> g_window gr = g_window g \<and>
      (rule = [] \<or> (\<exists>m. n = Inr m \<and> (rule = ''A'' \<and> NamesBlocklist reply \<or> rule = ''B'' \<and> g_hosts g \<le> m) \<and>
         PauseKey (PaceKey h) (now + g_pause g) ps = (True, ps') \<and> stood g' (PaceKey h) = Some (now + g_pause g)))))"
proof (cases "h = [] \<or> Benign reply")
  case True
  then show ?thesis using assms by (auto simp: guard_Observe_def)
next
  case False
  let ?g = "g\<lparr>refusals_of_us := PaceKey h # refusals_of_us g\<rparr>"
  show ?thesis
  proof (cases "case stood g (PaceKey h) of Some until \<Rightarrow> now < until | None \<Rightarrow> False")
    case True
    with False assms show ?thesis by (simp add: guard_Observe_def Let_def)
  next
    case down: False
    obtain n es1 where c: "evidence_count run ?g (PaceKey h) (refuser h) now es = (n, es1)" by (metis prod.exhaust)
    obtain ok ps1 where p: "PauseKey (PaceKey h) (now + g_pause g) ps = (ok, ps1)" by (metis prod.exhaust)
    have "es' = es1 \<and> (rule = [] \<or> (\<exists>m. n = Inr m \<and>
      (rule = ''A'' \<and> NamesBlocklist reply \<or> rule = ''B'' \<and> g_hosts g \<le> m) \<and> ok \<and> ps' = ps1 \<and>
      stood g' (PaceKey h) = Some (now + g_pause g)))"
      using assms False down c p
      by (auto simp: guard_Observe_def Let_def refuser_def split: sum.splits option.splits if_splits bool.splits)
    then show ?thesis using False c p by (intro disjI2) (auto intro!: exI [of _ ?g])
  qed
qed

lemma shared_evidence_from:
  assumes "shared_evidence run scores R es" "keeps_scores run scores"
  shows "from_refusals R scores es"
  using assms(1)
proof (induction rule: shared_evidence.induct)
  case (fresh es)
  then show ?case by (simp add: from_refusals_def)
next
  case (refused R es now h reply g ps rule g' es' ps')
  let ?r = "\<lparr>at_time = now, of_host = h, saying = reply\<rparr>"
  have base: "from_refusals (insert ?r R) scores es" using refused.IH by (rule from_refusals_mono) blast
  from Observe_cases [OF refused.hyps(2)] show ?case
    using base evidence_count_from [OF base assms(2), of ?r "PaceKey h"] by auto
next
  case (resumed R es h g ps ok g' es' ps')
  then have "es' = es \<or> es' = snd (run [''DEL'', RefusalsKey (PaceKey h)] es)"
    by (auto simp: guard_Resume_def Let_def split: prod.splits bool.splits)
  then show ?case
    using resumed.IH from_refusals_shrinks keeps_scores_laws(9) [OF assms(2)] by metis
qed

text \<open>
  C11. A key is stood down on evidence only, whatever nodes shared the store before: rule A needs a
  reply that names a blocklist, rule B at least \<open>hosts\<close> different hosts of that very key, each of
  which some node saw refuse us, with a reply that is not about the receiving side's own setup, no
  longer than the window ago. Replies about the receiving side's setup never stand anything down.
\<close>

theorem standdown_needs_evidence:
  assumes "keeps_scores run scores" "shared_evidence run scores R es"
    and "guard_Observe run now h reply (g, es, ps) = (rule, g', es', ps')" "rule \<noteq> []"
  shows "\<not> Benign reply \<and> (rule = ''A'' \<and> NamesBlocklist reply \<or> rule = ''B'' \<and>
    (\<exists>H. finite H \<and> g_hosts g \<le> int (card H) \<and>
      (\<forall>x \<in> H. \<exists>t \<ge> now div millisecond - g_window g div millisecond.
        counted (insert \<lparr>at_time = now, of_host = h, saying = reply\<rparr> R) (PaceKey h) x t)))"
proof -
  let ?r = "\<lparr>at_time = now, of_host = h, saying = reply\<rparr>"
  have from_es: "from_refusals (insert ?r R) scores es"
    using from_refusals_mono [OF shared_evidence_from [OF assms(2,1)]] by blast
  from Observe_cases [OF assms(3)] assms(4) obtain n gr m where b: "\<not> Benign reply"
    and c: "evidence_count run gr (PaceKey h) (refuser h) now es = (n, es')"
    and w: "g_window gr = g_window g" and m: "n = Inr m"
    and rule: "rule = ''A'' \<and> NamesBlocklist reply \<or> rule = ''B'' \<and> g_hosts g \<le> m"
    by auto
  from rule show ?thesis
  proof (elim disjE)
    assume B: "rule = ''B'' \<and> g_hosts g \<le> m"
    obtain H where "finite H" "m \<le> int (card H)"
      "\<forall>x \<in> H. \<exists>t \<ge> now div millisecond - g_window g div millisecond. counted (insert ?r R) (PaceKey h) x t"
      using evidence_count_from [OF from_es assms(1), of ?r "PaceKey h" gr n es'] b c m w by auto
    with B b show ?thesis by (meson order_trans)
  qed (use b in blast)
qed

text \<open>A server that keeps the laws, for the witnesses.\<close>

definition parse_score :: "string \<Rightarrow> int" where
  "parse_score s = (case s of c # ds \<Rightarrow> if c = CHR ''-'' then - int (digits_value 0 ds) else int (digits_value 0 s) | [] \<Rightarrow> 0)"

type_synonym zdb = "(string \<times> (string \<times> int) list) list"

definition zset_of :: "zdb \<Rightarrow> string \<Rightarrow> (string \<times> int) list" where
  "zset_of s rk = (case map_of s rk of None \<Rightarrow> [] | Some z \<Rightarrow> z)"

definition zserver :: "zdb redis" where
  "zserver cmd s =
     (case cmd of
        [c, rk] \<Rightarrow> if c = ''ZCARD'' then (Inr (RInt (int (length (remdups (map fst (zset_of s rk)))))), s)
                   else (Inr (RInt 1), (rk, []) # s)
      | [c, rk, ms] \<Rightarrow> (Inr (RInt 1), s)
      | [c, rk, a, b] \<Rightarrow>
          if c = ''ZADD'' then (Inr (RInt 1), (rk, (b, parse_score a) # zset_of s rk) # s)
          else (Inr (RInt 0), (rk, filter (\<lambda>(h, t). parse_score (tl b) \<le> t)
                  (map (\<lambda>h. (h, the (map_of (zset_of s rk) h))) (remdups (map fst (zset_of s rk))))) # s)
      | _ \<Rightarrow> (Inl (RedisError ''ERR''), s))"

definition zscores :: "zdb scores" where
  "zscores s rk = {(h, t). map_of (zset_of s rk) h = Some t}"

lemma zset_of_put [simp]: "zset_of ((rk, z) # s) rk' = (if rk' = rk then z else zset_of s rk')"
  by (simp add: zset_of_def)

lemma parse_score_itoa [simp]: "parse_score (itoa n) = n"
proof -
  have "c \<noteq> CHR ''-''" if "nat_digits k = c # ds" for k c ds
    using nat_digits_digits [of k] that by (auto simp: is_digit_def)
  then show ?thesis
    using digits_value_nat_digits [of "nat n"] digits_value_nat_digits [of "nat (- n)"]
    by (auto simp: parse_score_def itoa_def split: list.split)
qed

lemma map_of_filter_tabulate:
  "map_of (filter (\<lambda>(h, t). c \<le> t) (map (\<lambda>h. (h, f h)) ks)) h = Some t \<Longrightarrow> h \<in> set ks \<and> t = f h \<and> c \<le> t"
  by (induction ks) (auto split: if_splits)

lemma zserver_keeps_scores: "keeps_scores zserver zscores"
  unfolding keeps_scores_def shrinks_def zadd_cmd_def ztrim_cmd_def
proof (intro conjI allI impI)
  fix s rk
  have "zscores s rk \<subseteq> set (zset_of s rk)" by (auto simp: zscores_def dest: map_of_SomeD)
  then show "finite (zscores s rk)" using finite_subset by blast
  show "inj_on fst (zscores s rk)" by (auto simp: inj_on_def zscores_def)
next
  fix s rk n s'
  assume "zserver [''ZCARD'', rk] s = (Inr (RInt n), s')"
  then have n: "n = int (card (fst ` set (zset_of s rk)))" by (auto simp: zserver_def length_remdups_card_conv)
  have "fst ` zscores s rk = fst ` set (zset_of s rk)"
    by (auto simp: zscores_def image_iff dest: map_of_SomeD) (metis option.exhaust map_of_eq_None_iff fst_conv imageI)
  moreover have "inj_on fst (zscores s rk)" by (auto simp: inj_on_def zscores_def)
  ultimately show "n \<le> int (card (zscores s rk))" using n by (metis card_image order_refl)
qed (auto simp: zserver_def zscores_def split: if_splits dest!: map_of_filter_tabulate, metis option.collapse option.distinct(1) weak_map_of_SomeI)

text \<open>Three hosts of one family refuse, on two nodes that share the store.\<close>

definition family_refusal :: string where
  "family_refusal = ''554 no''"

definition family_run :: "nat \<Rightarrow> string \<times> guard \<times> zdb \<times> pacer \<times> pstore" where
  "family_run n =
     (let x1 = guard_Observe zserver 0 ''mx1.ionos.de'' family_refusal
                 (guard_New 3 (5 * millisecond) 0, [], example_pacer, example_store);
          x2 = guard_Observe zserver millisecond ''mx2.ionos.de'' family_refusal
                 (guard_New 3 (5 * millisecond) 0, fst (snd (snd x1)), example_pacer, example_store)
      in if n = 0 then x1 else if n = 1 then x2
         else guard_Observe zserver (2 * millisecond) ''mx3.ionos.de.'' family_refusal (snd x2))"

lemma prod_list4: "x = (fst x, fst (snd x), fst (snd (snd x)), fst (snd (snd (snd x))), snd (snd (snd (snd x))))"
  by simp

lemma family_run_shared:
  "shared_evidence zserver zscores {\<lparr>at_time = millisecond, of_host = ''mx2.ionos.de'', saying = family_refusal\<rparr>,
     \<lparr>at_time = 0, of_host = ''mx1.ionos.de'', saying = family_refusal\<rparr>}
     (fst (snd (snd (family_run 1))))"
proof -
  have s0: "shared_evidence zserver zscores {} []" by (rule shared_evidence.fresh) (simp add: zscores_def zset_of_def)
  note s1 = shared_evidence.refused [OF s0 prod_list4]
  note s2 = shared_evidence.refused [OF s1 prod_list4]
  show ?thesis
    unfolding family_run_def Let_def by (simp only: one_neq_zero if_False if_True refl) (rule s2)
qed

lemma family_run_rule: "fst (family_run 2) = ''B''"
  by code_simp

theorem standdown_needs_evidence_witness:
  "\<not> Benign family_refusal \<and> (\<exists>H. finite H \<and> 3 \<le> int (card H) \<and>
    (\<forall>x \<in> H. \<exists>t \<ge> 2 * millisecond div millisecond - 5 * millisecond div millisecond.
      counted {\<lparr>at_time = 2 * millisecond, of_host = ''mx3.ionos.de.'', saying = family_refusal\<rparr>,
        \<lparr>at_time = millisecond, of_host = ''mx2.ionos.de'', saying = family_refusal\<rparr>,
        \<lparr>at_time = 0, of_host = ''mx1.ionos.de'', saying = family_refusal\<rparr>}
        (PaceKey ''mx3.ionos.de.'') x t))"
proof -
  have g: "g_hosts (fst (snd (family_run 1))) = 3" "g_window (fst (snd (family_run 1))) = 5 * millisecond" by code_simp+
  have "guard_Observe zserver (2 * millisecond) ''mx3.ionos.de.'' family_refusal (snd (family_run 1)) = family_run 2"
    by (simp add: family_run_def Let_def)
  then have run: "guard_Observe zserver (2 * millisecond) ''mx3.ionos.de.'' family_refusal
      (fst (snd (family_run 1)), fst (snd (snd (family_run 1))), snd (snd (snd (family_run 1)))) =
    (''B'', fst (snd (family_run 2)), fst (snd (snd (family_run 2))), snd (snd (snd (family_run 2))))"
    using family_run_rule by (simp add: prod_eq_iff)
  show ?thesis
    using standdown_needs_evidence [OF zserver_keeps_scores family_run_shared run] unfolding g by simp
qed

section \<open>What a stand-down stops\<close>











text \<open>One host of a family whose refusal names a list.\<close>

definition listed_run :: "string \<times> guard \<times> zdb \<times> pacer \<times> pstore" where
  "listed_run = guard_Observe zserver 0 ''a.ionos.de'' ''554 rbl.'' (guard_New 3 (5 * millisecond) 0, [], example_pacer, example_store)"

lemma listed_run_facts:
  "listed_run = (''A'', fst (snd listed_run), fst (snd (snd listed_run)), fst (snd (snd (snd listed_run))),
     snd (snd (snd (snd listed_run))))"
  "PaceKey ''a.ionos.de'' = ''@ionos''" "PaceKey ''b.ionos.de'' = ''@ionos''"
  "\<not> fault (snd (snd (snd (snd listed_run)))) n"
proof -
  have "fst listed_run = ''A''" by code_simp
  then show "listed_run = (''A'', fst (snd listed_run), fst (snd (snd listed_run)), fst (snd (snd (snd listed_run))),
     snd (snd (snd (snd listed_run))))" by (simp add: prod_eq_iff)
  show "PaceKey ''a.ionos.de'' = ''@ionos''" "PaceKey ''b.ionos.de'' = ''@ionos''" by code_simp+
  have "\<not> Benign ''554 rbl.''" "NamesBlocklist ''554 rbl.''" by code_simp+
  then show "\<not> fault (snd (snd (snd (snd listed_run)))) n"
    by (simp add: listed_run_def guard_Observe_def guard_New_def evidence_count_def zserver_def zadd_cmd_def ztrim_cmd_def
        PauseKey_def store_set_def example_store_def Let_def)
qed

lemmas listed_run_is = trans [OF listed_run_def [symmetric] listed_run_facts(1)]


text \<open>
  A stand-down reaches only the node that declared it and nodes that do not track the key: a node
  whose own entry is not paused goes on drawing tokens for it, as the pause in the store is read only
  when an entry is created.
\<close>

theorem peer_keeps_probing:
  assumes "guard_Observe run now h reply (g, es, p, s) = (rule, g', es', p', s')" "rule \<noteq> []"
    and "map_of (mx p2) (PaceKey h) = Some st" "pausedUntil st = None"
    and "ask (PaceKey h) (rate st) (Burst (mband st)) later w = (Inr d, el, w')" "Allowed d"
  shows "\<exists>p3 s3. Acquire ask cancelled later h domain (p2, s', w) = Some (Inr (), later + int el, p3, s3, w')"
proof -
  have "\<exists>p3 s3 st'. stateFor later (PaceKey h) domain (p2, s') = (st', p3, s3) \<and>
    pausedUntil st' = None \<and> rate st' = rate st \<and> mband st' = mband st"
    using assms(3,4) by (auto simp: stateFor_def state_hit_def Let_def)
  then show ?thesis using assms(5,6) by (auto simp: Acquire_def take_loop.simps)
qed

definition tracking_pacer :: pacer where
  "tracking_pacer = example_pacer\<lparr>mx := [(''@ionos'', fresh_state 0 conservative (1/10) None)]\<rparr>"

theorem peer_keeps_probing_witness:
  "\<exists>p3 s3. Acquire (\<lambda>_ _ _ _ n. (Inr \<lparr>Allowed = True, Tokens = 0, RetryAfter = 0\<rparr>, 1, Suc n)) (\<lambda>t. t > 0) hour ''a.ionos.de'' ''example.org''
      (tracking_pacer, snd (snd (snd (snd listed_run))), 0 :: nat) = Some (Inr (), hour + int 1, p3, s3, 1)"
  by (rule peer_keeps_probing [OF listed_run_is, where st = "fresh_state 0 conservative (1/10) None"
        and d = "\<lparr>Allowed = True, Tokens = 0, RetryAfter = 0\<rparr>"])
    (simp_all add: listed_run_facts(2-4) tracking_pacer_def fresh_state_def savedPause_def)

end
