(* ===== verification/Iphealth.thy ===== *)
theory Iphealth
  imports Client Resolver
begin

text \<open>
  Whether the sending address is still usable: \<open>internal/iphealth/iphealth.go\<close> and \<open>redact.go\<close>.

  The resolver that answers blocklist queries and the Redis the verdict is written to are parameters,
  the clock an argument. The reasons of the self-test are constructors with what they carry; the gauge
  of listings is the report. The lock makes each access to the state atomic, and a round computes its
  verdict before it takes it.

  The theorems show that only a listing confirmed on a zone that passed its self-test stands the node
  down, that a resolver which answers every name alike never does, that what is reported about a zone
  does not depend on the subscription key in its name, and that a round in which no query succeeds lifts
  a confirmed listing.
\<close>

section \<open>Zones with a key in their name\<close>

definition keyedZoneFamilies :: "(string \<times> nat) list" where
  "keyedZoneFamilies = [(''.mail.abusix.zone'', 4), (''.dq.spamhaus.net'', 4)]"

fun redact_in :: "(string \<times> nat) list \<Rightarrow> string \<Rightarrow> string" where
  "redact_in [] zone = zone"
| "redact_in ((suf, keyless) # fs) zone =
     (if \<not> has_suffix zone suf then redact_in fs zone
      else let labels = split_on (CHR ''.'') zone
           in if length labels \<le> keyless then zone else ''<key>.'' @ join_with ''.'' (tl labels))"

definition RedactZone :: "string \<Rightarrow> string" where
  "RedactZone zone = redact_in keyedZoneFamilies zone"

definition redactError :: "string \<Rightarrow> string \<Rightarrow> string" where
  "redactError e zone =
     (let reported = RedactZone zone in if reported = zone then e else replace_all zone reported e)"

definition RedactedZones :: "string list \<Rightarrow> string list" where
  "RedactedZones zs = map RedactZone zs"

section \<open>State\<close>

definition DefaultZones :: "string list" where
  "DefaultZones = [''zen.spamhaus.org'', ''bl.spamcop.net'']"

definition HealthKey :: "string \<Rightarrow> string" where
  "HealthKey sip = ''ip:health:'' @ sip"

record health =
  IP :: string
  can_lookup :: bool
  stores :: bool
  ComplaintWindow :: duration
  ComplaintThreshold :: int
  Interval :: duration
  zones :: "string list"
  burned :: bool
  reason :: string
  trusted :: bool
  tested :: bool
  policyHosts :: "string \<rightharpoonup> instant"
  complaints :: "instant list"

definition New_health :: "string \<Rightarrow> string list \<Rightarrow> bool \<Rightarrow> bool \<Rightarrow> duration \<Rightarrow> int \<Rightarrow> duration \<Rightarrow> health" where
  "New_health sip zs lookup store window threshold interval =
     \<lparr>IP = sip, can_lookup = lookup, stores = store, ComplaintWindow = window, ComplaintThreshold = threshold,
      Interval = (if interval \<le> 0 then 15 * minute else interval), zones = (if zs = [] then DefaultZones else zs),
      burned = False, reason = [], trusted = False, tested = False, policyHosts = Map.empty, complaints = []\<rparr>"

definition health_Enabled :: "health \<Rightarrow> bool" where
  "health_Enabled h \<longleftrightarrow> can_lookup h \<and> IP h \<noteq> []"

definition Burned :: "health \<Rightarrow> bool \<times> string" where
  "Burned h = (burned h, reason h)"

definition health_persist :: "'s redis \<Rightarrow> health \<Rightarrow> bool \<Rightarrow> string \<Rightarrow> 's \<Rightarrow> 's" where
  "health_persist run h b why s =
     (if \<not> stores h then s
      else snd (Set run (HealthKey (IP h)) (if b then ''burned:'' @ why else ''ok'') s))"

definition Resume :: "'s redis \<Rightarrow> health \<times> 's \<Rightarrow> health \<times> 's" where
  "Resume run x = (case x of (h, s) \<Rightarrow> (h\<lparr>burned := False, reason := []\<rparr>, health_persist run h False ''resumed by operator'' s))"

definition ObservePolicy :: "instant \<Rightarrow> string \<Rightarrow> health \<Rightarrow> health" where
  "ObservePolicy now mxHost h = (if mxHost = [] then h else h\<lparr>policyHosts := (policyHosts h)(mxHost \<mapsto> now)\<rparr>)"

definition ObserveComplaint :: "instant \<Rightarrow> health \<Rightarrow> health" where
  "ObserveComplaint now h = h\<lparr>complaints := complaints h @ [now]\<rparr>"

definition Complaints :: "instant \<Rightarrow> duration \<Rightarrow> health \<Rightarrow> nat \<times> health" where
  "Complaints now window h =
     (let kept = filter (\<lambda>t. now - window < t) (complaints h) in (length kept, h\<lparr>complaints := kept\<rparr>))"

definition SendingPaused :: "instant \<Rightarrow> health \<Rightarrow> (nat \<times> duration) option \<times> health" where
  "SendingPaused now h =
     (if ComplaintThreshold h \<le> 0 then (None, h)
      else let window = (if ComplaintWindow h \<le> 0 then 24 * hour else ComplaintWindow h);
               (n, h) = Complaints now window h
           in (if int n \<ge> ComplaintThreshold h then Some (n, window) else None, h))"

definition PolicyHosts :: "instant \<Rightarrow> duration \<Rightarrow> health \<Rightarrow> nat \<times> health" where
  "PolicyHosts now window h =
     (let kept = (\<lambda>k. case policyHosts h k of Some t \<Rightarrow> if t < now - window then None else Some t | None \<Rightarrow> None)
      in (card (dom kept), h\<lparr>policyHosts := kept\<rparr>))"

section \<open>Queries\<close>

datatype lookup_error = NotFound | Unreachable string

type_synonym 'w lookup = "string \<Rightarrow> 'w \<Rightarrow> (lookup_error + addr list) \<times> 'w"

definition is_listing :: "addr \<Rightarrow> bool" where
  "is_listing a = (case a of V4 w \<Rightarrow> drop_bit 24 w = 127 \<and> w \<noteq> v4 127 255 255 254 | _ \<Rightarrow> False)"

definition query :: "'w lookup \<Rightarrow> string \<Rightarrow> string \<Rightarrow> 'w \<Rightarrow> (string + bool) \<times> 'w" where
  "query lk pre zone w =
     (case lk (pre @ ''.'' @ zone) w of
        (Inl NotFound, w) \<Rightarrow> (Inr False, w)
      | (Inl (Unreachable e), w) \<Rightarrow> (Inl (redactError e zone), w)
      | (Inr as, w) \<Rightarrow> (Inr (list_ex is_listing as), w))"

text \<open>\<open>reverse\<close>: the labels are swapped in place from both ends.\<close>

definition reverse_ip :: "string \<Rightarrow> string" where
  "reverse_ip sip = join_with ''.'' (rev (split_on (CHR ''.'') sip))"

section \<open>Self-test\<close>

datatype zone_error =
    TestPointUnreachable string string
  | TestPointNotListed string
  | CleanPointUnreachable string string
  | OpinionUnreachable string string
  | AnswersEverything string

datatype zone_caveat = ListsCleanPoint string string

definition unlistablePoints :: "(string \<times> string) list" where
  "unlistablePoints = [(''1.2.0.192'', ''192.0.2.1''), (''1.113.0.203'', ''203.0.113.1'')]"

fun opinion_loop ::
  "'w lookup \<Rightarrow> string \<Rightarrow> string \<Rightarrow> (string \<times> string) list \<Rightarrow> string option \<Rightarrow> 'w \<Rightarrow> (zone_error + zone_caveat) \<times> 'w" where
  "opinion_loop lk zone reported [] failed w =
     (Inl (case failed of Some e \<Rightarrow> OpinionUnreachable reported e | None \<Rightarrow> AnswersEverything reported), w)"
| "opinion_loop lk zone reported ((pre, a) # ps) failed w =
     (case query lk pre zone w of
        (Inl e, w) \<Rightarrow> opinion_loop lk zone reported ps (Some e) w
      | (Inr junk, w) \<Rightarrow>
          if junk then opinion_loop lk zone reported ps failed w else (Inr (ListsCleanPoint reported a), w))"

definition secondOpinion :: "'w lookup \<Rightarrow> string \<Rightarrow> string \<Rightarrow> 'w \<Rightarrow> (zone_error + zone_caveat) \<times> 'w" where
  "secondOpinion lk zone reported w = opinion_loop lk zone reported unlistablePoints None w"

definition selfTestZone :: "'w lookup \<Rightarrow> string \<Rightarrow> 'w \<Rightarrow> (zone_error + zone_caveat option) \<times> 'w" where
  "selfTestZone lk zone w =
     (let reported = RedactZone zone
      in case query lk ''2.0.0.127'' zone w of
           (Inl e, w) \<Rightarrow> (Inl (TestPointUnreachable reported e), w)
         | (Inr listed, w) \<Rightarrow>
             if \<not> listed then (Inl (TestPointNotListed reported), w)
             else case query lk ''1.0.0.127'' zone w of
                    (Inl e, w) \<Rightarrow> (Inl (CleanPointUnreachable reported e), w)
                  | (Inr clean, w) \<Rightarrow>
                      if \<not> clean then (Inr None, w)
                      else case secondOpinion lk zone reported w of
                             (Inl e, w) \<Rightarrow> (Inl e, w)
                           | (Inr c, w) \<Rightarrow> (Inr (Some c), w))"

record self_test =
  Dropped :: "(string \<times> zone_error) list"
  Caveats :: "(string \<times> zone_caveat) list"

fun test_zones :: "'w lookup \<Rightarrow> string list \<Rightarrow> 'w \<Rightarrow> (self_test \<times> string list) \<times> 'w" where
  "test_zones lk [] w = ((\<lparr>Dropped = [], Caveats = []\<rparr>, []), w)"
| "test_zones lk (z # zs) w =
     (case selfTestZone lk z w of
        (r, w) \<Rightarrow>
          (case test_zones lk zs w of
             ((res, kept), w) \<Rightarrow>
               (case r of
                  Inl e \<Rightarrow> ((res\<lparr>Dropped := (z, e) # Dropped res\<rparr>, kept), w)
                | Inr None \<Rightarrow> ((res, z # kept), w)
                | Inr (Some c) \<Rightarrow> ((res\<lparr>Caveats := (z, c) # Caveats res\<rparr>, z # kept), w))))"

datatype health_error = NoResolver | NoZonePassed zone_error | CheckingDisabled | NotSelfTested

definition SelfTest :: "'w lookup \<Rightarrow> health \<times> 'w \<Rightarrow> (self_test \<times> health_error option) \<times> health \<times> 'w" where
  "SelfTest lk x =
     (case x of (h, w) \<Rightarrow>
        if \<not> health_Enabled h then ((\<lparr>Dropped = [], Caveats = []\<rparr>, Some NoResolver), h, w)
        else case test_zones lk (zones h) w of
               ((res, kept), w) \<Rightarrow>
                 if kept = [] then ((res, Some (NoZonePassed (snd (hd (Dropped res))))), h, w)
                 else ((res, None), h\<lparr>zones := kept, trusted := True, tested := True\<rparr>, w))"

definition Zones :: "health \<Rightarrow> string list" where
  "Zones h = zones h"

section \<open>Rounds\<close>

record report =
  Listed :: "string \<rightharpoonup> bool"
  RBurned :: bool
  RReason :: string

text \<open>The loop of \<open>Check\<close>: what it puts in the report, and the zones we are on.\<close>

fun check_zones ::
  "'w lookup \<Rightarrow> string \<Rightarrow> string list \<Rightarrow> (string \<rightharpoonup> bool) \<times> string list \<Rightarrow> 'w \<Rightarrow> ((string \<rightharpoonup> bool) \<times> string list) \<times> 'w" where
  "check_zones lk sip [] acc w = (acc, w)"
| "check_zones lk sip (z # zs) (lst, on) w =
     (case query lk (reverse_ip sip) z w of
        (Inl _, w) \<Rightarrow> check_zones lk sip zs (lst, on) w
      | (Inr l, w) \<Rightarrow>
          check_zones lk sip zs (lst(RedactZone z \<mapsto> l), if l then on @ [RedactZone z] else on) w)"

definition round_report :: "(string \<rightharpoonup> bool) \<times> string list \<Rightarrow> report" where
  "round_report acc =
     (case acc of (lst, on) \<Rightarrow>
        \<lparr>Listed = lst, RBurned = (on \<noteq> []), RReason = (if on \<noteq> [] then ''listed on '' @ join_with '', '' on else [])\<rparr>)"

definition Check ::
  "'w lookup \<Rightarrow> 's redis \<Rightarrow> health \<times> 'w \<times> 's \<Rightarrow> (health_error + report) \<times> health \<times> 'w \<times> 's" where
  "Check lk run x =
     (case x of (h, w, s) \<Rightarrow>
        if \<not> health_Enabled h then (Inl CheckingDisabled, h, w, s)
        else if \<not> trusted h then (Inl NotSelfTested, h, w, s)
        else case check_zones lk (IP h) (Zones h) (Map.empty, []) w of
               (acc, w) \<Rightarrow>
                 (let rep = round_report acc
                  in (Inr rep, h\<lparr>burned := RBurned rep, reason := RReason rep\<rparr>, w,
                      health_persist run h (RBurned rep) (RReason rep) s)))"

text \<open>\<open>Run\<close>: one round per tick, errors ignored, until the context ends after n of them.\<close>

fun Run_rounds :: "'w lookup \<Rightarrow> 's redis \<Rightarrow> nat \<Rightarrow> health \<times> 'w \<times> 's \<Rightarrow> health \<times> 'w \<times> 's" where
  "Run_rounds lk run 0 x = x"
| "Run_rounds lk run (Suc n) x = (if \<not> health_Enabled (fst x) then x else Run_rounds lk run n (snd (Check lk run x)))"

section \<open>What stands the node down\<close>

text \<open>The health of a node over any sequence of its operations, with the resolver in any state at each.\<close>

inductive health_reachable :: "'w lookup \<Rightarrow> 's redis \<Rightarrow> health \<Rightarrow> bool" for lk run where
  new: "health_reachable lk run (New_health sip zs lookup store window threshold interval)"
| selftest: "health_reachable lk run h \<Longrightarrow> SelfTest lk (h, w) = (r, h', w') \<Longrightarrow> health_reachable lk run h'"
| check: "health_reachable lk run h \<Longrightarrow> Check lk run (h, w, s) = (r, h', w', s') \<Longrightarrow> health_reachable lk run h'"
| resume: "health_reachable lk run h \<Longrightarrow> Resume run (h, s) = (h', s') \<Longrightarrow> health_reachable lk run h'"
| policy: "health_reachable lk run h \<Longrightarrow> health_reachable lk run (ObservePolicy now mxHost h)"
| complaint: "health_reachable lk run h \<Longrightarrow> health_reachable lk run (ObserveComplaint now h)"
| paused: "health_reachable lk run h \<Longrightarrow> SendingPaused now h = (r, h') \<Longrightarrow> health_reachable lk run h'"
| hosts: "health_reachable lk run h \<Longrightarrow> PolicyHosts now window h = (n, h') \<Longrightarrow> health_reachable lk run h'"

text \<open>The zone listed its test point, and did not list one of the points that must not be listed.\<close>

definition answers :: "'w lookup \<Rightarrow> string \<Rightarrow> string \<Rightarrow> bool \<Rightarrow> bool" where
  "answers lk pre zone l \<longleftrightarrow> (\<exists>w. fst (query lk pre zone w) = Inr l)"

definition tells_apart :: "'w lookup \<Rightarrow> string \<Rightarrow> bool" where
  "tells_apart lk z \<longleftrightarrow> answers lk ''2.0.0.127'' z True \<and>
     (answers lk ''1.0.0.127'' z False \<or> answers lk ''1.2.0.192'' z False \<or> answers lk ''1.113.0.203'' z False)"

lemma answersI: "query lk pre z w = (Inr l, w') \<Longrightarrow> answers lk pre z l"
  unfolding answers_def by (metis fst_conv)

lemma opinion_loop_clean:
  "opinion_loop lk z rep ps failed w = (Inr c, w') \<Longrightarrow> \<exists>(pre, a) \<in> set ps. answers lk pre z False"
proof (induction lk z rep ps failed w rule: opinion_loop.induct)
  case (2 lk zone rep pre a ps failed w)
  obtain r w1 where q: "query lk pre zone w = (r, w1)" by (metis prod.exhaust)
  show ?case
  proof (cases r)
    case (Inl e)
    with 2 q show ?thesis by auto
  next
    case (Inr junk)
    with 2 q show ?thesis using answersI [of lk pre zone w junk w1] by (cases junk) auto
  qed
qed simp

lemma selfTestZone_passes:
  assumes "selfTestZone lk z w = (Inr c, w')"
  shows "tells_apart lk z"
proof -
  obtain r1 w1 where q1: "query lk ''2.0.0.127'' z w = (r1, w1)" by (metis prod.exhaust)
  obtain r2 w2 where q2: "query lk ''1.0.0.127'' z w1 = (r2, w2)" by (metis prod.exhaust)
  obtain r3 w3 where q3: "secondOpinion lk z (RedactZone z) w2 = (r3, w3)" by (metis prod.exhaust)
  have r1: "r1 = Inr True" using assms q1 by (cases r1) (auto simp: selfTestZone_def Let_def split: if_splits)
  with assms q1 q2 obtain clean where r2: "r2 = Inr clean" by (cases r2) (auto simp: selfTestZone_def Let_def)
  have "clean \<Longrightarrow> \<exists>c. r3 = Inr c"
    using assms q1 q2 q3 r1 r2 by (cases r3) (auto simp: selfTestZone_def Let_def)
  with q3 have "clean \<Longrightarrow> answers lk ''1.2.0.192'' z False \<or> answers lk ''1.113.0.203'' z False"
    using opinion_loop_clean [of lk z "RedactZone z" unlistablePoints None w2] unfolding secondOpinion_def
    by (fastforce simp: unlistablePoints_def)
  then show ?thesis
    using answersI [OF q1 [unfolded r1]] answersI [OF q2 [unfolded r2]] unfolding tells_apart_def by (cases clean) auto
qed

lemma test_zones_kept:
  "test_zones lk zs w = ((res, kept), w') \<Longrightarrow> set kept \<subseteq> set zs \<and> (\<forall>z \<in> set kept. tells_apart lk z)"
proof (induction zs arbitrary: w res kept w')
  case (Cons z zs)
  obtain r w1 where t: "selfTestZone lk z w = (r, w1)" by (metis prod.exhaust)
  obtain res2 kept2 w2 where rest: "test_zones lk zs w1 = ((res2, kept2), w2)" by (metis prod.exhaust)
  note IH = Cons.IH [OF rest]
  show ?case
  proof (cases r)
    case (Inl e)
    with Cons.prems t rest IH show ?thesis by auto
  next
    case (Inr c)
    with Cons.prems t rest have "kept = z # kept2" by (auto split: option.splits)
    with IH selfTestZone_passes [OF t [unfolded Inr]] show ?thesis by auto
  qed
qed simp

lemma check_zones_on:
  "check_zones lk sip zs (lst, on) w = ((lst', on'), w') \<Longrightarrow>
   \<exists>more. on' = on @ map RedactZone more \<and> (\<forall>z \<in> set more. z \<in> set zs \<and> answers lk (reverse_ip sip) z True)"
proof (induction zs arbitrary: lst on w)
  case (Cons z zs)
  obtain r w1 where q: "query lk (reverse_ip sip) z w = (r, w1)" by (metis prod.exhaust)
  show ?case
  proof (cases r)
    case (Inl e)
    with Cons q show ?thesis by fastforce
  next
    case (Inr l)
    with Cons.prems q have "check_zones lk sip zs (lst(RedactZone z \<mapsto> l), if l then on @ [RedactZone z] else on) w1 = ((lst', on'), w')"
      by simp
    from Cons.IH [OF this] obtain more where more: "on' = (if l then on @ [RedactZone z] else on) @ map RedactZone more"
      "\<forall>z \<in> set more. z \<in> set zs \<and> answers lk (reverse_ip sip) z True" by blast
    show ?thesis
    proof (cases l)
      case True
      then show ?thesis using more answersI [OF q [unfolded Inr]] by (intro exI [of _ "z # more"]) auto
    next
      case False
      then show ?thesis using more by (intro exI [of _ more]) auto
    qed
  qed
qed simp

text \<open>The invariant: only zones that told us apart are trusted, and a pause names zones that list us.\<close>

definition confirmed :: "'w lookup \<Rightarrow> health \<Rightarrow> bool" where
  "confirmed lk h \<longleftrightarrow>
     (trusted h \<longrightarrow> (\<forall>z \<in> set (zones h). tells_apart lk z)) \<and>
     (burned h \<longrightarrow> (\<exists>on. on \<noteq> [] \<and> reason h = ''listed on '' @ join_with '', '' (map RedactZone on) \<and>
        (\<forall>z \<in> set on. tells_apart lk z \<and> answers lk (reverse_ip (IP h)) z True)))"

lemma SelfTest_confirmed:
  assumes "confirmed lk h" "SelfTest lk (h, w) = (r, h', w')"
  shows "confirmed lk h'"
proof -
  obtain res kept w1 where t: "test_zones lk (zones h) w = ((res, kept), w1)" by (metis prod.exhaust)
  with assms(2) have "h' = h \<or> h' = h\<lparr>zones := kept, trusted := True, tested := True\<rparr>"
    by (auto simp: SelfTest_def split: if_splits)
  with assms(1) test_zones_kept [OF t] show ?thesis by (auto simp: confirmed_def)
qed

lemma Check_confirmed:
  assumes "confirmed lk h" "Check lk run (h, w, s) = (r, h', w', s')"
  shows "confirmed lk h'"
proof (cases "health_Enabled h \<and> trusted h")
  case False
  with assms show ?thesis by (auto simp: Check_def Zones_def split: if_splits)
next
  case True
  obtain lst on w1 where c: "check_zones lk (IP h) (zones h) (Map.empty, []) w = ((lst, on), w1)" by (metis prod.exhaust)
  with assms(2) True have h': "h' = h\<lparr>burned := (on \<noteq> []), reason := (if on \<noteq> [] then ''listed on '' @ join_with '', '' on else [])\<rparr>"
    by (auto simp: Check_def Zones_def round_report_def Let_def)
  from check_zones_on [OF c] obtain more where
    "on = map RedactZone more" "\<forall>z \<in> set more. z \<in> set (zones h) \<and> answers lk (reverse_ip (IP h)) z True" by auto
  with assms(1) True h' show ?thesis unfolding confirmed_def by (auto intro!: exI [of _ more])
qed

lemma confirmed_same:
  "confirmed lk h \<Longrightarrow> trusted h' = trusted h \<Longrightarrow> zones h' = zones h \<Longrightarrow> burned h' = burned h \<Longrightarrow> reason h' = reason h \<Longrightarrow>
   IP h' = IP h \<Longrightarrow> confirmed lk h'"
  by (simp add: confirmed_def)

lemma reachable_confirmed: "health_reachable lk run h \<Longrightarrow> confirmed lk h"
proof (induction rule: health_reachable.induct)
  case (new sip zs lookup store window threshold interval)
  show ?case by (simp add: confirmed_def New_health_def)
next
  case (selftest h w r h' w')
  show ?case by (rule SelfTest_confirmed [OF selftest.IH selftest.hyps(2)])
next
  case (check h w s r h' w' s')
  show ?case by (rule Check_confirmed [OF check.IH check.hyps(2)])
next
  case (resume h s h' s')
  then show ?case by (auto simp: confirmed_def Resume_def)
next
  case (policy h now mxHost)
  show ?case by (rule confirmed_same [OF policy.IH]) (simp_all add: ObservePolicy_def)
next
  case (complaint h now)
  show ?case by (rule confirmed_same [OF complaint.IH]) (simp_all add: ObserveComplaint_def)
next
  case (paused h now r h')
  then have "h' = h \<or> (\<exists>cs. h' = h\<lparr>complaints := cs\<rparr>)"
    by (auto simp: SendingPaused_def Complaints_def Let_def split: if_splits)
  then show ?case by (auto intro: confirmed_same [OF paused.IH])
next
  case (hosts h now window n h')
  then have "\<exists>m. h' = h\<lparr>policyHosts := m\<rparr>" by (auto simp: PolicyHosts_def Let_def)
  then show ?case by (auto intro: confirmed_same [OF hosts.IH])
qed

text \<open>
  C12. Only a confirmed listing stands the node down, whatever happens to it and whatever the servers, the
  complaints, the operator and the resolver do: a node that is paused names zones, at least one, and
  each of them listed its own test point, did not list a point no list may carry, and listed us.
\<close>

theorem burned_is_confirmed:
  assumes "health_reachable lk run h" "Burned h = (True, why)"
  shows "\<exists>on. on \<noteq> [] \<and> why = ''listed on '' @ join_with '', '' (map RedactZone on) \<and>
    (\<forall>z \<in> set on. answers lk (reverse_ip (IP h)) z True \<and> answers lk ''2.0.0.127'' z True \<and>
       (answers lk ''1.0.0.127'' z False \<or> answers lk ''1.2.0.192'' z False \<or> answers lk ''1.113.0.203'' z False))"
  using reachable_confirmed [OF assms(1)] assms(2) unfolding confirmed_def tells_apart_def Burned_def by auto

text \<open>A list that carries us, and a stub that calls everything listed.\<close>

definition listing_answer :: "lookup_error + addr list" where
  "listing_answer = Inr [V4 (v4 127 0 0 2)]"

definition honest_list :: "unit lookup" where
  "honest_list n w = (if n \<in> {''2.0.0.127.bl'', ''4.3.2.1.bl''} then listing_answer else Inl NotFound, w)"

definition stub_resolver :: "unit lookup" where
  "stub_resolver n w = (listing_answer, w)"

definition no_redis :: "unit redis" where
  "no_redis cmd s = (Inl (Transport ''dial''), s)"

definition watched_node :: health where
  "watched_node = New_health ''1.2.3.4'' [''bl''] True True 0 0 0"

definition after_round :: "unit lookup \<Rightarrow> health" where
  "after_round lk = fst (snd (Check lk no_redis (fst (snd (SelfTest lk (watched_node, ()))), (), ())))"

lemma after_round_reachable: "health_reachable lk no_redis (after_round lk)"
proof -
  have "SelfTest lk (watched_node, ()) = (fst (SelfTest lk (watched_node, ())), fst (snd (SelfTest lk (watched_node, ()))), ())"
    by (simp add: prod_eq_iff)
  from health_reachable.selftest [OF _ this] have "health_reachable lk no_redis (fst (snd (SelfTest lk (watched_node, ()))))"
    unfolding watched_node_def by (simp add: health_reachable.new)
  from health_reachable.check [OF this, of "()" "()"] show ?thesis
    unfolding after_round_def by (metis prod.collapse)
qed

theorem burned_is_confirmed_witness:
  "\<exists>on. on \<noteq> [] \<and> ''listed on bl'' = ''listed on '' @ join_with '', '' (map RedactZone on) \<and>
    (\<forall>z \<in> set on. answers honest_list (reverse_ip ''1.2.3.4'') z True \<and> answers honest_list ''2.0.0.127'' z True \<and>
       (answers honest_list ''1.0.0.127'' z False \<or> answers honest_list ''1.2.0.192'' z False \<or> answers honest_list ''1.113.0.203'' z False))"
proof -
  have l: "is_listing (V4 (v4 127 0 0 2))" by (simp add: is_listing_def v4_def)
  have e: "RedactZone ''bl'' = ''bl''" "reverse_ip ''1.2.3.4'' = ''4.3.2.1''" by code_simp+
  have "SelfTest honest_list (watched_node, ()) = ((\<lparr>Dropped = [], Caveats = []\<rparr>, None), watched_node\<lparr>trusted := True, tested := True\<rparr>, ())"
    by (simp add: SelfTest_def watched_node_def New_health_def health_Enabled_def selfTestZone_def query_def honest_list_def
        listing_answer_def l Let_def)
  then have "Burned (after_round honest_list) = (True, ''listed on bl'')" "IP (after_round honest_list) = ''1.2.3.4''"
    by (simp_all add: after_round_def Check_def Zones_def watched_node_def New_health_def health_Enabled_def query_def honest_list_def
        listing_answer_def l e Let_def round_report_def Burned_def)
  with burned_is_confirmed [OF after_round_reachable, of honest_list "''listed on bl''"] show ?thesis by simp
qed

text \<open>
  A resolver that answers every name alike never stands the node down: neither a stub that calls
  everything listed, nor one that refuses every query, nor one that finds or reaches nothing.
\<close>

theorem stub_never_burns:
  assumes "health_reachable lk run h" and "\<And>n w. fst (lk n w) = a"
  shows "Burned h \<noteq> (True, why)"
proof
  assume "Burned h = (True, why)"
  then have "\<exists>z. tells_apart lk z"
    using reachable_confirmed [OF assms(1)] unfolding confirmed_def Burned_def by (metis fst_conv last_in_set)
  moreover have same: "(\<exists>w. fst (query lk pre z w) = Inr l) \<longleftrightarrow>
    (case a of Inl NotFound \<Rightarrow> l = False | Inl (Unreachable _) \<Rightarrow> False | Inr as \<Rightarrow> l = list_ex is_listing as)" for pre z l
  proof -
    have "fst (query lk pre z w) = (case a of Inl NotFound \<Rightarrow> Inr False | Inl (Unreachable e) \<Rightarrow> Inl (redactError e z)
        | Inr as \<Rightarrow> Inr (list_ex is_listing as))" for w
    proof -
      obtain w1 where "lk (pre @ ''.'' @ z) w = (a, w1)" using assms(2) by (metis prod.collapse)
      then show ?thesis unfolding query_def by (simp split: sum.split lookup_error.split)
    qed
    then show ?thesis by (auto split: sum.splits lookup_error.splits)
  qed
  ultimately show False unfolding tells_apart_def answers_def same by (auto split: sum.splits lookup_error.splits)
qed

theorem stub_never_burns_witness: "Burned (after_round stub_resolver) \<noteq> (True, ''listed on bl'')"
  using stub_never_burns [OF after_round_reachable, of stub_resolver listing_answer] by (simp add: stub_resolver_def)

section \<open>A round that reaches nothing\<close>

lemma check_zones_unreachable:
  "(\<And>n w. \<exists>e. fst (lk n w) = Inl (Unreachable e)) \<Longrightarrow> fst (check_zones lk sip zs acc w) = acc"
proof (induction zs arbitrary: acc w)
  case (Cons z zs)
  obtain e w1 where "lk (reverse_ip sip @ ''.'' @ z) w = (Inl (Unreachable e), w1)"
    using Cons.prems by (metis prod.collapse)
  with Cons show ?case by (cases acc) (simp add: query_def)
qed simp

text \<open>
  A round in which no query succeeds lifts a confirmed listing: the node is no longer paused, and the
  store says that the address is fine, although nothing was learnt about it.
\<close>

theorem failed_round_lifts_listing:
  assumes "health_Enabled h" "trusted h" "stores h" "\<And>n w. \<exists>e. fst (lk n w) = Inl (Unreachable e)"
  shows "\<exists>rep h' w'. Check lk run (h, w, s) = (Inr rep, h', w', snd (Set run (HealthKey (IP h)) ''ok'' s)) \<and>
    Listed rep = Map.empty \<and> Burned h' = (False, [])"
proof -
  let ?c = "check_zones lk (IP h) (zones h) (Map.empty, []) w"
  have "?c = ((Map.empty, []), snd ?c)" using check_zones_unreachable [of lk, OF assms(4)] by (simp add: prod_eq_iff)
  with assms(1-3) show ?thesis
    unfolding Check_def Zones_def by (subst (asm) prod_eq_iff) (auto simp: round_report_def health_persist_def Burned_def Let_def split: prod.split)
qed

section \<open>Subscription keys\<close>

text \<open>A zone of a keyed family without its key.\<close>

definition keyed :: "string \<Rightarrow> bool" where
  "keyed r \<longleftrightarrow> (\<exists>(suf, keyless) \<in> set keyedZoneFamilies. has_suffix r suf \<and> keyless \<le> length (split_on (CHR ''.'') r))"

lemma redact_in_keyed:
  assumes "CHR ''.'' \<notin> set k" "\<exists>(suf, keyless) \<in> set fs. has_suffix r suf \<and> keyless \<le> length (split_on (CHR ''.'') r)"
    and "\<And>suf keyless. (suf, keyless) \<in> set fs \<Longrightarrow> keyless = 4"
  shows "redact_in fs (k @ ''.'' @ r) = ''<key>.'' @ r"
  using assms(2,3)
proof (induction fs)
  case (Cons f fs)
  obtain suf n where f: "f = (suf, n)" by fastforce
  have n: "n = 4" using Cons.prems(2) f by auto
  have split: "split_on (CHR ''.'') (k @ ''.'' @ r) = k # split_on (CHR ''.'') r"
    using split_on_append [OF assms(1)] by simp
  have long: "4 \<le> length (split_on (CHR ''.'') r)" using Cons.prems by fastforce
  show ?case
  proof (cases "has_suffix (k @ ''.'' @ r) suf")
    case True
    then show ?thesis using split long n join_with_split [of "CHR ''.''" r] unfolding f by simp
  next
    case False
    then have "\<not> has_suffix r suf" by (auto simp: has_suffix_iff suffix_def)
    with Cons False f show ?thesis by auto
  qed
qed simp

lemma RedactZone_keyed: "CHR ''.'' \<notin> set k \<Longrightarrow> keyed r \<Longrightarrow> RedactZone (k @ ''.'' @ r) = ''<key>.'' @ r"
  unfolding RedactZone_def keyed_def by (rule redact_in_keyed) (auto simp: keyedZoneFamilies_def)

text \<open>The same answer, up to the text of an error.\<close>

definition same_answer :: "(lookup_error + addr list) \<times> 'w \<Rightarrow> (lookup_error + addr list) \<times> 'w \<Rightarrow> bool" where
  "same_answer x y \<longleftrightarrow> snd x = snd y \<and>
     (case fst x of Inl NotFound \<Rightarrow> fst y = Inl NotFound | Inl (Unreachable _) \<Rightarrow> (\<exists>e. fst y = Inl (Unreachable e)) | Inr as \<Rightarrow> fst y = Inr as)"

lemma check_zones_same:
  assumes "list_all2 (\<lambda>z z'. RedactZone z = RedactZone z' \<and>
      (\<forall>w. same_answer (lk (reverse_ip sip @ ''.'' @ z) w) (lk' (reverse_ip sip @ ''.'' @ z') w))) zs zs'"
  shows "check_zones lk sip zs acc w = check_zones lk' sip zs' acc w"
  using assms
proof (induction zs zs' arbitrary: acc w rule: list_all2_induct)
  case (Cons z zs z' zs')
  let ?x = "lk (reverse_ip sip @ ''.'' @ z) w" and ?y = "lk' (reverse_ip sip @ ''.'' @ z') w"
  have same: "same_answer ?x ?y" and red: "RedactZone z = RedactZone z'" using Cons.hyps by auto
  obtain lst on where acc: "acc = (lst, on)" by fastforce
  obtain x w1 where x: "?x = (x, w1)" by (metis prod.exhaust)
  with same obtain y where y: "?y = (y, w1)" by (metis prod.collapse same_answer_def snd_conv)
  have qx: "query lk (reverse_ip sip) z w = (case x of Inl NotFound \<Rightarrow> (Inr False, w1)
      | Inl (Unreachable e) \<Rightarrow> (Inl (redactError e z), w1) | Inr as \<Rightarrow> (Inr (list_ex is_listing as), w1))"
    unfolding query_def x by (simp split: sum.split lookup_error.split)
  have qy: "query lk' (reverse_ip sip) z' w = (case y of Inl NotFound \<Rightarrow> (Inr False, w1)
      | Inl (Unreachable e) \<Rightarrow> (Inl (redactError e z'), w1) | Inr as \<Rightarrow> (Inr (list_ex is_listing as), w1))"
    unfolding query_def y by (simp split: sum.split lookup_error.split)
  consider "x = Inl NotFound" "y = Inl NotFound"
    | e e' where "x = Inl (Unreachable e)" "y = Inl (Unreachable e')" | as where "x = Inr as" "y = Inr as"
    using same unfolding x y same_answer_def by (auto split: sum.splits lookup_error.splits)
  then show ?case
    by cases (simp_all add: acc qx qy red Cons.IH)
qed simp

text \<open>
  What is reported about a zone does not show the subscription key in its name: two nodes whose zones
  differ in their keys only, and whose queries get the same answers, have the same report, are paused
  with the same reason and write the same to the store, and the key's place is taken by a fixed word.
\<close>

theorem report_hides_keys:
  assumes "list_all2 (\<lambda>(k, r) (k', r'). r' = r \<and> keyed r \<and> CHR ''.'' \<notin> set k \<and> CHR ''.'' \<notin> set k' \<and>
      (\<forall>w. same_answer (lk (reverse_ip (IP h) @ ''.'' @ k @ ''.'' @ r) w) (lk' (reverse_ip (IP h) @ ''.'' @ k' @ ''.'' @ r) w))) ks ks'"
    and "Check lk run (h\<lparr>zones := map (\<lambda>(k, r). k @ ''.'' @ r) ks\<rparr>, w, s) = (rep, h1, x)"
    and "Check lk' run (h\<lparr>zones := map (\<lambda>(k, r). k @ ''.'' @ r) ks'\<rparr>, w, s) = (rep', h2, x')"
  shows "rep = rep' \<and> Burned h1 = Burned h2 \<and> x = x' \<and>
    (\<forall>(k, r) \<in> set ks. RedactZone (k @ ''.'' @ r) = ''<key>.'' @ r)"
proof -
  have "list_all2 (\<lambda>z z'. RedactZone z = RedactZone z' \<and>
      (\<forall>w. same_answer (lk (reverse_ip (IP h) @ ''.'' @ z) w) (lk' (reverse_ip (IP h) @ ''.'' @ z') w)))
      (map (\<lambda>(k, r). k @ ''.'' @ r) ks) (map (\<lambda>(k, r). k @ ''.'' @ r) ks')"
    unfolding list.rel_map using assms(1) by (rule list_all2_mono) (auto simp: RedactZone_keyed [simplified])
  from check_zones_same [OF this, of "(Map.empty, [])" w] assms(2,3)
  have "rep = rep' \<and> Burned h1 = Burned h2 \<and> x = x'"
    by (auto simp: Check_def Zones_def health_Enabled_def health_persist_def Burned_def Let_def split: if_splits prod.splits)
  moreover have "RedactZone (k @ ''.'' @ r) = ''<key>.'' @ r" if "(k, r) \<in> set ks" for k r
  proof -
    from that obtain i where "i < length ks" "ks ! i = (k, r)" by (metis in_set_conv_nth)
    with assms(1) have "keyed r" "CHR ''.'' \<notin> set k" by (auto simp: list_all2_conv_all_nth)
    then show ?thesis by (rule RedactZone_keyed [rotated])
  qed
  ultimately show ?thesis by auto
qed

definition abusix_rest :: string where
  "abusix_rest = ''combined.mail.abusix.zone''"

theorem report_hides_keys_witness:
  "let h = watched_node\<lparr>trusted := True\<rparr>
   in fst (Check stub_resolver no_redis (h\<lparr>zones := [''k1'' @ ''.'' @ abusix_rest]\<rparr>, (), ())) =
      fst (Check stub_resolver no_redis (h\<lparr>zones := [''k2'' @ ''.'' @ abusix_rest]\<rparr>, (), ())) \<and>
      RedactZone (''k1'' @ ''.'' @ abusix_rest) = ''<key>.'' @ abusix_rest"
proof -
  let ?h = "watched_node\<lparr>trusted := True\<rparr>"
  have k: "keyed abusix_rest" by code_simp
  let ?x = "Check stub_resolver no_redis (?h\<lparr>zones := map (\<lambda>(k, r). k @ ''.'' @ r) [(''k1'', abusix_rest)]\<rparr>, (), ())"
  let ?y = "Check stub_resolver no_redis (?h\<lparr>zones := map (\<lambda>(k, r). k @ ''.'' @ r) [(''k2'', abusix_rest)]\<rparr>, (), ())"
  have e: "?x = (fst ?x, fst (snd ?x), snd (snd ?x))" "?y = (fst ?y, fst (snd ?y), snd (snd ?y))" by simp_all
  have "list_all2 (\<lambda>(k, r) (k', r'). r' = r \<and> keyed r \<and> CHR ''.'' \<notin> set k \<and> CHR ''.'' \<notin> set k' \<and>
      (\<forall>w. same_answer (stub_resolver (reverse_ip (IP ?h) @ ''.'' @ k @ ''.'' @ r) w)
        (stub_resolver (reverse_ip (IP ?h) @ ''.'' @ k' @ ''.'' @ r) w))) [(''k1'', abusix_rest)] [(''k2'', abusix_rest)]"
    using k by (simp add: same_answer_def stub_resolver_def listing_answer_def)
  from report_hides_keys [OF this e] show ?thesis by (simp add: Let_def)
qed

end
