(* ===== verification/Mxprofile.thy ===== *)
theory Mxprofile
  imports Client
begin

text \<open>
  What is remembered about a recipient server: \<open>internal/mxprofile/mxprofile.go\<close>, two flags per host in
  Redis that expire, whether it answers at random and whether TLS with it fails.

  What runs a Redis command is a parameter; \<open>keeps_strings\<close> states what the code relies on. The nil
  profile set is not modelled: the callers' \<open>profiled\<close> flag stands for it.
\<close>

section \<open>The flags\<close>

definition RandomiserKey :: "string \<Rightarrow> string" where
  "RandomiserKey mxHost = ''mx:'' @ mxHost @ '':randomiser''"

definition TLSKey :: "string \<Rightarrow> string" where
  "TLSKey mxHost = ''mx:'' @ mxHost @ '':tls_broken''"

record profiles =
  profile_ttl :: duration

definition New_profiles :: "duration \<Rightarrow> profiles" where
  "New_profiles d = \<lparr>profile_ttl = (if d \<le> 0 then 24 * hour else d)\<rparr>"

definition flag_set :: "'s redis \<Rightarrow> string \<Rightarrow> 's \<Rightarrow> bool \<times> 's" where
  "flag_set run key s = (case Get run key s of (Inr (Some v), s) \<Rightarrow> (v = ''1'', s) | (_, s) \<Rightarrow> (False, s))"

definition IsRandomiser :: "'s redis \<Rightarrow> string \<Rightarrow> 's \<Rightarrow> bool \<times> 's" where
  "IsRandomiser run mxHost s = (if mxHost = [] then (False, s) else flag_set run (RandomiserKey mxHost) s)"

definition TLSBroken :: "'s redis \<Rightarrow> string \<Rightarrow> 's \<Rightarrow> bool \<times> 's" where
  "TLSBroken run mxHost s = (if mxHost = [] then (False, s) else flag_set run (TLSKey mxHost) s)"

text \<open>The package's own \<open>itoa\<close>: a buffer of 20 bytes is filled from its end; \<open>None\<close> is an index out of
  range. Only the part that was filled is kept here.\<close>

function itoa_loop :: "nat \<Rightarrow> string \<Rightarrow> int \<Rightarrow> string option" where
  "itoa_loop i b n =
     (if n > 0 then (if i = 0 then None else itoa_loop (i - 1) (char_of (48 + nat (n mod 10)) # b) (n div 10)) else Some b)"
  by auto
termination by (relation "measure fst") auto

declare itoa_loop.simps [simp del]

definition profile_itoa :: "int \<Rightarrow> string option" where
  "profile_itoa n = (if n = 0 then Some ''0'' else itoa_loop 20 [] n)"

definition flag_mark :: "'s redis \<Rightarrow> profiles \<Rightarrow> string \<Rightarrow> 's \<Rightarrow> 's option" where
  "flag_mark run p key s =
     map_option (\<lambda>n. snd (run [''SET'', key, ''1'', ''EX'', n] s)) (profile_itoa (profile_ttl p div second))"

definition MarkRandomiser :: "'s redis \<Rightarrow> profiles \<Rightarrow> string \<Rightarrow> 's \<Rightarrow> 's option" where
  "MarkRandomiser run p mxHost s = (if mxHost = [] then Some s else flag_mark run p (RandomiserKey mxHost) s)"

definition MarkTLSBroken :: "'s redis \<Rightarrow> profiles \<Rightarrow> string \<Rightarrow> 's \<Rightarrow> 's option" where
  "MarkTLSBroken run p mxHost s = (if mxHost = [] then Some s else flag_mark run p (TLSKey mxHost) s)"

section \<open>The number printer\<close>

lemma nat_digits_rec: "9 < n \<Longrightarrow> nat_digits n = nat_digits (n div 10) @ [char_of (48 + n mod 10)]"
  by (subst nat_digits.simps) simp

lemma itoa_loop_digits:
  "0 < n \<Longrightarrow> n < 10 ^ i \<Longrightarrow> itoa_loop i b (int n) = Some (nat_digits n @ b)"
proof (induction n arbitrary: i b rule: nat_digits.induct)
  case (1 n)
  then obtain j where i: "i = Suc j" by (cases i) auto
  have d: "nat (int n mod 10) = n mod 10" "int n div 10 = int (n div 10)"
    by (simp_all add: zdiv_int nat_mod_distrib)
  show ?case
  proof (cases "n < 10")
    case True
    with "1.prems" i show ?thesis
      by (subst itoa_loop.simps, subst itoa_loop.simps) (simp add: d nat_digits.simps)
  next
    case False
    have "0 < n div 10" "n div 10 < 10 ^ j" using False "1.prems" i by (auto simp: less_mult_imp_div_less mult.commute)
    with "1.IH" [OF False, of j "char_of (48 + n mod 10) # b"] False i d show ?thesis
      by (subst itoa_loop.simps) (simp add: nat_digits_rec)
  qed
qed

text \<open>
  The package's own number printer is \<open>strconv.Itoa\<close> on every number it can be given, the seconds of
  a positive duration, and its buffer of 20 bytes is always large enough.
\<close>

theorem profile_itoa_is_itoa:
  assumes "0 \<le> n" "in_int64 n"
  shows "profile_itoa n = Some (itoa n)"
proof (cases "n = 0")
  case True
  moreover have "profile_itoa 0 = Some (itoa 0)" by code_simp
  ultimately show ?thesis by simp
next
  case False
  have "nat n < 10 ^ 20" using assms by (simp add: in_int64_def nat_less_iff)
  with False assms itoa_loop_digits [of "nat n" 20 "[]"] show ?thesis by (simp add: profile_itoa_def itoa_def)
qed

theorem profile_itoa_is_itoa_witness: "profile_itoa 86400 = Some (itoa 86400)"
  by (rule profile_itoa_is_itoa) (simp_all add: in_int64_def)

section \<open>What is remembered\<close>

text \<open>What the code relies on of keys that expire: \<open>holds s k\<close> is what a GET of k would give. A SET with a
  positive number of seconds, if it succeeds, makes it hold the value; it changes no other key.\<close>

definition keeps_strings :: "'s redis \<Rightarrow> ('s \<Rightarrow> string \<Rightarrow> string option) \<Rightarrow> bool" where
  "keeps_strings run holds \<longleftrightarrow>
     (\<forall>s k r s'. run [''GET'', k] s = (r, s') \<longrightarrow>
        (\<forall>v. r = Inr v \<longrightarrow> v = (case holds s k of None \<Rightarrow> RNil | Some x \<Rightarrow> RStr x)) \<and> holds s' = holds s) \<and>
     (\<forall>s k v n r s'. 0 < n \<longrightarrow> run [''SET'', k, v, ''EX'', itoa n] s = (r, s') \<longrightarrow>
        holds s' = (case r of Inr _ \<Rightarrow> (holds s)(k \<mapsto> v) | Inl _ \<Rightarrow> holds s))"

lemma keys_distinct [simp]:
  "RandomiserKey h = RandomiserKey h' \<longleftrightarrow> h = h'" "TLSKey h = TLSKey h' \<longleftrightarrow> h = h'" "RandomiserKey h \<noteq> TLSKey h'" "TLSKey h' \<noteq> RandomiserKey h"
proof -
  have "last (RandomiserKey h) \<noteq> last (TLSKey h')" by (simp add: RandomiserKey_def TLSKey_def)
  then show "RandomiserKey h \<noteq> TLSKey h'" "TLSKey h' \<noteq> RandomiserKey h" by metis+
qed (simp_all add: RandomiserKey_def TLSKey_def)

lemma flag_set_holds:
  assumes "keeps_strings run holds" "flag_set run k s = (b, s')"
  shows "b \<Longrightarrow> holds s k = Some ''1''"
    and "\<not> isl (fst (run [''GET'', k] s)) \<Longrightarrow> b \<longleftrightarrow> holds s k = Some ''1''"
proof -
  obtain r s1 where r: "run [''GET'', k] s = (r, s1)" by (metis prod.exhaust)
  have law: "\<forall>v. r = Inr v \<longrightarrow> v = (case holds s k of None \<Rightarrow> RNil | Some x \<Rightarrow> RStr x)"
    using assms(1) r unfolding keeps_strings_def by blast
  show "holds s k = Some ''1''" if b using assms(2) r law that
    by (cases r; cases "holds s k") (auto simp: flag_set_def Get_def)
  show "b \<longleftrightarrow> holds s k = Some ''1''" if "\<not> isl (fst (run [''GET'', k] s))" using assms(2) r law that
    by (cases r; cases "holds s k") (auto simp: flag_set_def Get_def)
qed

text \<open>
  What is marked is known, and nothing else: after a host was marked as a randomiser and the store took
  it, asking about a host reports a randomiser if it is that host or was known before, for every host
  whose flag can be read; the TLS flags are as they were. When the store did not take it, nothing changed.
\<close>

theorem mark_is_known:
  assumes "keeps_strings run holds" "second \<le> profile_ttl p" "in_int64 (profile_ttl p)" "h \<noteq> []"
    and "MarkRandomiser run p h s = Some s'" "h' \<noteq> []" "IsRandomiser run h' s' = (b, s2)"
    and "\<not> isl (fst (run [''GET'', RandomiserKey h'] s'))"
  defines "taken \<equiv> \<not> isl (fst (run [''SET'', RandomiserKey h, ''1'', ''EX'', itoa (profile_ttl p div second)] s))"
  shows "(b \<longleftrightarrow> (taken \<and> h' = h) \<or> holds s (RandomiserKey h') = Some ''1'') \<and> holds s' (TLSKey t) = holds s (TLSKey t)"
proof -
  let ?n = "profile_ttl p div second"
  have n: "0 < ?n" using assms(2) by linarith
  have "in_int64 ?n" using assms(2,3) by (simp add: in_int64_def) linarith
  with n have i: "profile_itoa ?n = Some (itoa ?n)"
    using itoa_loop_digits [of "nat ?n" 20 "[]"] by (simp add: profile_itoa_def itoa_def in_int64_def nat_less_iff)
  obtain r where r: "run [''SET'', RandomiserKey h, ''1'', ''EX'', itoa ?n] s = (r, s')"
    using assms(4,5) i by (cases "run [''SET'', RandomiserKey h, ''1'', ''EX'', itoa ?n] s") (auto simp: MarkRandomiser_def flag_mark_def)
  have h: "holds s' = (case r of Inr _ \<Rightarrow> (holds s)(RandomiserKey h \<mapsto> ''1'') | Inl _ \<Rightarrow> holds s)"
    using assms(1) r n unfolding keeps_strings_def by blast
  have "b \<longleftrightarrow> holds s' (RandomiserKey h') = Some ''1''"
    using flag_set_holds(2) [OF assms(1)] assms(6-8) by (simp add: IsRandomiser_def)
  with h r show ?thesis by (cases r) (auto simp: taken_def)
qed

text \<open>A server that keeps strings.\<close>

definition string_server :: "(string \<times> string) list redis" where
  "string_server cmd s =
     (if hd cmd = ''SET'' then (Inr (RStr ''OK''), (cmd ! 1, cmd ! 2) # s)
      else (Inr (case map_of s (cmd ! 1) of None \<Rightarrow> RNil | Some v \<Rightarrow> RStr v), s))"

lemma string_server_keeps: "keeps_strings string_server map_of"
  unfolding keeps_strings_def string_server_def by auto

theorem mark_is_known_witness:
  "let s' = the (MarkRandomiser string_server (New_profiles 0) ''mx.example.org'' [])
   in fst (IsRandomiser string_server ''mx.example.org'' s') \<and> map_of s' (TLSKey ''mx.example.org'') = None"
proof -
  let ?s' = "[(RandomiserKey ''mx.example.org'', ''1'')]"
  have "profile_itoa 86400 = Some (itoa 86400)"
    using itoa_loop_digits [of 86400 20 "[]"] by (simp add: profile_itoa_def itoa_def)
  then have m: "MarkRandomiser string_server (New_profiles 0) ''mx.example.org'' [] = Some ?s'"
    by (simp add: MarkRandomiser_def flag_mark_def New_profiles_def string_server_def)
  have "second \<le> profile_ttl (New_profiles 0)" "in_int64 (profile_ttl (New_profiles 0))"
    by (simp_all add: New_profiles_def in_int64_def)
  from mark_is_known [OF string_server_keeps this _ m, of "''mx.example.org''" _ _ "''mx.example.org''", OF _ _ prod.collapse [symmetric]]
  show ?thesis by (simp add: m string_server_def)
qed

end
