(* ===== verification/Digest.thy ===== *)
theory Digest
  imports Prelude "HOL-Library.Word"
begin

text \<open>
  \<open>sha256.Sum256\<close> and \<open>hex.EncodeToString\<close> of Go's library, as FIPS 180-4 gives them: the suppression
  list identifies an address by the digest of it.
\<close>

unbundle bit_operations_syntax

type_synonym word32 = "32 word"

text \<open>
  The constants of the standard are the first 32 bits after the binary point of roots of primes: cube
  roots of the first 64 for the rounds, square roots of the first 8 for the start.
\<close>

fun root_bits :: "nat \<Rightarrow> int \<Rightarrow> nat \<Rightarrow> int \<Rightarrow> int" where
  "root_bits k x 0 r = r"
| "root_bits k x (Suc n) r = root_bits k x n (if (r + 2 ^ n) ^ k \<le> x then r + 2 ^ n else r)"

definition root_frac :: "nat \<Rightarrow> nat \<Rightarrow> word32" where
  "root_frac k p = word_of_int (root_bits k (int p * 2 ^ (32 * k)) 40 0)"

definition primes_below :: "nat \<Rightarrow> nat list" where
  "primes_below n = filter (\<lambda>p. list_all (\<lambda>d. p mod d \<noteq> 0) [2..<p]) [2..<n]"

definition sha_k :: "word32 list" where
  "sha_k = map (root_frac 3) (primes_below 312)"

definition sha_init :: "word32 list" where
  "sha_init = map (root_frac 2) (primes_below 20)"

definition rotr :: "nat \<Rightarrow> word32 \<Rightarrow> word32" where
  "rotr n x = drop_bit n x OR push_bit (32 - n) x"

definition small_sigma0 :: "word32 \<Rightarrow> word32" where
  "small_sigma0 x = rotr 7 x XOR rotr 18 x XOR drop_bit 3 x"

definition small_sigma1 :: "word32 \<Rightarrow> word32" where
  "small_sigma1 x = rotr 17 x XOR rotr 19 x XOR drop_bit 10 x"

definition big_sigma0 :: "word32 \<Rightarrow> word32" where
  "big_sigma0 x = rotr 2 x XOR rotr 13 x XOR rotr 22 x"

definition big_sigma1 :: "word32 \<Rightarrow> word32" where
  "big_sigma1 x = rotr 6 x XOR rotr 11 x XOR rotr 25 x"

definition choice_of :: "word32 \<Rightarrow> word32 \<Rightarrow> word32 \<Rightarrow> word32" where
  "choice_of x y z = (x AND y) XOR (NOT x AND z)"

definition majority :: "word32 \<Rightarrow> word32 \<Rightarrow> word32 \<Rightarrow> word32" where
  "majority x y z = (x AND y) XOR (x AND z) XOR (y AND z)"

text \<open>Bytes to words and back, most significant first.\<close>

definition be_bytes :: "nat \<Rightarrow> 'a::len word \<Rightarrow> nat list" where
  "be_bytes k w = map (\<lambda>i. unat (drop_bit (8 * (k - 1 - i)) w AND 255)) [0..<k]"

definition be_word :: "nat list \<Rightarrow> word32" where
  "be_word bs = foldl (\<lambda>a b. push_bit 8 a OR word_of_nat b) 0 bs"

fun blocks_of :: "nat \<Rightarrow> 'a list \<Rightarrow> 'a list list" where
  "blocks_of n [] = []"
| "blocks_of n (x # xs) = (if n = 0 then [x # xs] else take n (x # xs) # blocks_of n (drop (n - 1) xs))"

definition sha_pad :: "nat list \<Rightarrow> nat list" where
  "sha_pad m = m @ [128] @ replicate ((119 - length m mod 64) mod 64) 0 @ be_bytes 8 (word_of_nat (8 * length m) :: 64 word)"

text \<open>The message schedule, kept newest first.\<close>

fun extend :: "nat \<Rightarrow> word32 list \<Rightarrow> word32 list" where
  "extend 0 w = w"
| "extend (Suc n) w =
     extend n ((small_sigma1 (w ! 1) + w ! 6 + small_sigma0 (w ! 14) + w ! 15) # w)"

definition schedule :: "nat list \<Rightarrow> word32 list" where
  "schedule block = rev (extend 48 (rev (map be_word (blocks_of 4 block))))"

fun sha_round :: "word32 list \<Rightarrow> word32 \<times> word32 \<Rightarrow> word32 list" where
  "sha_round [a, b, c, d, e, f, g, h] (k, w) =
     (let t1 = h + big_sigma1 e + choice_of e f g + k + w; t2 = big_sigma0 a + majority a b c
      in [t1 + t2, a, b, c, d + t1, e, f, g])"
| "sha_round hs _ = hs"

definition sha_block :: "word32 list \<Rightarrow> nat list \<Rightarrow> word32 list" where
  "sha_block hs block = map2 (+) hs (foldl sha_round hs (zip sha_k (schedule block)))"

definition sha256 :: "string \<Rightarrow> nat list" where
  "sha256 m = concat (map (be_bytes 4) (foldl sha_block sha_init (blocks_of 64 (sha_pad (map of_char m)))))"

definition hex_encode :: "nat list \<Rightarrow> string" where
  "hex_encode bs = concat (map hex_byte bs)"

text \<open>\<open>hex.DecodeString\<close> succeeds.\<close>

definition is_hex :: "char \<Rightarrow> bool" where
  "is_hex c \<longleftrightarrow> is_digit c \<or> 97 \<le> byte_of c \<and> byte_of c \<le> 102 \<or> 65 \<le> byte_of c \<and> byte_of c \<le> 70"

definition hex_decodes :: "string \<Rightarrow> bool" where
  "hex_decodes s \<longleftrightarrow> even (length s) \<and> list_all is_hex s"

section \<open>Shape\<close>

lemma length_be_bytes [simp]: "length (be_bytes k n) = k"
  by (simp add: be_bytes_def)

lemma length_sha_round [simp]: "length (sha_round hs kw) = length hs"
  by (cases "(hs, kw)" rule: sha_round.cases) (auto simp: Let_def)

lemma length_sha_rounds [simp]: "length (foldl sha_round hs kws) = length hs"
  by (induction kws arbitrary: hs) auto

lemma length_sha_blocks [simp]: "length (foldl sha_block hs bs) = length hs"
  by (induction bs arbitrary: hs) (auto simp: sha_block_def)

lemma length_concat_const: "(\<And>x. x \<in> set xs \<Longrightarrow> length x = n) \<Longrightarrow> length (concat xs) = n * length xs"
  by (induction xs) auto

text \<open>The digits found one by one are those of the root, rounded down.\<close>

lemma root_bits_floor:
  "r ^ k \<le> x \<Longrightarrow> x < (r + 2 ^ n) ^ k \<Longrightarrow> root_bits k x n r ^ k \<le> x \<and> x < (root_bits k x n r + 1) ^ k"
proof (induction n arbitrary: r)
  case (Suc n)
  show ?case
  proof (cases "(r + 2 ^ n) ^ k \<le> x")
    case True
    with Suc.IH [of "r + 2 ^ n"] Suc.prems show ?thesis by (simp add: add.assoc mult_2 [symmetric])
  qed (use Suc.IH [of r] Suc.prems in simp)
qed simp

lemma length_sha_init [simp]: "length sha_init = 8"
  by (simp add: sha_init_def primes_below_def upt_rec)

lemma length_sha256: "length (sha256 m) = 32"
  unfolding sha256_def by (subst length_concat_const [of _ 4]) auto

lemma hex_digit_byte: "byte_of (hex_digit (n mod 16)) = (if n mod 16 < 10 then 48 + n mod 16 else 87 + n mod 16)"
proof -
  have "n mod 16 < 16" by simp
  then show ?thesis by (simp add: hex_digit_def)
qed

lemma hex_digit_shape: "is_hex (hex_digit (n mod 16)) \<and> lower_char (hex_digit (n mod 16)) = hex_digit (n mod 16)"
proof -
  have "n mod 16 < 16" by simp
  then show ?thesis using hex_digit_byte [of n] by (auto simp: is_hex_def is_digit_def lower_char_def split: if_splits)
qed

lemma hex_encode_shape: "length (hex_encode bs) = 2 * length bs \<and> list_all is_hex (hex_encode bs) \<and> to_lower (hex_encode bs) = hex_encode bs"
  using hex_digit_shape by (induction bs) (auto simp: hex_encode_def hex_byte_def to_lower_def)

end
