(* ===== verification/Suppress.thy ===== *)
theory Suppress
  imports Client Digest
begin

text \<open>
  The suppression list of \<open>internal/suppress/suppress.go\<close>: digests of addresses and domains somebody
  asked us to forget, in a set of the node's Redis.

  What runs a Redis command is a parameter, as in \<open>Client\<close>; \<open>keeps_members\<close> states what the code relies
  on of a set. The clock is an argument. The nil list is the list that is not configured.

  The theorems show that a list that was imported suppresses exactly the addresses and domains whose
  digests it holds, that nothing but digests is ever sent to the store, and that a replacing import is
  not atomic.
\<close>

section \<open>The list\<close>

definition setKey :: string where "setKey = ''suppress:hashes''"
definition versionKey :: string where "versionKey = ''suppress:version''"
definition updatedKey :: string where "updatedKey = ''suppress:updated_at''"

record suppress_list =
  Enforce :: bool
  Salt :: string
  stale_after :: duration
  has_store :: bool

definition New_list :: "suppress_list \<Rightarrow> suppress_list" where
  "New_list o1 = (if stale_after o1 \<le> 0 then o1\<lparr>stale_after := 24 * hour\<rparr> else o1)"

definition Enabled :: "suppress_list \<Rightarrow> bool" where
  "Enabled l \<longleftrightarrow> Salt l \<noteq> [] \<and> has_store l"

definition Enforcing :: "suppress_list \<Rightarrow> bool" where
  "Enforcing l \<longleftrightarrow> Enabled l \<and> Enforce l"

definition Hash :: "string \<Rightarrow> string \<Rightarrow> string" where
  "Hash salt value = hex_encode (sha256 (salt @ [CHR 0x00] @ to_lower (trim_space value)))"

section \<open>Lookup\<close>

definition suppress_member :: "'s redis \<Rightarrow> string \<Rightarrow> 's \<Rightarrow> (redis_error + bool) \<times> 's" where
  "suppress_member run digest s =
     (case run [''SISMEMBER'', setKey, digest] s of
        (Inl e, s) \<Rightarrow> (Inl e, s)
      | (Inr (RInt n), s) \<Rightarrow> (Inr (n = 1), s)
      | (Inr _, s) \<Rightarrow> (Inl (Transport ''suppress: SISMEMBER returned another type''), s))"

definition candidates :: "string \<Rightarrow> (string \<times> string) list" where
  "candidates addr =
     (''address'', addr) # (case after_last (CHR ''@'') addr of Some d \<Rightarrow> if d \<noteq> [] then [(''domain'', d)] else [] | None \<Rightarrow> [])"

fun suppressed_loop ::
  "'s redis \<Rightarrow> string \<Rightarrow> (string \<times> string) list \<Rightarrow> 's \<Rightarrow> (redis_error + bool \<times> string) \<times> 's" where
  "suppressed_loop run salt [] s = (Inr (False, []), s)"
| "suppressed_loop run salt ((kind, val) # cs) s =
     (case suppress_member run (Hash salt val) s of
        (Inl e, s) \<Rightarrow> (Inl e, s)
      | (Inr hit, s) \<Rightarrow> if hit then (Inr (True, ''suppressed by '' @ kind), s) else suppressed_loop run salt cs s)"

definition Suppressed :: "'s redis \<Rightarrow> suppress_list \<Rightarrow> string \<Rightarrow> 's \<Rightarrow> (redis_error + bool \<times> string) \<times> 's" where
  "Suppressed run l email s =
     (if \<not> Enabled l \<or> email = [] then (Inr (False, []), s)
      else suppressed_loop run (Salt l) (candidates (to_lower (trim_space email))) s)"

section \<open>Import\<close>

definition isDigest :: "string \<Rightarrow> bool" where
  "isDigest s \<longleftrightarrow> length s = 64 \<and> hex_decodes s"

datatype import_error = NotConfigured | NotADigest | Clearing redis_error | Importing redis_error | Recording redis_error

fun add_chunks :: "'s redis \<Rightarrow> string list list \<Rightarrow> 's \<Rightarrow> redis_error option \<times> 's" where
  "add_chunks run [] s = (None, s)"
| "add_chunks run (c # cs) s =
     (case run ([''SADD'', setKey] @ c) s of (Inl e, s) \<Rightarrow> (Some e, s) | (Inr _, s) \<Rightarrow> add_chunks run cs s)"

definition import_rest :: "'s redis \<Rightarrow> instant \<Rightarrow> string \<Rightarrow> string list \<Rightarrow> 's \<Rightarrow> import_error option \<times> 's" where
  "import_rest run now version digests s =
     (case add_chunks run (blocks_of 500 digests) s of
        (Some e, s) \<Rightarrow> (Some (Importing e), s)
      | (None, s) \<Rightarrow>
          (case Set run versionKey version s of
             (Some e, s) \<Rightarrow> (Some (Recording e), s)
           | (None, s) \<Rightarrow>
               (case Set run updatedKey (itoa (now div second)) s of
                  (e, s) \<Rightarrow> (map_option Recording e, s))))"

definition Import ::
  "'s redis \<Rightarrow> instant \<Rightarrow> suppress_list \<Rightarrow> string \<Rightarrow> string list \<Rightarrow> bool \<Rightarrow> 's \<Rightarrow> import_error option \<times> 's" where
  "Import run now l version digests replace s =
     (if \<not> Enabled l then (Some NotConfigured, s)
      else if \<not> list_all isDigest digests then (Some NotADigest, s)
      else if replace then
        (case run [''DEL'', setKey] s of
           (Inl e, s) \<Rightarrow> (Some (Clearing e), s)
         | (Inr _, s) \<Rightarrow> import_rest run now version digests s)
      else import_rest run now version digests s)"

section \<open>Status\<close>

record suppress_status =
  SEnabled :: bool
  SVersion :: string
  Updated :: "int option"
  Size :: int
  SStale :: bool

text \<open>\<open>Time.IsZero\<close> of a time given in Unix seconds; an unset time is the zero time.\<close>

definition is_zero_time :: "int option \<Rightarrow> bool" where
  "is_zero_time t \<longleftrightarrow> t = None \<or> t = Some (- 62135596800)"

definition Status :: "'s redis \<Rightarrow> instant \<Rightarrow> suppress_list \<Rightarrow> 's \<Rightarrow> suppress_status \<times> 's" where
  "Status run now l s =
     (let st = \<lparr>SEnabled = Enabled l, SVersion = [], Updated = None, Size = 0, SStale = False\<rparr>
      in if \<not> Enabled l then (st, s)
         else case Get run versionKey s of (v, s) \<Rightarrow>
              case Get run updatedKey s of (u, s) \<Rightarrow>
              case run [''SCARD'', setKey] s of (n, s) \<Rightarrow>
                let st = st\<lparr>SVersion := (case v of Inr (Some x) \<Rightarrow> x | _ \<Rightarrow> []),
                            Updated := (case u of Inr (Some x) \<Rightarrow> atoi x | _ \<Rightarrow> None),
                            Size := (case n of Inr (RInt k) \<Rightarrow> k | _ \<Rightarrow> 0)\<rparr>
                in (st\<lparr>SStale := is_zero_time (Updated st) \<or> now - the (Updated st) * second > stale_after l\<rparr>, s))"

definition Stale :: "'s redis \<Rightarrow> instant \<Rightarrow> suppress_list \<Rightarrow> 's \<Rightarrow> bool \<times> 's" where
  "Stale run now l s = (case Status run now l s of (st, s) \<Rightarrow> (SStale st, s))"

section \<open>What an import leaves\<close>

text \<open>What the code relies on of a set and of the keys beside it.\<close>

type_synonym 's members = "'s \<Rightarrow> string set"

definition keeps_members :: "'s redis \<Rightarrow> 's members \<Rightarrow> bool" where
  "keeps_members run members \<longleftrightarrow>
     (\<forall>s d r s'. run [''SISMEMBER'', setKey, d] s = (r, s') \<longrightarrow>
        members s' = members s \<and> (\<forall>v. r = Inr v \<longrightarrow> v = RInt (if d \<in> members s then 1 else 0))) \<and>
     (\<forall>s v s'. run [''DEL'', setKey] s = (Inr v, s') \<longrightarrow> members s' = {}) \<and>
     (\<forall>s ds v s'. run ([''SADD'', setKey] @ ds) s = (Inr v, s') \<longrightarrow> members s' = members s \<union> set ds) \<and>
     (\<forall>s k x r s'. k \<in> {versionKey, updatedKey} \<longrightarrow> run [''SET'', k, x] s = (r, s') \<longrightarrow> members s' = members s)"

lemma keeps_members_laws:
  assumes "keeps_members run members"
  shows "run [''SISMEMBER'', setKey, d] s = (r, s') \<Longrightarrow> members s' = members s"
    "run [''SISMEMBER'', setKey, d] s = (Inr v, s') \<Longrightarrow> v = RInt (if d \<in> members s then 1 else 0)"
    "run [''DEL'', setKey] s = (Inr v, s') \<Longrightarrow> members s' = {}"
    "run ([''SADD'', setKey] @ ds) s = (Inr v, s') \<Longrightarrow> members s' = members s \<union> set ds"
    "k \<in> {versionKey, updatedKey} \<Longrightarrow> run [''SET'', k, x] s = (r, s') \<Longrightarrow> members s' = members s"
  using assms unfolding keeps_members_def by (metis, metis, metis, metis, metis)

lemma add_chunks_members:
  assumes "keeps_members run members" "add_chunks run cs s = (None, s')"
  shows "members s' = members s \<union> set (concat cs)"
  using assms(2)
proof (induction cs arbitrary: s)
  case (Cons c cs)
  then obtain v s1 where r: "run ([''SADD'', setKey] @ c) s = (Inr v, s1)" "add_chunks run cs s1 = (None, s')"
    by (auto split: prod.splits sum.splits)
  with Cons.IH [of s1] keeps_members_laws(4) [OF assms(1) r(1)] show ?case by auto
qed simp

lemma concat_chunks: "0 < n \<Longrightarrow> concat (blocks_of n xs) = xs"
  by (induction n xs rule: blocks_of.induct) (auto simp: take_Cons' drop_Cons')

lemma import_rest_members:
  assumes "keeps_members run members" "import_rest run now version digests s = (None, s')"
  shows "members s' = members s \<union> set digests"
proof -
  obtain s1 where a: "add_chunks run (blocks_of 500 digests) s = (None, s1)"
    using assms(2) by (auto simp: import_rest_def split: prod.splits option.splits)
  then obtain r2 s2 where b: "run [''SET'', versionKey, version] s1 = (r2, s2)" by (metis prod.exhaust)
  obtain r3 s3 where c: "run [''SET'', updatedKey, itoa (now div second)] s2 = (r3, s3)" by (metis prod.exhaust)
  have "s' = s3"
    using assms(2) a b c by (auto simp: import_rest_def Set_def split: sum.splits)
  then show ?thesis
    using add_chunks_members [OF assms(1) a] keeps_members_laws(5) [OF assms(1) _ b] keeps_members_laws(5) [OF assms(1) _ c]
    by (simp add: concat_chunks)
qed

lemma Import_members:
  assumes "keeps_members run members" "Import run now l version digests replace s = (None, s')"
  shows "members s' = (if replace then {} else members s) \<union> set digests"
proof (cases replace)
  case True
  then obtain v s1 where "run [''DEL'', setKey] s = (Inr v, s1)" "import_rest run now version digests s1 = (None, s')"
    using assms(2) by (auto simp: Import_def split: if_splits prod.splits sum.splits)
  then show ?thesis
    using keeps_members_laws(3) [OF assms(1), of s v s1] import_rest_members [OF assms(1), of now version digests s1 s'] True
    by simp
next
  case False
  then have "import_rest run now version digests s = (None, s')"
    using assms(2) by (auto simp: Import_def split: if_splits)
  from import_rest_members [OF assms(1) this] False show ?thesis by simp
qed

lemma suppress_member_Inr:
  assumes "keeps_members run members" "suppress_member run d s = (Inr hit, s')"
  shows "members s' = members s \<and> (hit \<longleftrightarrow> d \<in> members s)"
proof -
  obtain r s1 where r: "run [''SISMEMBER'', setKey, d] s = (r, s1)" by (metis prod.exhaust)
  with assms(2) obtain v where v: "r = Inr v" by (auto simp: suppress_member_def split: sum.splits)
  note keeps_members_laws(2) [OF assms(1) r [unfolded v]]
  with assms(2) r v keeps_members_laws(1) [OF assms(1) r] show ?thesis
    by (auto simp: suppress_member_def split: if_splits)
qed

lemma suppressed_loop_Inr:
  assumes "keeps_members run members" "suppressed_loop run salt cs s = (Inr (hit, reason), s')"
  shows "hit \<longleftrightarrow> (\<exists>(kind, val) \<in> set cs. Hash salt val \<in> members s)"
  using assms(2)
proof (induction cs arbitrary: s)
  case (Cons c cs)
  obtain kind val where c: "c = (kind, val)" by fastforce
  obtain r s1 where r: "suppress_member run (Hash salt val) s = (r, s1)" by (metis prod.exhaust)
  with Cons.prems c obtain h where h: "r = Inr h" by (cases r) auto
  note m = suppress_member_Inr [OF assms(1) r [unfolded h]]
  show ?case
  proof (cases h)
    case True
    with Cons.prems c r h m show ?thesis by auto
  next
    case False
    with Cons.prems c r h have "suppressed_loop run salt cs s1 = (Inr (hit, reason), s')" by simp
    from Cons.IH [OF this] False c m show ?thesis by auto
  qed
qed simp

text \<open>The address or its domain is on the list.\<close>

definition on_list :: "string \<Rightarrow> string set \<Rightarrow> string \<Rightarrow> bool" where
  "on_list salt digests email \<longleftrightarrow>
     (let addr = to_lower (trim_space email)
      in Hash salt addr \<in> digests \<or>
         (\<exists>u d. addr = u @ ''@'' @ d \<and> CHR ''@'' \<notin> set d \<and> d \<noteq> [] \<and> Hash salt d \<in> digests))"

lemma candidates_on_list:
  "(\<exists>(kind, val) \<in> set (candidates addr). Hash salt val \<in> M) \<longleftrightarrow>
   Hash salt addr \<in> M \<or> (\<exists>u d. addr = u @ ''@'' @ d \<and> CHR ''@'' \<notin> set d \<and> d \<noteq> [] \<and> Hash salt d \<in> M)"
proof -
  have "(\<exists>(kind, val) \<in> set (candidates addr). Hash salt val \<in> M) \<longleftrightarrow>
    Hash salt addr \<in> M \<or> (\<exists>d. after_last (CHR ''@'') addr = Some d \<and> d \<noteq> [] \<and> Hash salt d \<in> M)"
    by (cases "after_last (CHR ''@'') addr") (auto simp: candidates_def)
  then show ?thesis unfolding after_last_Some by fastforce
qed

lemma Suppressed_Inr:
  assumes "keeps_members run members" "Enabled l" "email \<noteq> []" "Suppressed run l email s = (Inr (hit, reason), s')"
  shows "hit \<longleftrightarrow> on_list (Salt l) (members s) email"
proof -
  have "suppressed_loop run (Salt l) (candidates (to_lower (trim_space email))) s = (Inr (hit, reason), s')"
    using assms(2-4) by (simp add: Suppressed_def)
  from suppressed_loop_Inr [OF assms(1) this] show ?thesis
    unfolding candidates_on_list on_list_def Let_def .
qed

text \<open>
  C14. The list suppresses exactly what was imported: after an import that replaced the list, an address
  is reported as suppressed if and only if the digest of the address, trimmed and in lower case, or of
  what follows its last @ is among the imported ones; after an import that added to it, if and only if
  one of them is there or was there before. An answer that is not an error is never wrong, whatever
  fails in between.
\<close>

theorem Suppressed_after_Import:
  assumes "keeps_members run members"
    and "Import run now l version digests replace s = (None, s')"
    and "email \<noteq> []" "Suppressed run l email s' = (Inr (hit, reason), s'')"
  shows "hit \<longleftrightarrow> on_list (Salt l) ((if replace then {} else members s) \<union> set digests) email"
proof -
  have "Enabled l" using assms(2) by (auto simp: Import_def split: if_splits)
  from Suppressed_Inr [OF assms(1) this assms(3,4)] Import_members [OF assms(1,2)] show ?thesis by simp
qed

text \<open>A server with a set and the keys beside it.\<close>

definition set_server :: "string list redis" where
  "set_server cmd s =
     (case cmd of
        c # k # args \<Rightarrow>
          if c = ''DEL'' then (Inr (RInt 1), [])
          else if c = ''SADD'' then (Inr (RInt 1), args @ s)
          else if c = ''SISMEMBER'' then (Inr (RInt (if hd args \<in> set s then 1 else 0)), s)
          else (Inr (RStr ''OK''), s)
      | _ \<Rightarrow> (Inl (RedisError ''ERR''), s))"

lemma set_server_keeps: "keeps_members set_server set"
  unfolding keeps_members_def set_server_def by auto

definition example_list :: suppress_list where
  "example_list = New_list \<lparr>Enforce = True, Salt = ''pepper'', stale_after = 0, has_store = True\<rparr>"

definition forgotten :: "string list" where
  "forgotten = [Hash ''pepper'' ''Jo@Example.org '', Hash ''pepper'' ''gone.example'']"

lemma isDigest_Hash: "isDigest (Hash salt v)"
  using hex_encode_shape [of "sha256 (salt @ [CHR 0x00] @ to_lower (trim_space v))"] length_sha256
  by (simp add: isDigest_def Hash_def hex_decodes_def)

lemma example_import: "Import set_server 0 example_list ''v1'' forgotten True [] = (None, forgotten)"
  by (simp add: Import_def import_rest_def forgotten_def isDigest_Hash example_list_def New_list_def Enabled_def
      Set_def set_server_def)

text \<open>Both spellings of an address have one digest.\<close>

lemma Hash_trims: "to_lower (trim_space v) = to_lower (trim_space w) \<Longrightarrow> Hash salt v = Hash salt w"
  by (simp add: Hash_def)

theorem Suppressed_after_Import_witness:
  "on_list ''pepper'' (set forgotten) ''JO@example.org''"
proof -
  have e: "to_lower (trim_space ''JO@example.org'') = ''jo@example.org''"
    "to_lower (trim_space ''jo@example.org'') = ''jo@example.org''" "to_lower (trim_space ''Jo@Example.org '') = ''jo@example.org''"
    by code_simp+
  have h: "Hash ''pepper'' ''Jo@Example.org '' = Hash ''pepper'' ''jo@example.org''" by (rule Hash_trims) (simp add: e)
  have "Suppressed set_server example_list ''JO@example.org'' forgotten = (Inr (True, ''suppressed by address''), forgotten)"
    by (simp add: Suppressed_def example_list_def New_list_def Enabled_def e candidates_def suppress_member_def
        set_server_def forgotten_def h)
  with Suppressed_after_Import [OF set_server_keeps example_import, of "''JO@example.org''" True] show ?thesis
    by (simp add: example_list_def New_list_def)
qed

section \<open>What reaches the store\<close>

text \<open>The commands that were sent, in order.\<close>

definition logged :: "'s redis \<Rightarrow> ('s \<times> string list list) redis" where
  "logged run cmd x = (case run cmd (fst x) of (r, s) \<Rightarrow> (r, s, snd x @ [cmd]))"

text \<open>The texts that stand for a digest: 64 hexadecimal digits.\<close>

definition digest_text :: "string \<Rightarrow> bool" where
  "digest_text d \<longleftrightarrow> length d = 64 \<and> set d \<subseteq> set ''0123456789abcdefABCDEF''"

lemma is_hex_digits: "is_hex c \<longleftrightarrow> c \<in> set ''0123456789abcdefABCDEF''"
proof -
  let ?bs = "[48, 49, 50, 51, 52, 53, 54, 55, 56, 57, 97, 98, 99, 100, 101, 102, 65, 66, 67, 68, 69, 70] :: nat list"
  have bytes: "map byte_of ''0123456789abcdefABCDEF'' = ?bs" by code_simp
  have "48 \<le> n \<and> n \<le> 57 \<or> 97 \<le> n \<and> n \<le> 102 \<or> 65 \<le> n \<and> n \<le> 70 \<longleftrightarrow> n \<in> set ?bs" for n :: nat
    by (simp, presburger)
  then have "is_hex c \<longleftrightarrow> byte_of c \<in> set ?bs" unfolding is_hex_def is_digit_def by simp
  also have "\<dots> \<longleftrightarrow> byte_of c \<in> byte_of ` set ''0123456789abcdefABCDEF''" by (simp only: bytes [symmetric] set_map)
  also have "\<dots> \<longleftrightarrow> c \<in> set ''0123456789abcdefABCDEF''" by (rule inj_image_mem_iff) (simp add: inj_def)
  finally show ?thesis .
qed

lemma isDigest_text: "isDigest d \<longleftrightarrow> digest_text d"
proof -
  have "length d = 64 \<Longrightarrow> even (length d)" by simp
  then show ?thesis unfolding isDigest_def hex_decodes_def digest_text_def list_all_iff is_hex_digits by blast
qed

definition import_cmd :: "string \<Rightarrow> instant \<Rightarrow> string list \<Rightarrow> bool" where
  "import_cmd version now cmd \<longleftrightarrow>
     cmd = [''DEL'', setKey] \<or> (\<exists>ds. cmd = [''SADD'', setKey] @ ds \<and> list_all digest_text ds) \<or>
     cmd = [''SET'', versionKey, version] \<or> cmd = [''SET'', updatedKey, itoa (now div second)]"

lemma chunks_all: "list_all P xs \<Longrightarrow> 0 < n \<Longrightarrow> list_all (list_all P) (blocks_of n xs)"
  by (induction n xs rule: blocks_of.induct) (auto simp: list_all_iff take_Cons' dest: in_set_takeD in_set_dropD)

lemma add_chunks_logged:
  "add_chunks (logged run) cs x = (e, x') \<Longrightarrow> list_all (list_all isDigest) cs \<Longrightarrow>
   list_all (import_cmd version now) (snd x) \<Longrightarrow> list_all (import_cmd version now) (snd x')"
proof (induction cs arbitrary: x)
  case (Cons c cs)
  obtain r s1 where r: "run ([''SADD'', setKey] @ c) (fst x) = (r, s1)" by (metis prod.exhaust)
  have sent: "list_all (import_cmd version now) (snd x @ [''SADD'' # setKey # c])"
    using Cons.prems(2,3) by (simp add: import_cmd_def [of version now "''SADD'' # _"] isDigest_text)
  have step: "logged run ([''SADD'', setKey] @ c) x = (r, s1, snd x @ [''SADD'' # setKey # c])"
    using r by (simp add: logged_def)
  show ?case
  proof (cases r)
    case (Inl a)
    with Cons.prems(1) step sent show ?thesis by auto
  next
    case (Inr v)
    with Cons.prems(1) step have "add_chunks (logged run) cs (s1, snd x @ [''SADD'' # setKey # c]) = (e, x')" by simp
    from Cons.IH [OF this] Cons.prems(2) sent show ?thesis by simp
  qed
qed simp

lemma import_rest_logged:
  assumes "import_rest (logged run) now version digests x = (e, x')" "list_all isDigest digests"
    and "list_all (import_cmd version now) (snd x)"
  shows "list_all (import_cmd version now) (snd x')"
proof -
  obtain e1 x1 where a: "add_chunks (logged run) (blocks_of 500 digests) x = (e1, x1)" by (metis prod.exhaust)
  have 1: "list_all (import_cmd version now) (snd x1)"
    using add_chunks_logged [OF a] chunks_all [OF assms(2)] assms(3) by simp
  have "snd x' = snd x1 \<or> snd x' = snd x1 @ [[''SET'', versionKey, version]] \<or>
    snd x' = snd x1 @ [[''SET'', versionKey, version], [''SET'', updatedKey, itoa (now div second)]]"
    using assms(1) a by (auto simp: import_rest_def Set_def logged_def split: option.splits prod.splits sum.splits)
  with 1 show ?thesis by (auto simp: import_cmd_def)
qed

text \<open>
  C23. No address reaches the store: every command an import sends clears the set, adds texts of 64
  hexadecimal digits to it, or records the version or the time; and when any entry of the export is not
  64 hexadecimal digits, or the list is not configured, nothing is sent, the store is as it was and the import is an error.
\<close>

theorem Import_sends_digests_only:
  assumes "Import (logged run) now l version digests replace (s, []) = (e, s', sent)"
  shows "(\<forall>cmd \<in> set sent. import_cmd version now cmd) \<and>
    (\<not> Enabled l \<or> \<not> list_all digest_text digests \<longrightarrow> sent = [] \<and> s' = s \<and> e \<noteq> None)"
proof (cases "Enabled l \<and> list_all isDigest digests")
  case False
  with assms show ?thesis by (auto simp: Import_def split: if_splits)
next
  case True
  have "list_all (import_cmd version now) (snd (s', sent))"
  proof (cases replace)
    case False
    with assms True import_rest_logged [of run now version digests "(s, [])"] show ?thesis by (simp add: Import_def)
  next
    case rep: True
    obtain r s1 where r: "run [''DEL'', setKey] s = (r, s1)" by (metis prod.exhaust)
    with assms True rep show ?thesis
      using import_rest_logged [of run now version digests "(s1, [[''DEL'', setKey]])"]
      by (cases r) (auto simp: Import_def logged_def import_cmd_def)
  qed
  with True show ?thesis by (auto simp: list_all_iff isDigest_text)
qed

theorem Import_sends_digests_only_witness:
  "snd (snd (Import (logged set_server) 0 example_list ''v1'' [''jo@example.org''] True ([], []))) = [] \<and>
   fst (Import (logged set_server) 0 example_list ''v1'' [''jo@example.org''] True ([], [])) \<noteq> None"
proof -
  let ?x = "Import (logged set_server) 0 example_list ''v1'' [''jo@example.org''] True ([], [])"
  have "?x = (fst ?x, fst (snd ?x), snd (snd ?x))" by simp
  from Import_sends_digests_only [OF this] show ?thesis by (simp add: digest_text_def)
qed

section \<open>Where the list goes wrong\<close>

text \<open>
  A digest in upper case passes the check and never matches: what is compared is the digest this side
  computes, which is in lower case.
\<close>

theorem upper_case_digest_is_lost: "to_lower d \<noteq> d \<Longrightarrow> Hash salt v \<noteq> d"
  using hex_encode_shape by (metis Hash_def)

text \<open>
  A replacing import is not atomic: when the store fails after the set was cleared, the import reports
  an error and the list is empty: nobody is suppressed until the next one.
\<close>

theorem failed_replace_forgets:
  assumes "keeps_members run members" "Enabled l" "list_all isDigest digests" "digests \<noteq> []"
    and "run [''DEL'', setKey] s = (Inr v, s1)" "run ([''SADD'', setKey] @ take 500 digests) s1 = (Inl e, s1)"
    and "email \<noteq> []" "Suppressed run l email s1 = (Inr (hit, reason), s2)"
  shows "Import run now l version digests True s = (Some (Importing e), s1) \<and> \<not> hit"
proof -
  obtain d ds where ds: "digests = d # ds" using assms(4) by (cases digests) auto
  have "members s1 = {}" by (rule keeps_members_laws(3) [OF assms(1,5)])
  then have "\<not> hit" using Suppressed_Inr [OF assms(1,2,7,8)] by (simp add: on_list_def Let_def)
  moreover have "import_rest run now version digests s1 = (Some (Importing e), s1)"
    using assms(6) ds by (simp add: import_rest_def)
  ultimately show ?thesis using assms(2,3,5) by (simp add: Import_def)
qed

end
