(* ===== verification/Queue.thy ===== *)
theory Queue
  imports Client "HOL-Library.Multiset"
begin

text \<open>
  The outbound queue: \<open>internal/relay/queue.go\<close>.

  An operation is a program: it sends one Redis command after the other and goes on with the reply, an
  error included. \<open>run_prog\<close> runs a program alone against a store; \<open>qstep\<close> interleaves the programs of any
  number of drainers and callers command by command, as Redis does, with commands that fail, whether they
  were carried out or not. The JSON encoding of an item is a parameter (\<open>codec\<close>); what is relied on of it
  and of the commands is stated where it is used.

  The theorems show that no message is ever in two places, so that two drainers never deliver it at the
  same time; that no message is lost while no command fails; and what each operation does to the store.
\<close>

section \<open>Programs\<close>

datatype 'a prog = Ret 'a | Cmd "string list" "redis_error + resp \<Rightarrow> 'a prog"

primrec run_prog :: "'a prog \<Rightarrow> 's redis \<Rightarrow> 's \<Rightarrow> 'a \<times> 's" where
  "run_prog (Ret a) run s = (a, s)"
| "run_prog (Cmd args k) run s = (case run args s of (r, s) \<Rightarrow> run_prog (k r) run s)"

primrec bind_prog :: "'a prog \<Rightarrow> ('a \<Rightarrow> 'b prog) \<Rightarrow> 'b prog" where
  "bind_prog (Ret a) f = f a"
| "bind_prog (Cmd args k) f = Cmd args (\<lambda>r. bind_prog (k r) f)"

section \<open>Items and keys\<close>

definition readyKey :: string where "readyKey = ''relay:ready''"
definition laterKey :: string where "laterKey = ''relay:later''"
definition itemPrefix :: string where "itemPrefix = ''relay:msg:''"
definition deadKey :: string where "deadKey = ''relay:dead''"

record item =
  ItemID :: string
  MailFrom :: string
  RcptTo :: string
  Data :: string
  Attempts :: int
  Queued :: instant
  LastErr :: string

record codec =
  marshal :: "item \<Rightarrow> string + string"
  unmarshal :: "string \<Rightarrow> string + item"

datatype queue_error =
    NeedsID | EncodingItem string | StoringItem redis_error | QueueingItem redis_error | ReadingQueue redis_error
  | ReadingItem redis_error | DecodingItem string string | SchedulingRetry redis_error | RemovingItem redis_error
  | BuryingItem redis_error | ReadingRetrySet redis_error | Promoting string redis_error | Requeueing string redis_error
  | NegativeShift

definition NewQueue :: "int \<Rightarrow> int" where
  "NewQueue maxAttempts = (if maxAttempts \<le> 0 then 5 else maxAttempts)"

section \<open>Replies\<close>

definition asString :: "resp \<Rightarrow> string option" where
  "asString v = (case v of RStr t \<Rightarrow> Some t | _ \<Rightarrow> None)"

definition asStrings :: "resp \<Rightarrow> string list" where
  "asStrings v = (case v of RArr items \<Rightarrow> List.map_filter asString items | _ \<Rightarrow> [])"

definition asInt :: "resp \<Rightarrow> int option" where
  "asInt v = (case v of RInt t \<Rightarrow> Some t | RStr t \<Rightarrow> atoi t | _ \<Rightarrow> None)"

section \<open>Operations\<close>

text \<open>A command whose reply is not looked at.\<close>

definition do_cmd :: "string list \<Rightarrow> (redis_error \<Rightarrow> 'a) \<Rightarrow> 'a prog \<Rightarrow> 'a prog" where
  "do_cmd args fail next = Cmd args (\<lambda>r. case r of Inl e \<Rightarrow> Ret (fail e) | Inr _ \<Rightarrow> next)"

definition store_item :: "codec \<Rightarrow> item \<Rightarrow> queue_error option prog \<Rightarrow> queue_error option prog" where
  "store_item cd it next =
     (case marshal cd it of
        Inl e \<Rightarrow> Ret (Some (EncodingItem e))
      | Inr blob \<Rightarrow> do_cmd [''SET'', itemPrefix @ ItemID it, blob] (\<lambda>e. Some (StoringItem e)) next)"

definition Enqueue :: "codec \<Rightarrow> item \<Rightarrow> queue_error option prog" where
  "Enqueue cd it =
     (if ItemID it = [] then Ret (Some NeedsID)
      else store_item cd it (do_cmd [''LPUSH'', readyKey, ItemID it] (\<lambda>e. Some (QueueingItem e)) (Ret None)))"

fun promote_ids :: "string list \<Rightarrow> queue_error option prog" where
  "promote_ids [] = Ret None"
| "promote_ids (mid # mids) =
     Cmd [''ZREM'', laterKey, mid] (\<lambda>r. case r of
       Inl e \<Rightarrow> Ret (Some (Promoting mid e))
     | Inr removed \<Rightarrow>
         (case asInt removed of
            None \<Rightarrow> promote_ids mids
          | Some n \<Rightarrow>
              if n = 0 then promote_ids mids
              else do_cmd [''LPUSH'', readyKey, mid] (\<lambda>e. Some (Requeueing mid e)) (promote_ids mids)))"

definition promote :: "instant \<Rightarrow> queue_error option prog" where
  "promote now =
     Cmd [''ZRANGEBYSCORE'', laterKey, ''-inf'', itoa (now div second)] (\<lambda>r. case r of
       Inl e \<Rightarrow> Ret (Some (ReadingRetrySet e))
     | Inr v \<Rightarrow> promote_ids (asStrings v))"

definition take_item :: "codec \<Rightarrow> string \<Rightarrow> (queue_error + item option) prog" where
  "take_item cd mid =
     Cmd [''GET'', itemPrefix @ mid] (\<lambda>r. case r of
       Inl e \<Rightarrow> Ret (Inl (ReadingItem e))
     | Inr RNil \<Rightarrow> Ret (Inr None)
     | Inr (RStr blob) \<Rightarrow>
         (case unmarshal cd blob of Inl e \<Rightarrow> Ret (Inl (DecodingItem mid e)) | Inr it \<Rightarrow> Ret (Inr (Some it)))
     | Inr _ \<Rightarrow> Ret (Inl (ReadingItem (Transport ''redis: GET returned a non-string reply''))))"

definition Next :: "codec \<Rightarrow> instant \<Rightarrow> (queue_error + item option) prog" where
  "Next cd now =
     bind_prog (promote now) (\<lambda>e. case e of
       Some e \<Rightarrow> Ret (Inl e)
     | None \<Rightarrow>
         Cmd [''RPOP'', readyKey] (\<lambda>r. case r of
           Inl e \<Rightarrow> Ret (Inl (ReadingQueue e))
         | Inr raw \<Rightarrow>
             (case asString raw of
                None \<Rightarrow> Ret (Inr None)
              | Some mid \<Rightarrow> if mid = [] then Ret (Inr None) else take_item cd mid)))"

definition bury :: "codec \<Rightarrow> item \<Rightarrow> queue_error option prog" where
  "bury cd it = store_item cd it (do_cmd [''LPUSH'', deadKey, ItemID it] (\<lambda>e. Some (BuryingItem e)) (Ret None))"

text \<open>A 64-bit shift of the delay; a negative count panics.\<close>

definition to_int64 :: "int \<Rightarrow> int" where
  "to_int64 n = (n + 2 ^ 63) mod 2 ^ 64 - 2 ^ 63"

definition backoff :: "duration \<Rightarrow> int \<Rightarrow> duration" where
  "backoff base attempts = to_int64 (base * 2 ^ nat (attempts - 1))"

definition Retry :: "codec \<Rightarrow> int \<Rightarrow> instant \<Rightarrow> item \<Rightarrow> duration \<Rightarrow> string \<Rightarrow> queue_error option prog" where
  "Retry cd maxAttempts now it base why =
     (let it = it\<lparr>Attempts := Attempts it + 1, LastErr := why\<rparr>
      in if Attempts it \<ge> maxAttempts then bury cd it
         else store_item cd it
           (if Attempts it < 1 then Ret (Some NegativeShift)
            else do_cmd [''ZADD'', laterKey, itoa ((now + backoff base (Attempts it)) div second), ItemID it]
                   (\<lambda>e. Some (SchedulingRetry e)) (Ret None)))"

definition Done :: "string \<Rightarrow> queue_error option prog" where
  "Done mid = do_cmd [''DEL'', itemPrefix @ mid] (\<lambda>e. Some (RemovingItem e)) (Ret None)"

definition count_cmd :: "string list \<Rightarrow> (int \<Rightarrow> 'a prog) \<Rightarrow> 'a prog" where
  "count_cmd args k = Cmd args (\<lambda>r. k (case r of Inl _ \<Rightarrow> 0 | Inr v \<Rightarrow> (case asInt v of Some n \<Rightarrow> n | None \<Rightarrow> 0)))"

definition Depth :: "(int \<times> int \<times> int) prog" where
  "Depth = count_cmd [''LLEN'', readyKey] (\<lambda>ready. count_cmd [''ZCARD'', laterKey] (\<lambda>later.
     count_cmd [''LLEN'', deadKey] (\<lambda>dead. Ret (ready, later, dead))))"

section \<open>The store\<close>

text \<open>What the commands are documented to do, on the part of the keyspace the queue uses.\<close>

record db =
  strs :: "string \<rightharpoonup> string"
  lsts :: "string \<Rightarrow> string list"
  zset :: "string \<Rightarrow> string \<rightharpoonup> int"

definition answers :: "string list \<Rightarrow> db \<Rightarrow> resp \<Rightarrow> db \<Rightarrow> bool" where
  "answers args d v d' \<longleftrightarrow> (case args of
     [c, k] \<Rightarrow>
       if c = ''GET'' then v = (case strs d k of None \<Rightarrow> RNil | Some b \<Rightarrow> RStr b) \<and> d' = d
       else if c = ''DEL'' then d' = d\<lparr>strs := (strs d)(k := None)\<rparr>
       else if c = ''RPOP'' then
         (if lsts d k = [] then v = RNil \<and> d' = d
          else v = RStr (last (lsts d k)) \<and> d' = d\<lparr>lsts := (lsts d)(k := butlast (lsts d k))\<rparr>)
       else if c = ''LLEN'' then v = RInt (int (length (lsts d k))) \<and> d' = d
       else if c = ''ZCARD'' then v = RInt (int (card (dom (zset d k)))) \<and> d' = d
       else False
   | [c, k, x] \<Rightarrow>
       if c = ''SET'' then d' = d\<lparr>strs := (strs d)(k \<mapsto> x)\<rparr>
       else if c = ''LPUSH'' then d' = d\<lparr>lsts := (lsts d)(k := x # lsts d k)\<rparr>
       else if c = ''ZREM'' then
         v = RInt (if zset d k x = None then 0 else 1) \<and> d' = d\<lparr>zset := (zset d)(k := (zset d k)(x := None))\<rparr>
       else False
   | [c, k, a, x] \<Rightarrow>
       if c = ''ZADD'' then (\<exists>n. atoi a = Some n \<and> d' = d\<lparr>zset := (zset d)(k := (zset d k)(x \<mapsto> n))\<rparr>)
       else if c = ''ZRANGEBYSCORE'' then
         d' = d \<and> (\<exists>mids n. v = RArr (map RStr mids) \<and> distinct mids \<and> atoi x = Some n \<and> a = ''-inf'' \<and>
           set mids = {mid. \<exists>m. zset d k mid = Some m \<and> m \<le> n})
       else False
   | _ \<Rightarrow> False)"

text \<open>A command is answered, or it fails and was carried out or not.\<close>

inductive redis_step :: "string list \<Rightarrow> db \<Rightarrow> redis_error + resp \<Rightarrow> db \<Rightarrow> bool" where
  answered: "answers args d v d' \<Longrightarrow> redis_step args d (Inr v) d'"
| unsent: "redis_step args d (Inl e) d"
| unheard: "answers args d v d' \<Longrightarrow> redis_step args d (Inl e) d'"

section \<open>Drainers and callers\<close>

text \<open>What a drainer does with the queue: it takes a message and, depending on what came of it, puts it back or
  ends it. \<open>DeliverNext\<close> in \<open>relay.go\<close> is of this form.\<close>

definition drainer :: "codec \<Rightarrow> int \<Rightarrow> instant \<Rightarrow> instant \<Rightarrow> (item \<Rightarrow> (duration \<times> string) option) \<Rightarrow> unit prog" where
  "drainer cd maxAttempts now now' decide =
     bind_prog (Next cd now) (\<lambda>r. case r of
       Inr (Some it) \<Rightarrow>
         (case decide it of
            None \<Rightarrow> bind_prog (Done (ItemID it)) (\<lambda>_. Ret ())
          | Some (base, why) \<Rightarrow> bind_prog (Retry cd maxAttempts now' it base why) (\<lambda>_. Ret ()))
     | _ \<Rightarrow> Ret ())"

text \<open>A message is in hand of a thread from the command that took it off the ready list or the retry set to the
  one that puts it back or ends it; a new one from the start. It is unsaved until its body is stored.\<close>

record thread =
  code :: "unit prog"
  hand :: "string multiset"
  unsaved :: "string set"

definition hand_after :: "string list \<Rightarrow> redis_error + resp \<Rightarrow> string multiset \<Rightarrow> string multiset" where
  "hand_after args r H = (case args of
     [c, k] \<Rightarrow>
       if c = ''RPOP'' then (case r of Inr (RStr x) \<Rightarrow> add_mset x H | _ \<Rightarrow> H)
       else if c = ''DEL'' then H - {#drop (length itemPrefix) k#} else H
   | [c, k, x] \<Rightarrow> if c = ''LPUSH'' then H - {#x#} else if c = ''ZREM'' \<and> r = Inr (RInt 1) then add_mset x H else H
   | [c, k, a, x] \<Rightarrow> if c = ''ZADD'' then H - {#x#} else H
   | _ \<Rightarrow> H)"

definition unsaved_after :: "string list \<Rightarrow> redis_error + resp \<Rightarrow> string set \<Rightarrow> string set" where
  "unsaved_after args r N = (case args of
     [c, k, x] \<Rightarrow> if c = ''SET'' \<and> \<not> isl r then N - {drop (length itemPrefix) k} else N
   | _ \<Rightarrow> N)"

definition ended_by :: "string list \<Rightarrow> string set" where
  "ended_by args = {x. args = [''DEL'', itemPrefix @ x]}"

record system =
  shared :: db
  threads :: "thread list"
  accepted :: "string set"
  over :: "string set"

text \<open>An item with an identifier in printable ASCII, no negative count and a time that \<open>time.Time\<close> encodes.\<close>

definition storable :: "item \<Rightarrow> bool" where
  "storable it \<longleftrightarrow> ItemID it \<noteq> [] \<and> list_all (\<lambda>c. 32 < byte_of c \<and> byte_of c < 127) (ItemID it) \<and> 0 \<le> Attempts it \<and>
     0 \<le> Queued it \<and> Queued it < 253402300800 * second"

text \<open>The steps of the system, with failing commands and crashes when \<open>faults\<close> is set. A caller's message has a
  new identifier.\<close>

inductive qstep :: "codec \<Rightarrow> int \<Rightarrow> bool \<Rightarrow> system \<Rightarrow> system \<Rightarrow> bool" for cd maxAttempts faults where
  start_drainer: "qstep cd maxAttempts faults s (s\<lparr>threads := threads s @
      [\<lparr>code = drainer cd maxAttempts now now' decide, hand = {#}, unsaved = {}\<rparr>]\<rparr>)"
| start_caller: "storable it \<Longrightarrow> ItemID it \<notin> accepted s \<Longrightarrow>
    qstep cd maxAttempts faults s (s\<lparr>accepted := insert (ItemID it) (accepted s), threads := threads s @
      [\<lparr>code = bind_prog (Enqueue cd it) (\<lambda>_. Ret ()), hand = {#ItemID it#}, unsaved = {ItemID it}\<rparr>]\<rparr>)"
| command: "i < length (threads s) \<Longrightarrow> threads s ! i = \<lparr>code = Cmd args k, hand = H, unsaved = N\<rparr> \<Longrightarrow>
    redis_step args (shared s) r d' \<Longrightarrow> faults \<or> \<not> isl r \<Longrightarrow>
    qstep cd maxAttempts faults s (s\<lparr>shared := d', over := over s \<union> ended_by args,
      threads := (threads s)[i := \<lparr>code = k r, hand = hand_after args r H, unsaved = unsaved_after args r N\<rparr>]\<rparr>)"
| crash: "faults \<Longrightarrow> i < length (threads s) \<Longrightarrow>
    qstep cd maxAttempts faults s (s\<lparr>threads := (threads s)[i := (threads s ! i)\<lparr>code := Ret ()\<rparr>]\<rparr>)"

definition no_queue :: system where
  "no_queue = \<lparr>shared = \<lparr>strs = Map.empty, lsts = (\<lambda>_. []), zset = (\<lambda>_. Map.empty)\<rparr>, threads = [], accepted = {}, over = {}\<rparr>"

abbreviation reaches :: "codec \<Rightarrow> int \<Rightarrow> bool \<Rightarrow> system \<Rightarrow> bool" where
  "reaches cd maxAttempts faults s \<equiv> (qstep cd maxAttempts faults)\<^sup>*\<^sup>* no_queue s"

text \<open>In how many places of the store, and in how many hands, a message is.\<close>

definition placed :: "db \<Rightarrow> string \<Rightarrow> nat" where
  "placed d x = count (mset (lsts d readyKey)) x + (if zset d laterKey x = None then 0 else 1) + count (mset (lsts d deadKey)) x"

definition held :: "thread list \<Rightarrow> string \<Rightarrow> nat" where
  "held ts x = sum_list (map (\<lambda>t. count (hand t) x) ts)"

section \<open>Obligations of a program\<close>

text \<open>JSON reads back what it wrote, as far as the queue depends on it: of an item with an identifier in printable
  ASCII and a time of a year with four digits. Other texts may come back changed where they are not UTF-8.\<close>

definition faithful_codec :: "codec \<Rightarrow> bool" where
  "faithful_codec cd \<longleftrightarrow> (\<forall>it. storable it \<longrightarrow>
     (\<exists>b it'. marshal cd it = Inr b \<and> unmarshal cd b = Inr it' \<and> ItemID it' = ItemID it \<and> Data it' = Data it \<and>
        Attempts it' = Attempts it \<and> Queued it' = Queued it))"

definition sound :: "codec \<Rightarrow> string \<Rightarrow> string \<Rightarrow> bool" where
  "sound cd x b \<longleftrightarrow> (\<exists>it. unmarshal cd b = Inr it \<and> ItemID it = x \<and> storable it)"

definition saved :: "codec \<Rightarrow> db \<Rightarrow> string \<Rightarrow> bool" where
  "saved cd d x \<longleftrightarrow> (\<exists>b. strs d (itemPrefix @ x) = Some b \<and> sound cd x b)"

text \<open>The commands a thread may send, given what it has in hand.\<close>

inductive permitted :: "codec \<Rightarrow> string multiset \<Rightarrow> string set \<Rightarrow> string list \<Rightarrow> bool" for cd H N where
  p_get: "permitted cd H N [''GET'', itemPrefix @ x]"
| p_rpop: "permitted cd H N [''RPOP'', readyKey]"
| p_del: "x \<in># H \<Longrightarrow> permitted cd H N [''DEL'', itemPrefix @ x]"
| p_lpush: "x \<in># H \<Longrightarrow> x \<notin> N \<Longrightarrow> k = readyKey \<or> k = deadKey \<Longrightarrow> permitted cd H N [''LPUSH'', k, x]"
| p_zrem: "permitted cd H N [''ZREM'', laterKey, x]"
| p_set: "x \<in># H \<Longrightarrow> sound cd x b \<Longrightarrow> permitted cd H N [''SET'', itemPrefix @ x, b]"
| p_zadd: "x \<in># H \<Longrightarrow> x \<notin> N \<Longrightarrow> permitted cd H N [''ZADD'', laterKey, a, x]"
| p_range: "permitted cd H N [''ZRANGEBYSCORE'', laterKey, a, b]"

text \<open>The replies it can get.\<close>

definition expected :: "codec \<Rightarrow> bool \<Rightarrow> string multiset \<Rightarrow> string set \<Rightarrow> string list \<Rightarrow> redis_error + resp \<Rightarrow> bool" where
  "expected cd faults H N args r \<longleftrightarrow> (case r of
     Inl e \<Rightarrow> faults
   | Inr v \<Rightarrow>
       (args = [''RPOP'', readyKey] \<longrightarrow> v = RNil \<or> (\<exists>x. v = RStr x \<and> x \<noteq> [])) \<and>
       (\<forall>x. args = [''ZREM'', laterKey, x] \<longrightarrow> v = RInt 0 \<or> v = RInt 1) \<and>
       (\<forall>x. args = [''GET'', itemPrefix @ x] \<longrightarrow> x \<in># H \<longrightarrow> x \<notin> N \<longrightarrow> (\<exists>b. v = RStr b \<and> sound cd x b)))"

primrec obeys :: "'a prog \<Rightarrow> codec \<Rightarrow> bool \<Rightarrow> string multiset \<Rightarrow> string set \<Rightarrow> ('a \<Rightarrow> string multiset \<Rightarrow> string set \<Rightarrow> bool) \<Rightarrow> bool" where
  "obeys (Ret a) cd faults H N Q \<longleftrightarrow> Q a H N"
| "obeys (Cmd args k) cd faults H N Q \<longleftrightarrow> permitted cd H N args \<and>
     (\<forall>r. expected cd faults H N args r \<longrightarrow> obeys (k r) cd faults (hand_after args r H) (unsaved_after args r N) Q)"

lemma obeys_bind: "obeys (bind_prog p f) cd faults H N Q \<longleftrightarrow> obeys p cd faults H N (\<lambda>a H N. obeys (f a) cd faults H N Q)"
  by (induction p arbitrary: H N) auto

lemma obeys_mono: "obeys p cd faults H N Q \<Longrightarrow> (\<And>a H N. Q a H N \<Longrightarrow> Q' a H N) \<Longrightarrow> obeys p cd faults H N Q'"
  by (induction p arbitrary: H N) auto

lemma hand_after_simps [simp]:
  "hand_after [''GET'', k] r H = H" "hand_after [''RPOP'', k] (Inr (RStr x)) H = add_mset x H" "hand_after [''RPOP'', k] (Inr RNil) H = H"
  "hand_after [''RPOP'', k] (Inl e) H = H" "hand_after [''DEL'', itemPrefix @ x] r H = H - {#x#}" "hand_after [''LPUSH'', k, x] r H = H - {#x#}"
  "hand_after [''ZREM'', k, x] (Inr (RInt 1)) H = add_mset x H" "r \<noteq> Inr (RInt 1) \<Longrightarrow> hand_after [''ZREM'', k, x] r H = H"
  "hand_after [''SET'', k, x] r H = H" "hand_after [''ZADD'', k, a, x] r H = H - {#x#}" "hand_after [''ZRANGEBYSCORE'', k, a, x] r H = H"
  by (auto simp: hand_after_def)

lemma unsaved_after_simps [simp]:
  "unsaved_after [c, k] r N = N" "unsaved_after [''LPUSH'', k, x] r N = N" "unsaved_after [''ZREM'', k, x] r N = N"
  "unsaved_after [''SET'', itemPrefix @ x, b] (Inr v) N = N - {x}" "unsaved_after [''SET'', k, b] (Inl e) N = N" "unsaved_after [c, k, a, x] r N = N"
  by (auto simp: unsaved_after_def)

lemma expected_Inl [simp]: "expected cd faults H N args (Inl e) \<longleftrightarrow> faults"
  by (simp add: expected_def)

lemma obeys_do_cmd:
  assumes "permitted cd H N args" "\<And>e. faults \<Longrightarrow> Q (fail e) (hand_after args (Inl e) H) (unsaved_after args (Inl e) N)"
    and "\<And>v. obeys nxt cd faults (hand_after args (Inr v) H) (unsaved_after args (Inr v) N) Q"
  shows "obeys (do_cmd args fail nxt) cd faults H N Q"
  using assms by (auto simp: do_cmd_def split: sum.split)

lemma obeys_store_item:
  assumes "faithful_codec cd" "ItemID it \<in># H" "storable it" "\<And>e. faults \<Longrightarrow> Q e H N" "obeys nxt cd faults H (N - {ItemID it}) Q"
  shows "obeys (store_item cd it nxt) cd faults H N Q"
proof -
  obtain b it' where b: "marshal cd it = Inr b" and it': "unmarshal cd b = Inr it'" "ItemID it' = ItemID it"
    "Attempts it' = Attempts it" "Queued it' = Queued it" using assms(1,3) unfolding faithful_codec_def by blast
  then have "sound cd (ItemID it) b" using assms(3) by (auto simp: sound_def storable_def)
  then show ?thesis unfolding store_item_def b sum.case
    using assms by (intro obeys_do_cmd p_set) (auto)
qed

lemma obeys_Enqueue:
  assumes "faithful_codec cd" "storable it"
  shows "obeys (Enqueue cd it) cd faults {#ItemID it#} {ItemID it} (\<lambda>_ H N. faults \<or> H = {#})"
proof -
  have "ItemID it \<noteq> []" using assms(2) by (simp add: storable_def)
  then show ?thesis
    by (simp add: Enqueue_def, intro obeys_store_item [OF assms(1) _ assms(2)] obeys_do_cmd p_lpush) auto
qed

lemma obeys_Retry:
  assumes "faithful_codec cd" "storable it"
  shows "obeys (Retry cd maxAttempts now it base why) cd faults {#ItemID it#} {} (\<lambda>_ H N. faults \<or> H = {#})"
proof -
  let ?it = "it\<lparr>Attempts := Attempts it + 1, LastErr := why\<rparr>"
  have st: "storable ?it" "0 \<le> Attempts it" using assms(2) by (simp_all add: storable_def)
  have "obeys (bury cd ?it) cd faults {#ItemID ?it#} {} (\<lambda>_ H N. faults \<or> H = {#})"
    unfolding bury_def by (intro obeys_store_item [OF assms(1) _ st(1)] obeys_do_cmd p_lpush) auto
  moreover have "obeys (store_item cd ?it (do_cmd [''ZADD'', laterKey, a, ItemID ?it] fail (Ret None))) cd faults {#ItemID ?it#} {}
      (\<lambda>_ H N. faults \<or> H = {#})" for a fail
    by (intro obeys_store_item [OF assms(1) _ st(1)] obeys_do_cmd p_zadd) auto
  ultimately show ?thesis using st(2) by (simp add: Retry_def Let_def)
qed

lemma obeys_Done: "obeys (Done x) cd faults {#x#} {} (\<lambda>_ H N. faults \<or> H = {#})"
  unfolding Done_def by (intro obeys_do_cmd p_del) auto

lemma obeys_promote_ids:
  assumes "\<And>e H N. faults \<Longrightarrow> Q (Some e) H N" "Q None H {}"
  shows "obeys (promote_ids xs) cd faults H {} Q"
proof (induction xs)
  case Nil
  then show ?case using assms by simp
next
  case (Cons x xs)
  have "obeys (do_cmd [''LPUSH'', readyKey, x] (\<lambda>e. Some (Requeueing x e)) (promote_ids xs)) cd faults (add_mset x H) {} Q"
    using Cons assms(1) by (intro obeys_do_cmd p_lpush) auto
  with Cons assms(1) show ?case
    by (auto simp: expected_def asInt_def intro: p_zrem split: sum.splits)
qed

definition taken_item :: "bool \<Rightarrow> queue_error + item option \<Rightarrow> string multiset \<Rightarrow> string set \<Rightarrow> bool" where
  "taken_item faults r H N \<longleftrightarrow> (case r of
     Inr (Some it) \<Rightarrow> H = {#ItemID it#} \<and> N = {} \<and> storable it
   | Inr None \<Rightarrow> faults \<or> H = {#}
   | Inl _ \<Rightarrow> faults)"

lemma obeys_take_item:
  "obeys (take_item cd x) cd faults {#x#} {} (taken_item faults)"
  by (auto simp: take_item_def expected_def sound_def taken_item_def intro!: p_get split: sum.splits resp.splits)

lemma obeys_Next: "obeys (Next cd now) cd faults {#} {} (taken_item faults)"
proof -
  have "obeys (Cmd [''RPOP'', readyKey] (\<lambda>r. case r of Inl e \<Rightarrow> Ret (Inl (ReadingQueue e)) | Inr raw \<Rightarrow>
        (case asString raw of None \<Rightarrow> Ret (Inr None) | Some mid \<Rightarrow> if mid = [] then Ret (Inr None) else take_item cd mid)))
      cd faults {#} {} (taken_item faults)"
    using obeys_take_item [of cd _ faults]
    by (auto simp: expected_def asString_def taken_item_def intro: p_rpop split: sum.splits)
  then have "obeys (promote now) cd faults {#} {} (\<lambda>e H N. obeys (case e of Some e \<Rightarrow> Ret (Inl e) | None \<Rightarrow>
      Cmd [''RPOP'', readyKey] (\<lambda>r. case r of Inl e \<Rightarrow> Ret (Inl (ReadingQueue e)) | Inr raw \<Rightarrow>
        (case asString raw of None \<Rightarrow> Ret (Inr None) | Some mid \<Rightarrow> if mid = [] then Ret (Inr None) else take_item cd mid)))
      cd faults H N (taken_item faults))"
    unfolding promote_def
    by (auto simp: taken_item_def intro: p_range split: sum.split intro!: obeys_promote_ids)
  then show ?thesis unfolding Next_def obeys_bind .
qed

lemma obeys_drainer:
  assumes "faithful_codec cd"
  shows "obeys (drainer cd maxAttempts now now' decide) cd faults {#} {} (\<lambda>_ H N. faults \<or> H = {#})"
proof -
  let ?go = "\<lambda>r. case r of Inr (Some it) \<Rightarrow> (case decide it of None \<Rightarrow> bind_prog (Done (ItemID it)) (\<lambda>_. Ret ())
      | Some (base, why) \<Rightarrow> bind_prog (Retry cd maxAttempts now' it base why) (\<lambda>_. Ret ())) | _ \<Rightarrow> Ret ()"
  have "obeys (?go r) cd faults H N (\<lambda>_ H N. faults \<or> H = {#})" if "taken_item faults r H N" for r H N
    using that obeys_Done obeys_Retry [OF assms]
    by (auto simp: taken_item_def obeys_bind split: sum.splits option.splits)
  then show ?thesis unfolding drainer_def obeys_bind by (rule obeys_mono [OF obeys_Next])
qed

section \<open>Where a message is\<close>

lemma keys_differ [simp]: "readyKey \<noteq> deadKey" "deadKey \<noteq> readyKey"
  by (simp_all add: readyKey_def deadKey_def)

lemma answers_simps [simp]:
  "answers [''GET'', k] d v d' \<longleftrightarrow> v = (case strs d k of None \<Rightarrow> RNil | Some b \<Rightarrow> RStr b) \<and> d' = d"
  "answers [''DEL'', k] d v d' \<longleftrightarrow> d' = d\<lparr>strs := (strs d)(k := None)\<rparr>"
  "answers [''RPOP'', k] d v d' \<longleftrightarrow> (if lsts d k = [] then v = RNil \<and> d' = d
     else v = RStr (last (lsts d k)) \<and> d' = d\<lparr>lsts := (lsts d)(k := butlast (lsts d k))\<rparr>)"
  "answers [''SET'', k, x] d v d' \<longleftrightarrow> d' = d\<lparr>strs := (strs d)(k \<mapsto> x)\<rparr>"
  "answers [''LPUSH'', k, x] d v d' \<longleftrightarrow> d' = d\<lparr>lsts := (lsts d)(k := x # lsts d k)\<rparr>"
  "answers [''ZREM'', k, x] d v d' \<longleftrightarrow> v = RInt (if zset d k x = None then 0 else 1) \<and> d' = d\<lparr>zset := (zset d)(k := (zset d k)(x := None))\<rparr>"
  "answers [''LLEN'', k] d v d' \<longleftrightarrow> v = RInt (int (length (lsts d k))) \<and> d' = d"
  "answers [''ZCARD'', k] d v d' \<longleftrightarrow> v = RInt (int (card (dom (zset d k)))) \<and> d' = d"
  "answers [''ZADD'', k, a, x] d v d' \<longleftrightarrow> (\<exists>n. atoi a = Some n \<and> d' = d\<lparr>zset := (zset d)(k := (zset d k)(x \<mapsto> n))\<rparr>)"
  "answers [''ZRANGEBYSCORE'', k, a, x] d v d' \<longleftrightarrow> d' = d \<and> (\<exists>mids n. v = RArr (map RStr mids) \<and> distinct mids \<and> atoi x = Some n \<and>
     a = ''-inf'' \<and> set mids = {mid. \<exists>m. zset d k mid = Some m \<and> m \<le> n})"
  by (simp_all add: answers_def)

lemma placed_set [simp]: "placed (d\<lparr>strs := f\<rparr>) x = placed d x"
  by (simp add: placed_def)

lemma placed_push:
  "k = readyKey \<or> k = deadKey \<Longrightarrow> placed (d\<lparr>lsts := (lsts d)(k := y # lsts d k)\<rparr>) x = placed d x + (if x = y then 1 else 0)"
  by (auto simp: placed_def)

lemma placed_pop:
  "lsts d readyKey \<noteq> [] \<Longrightarrow>
   placed (d\<lparr>lsts := (lsts d)(readyKey := butlast (lsts d readyKey))\<rparr>) x + (if x = last (lsts d readyKey) then 1 else 0) = placed d x"
  by (cases "lsts d readyKey" rule: rev_cases) (auto simp: placed_def)

lemma placed_zrem:
  "placed (d\<lparr>zset := (zset d)(laterKey := (zset d laterKey)(y := None))\<rparr>) x + (if x = y \<and> zset d laterKey y \<noteq> None then 1 else 0) = placed d x"
  by (auto simp: placed_def)

lemma placed_zadd:
  "placed (d\<lparr>zset := (zset d)(laterKey := (zset d laterKey)(y \<mapsto> n))\<rparr>) x = placed d x + (if x = y \<and> zset d laterKey y = None then 1 else 0)"
  by (auto simp: placed_def)

lemma placed_later: "zset d laterKey x \<noteq> None \<Longrightarrow> 1 \<le> placed d x"
  by (auto simp: placed_def)

text \<open>A command that is permitted moves messages; only a message that is ended may disappear.\<close>

lemma answered_moves:
  assumes "permitted cd H N args" "answers args d v d'"
  shows "placed d' x + count (hand_after args (Inr v) H) x \<le> placed d x + count H x"
    and "x \<notin> ended_by args \<Longrightarrow> (\<And>y. count H y + placed d y \<le> 1) \<Longrightarrow>
      placed d' x + count (hand_after args (Inr v) H) x = placed d x + count H x"
proof -
  have "placed d' x + count (hand_after args (Inr v) H) x \<le> placed d x + count H x \<and>
      (x \<notin> ended_by args \<longrightarrow> count H x + placed d x \<le> 1 \<longrightarrow>
       placed d' x + count (hand_after args (Inr v) H) x = placed d x + count H x)"
    using assms
  proof (cases rule: permitted.cases)
    case p_rpop
    with assms(2) placed_pop [of d x] show ?thesis by (auto split: if_splits)
  next
    case (p_del y)
    with assms(2) show ?thesis by (auto simp: ended_by_def)
  next
    case (p_lpush y k)
    then obtain H' where "H = add_mset y H'" by (meson mset_add)
    with p_lpush assms(2) placed_push [of k d y x] show ?thesis by auto
  next
    case (p_zrem y)
    with assms(2) placed_zrem [of d y x] show ?thesis by (auto split: if_splits)
  next
    case (p_zadd y a)
    then obtain H' where "H = add_mset y H'" by (meson mset_add)
    with p_zadd assms(2) placed_zadd [of d y _ x] placed_later [of d y] show ?thesis by (cases "zset d laterKey y") auto
  qed auto
  then show "placed d' x + count (hand_after args (Inr v) H) x \<le> placed d x + count H x"
    "x \<notin> ended_by args \<Longrightarrow> (\<And>y. count H y + placed d y \<le> 1) \<Longrightarrow> placed d' x + count (hand_after args (Inr v) H) x = placed d x + count H x"
    by blast+
qed

lemma failed_hand:
  assumes "permitted cd H N args"
  shows "count (hand_after args (Inl e) H) x \<le> count H x" "count (hand_after args (Inl e) H) x \<le> count (hand_after args (Inr v) H) x"
  using assms by (cases rule: permitted.cases; auto simp: hand_after_def split: resp.split)+

lemma step_moves:
  assumes "permitted cd H N args" "redis_step args d r d'"
  shows "placed d' x + count (hand_after args r H) x \<le> placed d x + count H x"
  using assms(2)
proof cases
  case (answered v)
  with answered_moves(1) [OF assms(1)] show ?thesis by blast
next
  case (unsent e)
  with failed_hand(1) [OF assms(1)] show ?thesis by simp
next
  case (unheard v e)
  with answered_moves(1) [OF assms(1) unheard(2), of x] failed_hand(2) [OF assms(1), of e x v] show ?thesis by simp
qed

section \<open>The invariant\<close>

definition single :: "db \<Rightarrow> thread list \<Rightarrow> string set \<Rightarrow> bool" where
  "single d ts acc \<longleftrightarrow> (\<forall>x. placed d x + held ts x \<le> (if x \<in> acc then 1 else 0))"

definition threads_obey :: "codec \<Rightarrow> bool \<Rightarrow> thread list \<Rightarrow> bool" where
  "threads_obey cd faults ts \<longleftrightarrow> (\<forall>t \<in> set ts. obeys (code t) cd faults (hand t) (unsaved t) (\<lambda>_ H N. faults \<or> H = {#}))"

definition bodies :: "codec \<Rightarrow> db \<Rightarrow> thread list \<Rightarrow> bool" where
  "bodies cd d ts \<longleftrightarrow> (\<forall>x. placed d x \<noteq> 0 \<longrightarrow> saved cd d x) \<and> (\<forall>t \<in> set ts. \<forall>x \<in># hand t. x \<notin> unsaved t \<longrightarrow> saved cd d x)"

definition kept :: "db \<Rightarrow> thread list \<Rightarrow> string set \<Rightarrow> string set \<Rightarrow> bool" where
  "kept d ts acc ov \<longleftrightarrow> (\<forall>x \<in> acc - ov. placed d x + held ts x = 1)"

definition queue_inv :: "codec \<Rightarrow> bool \<Rightarrow> system \<Rightarrow> bool" where
  "queue_inv cd faults s \<longleftrightarrow> [] \<notin> accepted s \<and> single (shared s) (threads s) (accepted s) \<and> threads_obey cd faults (threads s) \<and>
     bodies cd (shared s) (threads s) \<and> (faults \<or> kept (shared s) (threads s) (accepted s) (over s))"

lemma held_snoc [simp]: "held (ts @ [t]) x = held ts x + count (hand t) x"
  by (simp add: held_def)

lemma held_update: "i < length ts \<Longrightarrow> held (ts[i := t]) x + count (hand (ts ! i)) x = held ts x + count (hand t) x"
proof (induction ts arbitrary: i)
  case (Cons u ts)
  then show ?case by (cases i) (auto simp: held_def)
qed simp

lemma held_hand: "i < length ts \<Longrightarrow> count (hand (ts ! i)) x \<le> held ts x"
proof (induction ts arbitrary: i)
  case (Cons u ts)
  then show ?case by (cases i) (auto simp: held_def intro: le_SucI trans_le_add2)
qed simp

lemma held_others: "i < length ts \<Longrightarrow> j < length ts \<Longrightarrow> i \<noteq> j \<Longrightarrow> count (hand (ts ! i)) x + count (hand (ts ! j)) x \<le> held ts x"
proof (induction ts arbitrary: i j)
  case (Cons u ts)
  then show ?case
  proof (cases i; cases j)
    fix j' assume "i = 0" "j = Suc j'"
    with Cons.prems held_hand [of j' ts x] show ?thesis by (simp add: held_def)
  next
    fix i' assume "i = Suc i'" "j = 0"
    with Cons.prems held_hand [of i' ts x] show ?thesis by (simp add: held_def)
  next
    fix i' j' assume "i = Suc i'" "j = Suc j'"
    with Cons.prems Cons.IH [of i' j'] show ?thesis by (simp add: held_def)
  qed simp
qed simp

text \<open>A command of one thread.\<close>

lemma single_command:
  assumes "single d ts acc" "i < length ts" "permitted cd (hand (ts ! i)) N args" "redis_step args d r d'"
    and "hand t = hand_after args r (hand (ts ! i))"
  shows "single d' (ts[i := t]) acc"
  unfolding single_def
proof
  fix x
  from step_moves [OF assms(3,4), of x] held_update [OF assms(2), of t x] assms(5) held_hand [OF assms(2), of x]
  have "placed d' x + held (ts[i := t]) x \<le> placed d x + held ts x" by simp
  with assms(1) show "placed d' x + held (ts[i := t]) x \<le> (if x \<in> acc then 1 else 0)"
    unfolding single_def using order_trans by blast
qed

lemma kept_command:
  assumes "kept d ts acc ov" "single d ts acc" "i < length ts" "permitted cd (hand (ts ! i)) N args" "answers args d v d'"
    and "hand t = hand_after args (Inr v) (hand (ts ! i))"
  shows "kept d' (ts[i := t]) acc (ov \<union> ended_by args)"
  unfolding kept_def
proof
  fix x assume x: "x \<in> acc - (ov \<union> ended_by args)"
  have "count (hand (ts ! i)) y + placed d y \<le> 1" for y
    using assms(2) held_hand [OF assms(3), of y] unfolding single_def by (auto split: if_splits intro: order_trans dest!: spec [of _ y])
  with answered_moves(2) [OF assms(4,5), of x] x held_update [OF assms(3), of t x] assms(6) held_hand [OF assms(3), of x]
  have "placed d' x + held (ts[i := t]) x = placed d x + held ts x" by simp
  with assms(1) x show "placed d' x + held (ts[i := t]) x = 1" by (simp add: kept_def)
qed

lemma replies_expected:
  assumes "bodies cd d ts" "single d ts acc" "[] \<notin> acc" "t \<in> set ts" "redis_step args d r d'" "faults \<or> \<not> isl r"
  shows "expected cd faults (hand t) (unsaved t) args r"
proof (cases r)
  case (Inl e)
  with assms(6) show ?thesis by (simp add: expected_def)
next
  case (Inr v)
  with assms(5) have a: "answers args d v d'" by (auto elim: redis_step.cases)
  have pop: "v = RNil \<or> (\<exists>x. v = RStr x \<and> x \<noteq> [])" if "args = [''RPOP'', readyKey]"
  proof (cases "lsts d readyKey = []")
    case True
    with a that show ?thesis by simp
  next
    case False
    then have "placed d (last (lsts d readyKey)) \<noteq> 0" by (simp add: placed_def)
    with assms(2,3) have "last (lsts d readyKey) \<noteq> []" unfolding single_def by (metis add_is_0 le_zero_eq)
    with a that False show ?thesis by simp
  qed
  have "\<exists>b. v = RStr b \<and> sound cd x b" if "args = [''GET'', itemPrefix @ x]" "x \<in># hand t" "x \<notin> unsaved t" for x
  proof -
    have "saved cd d x" using assms(1,4) that(2,3) unfolding bodies_def by blast
    with that(1) a show ?thesis by (auto simp: saved_def)
  qed
  with pop a Inr show ?thesis by (auto simp: expected_def split: if_splits)
qed

lemma step_answers: "redis_step args d r d' \<Longrightarrow> d' = d \<and> isl r \<or> (\<exists>v. answers args d v d' \<and> (r = Inr v \<or> isl r))"
  by (auto elim: redis_step.cases)

lemma placed_from:
  assumes "permitted cd H N args" "answers args d v d'" "placed d' x \<noteq> 0"
  shows "placed d x \<noteq> 0 \<or> x \<in># H \<and> x \<notin> N"
  using assms(1)
proof (cases rule: permitted.cases)
  case p_rpop
  with assms(2,3) placed_pop [of d x] show ?thesis by (auto split: if_splits)
next
  case (p_lpush y k)
  with assms(2,3) placed_push [of k d y x] show ?thesis by (auto split: if_splits)
next
  case (p_zrem y)
  with assms(2,3) placed_zrem [of d y x] show ?thesis by (auto split: if_splits)
next
  case (p_zadd y a)
  with assms(2,3) placed_zadd [of d y _ x] show ?thesis by (auto split: if_splits)
qed (use assms(2,3) in auto)

lemma taken_from:
  assumes "permitted cd H N args" "redis_step args d r d'" "x \<in># hand_after args r H" "x \<notin> unsaved_after args r N"
  shows "x \<in># H \<and> x \<notin> N \<or> placed d x \<noteq> 0 \<or> saved cd d' x"
proof -
  note r = step_answers [OF assms(2)]
  show ?thesis using assms(1)
  proof (cases rule: permitted.cases)
    case p_rpop
    with r assms(3,4) show ?thesis by (cases r) (auto simp: placed_def split: if_splits resp.splits)
  next
    case (p_set y b)
    with r assms(3,4) show ?thesis by (cases r) (auto simp: saved_def)
  next
    case (p_zrem y)
    with r assms(3,4) show ?thesis by (cases r) (auto simp: placed_def hand_after_def split: if_splits)
  qed (use assms(3,4) in \<open>auto simp: hand_after_def dest: in_diffD\<close>)
qed

lemma saved_step:
  assumes "permitted cd H N args" "answers args d v d'" "saved cd d x" "x \<notin> ended_by args"
  shows "saved cd d' x"
  using assms(1)
proof (cases rule: permitted.cases)
  case (p_del y)
  with assms(2-4) show ?thesis by (auto simp: saved_def ended_by_def)
next
  case (p_set y b)
  with assms(2,3) show ?thesis by (cases "x = y") (auto simp: saved_def)
qed (use assms(2,3) in \<open>auto simp: saved_def split: if_splits\<close>)

lemma bodies_command:
  assumes "bodies cd d ts" "single d ts acc" "i < length ts" "permitted cd (hand (ts ! i)) (unsaved (ts ! i)) args"
    and "redis_step args d r d'" "hand t = hand_after args r (hand (ts ! i))" "unsaved t = unsaved_after args r (unsaved (ts ! i))"
  shows "bodies cd d' (ts[i := t])"
proof -
  have ti: "ts ! i \<in> set ts" using assms(3) by simp
  have one: "placed d y + held ts y \<le> 1" for y using assms(2) [unfolded single_def, rule_format, of y] by (auto split: if_splits)
  have mine: "x \<in># hand (ts ! i)" if "x \<in> ended_by args" for x
    using assms(4) that by (cases rule: permitted.cases) (auto simp: ended_by_def)
  have kept: "saved cd d' x" if "saved cd d x" "x \<notin> ended_by args" for x
    using step_answers [OF assms(5)] saved_step [OF assms(4) _ that] that(1) by auto
  have inhand: "saved cd d x" if "u \<in> set ts" "x \<in># hand u" "x \<notin> unsaved u" for u x
    using assms(1) that unfolding bodies_def by blast
  have "saved cd d' x" if p: "placed d' x \<noteq> 0" for x
  proof -
    have no: "x \<notin> ended_by args"
    proof
      assume e: "x \<in> ended_by args"
      then have "placed d' x = placed d x" using step_answers [OF assms(5)] by (auto simp: ended_by_def)
      with one [of x] p held_hand [OF assms(3), of x] mine [OF e] show False
        by (metis One_nat_def add_leD1 add_le_same_cancel1 count_greater_eq_one_iff le_antisym less_one linorder_not_less not_one_le_zero nle_le order_trans add.commute)
    qed
    have "placed d x \<noteq> 0 \<or> x \<in># hand (ts ! i) \<and> x \<notin> unsaved (ts ! i)"
      using step_answers [OF assms(5)] placed_from [OF assms(4)] p by blast
    then have "saved cd d x" using assms(1) inhand [OF ti] unfolding bodies_def by blast
    with kept no show ?thesis by blast
  qed
  moreover have "saved cd d' x" if u: "u \<in> set (ts[i := t])" "x \<in># hand u" "x \<notin> unsaved u" for u x
  proof -
    obtain j where j: "j < length ts" "u = ts[i := t] ! j" using u(1) by (metis in_set_conv_nth length_list_update)
    show ?thesis
    proof (cases "j = i")
      case True
      with j assms(3) have t: "u = t" by simp
      from taken_from [OF assms(4,5)] u(2,3) assms(6,7) t consider
        "x \<in># hand (ts ! i)" "x \<notin> unsaved (ts ! i)" | "placed d x \<noteq> 0" | "saved cd d' x" by metis
      then show ?thesis
      proof cases
        case 1
        have "x \<notin> ended_by args"
        proof
          assume e: "x \<in> ended_by args"
          have "count (hand (ts ! i)) x \<le> 1" using one [of x] held_hand [OF assms(3), of x] by simp
          with e u(2) t assms(6) show False by (auto simp: ended_by_def in_diff_count)
        qed
        with 1 kept inhand [OF ti] show ?thesis by blast
      next
        case 2
        then have "count (hand (ts ! i)) x = 0" using one [of x] held_hand [OF assms(3), of x] by simp
        then have "x \<notin> ended_by args" using mine by (metis not_in_iff)
        with 2 kept assms(1) show ?thesis unfolding bodies_def by blast
      qed
    next
      case False
      with j have uj: "u = ts ! j" by simp
      have "x \<notin> ended_by args"
      proof
        assume "x \<in> ended_by args"
        from mine [OF this] u(2) uj have "count (hand (ts ! i)) x \<ge> 1" "count (hand (ts ! j)) x \<ge> 1" by simp_all
        with held_others [OF j(1) assms(3) False, of x] one [of x] show False by simp
      qed
      with u(2,3) uj j(1) kept inhand [of "ts ! j" x] show ?thesis by simp
    qed
  qed
  ultimately show ?thesis unfolding bodies_def by blast
qed

lemma queue_inv_step:
  assumes "qstep cd maxAttempts faults s s'" "queue_inv cd faults s" "faithful_codec cd"
  shows "queue_inv cd faults s'"
  using assms(1)
proof cases
  case (start_drainer now now' decide)
  with assms(2) obeys_drainer [OF assms(3)] show ?thesis
    by (simp add: queue_inv_def single_def threads_obey_def bodies_def kept_def)
next
  case (start_caller it)
  have "placed (shared s) (ItemID it) + held (threads s) (ItemID it) = 0"
    using assms(2) start_caller(3) unfolding queue_inv_def single_def by (metis le_zero_eq)
  then have z: "placed (shared s) (ItemID it) = 0" "held (threads s) (ItemID it) = 0" by simp_all
  let ?t = "\<lparr>code = bind_prog (Enqueue cd it) (\<lambda>_. Ret ()), hand = {#ItemID it#}, unsaved = {ItemID it}\<rparr>"
  note inv = assms(2) [unfolded queue_inv_def]
  have "single (shared s) (threads s @ [?t]) (insert (ItemID it) (accepted s))" unfolding single_def
  proof
    fix x
    from inv have "placed (shared s) x + held (threads s) x \<le> (if x \<in> accepted s then 1 else 0)" unfolding single_def by blast
    with z show "placed (shared s) x + held (threads s @ [?t]) x \<le> (if x \<in> insert (ItemID it) (accepted s) then 1 else 0)"
      by (cases "x = ItemID it") auto
  qed
  moreover have "faults \<or> kept (shared s) (threads s @ [?t]) (insert (ItemID it) (accepted s)) (over s)"
    using inv z start_caller(3) by (auto simp: kept_def)
  moreover have "threads_obey cd faults (threads s @ [?t])" "bodies cd (shared s) (threads s @ [?t])"
    using inv obeys_Enqueue [OF assms(3) start_caller(2), of faults] by (auto simp: threads_obey_def bodies_def obeys_bind)
  ultimately show ?thesis using inv start_caller(1,2) by (auto simp: queue_inv_def storable_def)
next
  case (command i args k H N r d')
  let ?t = "\<lparr>code = k r, hand = hand_after args r H, unsaved = unsaved_after args r N\<rparr>"
  have t: "threads s ! i \<in> set (threads s)" "hand (threads s ! i) = H" "unsaved (threads s ! i) = N" "code (threads s ! i) = Cmd args k"
    using nth_mem [OF command(2)] command(3) by simp_all
  note inv = assms(2) [unfolded queue_inv_def]
  have ob: "permitted cd H N args" "\<And>r. expected cd faults H N args r \<Longrightarrow>
      obeys (k r) cd faults (hand_after args r H) (unsaved_after args r N) (\<lambda>_ H N. faults \<or> H = {#})"
    using inv t unfolding threads_obey_def by force+
  have "expected cd faults H N args r"
    using replies_expected [of cd "shared s" "threads s" "accepted s" "threads s ! i" args r d' faults] inv t command(4,5) by simp
  with ob(2) inv have "threads_obey cd faults ((threads s)[i := ?t])"
    unfolding threads_obey_def using set_update_subset_insert [of "threads s" i ?t] by auto
  moreover have "single d' ((threads s)[i := ?t]) (accepted s)"
    using single_command [of "shared s" "threads s" "accepted s" i cd N args r d' ?t] inv command(2,4) ob(1) t(2) by simp
  moreover have "bodies cd d' ((threads s)[i := ?t])"
    using bodies_command [of cd "shared s" "threads s" "accepted s" i args r d' ?t] inv command(2,4) ob(1) t by simp
  moreover have "faults \<or> kept d' ((threads s)[i := ?t]) (accepted s) (over s \<union> ended_by args)"
  proof (cases faults)
    case False
    with command(5) obtain v where r: "r = Inr v" by (cases r) auto
    with command(4) have "answers args (shared s) v d'" by (auto elim: redis_step.cases)
    with kept_command [of "shared s" "threads s" "accepted s" "over s" i cd N args v d' ?t] inv False command(2) ob(1) t(2) r
    show ?thesis by simp
  qed simp
  ultimately show ?thesis using inv command(1) by (simp add: queue_inv_def)
next
  case (crash i)
  let ?ts = "(threads s)[i := (threads s ! i)\<lparr>code := Ret ()\<rparr>]"
  have h: "held ?ts x = held (threads s) x" for x using held_update [OF crash(3), of "(threads s ! i)\<lparr>code := Ret ()\<rparr>" x] by simp
  have m: "\<exists>u \<in> set (threads s). hand t = hand u \<and> unsaved t = unsaved u \<and> (code t = code u \<or> code t = Ret ())" if "t \<in> set ?ts" for t
    using set_update_subset_insert [of "threads s" i] that crash(3) nth_mem by fastforce
  from assms(2) crash h m show ?thesis
    unfolding queue_inv_def single_def threads_obey_def bodies_def kept_def by (auto dest!: m)
qed

lemma queue_inv_reaches: "reaches cd maxAttempts faults s \<Longrightarrow> faithful_codec cd \<Longrightarrow> queue_inv cd faults s"
proof (induction rule: rtranclp_induct)
  case base
  then show ?case by (simp add: queue_inv_def no_queue_def single_def threads_obey_def bodies_def kept_def placed_def held_def)
next
  case (step s s')
  then show ?case using queue_inv_step by blast
qed

text \<open>
  C24. A message is in one place at a time: in every state that any number of drainers and callers reach, with
  commands that fail or are carried out without an answer and with processes that die, an
  identifier stands at most once on the ready list, in the retry set, on the list of the dead and in the
  hands of all drainers together. So no message is delivered by two drainers at the same time.
\<close>

theorem never_twice:
  assumes "faithful_codec cd" "reaches cd maxAttempts True s"
  shows "count (mset (lsts (shared s) readyKey)) x + (if zset (shared s) laterKey x = None then 0 else 1) +
     count (mset (lsts (shared s) deadKey)) x + sum_list (map (\<lambda>t. count (hand t) x) (threads s)) \<le> 1"
proof -
  from queue_inv_reaches [OF assms(2,1)] have "placed (shared s) x + held (threads s) x \<le> (if x \<in> accepted s then 1 else 0)"
    unfolding queue_inv_def single_def by blast
  then have "placed (shared s) x + held (threads s) x \<le> 1" by (cases "x \<in> accepted s") auto
  then show ?thesis unfolding placed_def held_def .
qed

text \<open>
  C25. No message is lost while no command fails and no process dies: in every state that drainers and callers
  reach, interleaved in any way, a message that a caller brought and that nobody ended is in exactly one
  place, on the ready list, in the retry set, on the list of the dead or in the hands of one thread that
  is still running; and unless it is still on its way in, its body is stored under its identifier.
\<close>

theorem never_lost:
  assumes "faithful_codec cd" "reaches cd maxAttempts False s" "x \<in> accepted s" "x \<notin> over s"
  shows "placed (shared s) x + held (threads s) x = 1 \<and> (placed (shared s) x = 1 \<longrightarrow> saved cd (shared s) x) \<and>
    (\<forall>t \<in> set (threads s). x \<in># hand t \<longrightarrow> code t \<noteq> Ret ())"
proof -
  note inv = queue_inv_reaches [OF assms(2,1), unfolded queue_inv_def]
  have "placed (shared s) x + held (threads s) x = 1" using inv assms(3,4) unfolding kept_def by blast
  moreover have "placed (shared s) x = 1 \<longrightarrow> saved cd (shared s) x" using inv unfolding bodies_def by (metis zero_neq_one)
  moreover have "\<forall>t \<in> set (threads s). x \<in># hand t \<longrightarrow> code t \<noteq> Ret ()" using inv unfolding threads_obey_def by fastforce
  ultimately show ?thesis by blast
qed

section \<open>An operation alone\<close>

inductive exec :: "bool \<Rightarrow> 'a prog \<Rightarrow> db \<Rightarrow> 'a \<Rightarrow> db \<Rightarrow> bool" for faults where
  exec_Ret: "exec faults (Ret a) d a d"
| exec_Cmd: "redis_step args d r d1 \<Longrightarrow> faults \<or> \<not> isl r \<Longrightarrow> exec faults (k r) d1 a d' \<Longrightarrow> exec faults (Cmd args k) d a d'"

inductive_simps exec_Ret_iff [simp]: "exec faults (Ret b) d a d'"
inductive_cases exec_CmdE: "exec faults (Cmd args k) d a d'"

text \<open>A store serves the queue when every command of the queue does one of the steps above to what the queue sees of it, and
  no other command changes that.\<close>

definition queue_cmd :: "string list \<Rightarrow> bool" where
  "queue_cmd args \<longleftrightarrow> (\<exists>d v d'. answers args d v d')"

definition serves :: "bool \<Rightarrow> ('s \<Rightarrow> db) \<Rightarrow> 's redis \<Rightarrow> bool" where
  "serves faults view run \<longleftrightarrow> (\<forall>args s r s'. run args s = (r, s') \<longrightarrow>
     (if queue_cmd args then redis_step args (view s) r (view s') \<and> (faults \<or> \<not> isl r) else view s' = view s))"

primrec queue_only :: "'a prog \<Rightarrow> bool" where
  "queue_only (Ret a) \<longleftrightarrow> True"
| "queue_only (Cmd args k) \<longleftrightarrow> queue_cmd args \<and> (\<forall>r. queue_only (k r))"

lemma run_prog_exec: "serves faults view run \<Longrightarrow> queue_only p \<Longrightarrow> run_prog p run s = (a, s') \<Longrightarrow> exec faults p (view s) a (view s')"
proof (induction p arbitrary: s)
  case (Cmd args k)
  obtain r s1 where r: "run args s = (r, s1)" by (metis prod.exhaust)
  with Cmd.prems(1,2) have "redis_step args (view s) r (view s1)" "faults \<or> \<not> isl r" unfolding serves_def by (metis queue_only.simps(2))+
  with Cmd r show ?case by (auto intro: exec_Cmd)
qed simp

lemma queue_only_bind [simp]: "queue_only p \<Longrightarrow> (\<And>a. queue_only (f a)) \<Longrightarrow> queue_only (bind_prog p f)"
  by (induction p) auto

lemma queue_cmds [simp]:
  "queue_cmd [''GET'', k]" "queue_cmd [''DEL'', k]" "queue_cmd [''RPOP'', k]" "queue_cmd [''SET'', k, x]" "queue_cmd [''LPUSH'', k, x]"
  "queue_cmd [''ZREM'', k, x]" "queue_cmd [''LLEN'', k]" "queue_cmd [''ZCARD'', k]"
  "atoi a \<noteq> None \<Longrightarrow> queue_cmd [''ZADD'', k, a, x]" "atoi x \<noteq> None \<Longrightarrow> queue_cmd [''ZRANGEBYSCORE'', k, ''-inf'', x]"
proof -
  show "atoi x \<noteq> None \<Longrightarrow> queue_cmd [''ZRANGEBYSCORE'', k, ''-inf'', x]" unfolding queue_cmd_def
    by (intro exI [of _ "\<lparr>strs = Map.empty, lsts = (\<lambda>_. []), zset = (\<lambda>_. Map.empty)\<rparr>"] exI [of _ "RArr []"]) auto
  show "queue_cmd [''RPOP'', k]" unfolding queue_cmd_def
    by (intro exI [of _ "\<lparr>strs = Map.empty, lsts = (\<lambda>_. []), zset = (\<lambda>_. Map.empty)\<rparr>"] exI [of _ RNil]) auto
qed (auto simp: queue_cmd_def)

lemma queue_only_do [simp]: "queue_cmd args \<Longrightarrow> queue_only nxt \<Longrightarrow> queue_only (do_cmd args fail nxt)"
  by (simp add: do_cmd_def split: sum.split)

lemma queue_only_store [simp]: "queue_only nxt \<Longrightarrow> queue_only (store_item cd it nxt)"
  by (simp add: store_item_def split: sum.split)

lemma queue_only_promote: "queue_only (promote_ids xs)"
  by (induction xs) (auto split: sum.split option.split)

lemma Depth_reads: "exec faults Depth d a d' \<Longrightarrow> d' = d"
  by (auto simp: Depth_def count_cmd_def elim!: exec_CmdE redis_step.cases)

lemma seconds_in_int64: "in_int64 t \<Longrightarrow> in_int64 (t div second)" "in_int64 t \<Longrightarrow> in_int64 ((t + to_int64 n) div second)"
  by (auto simp: in_int64_def to_int64_def)

lemma queue_only_ops:
  "queue_only (Enqueue cd it)" "queue_only (Done x)" "queue_only Depth"
  "in_int64 now \<Longrightarrow> queue_only (Next cd now)" "in_int64 now \<Longrightarrow> queue_only (Retry cd maxAttempts now it base why)"
proof -
  show "queue_only (Enqueue cd it)" "queue_only (Done x)" "queue_only Depth"
    by (simp_all add: Enqueue_def Done_def Depth_def count_cmd_def)
  assume now: "in_int64 now"
  have "queue_only (take_item cd x)" for x by (auto simp: take_item_def split: sum.split resp.split)
  with now show "queue_only (Next cd now)" using queue_only_promote
    by (auto simp: Next_def promote_def seconds_in_int64 atoi_itoa split: sum.split option.split intro!: queue_only_bind)
  show "queue_only (Retry cd maxAttempts now it base why)"
    using now by (auto simp: Retry_def bury_def Let_def backoff_def seconds_in_int64 atoi_itoa)
qed

lemma exec_bind: "exec faults (bind_prog p f) d b d' \<longleftrightarrow> (\<exists>a d1. exec faults p d a d1 \<and> exec faults (f a) d1 b d')"
proof
  show "exec faults (bind_prog p f) d b d' \<Longrightarrow> \<exists>a d1. exec faults p d a d1 \<and> exec faults (f a) d1 b d'"
  proof (induction p arbitrary: d)
    case (Ret a)
    then show ?case by auto
  next
    case (Cmd args k)
    from Cmd.prems obtain r d2 where r: "redis_step args d r d2" "faults \<or> \<not> isl r" "exec faults (bind_prog (k r) f) d2 b d'"
      by (auto elim: exec_CmdE)
    with Cmd.IH [of "k r" d2] obtain a d1 where "exec faults (k r) d2 a d1" "exec faults (f a) d1 b d'" by auto
    with exec_Cmd [OF r(1,2), of k a d1] show ?case by blast
  qed
  have "exec faults p d a d1 \<Longrightarrow> exec faults (f a) d1 b d' \<Longrightarrow> exec faults (bind_prog p f) d b d'" for a d1
    by (induction rule: exec.induct) (auto intro: exec_Cmd)
  then show "\<exists>a d1. exec faults p d a d1 \<and> exec faults (f a) d1 b d' \<Longrightarrow> exec faults (bind_prog p f) d b d'" by blast
qed

lemma exec_ok_Cmd: "exec False (Cmd args k) d a d' \<longleftrightarrow> (\<exists>v d1. answers args d v d1 \<and> exec False (k (Inr v)) d1 a d')"
  by (auto elim!: exec_CmdE redis_step.cases intro!: exec_Cmd intro: answered)

lemma exec_ok_do [simp]: "exec False (do_cmd args fail nxt) d a d' \<longleftrightarrow> (\<exists>v d1. answers args d v d1 \<and> exec False nxt d1 a d')"
  by (simp add: do_cmd_def exec_ok_Cmd)

lemma promote_ids_ok:
  "exec False (promote_ids xs) d a d' \<Longrightarrow> distinct xs \<Longrightarrow> set xs \<subseteq> dom (zset d laterKey) \<Longrightarrow>
   a = None \<and> d' = d\<lparr>lsts := (lsts d)(readyKey := rev xs @ lsts d readyKey), zset := (zset d)(laterKey := zset d laterKey |` (- set xs))\<rparr>"
proof (induction xs arbitrary: d)
  case Nil
  then show ?case by simp
next
  case (Cons x xs)
  then have x: "zset d laterKey x \<noteq> None" by auto
  let ?d = "d\<lparr>zset := (zset d)(laterKey := (zset d laterKey)(x := None)), lsts := (lsts d)(readyKey := x # lsts d readyKey)\<rparr>"
  from Cons.prems(1) x have "exec False (promote_ids xs) ?d a d'" by (auto simp: exec_ok_Cmd asInt_def)
  moreover have "set xs \<subseteq> dom (zset ?d laterKey)" "distinct xs" using Cons.prems(2,3) by auto
  ultimately have "a = None" "d' = ?d\<lparr>lsts := (lsts ?d)(readyKey := rev xs @ lsts ?d readyKey),
      zset := (zset ?d)(laterKey := zset ?d laterKey |` (- set xs))\<rparr>" using Cons.IH by blast+
  then show ?case by (auto intro!: db.equality simp: fun_eq_iff restrict_map_def)
qed

lemma Next_ok:
  assumes "exec False (Next cd now) d r d'" "lsts d readyKey = xs @ [x]" "x \<noteq> []" "in_int64 (now div second)"
  shows "\<exists>due. distinct due \<and> set due = {y. \<exists>m. zset d laterKey y = Some m \<and> m \<le> now div second} \<and>
     d' = d\<lparr>lsts := (lsts d)(readyKey := rev due @ xs), zset := (zset d)(laterKey := zset d laterKey |` (- set due))\<rparr> \<and>
     r = (case strs d (itemPrefix @ x) of
            None \<Rightarrow> Inr None
          | Some b \<Rightarrow> (case unmarshal cd b of Inl e \<Rightarrow> Inl (DecodingItem x e) | Inr it \<Rightarrow> Inr (Some it)))"
proof -
  from assms(1) obtain e d1 where p: "exec False (promote now) d e d1" and
    n: "exec False (case e of Some e \<Rightarrow> Ret (Inl e) | None \<Rightarrow> Cmd [''RPOP'', readyKey] (\<lambda>r. case r of Inl e \<Rightarrow> Ret (Inl (ReadingQueue e))
      | Inr raw \<Rightarrow> (case asString raw of None \<Rightarrow> Ret (Inr None) | Some mid \<Rightarrow> if mid = [] then Ret (Inr None) else take_item cd mid))) d1 r d'"
    unfolding Next_def exec_bind by blast
  from p assms(4) obtain due where due: "distinct due" "set due = {y. \<exists>m. zset d laterKey y = Some m \<and> m \<le> now div second}"
    and q: "exec False (promote_ids (asStrings (RArr (map RStr due)))) d e d1"
    by (auto simp: promote_def exec_ok_Cmd atoi_itoa)
  have "asStrings (RArr (map RStr due)) = due" by (induction due) (simp_all add: asStrings_def asString_def List.map_filter_simps)
  with promote_ids_ok [of due d e d1] q due have d1: "e = None"
    "d1 = d\<lparr>lsts := (lsts d)(readyKey := rev due @ xs @ [x]), zset := (zset d)(laterKey := zset d laterKey |` (- set due))\<rparr>"
    using assms(2) by auto
  have "exec False (take_item cd x) (d1\<lparr>lsts := (lsts d1)(readyKey := rev due @ xs)\<rparr>) r d'"
    using n d1 assms(3) by (auto simp: exec_ok_Cmd asString_def butlast_append)
  with d1(2) have "d' = d\<lparr>lsts := (lsts d)(readyKey := rev due @ xs), zset := (zset d)(laterKey := zset d laterKey |` (- set due))\<rparr>"
    "r = (case strs d (itemPrefix @ x) of None \<Rightarrow> Inr None
       | Some b \<Rightarrow> (case unmarshal cd b of Inl e \<Rightarrow> Inl (DecodingItem x e) | Inr it \<Rightarrow> Inr (Some it)))"
    by (auto simp: take_item_def exec_ok_Cmd split: option.splits sum.splits)
  with due show ?thesis by blast
qed

text \<open>
  \<open>Next\<close> takes the oldest message: when no command fails and the ready list is not empty, the message at
  its end is taken off and returned as it is stored; every message whose retry is due has been moved to the
  front of the ready list, and the others wait in the retry set as before.
\<close>

theorem Next_takes_oldest:
  assumes "exec False (Next cd now) d r d'" "lsts d readyKey = xs @ [x]" "x \<noteq> []" "in_int64 (now div second)"
  shows "\<exists>due. distinct due \<and> set due = {y. \<exists>m. zset d laterKey y = Some m \<and> m \<le> now div second} \<and>
     d' = d\<lparr>lsts := (lsts d)(readyKey := rev due @ xs), zset := (zset d)(laterKey := zset d laterKey |` (- set due))\<rparr> \<and>
     r = (case strs d (itemPrefix @ x) of
            None \<Rightarrow> Inr None
          | Some b \<Rightarrow> (case unmarshal cd b of Inl e \<Rightarrow> Inl (DecodingItem x e) | Inr it \<Rightarrow> Inr (Some it)))"
  using Next_ok [OF assms] .

lemma Retry_ok:
  assumes "exec False (Retry cd maxAttempts now it base why) d r d'" "faithful_codec cd" "storable it"
    and "0 < base" "base * 2 ^ nat (Attempts it) < 2 ^ 63" "in_int64 ((now + base * 2 ^ nat (Attempts it)) div second)"
  shows "\<exists>b. r = None \<and> marshal cd (it\<lparr>Attempts := Attempts it + 1, LastErr := why\<rparr>) = Inr b \<and>
    d' = (if Attempts it + 1 \<ge> maxAttempts
          then d\<lparr>strs := (strs d)(itemPrefix @ ItemID it \<mapsto> b), lsts := (lsts d)(deadKey := ItemID it # lsts d deadKey)\<rparr>
          else d\<lparr>strs := (strs d)(itemPrefix @ ItemID it \<mapsto> b), zset := (zset d)(laterKey :=
            (zset d laterKey)(ItemID it \<mapsto> (now + base * 2 ^ nat (Attempts it)) div second))\<rparr>)"
proof -
  let ?it = "it\<lparr>Attempts := Attempts it + 1, LastErr := why\<rparr>"
  have st: "storable ?it" "0 \<le> Attempts it" using assms(3) by (simp_all add: storable_def)
  then obtain b where b: "marshal cd ?it = Inr b" using assms(2) unfolding faithful_codec_def by blast
  have exact: "backoff base (Attempts it + 1) = base * 2 ^ nat (Attempts it)"
    using assms(4,5) by (simp add: backoff_def to_int64_def)
  show ?thesis
  proof (cases "Attempts it + 1 \<ge> maxAttempts")
    case True
    with assms(1) b show ?thesis by (auto simp: Retry_def bury_def store_item_def Let_def)
  next
    case False
    with assms(1,6) b exact st(2) show ?thesis by (auto simp: Retry_def store_item_def Let_def atoi_itoa)
  qed
qed

text \<open>
  A retry, when no command fails: the message is stored with one attempt more and the reason, and it waits in
  the retry set until \<open>base * 2 ^ (attempts - 1)\<close> has passed, or it is on the list of the dead when it has had
  its attempts. In either case the rest of the queue is as it was.
\<close>

theorem Retry_schedules:
  assumes "exec False (Retry cd maxAttempts now it base why) d r d'" "faithful_codec cd" "storable it"
    and "0 < base" "base * 2 ^ nat (Attempts it) < 2 ^ 63" "in_int64 ((now + base * 2 ^ nat (Attempts it)) div second)"
  shows "\<exists>b. r = None \<and> marshal cd (it\<lparr>Attempts := Attempts it + 1, LastErr := why\<rparr>) = Inr b \<and>
    d' = (if Attempts it + 1 \<ge> maxAttempts
          then d\<lparr>strs := (strs d)(itemPrefix @ ItemID it \<mapsto> b), lsts := (lsts d)(deadKey := ItemID it # lsts d deadKey)\<rparr>
          else d\<lparr>strs := (strs d)(itemPrefix @ ItemID it \<mapsto> b), zset := (zset d)(laterKey :=
            (zset d laterKey)(ItemID it \<mapsto> (now + base * 2 ^ nat (Attempts it)) div second))\<rparr>)"
  using Retry_ok [OF assms] .

text \<open>The delay is shifted at 64 bits, and nothing bounds the number of attempts that is configured: from the 26th
  on the delay of the default base is negative and the message is due at once.\<close>

theorem backoff_overflows: "backoff (5 * minute) 26 < 0 \<and> backoff (5 * minute) 25 > 0"
  by (simp add: backoff_def to_int64_def)

text \<open>
  A message can be lost: it is taken off the list before its body is read, so a command that fails in between
  leaves it nowhere.
\<close>

theorem failed_read_loses:
  assumes "lsts d readyKey = xs @ [x]" "x \<noteq> []" "zset d laterKey = Map.empty" "in_int64 (now div second)"
  shows "exec True (Next cd now) d (Inl (ReadingItem e)) (d\<lparr>lsts := (lsts d)(readyKey := xs)\<rparr>)"
proof -
  have "answers [''ZRANGEBYSCORE'', laterKey, ''-inf'', itoa (now div second)] d (RArr []) d"
    using assms(3,4) by (auto simp: atoi_itoa)
  then have "exec True (promote now) d None d" unfolding promote_def
    by (rule exec_Cmd [OF answered]) (simp_all add: asStrings_def List.map_filter_simps)
  moreover have "redis_step [''RPOP'', readyKey] d (Inr (RStr x)) (d\<lparr>lsts := (lsts d)(readyKey := xs)\<rparr>)"
    using assms(1) by (intro answered) simp
  moreover have "exec True (take_item cd x) d1 (Inl (ReadingItem e)) d1" for d1
    unfolding take_item_def by (rule exec_Cmd [OF unsent [where e = e]]) auto
  ultimately have "exec True (Cmd [''RPOP'', readyKey] (\<lambda>r. case r of Inl e \<Rightarrow> Ret (Inl (ReadingQueue e)) | Inr raw \<Rightarrow>
      (case asString raw of None \<Rightarrow> Ret (Inr None) | Some mid \<Rightarrow> if mid = [] then Ret (Inr None) else take_item cd mid)))
      d (Inl (ReadingItem e)) (d\<lparr>lsts := (lsts d)(readyKey := xs)\<rparr>)" and p: "exec True (promote now) d None d"
    using assms(2) by (auto intro!: exec_Cmd [where r = "Inr (RStr x)"] simp: asString_def)
  then show ?thesis unfolding Next_def exec_bind by (intro exI [of _ None] exI [of _ d] conjI) simp_all
qed

section \<open>A queue with one message\<close>

text \<open>The witnesses encode an item as fields with their lengths in front.\<close>

definition put_field :: "string \<Rightarrow> string" where
  "put_field s = nat_digits (length s) @ '':'' @ s"

definition get_field :: "string \<Rightarrow> string \<times> string" where
  "get_field r = (let ds = takeWhile is_digit r; rest = drop (length ds + 1) r; n = digits_value 0 ds in (take n rest, drop n rest))"

definition get_int :: "string \<Rightarrow> int" where
  "get_int s = (case s of c # r \<Rightarrow> if c = CHR ''-'' then - int (digits_value 0 r) else int (digits_value 0 s) | [] \<Rightarrow> 0)"

lemma get_put_field: "get_field (put_field s @ t) = (s, t)"
proof -
  have "takeWhile is_digit (nat_digits (length s) @ '':'' @ s @ t) = nat_digits (length s)"
    using nat_digits_digits by (intro takeWhile_span) (auto simp: is_digit_def)
  then show ?thesis by (simp add: get_field_def put_field_def Let_def digits_value_nat_digits)
qed

lemma get_int_itoa: "get_int (itoa n) = n"
proof (cases "n < 0")
  case False
  obtain c ds where e: "nat_digits (nat n) = c # ds" using nat_digits_ne [of "nat n"] by (cases "nat_digits (nat n)") auto
  with nat_digits_hd [of "nat n"] have "c \<noteq> CHR ''-''" by (auto simp: is_digit_def)
  with e False digits_value_nat_digits [of "nat n"] show ?thesis by (simp add: itoa_def get_int_def)
qed (simp add: itoa_def get_int_def digits_value_nat_digits)

definition field_codec :: codec where
  "field_codec = \<lparr>
     marshal = (\<lambda>it. Inr (put_field (ItemID it) @ put_field (MailFrom it) @ put_field (RcptTo it) @ put_field (Data it) @
       put_field (itoa (Attempts it)) @ put_field (itoa (Queued it)) @ put_field (LastErr it))),
     unmarshal = (\<lambda>s. case get_field s of (a, s) \<Rightarrow> case get_field s of (b, s) \<Rightarrow> case get_field s of (c, s) \<Rightarrow> case get_field s of (d, s) \<Rightarrow>
       case get_field s of (n, s) \<Rightarrow> case get_field s of (q, s) \<Rightarrow> case get_field s of (l, s) \<Rightarrow>
       Inr \<lparr>ItemID = a, MailFrom = b, RcptTo = c, Data = d, Attempts = get_int n, Queued = get_int q, LastErr = l\<rparr>)\<rparr>"

lemma faithful_field_codec: "faithful_codec field_codec"
proof -
  have last: "get_field (put_field s) = (s, [])" for s using get_put_field [of s "[]"] by simp
  show ?thesis unfolding faithful_codec_def field_codec_def by (simp add: get_put_field get_int_itoa last)
qed

definition an_item :: item where
  "an_item = \<lparr>ItemID = ''m1'', MailFrom = ''bounces@us.example'', RcptTo = ''b@them.example'', Data = ''hi'', Attempts = 0, Queued = 0, LastErr = []\<rparr>"

lemma an_item_queued:
  "\<exists>s. reaches field_codec 5 faults s \<and> accepted s = {''m1''} \<and> over s = {} \<and> lsts (shared s) readyKey = [''m1''] \<and>
     threads s = [\<lparr>code = Ret (), hand = {#}, unsaved = {}\<rparr>]"
proof -
  obtain b where b: "marshal field_codec an_item = Inr b" by (simp add: field_codec_def)
  let ?push = "bind_prog (do_cmd [''LPUSH'', readyKey, ''m1''] (\<lambda>e. Some (QueueingItem e)) (Ret None)) (\<lambda>_. Ret ())"
  let ?go = "Cmd [''SET'', itemPrefix @ ''m1'', b] (\<lambda>r. bind_prog (case r of Inl e \<Rightarrow> Ret (Some (StoringItem e)) | Inr _ \<Rightarrow>
      do_cmd [''LPUSH'', readyKey, ''m1''] (\<lambda>e. Some (QueueingItem e)) (Ret None)) (\<lambda>_. Ret ()))"
  let ?db = "\<lambda>m l. \<lparr>strs = m, lsts = l, zset = (\<lambda>_. Map.empty)\<rparr>"
  have enq: "bind_prog (Enqueue field_codec an_item) (\<lambda>_. Ret ()) = ?go"
    using b by (auto simp: Enqueue_def store_item_def do_cmd_def an_item_def fun_eq_iff split: sum.split)
  let ?m = "Map.empty(itemPrefix @ ''m1'' \<mapsto> b)"
  let ?s1 = "\<lparr>shared = ?db Map.empty (\<lambda>_. []), threads = [\<lparr>code = ?go, hand = {#''m1''#}, unsaved = {''m1''}\<rparr>], accepted = {''m1''}, over = {}\<rparr>"
  let ?s2 = "\<lparr>shared = ?db ?m (\<lambda>_. []), threads = [\<lparr>code = ?push, hand = {#''m1''#}, unsaved = {}\<rparr>], accepted = {''m1''}, over = {}\<rparr>"
  let ?s3 = "\<lparr>shared = ?db ?m ((\<lambda>_. [])(readyKey := [''m1''])), threads = [\<lparr>code = Ret (), hand = {#}, unsaved = {}\<rparr>], accepted = {''m1''}, over = {}\<rparr>"
  have st: "storable an_item" by (simp add: storable_def an_item_def)
  have 1: "qstep field_codec 5 faults no_queue ?s1"
    using start_caller [OF st, of no_queue field_codec 5 faults] unfolding enq by (simp add: no_queue_def an_item_def)
  have 2: "qstep field_codec 5 faults ?s1 ?s2"
    using command [of 0 ?s1 "[''SET'', itemPrefix @ ''m1'', b]" _ "{#''m1''#}" "{''m1''}" "Inr RNil" "?db ?m (\<lambda>_. [])" faults field_codec 5]
    by (simp add: answered ended_by_def)
  have 3: "qstep field_codec 5 faults ?s2 ?s3"
    using command [of 0 ?s2 "[''LPUSH'', readyKey, ''m1'']" _ "{#''m1''#}" "{}" "Inr RNil" "?db ?m ((\<lambda>_. [])(readyKey := [''m1'']))" faults field_codec 5]
    by (simp add: answered ended_by_def do_cmd_def)
  from 1 2 3 have "reaches field_codec 5 faults ?s3" by (meson converse_rtranclp_into_rtranclp rtranclp.rtrancl_refl)
  then show ?thesis by (intro exI [of _ ?s3]) simp
qed

theorem never_twice_witness:
  "\<exists>s. reaches field_codec 5 True s \<and> lsts (shared s) readyKey = [''m1''] \<and> zset (shared s) laterKey ''m1'' = None \<and>
     count (mset (lsts (shared s) deadKey)) ''m1'' = 0"
proof -
  obtain s where s: "reaches field_codec 5 True s" "lsts (shared s) readyKey = [''m1'']" using an_item_queued by blast
  from never_twice [OF faithful_field_codec s(1), of "''m1''"] s(2)
  have "zset (shared s) laterKey ''m1'' = None" "count (mset (lsts (shared s) deadKey)) ''m1'' = 0" by (auto split: if_splits)
  with s show ?thesis by blast
qed

theorem never_lost_witness:
  "\<exists>s. reaches field_codec 5 False s \<and> ''m1'' \<in> accepted s \<and> placed (shared s) ''m1'' = 1 \<and> saved field_codec (shared s) ''m1''"
proof -
  obtain s where s: "reaches field_codec 5 False s" "accepted s = {''m1''}" "over s = {}" "threads s = [\<lparr>code = Ret (), hand = {#}, unsaved = {}\<rparr>]"
    using an_item_queued by blast
  from never_lost [OF faithful_field_codec s(1), of "''m1''"] s(2-4)
  have "placed (shared s) ''m1'' = 1" "saved field_codec (shared s) ''m1''" by (simp_all add: held_def)
  with s show ?thesis by blast
qed

theorem Next_takes_oldest_witness:
  "\<exists>d d'. lsts d readyKey = [''new'', ''old''] \<and> exec False (Next field_codec 0) d (Inr (Some an_item)) d' \<and> lsts d' readyKey = [''new'']"
proof -
  obtain b where b: "marshal field_codec an_item = Inr b" "unmarshal field_codec b = Inr an_item"
    using get_put_field [of _ "[]"] by (simp add: field_codec_def get_put_field get_int_itoa an_item_def)
  define d where "d = \<lparr>strs = [itemPrefix @ ''old'' \<mapsto> b], lsts = (\<lambda>_. [])(readyKey := [''new'', ''old'']), zset = (\<lambda>_. Map.empty)\<rparr>"
  have z: "itoa 0 = ''0''" "atoi ''0'' = Some 0" by code_simp+
  have pr: "exec False (promote 0) d None d" unfolding promote_def exec_ok_Cmd
    by (rule exI [of _ "RArr []"]) (auto simp: z d_def asStrings_def List.map_filter_simps intro: exec_Ret)
  have ex: "\<exists>d'. exec False (Next field_codec 0) d (Inr (Some an_item)) d'" unfolding Next_def exec_bind
    by (rule exI, intro exI conjI, rule pr) (auto simp: exec_ok_Cmd take_item_def d_def asString_def b)
  then obtain d' where e: "exec False (Next field_codec 0) d (Inr (Some an_item)) d'" by blast
  moreover have "lsts d' readyKey = [''new'']"
    using Next_takes_oldest [OF e, of "[''new'']" "''old''"] by (auto simp: d_def in_int64_def)
  ultimately show ?thesis by (intro exI [of _ d] exI [of _ d']) (simp add: d_def)
qed

theorem Retry_schedules_witness:
  "\<exists>d b. exec False (Retry field_codec 5 0 an_item second ''later'') d None
     (d\<lparr>strs := (strs d)(itemPrefix @ ''m1'' \<mapsto> b), zset := (zset d)(laterKey := (zset d laterKey)(''m1'' \<mapsto> 1))\<rparr>)"
proof -
  define d :: db where "d = \<lparr>strs = Map.empty, lsts = (\<lambda>_. []), zset = (\<lambda>_. Map.empty)\<rparr>"
  obtain b where b: "marshal field_codec (an_item\<lparr>Attempts := Attempts an_item + 1, LastErr := ''later''\<rparr>) = Inr b" by (simp add: field_codec_def)
  have z: "itoa ((0 + backoff second 1) div second) = ''1''" "atoi ''1'' = Some 1" by code_simp+
  have "\<exists>d'. exec False (Retry field_codec 5 0 an_item second ''later'') d None d'"
    using b z by (auto simp: Retry_def store_item_def Let_def an_item_def)
  then obtain d' where e: "exec False (Retry field_codec 5 0 an_item second ''later'') d None d'" by blast
  have "storable an_item" by (simp add: storable_def an_item_def)
  from Retry_schedules [OF e faithful_field_codec this] obtain b' where
    "d' = d\<lparr>strs := (strs d)(itemPrefix @ ''m1'' \<mapsto> b'), zset := (zset d)(laterKey := (zset d laterKey)(''m1'' \<mapsto> 1))\<rparr>"
    by (auto simp: an_item_def in_int64_def)
  with e show ?thesis by blast
qed

end
