(* ===== verification/Message.thy ===== *)
theory Message
  imports Prelude
begin

text \<open>
  Assembling an outgoing message: \<open>internal/relay/message.go\<close>.

  Parsing of addresses (\<open>net/mail\<close>), the encoding of subjects (\<open>mime\<close>), the format of dates and the
  random boundary are arguments; \<open>clean_tools\<close> states what is relied on of them, that they put no line
  break where there was none.

  The theorems show that what is rendered has one line per header and that the caller's values cannot
  add one, and that the caller can still set a header this service reserves for itself.
\<close>

abbreviation CR :: char where "CR \<equiv> CHR 0x0D"
abbreviation LF :: char where "LF \<equiv> CHR 0x0A"
abbreviation CRLF :: string where "CRLF \<equiv> [CR, LF]"

record header =
  Name :: string
  Value :: string

record message =
  From :: string
  To :: string
  Subject :: string
  Text :: string
  HTML :: string
  Extra :: "header list"

definition reservedHeaders :: "string list" where
  "reservedHeaders = [''from'', ''to'', ''subject'', ''date'', ''message-id'', ''mime-version'', ''content-type'',
     ''content-transfer-encoding'', ''dkim-signature'', ''return-path'', ''received'']"

datatype build_error =
    FromRequired | ToRequired | SubjectRequired | NoBody | UnusableAddress string | LineBreakInHeader
  | Entropy string | ReservedHeader string

section \<open>Validation\<close>

definition extraValues :: "header list \<Rightarrow> string list" where
  "extraValues hs = concat (map (\<lambda>h. [Name h, Value h]) hs)"

definition breaks_line :: "string \<Rightarrow> bool" where
  "breaks_line v \<longleftrightarrow> list_ex (\<lambda>c. c = CR \<or> c = LF) v"

definition validate :: "(string \<Rightarrow> bool) \<Rightarrow> message \<Rightarrow> build_error option" where
  "validate parseable m =
     (if trim_space (From m) = [] then Some FromRequired
      else if trim_space (To m) = [] then Some ToRequired
      else if trim_space (Subject m) = [] then Some SubjectRequired
      else if Text m = [] \<and> HTML m = [] then Some NoBody
      else if \<not> parseable (From m) then Some (UnusableAddress (From m))
      else if \<not> parseable (To m) then Some (UnusableAddress (To m))
      else if list_ex breaks_line ([Subject m, From m, To m] @ extraValues (Extra m)) then Some LineBreakInHeader
      else None)"

section \<open>Build\<close>

definition normaliseNewlines :: "string \<Rightarrow> string" where
  "normaliseNewlines s = replace_all [LF] CRLF (replace_all CRLF [LF] s)"

record tools =
  parseable :: "string \<Rightarrow> bool"
  encodeSubject :: "string \<Rightarrow> string"
  rfc1123z :: "instant \<Rightarrow> string"

definition multipart_body :: "string \<Rightarrow> message \<Rightarrow> string" where
  "multipart_body boundary m =
     ''--'' @ boundary @ CRLF @ ''Content-Type: text/plain; charset=utf-8'' @ CRLF @ CRLF @
     normaliseNewlines (Text m) @ CRLF @ ''--'' @ boundary @ CRLF @
     ''Content-Type: text/html; charset=utf-8'' @ CRLF @ CRLF @
     normaliseNewlines (HTML m) @ CRLF @ ''--'' @ boundary @ ''--'' @ CRLF"

text \<open>The headers the caller added; the first that is reserved ends it.\<close>

fun add_extra :: "header list \<Rightarrow> header list \<Rightarrow> build_error + header list" where
  "add_extra hs [] = Inr hs"
| "add_extra hs (h # es) =
     (if to_lower (trim_space (Name h)) \<in> set reservedHeaders then Inl (ReservedHeader (Name h)) else add_extra (hs @ [h]) es)"

definition own_headers :: "tools \<Rightarrow> instant \<Rightarrow> string \<Rightarrow> message \<Rightarrow> header list" where
  "own_headers tk now messageID m =
     [\<lparr>Name = ''From'', Value = From m\<rparr>, \<lparr>Name = ''To'', Value = To m\<rparr>,
      \<lparr>Name = ''Subject'', Value = encodeSubject tk (Subject m)\<rparr>, \<lparr>Name = ''Date'', Value = rfc1123z tk now\<rparr>,
      \<lparr>Name = ''Message-ID'', Value = ''<'' @ messageID @ ''>''\<rparr>, \<lparr>Name = ''MIME-Version'', Value = ''1.0''\<rparr>]"

definition Build ::
  "tools \<Rightarrow> (string + string) \<Rightarrow> instant \<Rightarrow> string \<Rightarrow> message \<Rightarrow> build_error + header list \<times> string" where
  "Build tk boundary now messageID m =
     (case validate (parseable tk) m of
        Some e \<Rightarrow> Inl e
      | None \<Rightarrow>
          let hs = own_headers tk now messageID m;
              content = (if HTML m \<noteq> [] \<and> Text m \<noteq> [] then
                           (case boundary of
                              Inl e \<Rightarrow> Inl (Entropy e)
                            | Inr b \<Rightarrow> Inr (''multipart/alternative; boundary=\"'' @ b @ ''\"'', multipart_body b m))
                         else if HTML m \<noteq> [] then Inr (''text/html; charset=utf-8'', normaliseNewlines (HTML m))
                         else Inr (''text/plain; charset=utf-8'', normaliseNewlines (Text m)))
          in case content of
               Inl e \<Rightarrow> Inl e
             | Inr (ctype, content) \<Rightarrow>
                 (case add_extra (hs @ [\<lparr>Name = ''Content-Type'', Value = ctype\<rparr>]) (Extra m) of
                    Inl e \<Rightarrow> Inl e
                  | Inr hs \<Rightarrow> Inr (hs, content)))"

definition render_header :: "header \<Rightarrow> string" where
  "render_header h = Name h @ '': '' @ Value h @ CRLF"

definition Render :: "header list \<Rightarrow> string \<Rightarrow> string" where
  "Render hs content = concat (map render_header hs) @ CRLF @ content"

section \<open>One line per header\<close>

definition clean_tools :: "tools \<Rightarrow> bool" where
  "clean_tools tk \<longleftrightarrow>
     (\<forall>s. \<not> breaks_line s \<longrightarrow> \<not> breaks_line (encodeSubject tk s)) \<and> (\<forall>t. \<not> breaks_line (rfc1123z tk t))"

lemma breaks_line_append [simp]: "breaks_line (s @ t) \<longleftrightarrow> breaks_line s \<or> breaks_line t"
  by (simp add: breaks_line_def)

lemma breaks_line_Cons [simp]: "breaks_line (c # s) \<longleftrightarrow> c = CR \<or> c = LF \<or> breaks_line s"
  by (simp add: breaks_line_def)

lemma breaks_line_Nil [simp]: "\<not> breaks_line []"
  by (simp add: breaks_line_def)

lemma add_extra_headers: "add_extra hs es = Inr hs' \<longleftrightarrow>
    hs' = hs @ es \<and> (\<forall>h \<in> set es. to_lower (trim_space (Name h)) \<notin> set reservedHeaders)"
  by (induction es arbitrary: hs) auto

definition one_line :: "header \<Rightarrow> bool" where
  "one_line h \<longleftrightarrow> \<not> breaks_line (Name h) \<and> \<not> breaks_line (Value h)"

lemma Build_headers:
  assumes "Build tk boundary now messageID m = Inr (hs, content)"
  shows "validate (parseable tk) m = None"
    and "\<exists>ctype. hs = own_headers tk now messageID m @ [\<lparr>Name = ''Content-Type'', Value = ctype\<rparr>] @ Extra m \<and>
      (\<forall>b. boundary = Inr b \<longrightarrow> \<not> breaks_line b \<longrightarrow> \<not> breaks_line ctype)"
    and "\<forall>h \<in> set (Extra m). to_lower (trim_space (Name h)) \<notin> set reservedHeaders"
  using assms by (auto simp: Build_def Let_def add_extra_headers split: option.splits if_splits sum.splits)

lemma validate_clean:
  assumes "validate parse m = None"
  shows "\<not> breaks_line (Subject m)" "\<not> breaks_line (From m)" "\<not> breaks_line (To m)" "h \<in> set (Extra m) \<Longrightarrow> one_line h"
  using assms by (auto simp: validate_def extraValues_def one_line_def list_ex_iff split: if_splits)

lemma Build_one_line:
  assumes "Build tk boundary now messageID m = Inr (hs, content)" "clean_tools tk" "\<not> breaks_line messageID"
    and "\<And>b. boundary = Inr b \<Longrightarrow> \<not> breaks_line b" "isl boundary \<Longrightarrow> HTML m = [] \<or> Text m = []"
  shows "\<forall>h \<in> set hs. one_line h"
proof -
  note v = validate_clean [OF Build_headers(1) [OF assms(1)]]
  have own: "\<forall>h \<in> set (own_headers tk now messageID m). one_line h"
    using v assms(2,3) by (auto simp: own_headers_def one_line_def clean_tools_def)
  have "\<exists>ctype. hs = own_headers tk now messageID m @ [\<lparr>Name = ''Content-Type'', Value = ctype\<rparr>] @ Extra m \<and> \<not> breaks_line ctype"
    using assms(1,4,5) by (auto simp: Build_def Let_def add_extra_headers split: option.splits if_splits sum.splits)
  with own v(4) show ?thesis by (auto simp: one_line_def)
qed

text \<open>The header section as a receiver reads it: the lines up to the first empty one.\<close>

fun crlf_line :: "string \<Rightarrow> (string \<times> string) option" where
  "crlf_line [] = None"
| "crlf_line (c # s) =
     (if c = CR \<and> s \<noteq> [] \<and> hd s = LF then Some ([], tl s) else map_option (\<lambda>(l, r). (c # l, r)) (crlf_line s))"

lemma crlf_line_rest: "crlf_line s = Some (l, r) \<Longrightarrow> length r < length s"
  by (induction s arbitrary: l r) (auto split: if_splits)

function header_lines :: "string \<Rightarrow> (string list \<times> string) option" where
  "header_lines s =
     (case crlf_line s of
        None \<Rightarrow> None
      | Some (l, r) \<Rightarrow> if l = [] then Some ([], r) else map_option (\<lambda>(ls, b). (l # ls, b)) (header_lines r))"
  by auto
termination by (relation "measure length") (auto dest: crlf_line_rest)

declare header_lines.simps [simp del]

lemma crlf_line_app: "\<not> breaks_line l \<Longrightarrow> crlf_line (l @ CRLF @ r) = Some (l, r)"
  by (induction l) auto

lemma header_lines_Render:
  "\<forall>h \<in> set hs. one_line h \<Longrightarrow> header_lines (Render hs content) = Some (map (\<lambda>h. Name h @ '': '' @ Value h) hs, content)"
proof (induction hs)
  case Nil
  have "crlf_line (CRLF @ content) = Some ([], content)" by simp
  then show ?case by (subst header_lines.simps) (simp add: Render_def)
next
  case (Cons h hs)
  have "crlf_line (Render (h # hs) content) = Some (Name h @ '': '' @ Value h, Render hs content)"
    using crlf_line_app [of "Name h @ '': '' @ Value h" "Render hs content"] Cons.prems
    by (simp add: Render_def render_header_def one_line_def)
  with Cons show ?case by (subst header_lines.simps) simp
qed

text \<open>
  A message has the headers it was built with and no others: whatever the caller put into the fields,
  a receiver that reads lines up to the first empty one finds the seven headers of this service and
  then those the caller added, each on one line, and after them the body. No value can end its line
  or start the body.
\<close>

theorem message_reads_back:
  assumes "Build tk boundary now messageID m = Inr (hs, content)" "clean_tools tk" "\<not> breaks_line messageID"
    and "boundary = Inr b" "\<not> breaks_line b"
  shows "\<exists>ctype. header_lines (Render hs content) = Some (
    [''From: '' @ From m, ''To: '' @ To m, ''Subject: '' @ encodeSubject tk (Subject m), ''Date: '' @ rfc1123z tk now,
     ''Message-ID: <'' @ messageID @ ''>'', ''MIME-Version: 1.0'', ''Content-Type: '' @ ctype] @
    map (\<lambda>h. Name h @ '': '' @ Value h) (Extra m), content)"
proof -
  from Build_headers(2) [OF assms(1)] obtain ctype where
    hs: "hs = own_headers tk now messageID m @ [\<lparr>Name = ''Content-Type'', Value = ctype\<rparr>] @ Extra m" by blast
  have "\<forall>h \<in> set hs. one_line h" by (rule Build_one_line [OF assms(1-3)]) (use assms(4,5) in auto)
  from header_lines_Render [OF this, of content] hs show ?thesis by (auto simp: own_headers_def intro!: exI [of _ ctype])
qed

definition example_message :: message where
  "example_message = \<lparr>From = ''a@x.org'', To = ''b@y.org'', Subject = ''hi'', Text = ''hello'', HTML = [],
     Extra = [\<lparr>Name = ''X-Tag'', Value = ''1''\<rparr>]\<rparr>"

definition example_tools :: tools where
  "example_tools = \<lparr>parseable = (\<lambda>s. CHR ''@'' \<in> set s), encodeSubject = (\<lambda>s. s), rfc1123z = (\<lambda>t. ''now'')\<rparr>"

lemma example_build:
  "Build example_tools (Inr ''B'') 0 ''1@x.org'' example_message =
     Inr (own_headers example_tools 0 ''1@x.org'' example_message @
       [\<lparr>Name = ''Content-Type'', Value = ''text/plain; charset=utf-8''\<rparr>, \<lparr>Name = ''X-Tag'', Value = ''1''\<rparr>], ''hello'')"
  by code_simp

theorem message_reads_back_witness:
  "\<exists>ctype. header_lines (Render (own_headers example_tools 0 ''1@x.org'' example_message @
       [\<lparr>Name = ''Content-Type'', Value = ''text/plain; charset=utf-8''\<rparr>, \<lparr>Name = ''X-Tag'', Value = ''1''\<rparr>]) ''hello'') =
    Some ([''From: a@x.org'', ''To: b@y.org'', ''Subject: hi'', ''Date: now'', ''Message-ID: <1@x.org>'', ''MIME-Version: 1.0'',
      ''Content-Type: '' @ ctype, ''X-Tag: 1''], ''hello'')"
  using message_reads_back [OF example_build, of "''B''"]
  by (simp add: example_tools_def example_message_def clean_tools_def)

text \<open>
  The caller can set a header that is reserved: the name is compared with the reserved ones, but a colon
  in it is not refused, so what is written as the name of an added header may be a whole other header.
  Here a message gets a second From, of the caller's choice.
\<close>

theorem caller_sets_from:
  assumes "Build tk boundary now messageID (m\<lparr>Extra := []\<rparr>) = Inr (hs, content)"
    and "\<not> breaks_line v" "\<not> breaks_line y" "v \<noteq> []" "\<not> is_space (last v)"
  shows "\<exists>hs'. Build tk boundary now messageID (m\<lparr>Extra := [\<lparr>Name = ''From: '' @ v, Value = y\<rparr>]\<rparr>) = Inr (hs', content) \<and>
    render_header (last hs') = ''From: '' @ v @ '': '' @ y @ CRLF"
proof -
  let ?h = "\<lparr>Name = ''From: '' @ v, Value = y\<rparr>"
  have "trim_space (''From: '' @ v) = ''From: '' @ v"
    using assms(4,5) by (cases v rule: rev_cases) (auto simp: trim_space_def trim_left_def trim_right_def is_space_def)
  then have n: "to_lower (trim_space (Name ?h)) \<notin> set reservedHeaders"
    by (auto simp: to_lower_def lower_char_def reservedHeaders_def)
  have "validate (parseable tk) (m\<lparr>Extra := [?h]\<rparr>) = None"
    using Build_headers(1) [OF assms(1)] assms(2,3) by (auto simp: validate_def extraValues_def split: if_splits)
  then show ?thesis
    using assms(1) n by (auto simp: Build_def own_headers_def render_header_def multipart_body_def Let_def add_extra_headers
        split: option.splits if_splits sum.splits)
qed

end
