(* ===== verification/Sender.thy ===== *)
theory Sender
  imports Message
begin

text \<open>
  One delivery: \<open>internal/relay/sender.go\<close>.

  The connection is a parameter: writing, reading one line with its end, the TLS handshake. The reader
  after the handshake is a new one, so what an operation of the environment returns after it does not
  come from before. Deadlines are errors the environment returns; \<open>deadlined\<close> states that reading
  does not go on for ever. Every write and every reply is kept in a log.
  \<open>MXHost\<close> is only the server name the handshake is made with; the errors of \<open>readFullReply\<close> quote the
  line in the code and do not here.

  The theorems show that a receiver gets exactly the message, whatever lines it has, that a delivery is
  reported exactly when the server took the message, and that a delivery ends.
\<close>

section \<open>Replies\<close>

record outcome =
  Delivered :: bool
  Permanent :: bool
  OCode :: int
  OReply :: string
  OErr :: string
  OTLS :: bool

definition no_outcome :: outcome where
  "no_outcome = \<lparr>Delivered = False, Permanent = False, OCode = 0, OReply = [], OErr = [], OTLS = False\<rparr>"

definition reply_outcome :: "int \<Rightarrow> string \<Rightarrow> outcome" where
  "reply_outcome code t = no_outcome\<lparr>Permanent := (code \<ge> 500), OCode := code, OReply := t\<rparr>"

definition withTLS :: "outcome \<Rightarrow> bool \<Rightarrow> outcome" where
  "withTLS o1 used = o1\<lparr>OTLS := used\<rparr>"

record send_options =
  SHelo :: string
  SMailFrom :: string
  SRcptTo :: string
  SData :: string

datatype wire_event = Wrote string | Got int string | Handshake

record 'w smtp =
  put :: "string \<Rightarrow> 'w \<Rightarrow> string option \<times> 'w"
  get_line :: "'w \<Rightarrow> (string + string) \<times> 'w"
  handshake :: "'w \<Rightarrow> string option \<times> 'w"

record 'w delivery =
  world :: 'w
  talk :: "wire_event list"

definition line_end :: "char \<Rightarrow> bool" where
  "line_end c \<longleftrightarrow> c = CR \<or> c = LF"

text \<open>\<open>readFullReply\<close>: all lines up to one that is not a continuation.\<close>

partial_function (option) readFullReply ::
  "'w smtp \<Rightarrow> string list \<Rightarrow> 'w \<Rightarrow> ((string + int \<times> string) \<times> 'w) option" where
  "readFullReply sm all w =
     (case get_line sm w of
        (Inl e, w) \<Rightarrow> Some (Inl e, w)
      | (Inr raw, w) \<Rightarrow>
          let line = trim_right line_end raw
          in if length line < 3 then Some (Inl (''relay: short reply''), w)
             else case atoi (take 3 line) of
                    None \<Rightarrow> Some (Inl (''relay: bad reply''), w)
                  | Some code \<Rightarrow>
                      if length line > 3 \<and> line ! 3 = CHR ''-'' then readFullReply sm (all @ [line]) w
                      else Some (Inr (code, join_with [LF] (all @ [line])), w))"

declare readFullReply.simps [code]

section \<open>Transparency\<close>

definition stuff_line :: "string \<Rightarrow> string" where
  "stuff_line l = (if has_prefix l ''.'' then CHR ''.'' # l else l)"

definition dotStuff :: "string \<Rightarrow> string" where
  "dotStuff d =
     (let ls = map stuff_line (split_on LF (replace_all CRLF [LF] d));
          out = join_with CRLF ls;
          out = (if has_suffix out CRLF then out else out @ CRLF)
      in out @ ''.'' @ CRLF)"

section \<open>The delivery\<close>

text \<open>\<open>step\<close>: write the command, if there is one, and read the reply.\<close>

definition say :: "'w smtp \<Rightarrow> string \<Rightarrow> 'w delivery \<Rightarrow> string option \<times> 'w delivery" where
  "say sm bytes st =
     (case put sm bytes (world st) of
        (Some e, w) \<Rightarrow> (Some e, st\<lparr>world := w\<rparr>)
      | (None, w) \<Rightarrow> (None, \<lparr>world = w, talk = talk st @ [Wrote bytes]\<rparr>))"

definition hear :: "'w smtp \<Rightarrow> 'w delivery \<Rightarrow> ((string + int \<times> string) \<times> 'w delivery) option" where
  "hear sm st =
     (case readFullReply sm [] (world st) of
        None \<Rightarrow> None
      | Some (Inl e, w) \<Rightarrow> Some (Inl e, st\<lparr>world := w\<rparr>)
      | Some (Inr (code, t), w) \<Rightarrow> Some (Inr (code, t), \<lparr>world = w, talk = talk st @ [Got code t]\<rparr>))"

definition smtp_step :: "'w smtp \<Rightarrow> string \<Rightarrow> 'w delivery \<Rightarrow> ((string + int \<times> string) \<times> 'w delivery) option" where
  "smtp_step sm cmd st =
     (if cmd = [] then hear sm st
      else case say sm (cmd @ CRLF) st of
             (Some e, st) \<Rightarrow> Some (Inl e, st)
           | (None, st) \<Rightarrow> hear sm st)"

text \<open>A step that ends the delivery unless the reply has one of the codes; a transport error has no code.\<close>

definition expect ::
  "'w smtp \<Rightarrow> string \<Rightarrow> (int \<Rightarrow> bool) \<Rightarrow> bool \<Rightarrow> 'w delivery \<Rightarrow>
   (string \<Rightarrow> 'w delivery \<Rightarrow> (outcome \<times> 'w delivery) option) \<Rightarrow> (outcome \<times> 'w delivery) option" where
  "expect sm cmd want used st go =
     (case smtp_step sm cmd st of
        None \<Rightarrow> None
      | Some (Inl e, st) \<Rightarrow> Some (no_outcome\<lparr>OErr := e\<rparr>, st)
      | Some (Inr (code, t), st) \<Rightarrow>
          if want code then go t st else Some (withTLS (reply_outcome code t) used, st))"

text \<open>From MAIL FROM on; the reply to MAIL FROM does not record whether TLS was used.\<close>

definition send_data :: "'w smtp \<Rightarrow> send_options \<Rightarrow> bool \<Rightarrow> 'w delivery \<Rightarrow> (outcome \<times> 'w delivery) option" where
  "send_data sm opt used st =
     (case say sm (dotStuff (SData opt)) st of
        (Some e, st) \<Rightarrow> Some (no_outcome\<lparr>OErr := e\<rparr>, st)
      | (None, st) \<Rightarrow>
          (case smtp_step sm [] st of
             None \<Rightarrow> None
           | Some (Inl e, st) \<Rightarrow> Some (no_outcome\<lparr>OErr := e\<rparr>, st)
           | Some (Inr (code, t), st) \<Rightarrow>
               (case smtp_step sm ''QUIT'' st of
                  None \<Rightarrow> None
                | Some (_, st) \<Rightarrow>
                    Some (if code = 250 then no_outcome\<lparr>Delivered := True, OCode := code, OReply := t, OTLS := used\<rparr>
                          else withTLS (reply_outcome code t) used, st))))"

definition transfer ::
  "'w smtp \<Rightarrow> send_options \<Rightarrow> bool \<Rightarrow> 'w delivery \<Rightarrow> (outcome \<times> 'w delivery) option" where
  "transfer sm opt used st =
     expect sm (''MAIL FROM:<'' @ SMailFrom opt @ ''>'') (\<lambda>c. c = 250) False st (\<lambda>_ st.
     expect sm (''RCPT TO:<'' @ SRcptTo opt @ ''>'') (\<lambda>c. c = 250 \<or> c = 251) used st (\<lambda>_ st.
     expect sm ''DATA'' (\<lambda>c. c = 354) used st (\<lambda>_ st. send_data sm opt used st)))"

definition Send :: "'w smtp \<Rightarrow> send_options \<Rightarrow> 'w delivery \<Rightarrow> (outcome \<times> 'w delivery) option" where
  "Send sm opt st =
     expect sm [] (\<lambda>c. c = 220) False st (\<lambda>_ st.
     expect sm (''EHLO '' @ SHelo opt) (\<lambda>c. c = 250) False st (\<lambda>t st.
       if contains (to_upper t) ''STARTTLS'' then
         expect sm ''STARTTLS'' (\<lambda>c. c = 220) False st (\<lambda>_ st.
           case handshake sm (world st) of
             (Some e, w) \<Rightarrow> Some (no_outcome\<lparr>OErr := e\<rparr>, st\<lparr>world := w\<rparr>)
           | (None, w) \<Rightarrow>
               expect sm (''EHLO '' @ SHelo opt) (\<lambda>c. c = 250) False \<lparr>world = w, talk = talk st @ [Handshake]\<rparr>
                 (\<lambda>_ st. transfer sm opt True st))
       else transfer sm opt False st))"

section \<open>What the receiver gets\<close>

text \<open>A receiver after 354: lines up to a single dot, a leading dot removed from the others.\<close>

function receive :: "string \<Rightarrow> (string \<times> string) option" where
  "receive s =
     (case crlf_line s of
        None \<Rightarrow> None
      | Some (l, r) \<Rightarrow>
          if l = ''.'' then Some ([], r)
          else map_option (\<lambda>(t, rest). ((if has_prefix l ''.'' then tl l else l) @ CRLF @ t, rest)) (receive r))"
  by auto
termination by (relation "measure length") (auto dest: crlf_line_rest)

declare receive.simps [simp del]

text \<open>The message with every line ended by CRLF, the last one included.\<close>

definition as_lines :: "string \<Rightarrow> string" where
  "as_lines d =
     (let t = join_with CRLF (split_on LF (replace_all CRLF [LF] d)) in if has_suffix t CRLF then t else t @ CRLF)"

lemma crlf_line_no_lf: "LF \<notin> set l \<Longrightarrow> crlf_line (l @ CRLF @ r) = Some (l, r)"
proof (induction l)
  case (Cons c l)
  then show ?case by (cases l) auto
qed simp

lemma stuff_line_facts: "stuff_line l \<noteq> ''.''" "LF \<notin> set l \<Longrightarrow> LF \<notin> set (stuff_line l)"
  "(if has_prefix (stuff_line l) ''.'' then tl (stuff_line l) else stuff_line l) = l"
  by (auto simp: stuff_line_def has_prefix_def)

lemma receive_lines:
  assumes "\<forall>l \<in> set ls. LF \<notin> set l"
  shows "receive (concat (map (\<lambda>l. stuff_line l @ CRLF) ls) @ ''.'' @ CRLF @ rest) =
    Some (concat (map (\<lambda>l. l @ CRLF) ls), rest)"
  using assms
proof (induction ls)
  case Nil
  then show ?case using crlf_line_no_lf [of "''.''" rest] by (subst receive.simps) simp
next
  case (Cons l ls)
  let ?rest = "concat (map (\<lambda>l. stuff_line l @ CRLF) ls) @ ''.'' @ CRLF @ rest"
  have "crlf_line (stuff_line l @ CRLF @ ?rest) = Some (stuff_line l, ?rest)"
    using Cons.prems stuff_line_facts(2) [of l] by (intro crlf_line_no_lf) auto
  then have "receive (stuff_line l @ CRLF @ ?rest) =
      map_option (\<lambda>(t, rest). (l @ CRLF @ t, rest)) (receive ?rest)"
    using stuff_line_facts(1,3) [of l] by (subst receive.simps) simp
  with Cons show ?case by simp
qed

text \<open>Lines joined by CRLF, with a last end when the last line is not empty.\<close>

definition ended :: "string list \<Rightarrow> string" where
  "ended ls = (let t = join_with CRLF ls in if has_suffix t CRLF then t else t @ CRLF)"

lemma join_crlf_Cons: "ls \<noteq> [] \<Longrightarrow> join_with CRLF (l # ls) = l @ CRLF @ join_with CRLF ls"
  by (cases ls) auto

lemma no_lf_suffix: "LF \<notin> set l \<Longrightarrow> \<not> has_suffix l CRLF"
  by (auto simp: has_suffix_iff suffix_def)

lemma has_suffix_crlf: "t \<noteq> [] \<Longrightarrow> hd t \<noteq> LF \<Longrightarrow> has_suffix (s @ t) CRLF \<longleftrightarrow> has_suffix t CRLF"
proof -
  assume t: "t \<noteq> []" "hd t \<noteq> LF"
  show ?thesis
  proof
    assume "has_suffix (s @ t) CRLF"
    then obtain u where "s @ t = u @ CRLF" by (auto simp: has_suffix_iff suffix_def)
    with t show "has_suffix t CRLF"
      by (cases t rule: rev_cases; cases "butlast t" rule: rev_cases) (auto simp: has_suffix_iff suffix_def)
  qed (auto simp: has_suffix_iff suffix_def)
qed

lemma ended_concat:
  assumes "ls \<noteq> []" "\<forall>l \<in> set ls. LF \<notin> set l"
  shows "ended ls = concat (map (\<lambda>l. l @ CRLF) (if last ls = [] \<and> length ls > 1 then butlast ls else ls))"
  using assms
proof (induction ls)
  case (Cons l ls)
  show ?case
  proof (cases ls)
    case Nil
    with Cons.prems show ?thesis using no_lf_suffix [of l] by (auto simp: ended_def Let_def)
  next
    case (Cons m ms)
    have j: "join_with CRLF (l # ls) = l @ CRLF @ join_with CRLF ls" using Cons by simp
    show ?thesis
    proof (cases "ls = [[]]")
      case True
      then show ?thesis by (simp add: ended_def has_suffix_iff suffix_def)
    next
      case False
      have ne: "join_with CRLF ls \<noteq> []" using False Cons by (cases ms) auto
      have hd: "hd (join_with CRLF ls) \<noteq> LF"
        using Cons Cons.prems(2) False by (cases ms; cases m) auto
      have "has_suffix (join_with CRLF (l # ls)) CRLF \<longleftrightarrow> has_suffix (join_with CRLF ls) CRLF"
        unfolding j using has_suffix_crlf [OF ne hd, of "l @ CRLF"] by simp
      then have "ended (l # ls) = l @ CRLF @ ended ls" unfolding ended_def Let_def j by simp
      moreover have "ended ls = concat (map (\<lambda>l. l @ CRLF) (if last ls = [] \<and> length ls > 1 then butlast ls else ls))"
        using Cons.IH Cons Cons.prems(2) by simp
      ultimately show ?thesis using Cons False by (cases ms) auto
    qed
  qed
qed simp

lemma receive_dotStuff: "receive (dotStuff d @ rest) = Some (as_lines d, rest)"
proof -
  let ?ls = "split_on LF (replace_all CRLF [LF] d)"
  have no: "\<forall>l \<in> set ?ls. LF \<notin> set l" using split_on_no_sep by blast
  have no2: "\<forall>l \<in> set (if last ?ls = [] \<and> length ?ls > 1 then butlast ?ls else ?ls). LF \<notin> set l"
    using no by (auto dest: in_set_butlastD)
  let ?k = "\<lambda>ls. if last ls = [] \<and> length ls > 1 then butlast ls else (ls :: string list)"
  have stuffed: "\<forall>l \<in> set (map stuff_line ?ls). LF \<notin> set l" using no stuff_line_facts(2) by auto
  have empty: "stuff_line l = [] \<longleftrightarrow> l = []" for l by (auto simp: stuff_line_def has_prefix_def)
  have k: "?k (map stuff_line ?ls) = map stuff_line (?k ?ls)"
    using empty [of "last ?ls"] by (simp add: last_map map_butlast)
  have "dotStuff d @ rest = ended (map stuff_line ?ls) @ ''.'' @ CRLF @ rest" by (simp add: dotStuff_def ended_def Let_def)
  also have "\<dots> = concat (map (\<lambda>l. stuff_line l @ CRLF) (?k ?ls)) @ ''.'' @ CRLF @ rest"
    by (subst ended_concat [OF _ stuffed]) (simp_all only: k map_map o_def map_is_Nil_conv split_on_ne not_False_eq_True)
  finally have "receive (dotStuff d @ rest) = Some (concat (map (\<lambda>l. l @ CRLF) (?k ?ls)), rest)"
    using receive_lines [OF no2, of rest] by simp
  moreover have "as_lines d = concat (map (\<lambda>l. l @ CRLF) (?k ?ls))"
    using ended_concat [OF _ no] by (simp add: as_lines_def ended_def Let_def)
  ultimately show ?thesis by simp
qed

text \<open>
  C31. Transparency: whatever bytes a message has, a receiver that reads lines up to a single dot and
  removes the dot that was added gets the message, every line of it ended by CRLF, and stops exactly
  where the message ends: no body can end the data early, and nothing of it is read as a command.
\<close>

theorem dotStuff_roundtrip: "receive (dotStuff d @ rest) = Some (as_lines d, rest)"
  by (rule receive_dotStuff)

section \<open>What a delivery reports\<close>

lemma hear_talk:
  assumes "hear sm st = Some (r, st')"
  shows "talk st' = talk st @ (case r of Inl _ \<Rightarrow> [] | Inr (code, t) \<Rightarrow> [Got code t])"
  using assms by (auto simp: hear_def split: option.splits sum.splits)

lemma say_talk:
  assumes "say sm b st = (r, st')"
  shows "talk st' = talk st @ (case r of Some _ \<Rightarrow> [] | None \<Rightarrow> [Wrote b])"
  using assms by (auto simp: say_def split: option.splits prod.splits)

text \<open>What one step adds to the log: what was written, if it could be, and what was read.\<close>

lemma smtp_step_talk:
  assumes "smtp_step sm cmd st = Some (r, st')"
  shows "\<exists>ws. set ws \<subseteq> {Wrote (cmd @ CRLF)} \<and> talk st' = talk st @ ws @ (case r of Inl _ \<Rightarrow> [] | Inr (code, t) \<Rightarrow> [Got code t])"
proof (cases "cmd = []")
  case True
  then show ?thesis using assms hear_talk [of sm st r st'] by (intro exI [of _ "[]"]) (simp add: smtp_step_def)
next
  case False
  obtain e s1 where s1: "say sm (cmd @ CRLF) st = (e, s1)" by (metis prod.exhaust)
  show ?thesis
  proof (cases e)
    case None
    with assms False s1 have "hear sm s1 = Some (r, st')" by (simp add: smtp_step_def)
    from hear_talk [OF this] say_talk [OF s1] None show ?thesis by (intro exI [of _ "[Wrote (cmd @ CRLF)]"]) simp
  next
    case (Some x)
    with assms False s1 say_talk [OF s1] show ?thesis by (intro exI [of _ "[]"]) (auto simp: smtp_step_def)
  qed
qed

text \<open>The message was written and taken.\<close>

definition taken :: "string \<Rightarrow> wire_event list \<Rightarrow> bool" where
  "taken d evs \<longleftrightarrow> (\<exists>pre t post. evs = pre @ [Wrote (dotStuff d), Got 250 t] @ post)"

text \<open>What may be said of an outcome that is not a delivery.\<close>

definition undelivered :: "string \<Rightarrow> outcome \<Rightarrow> wire_event list \<Rightarrow> bool" where
  "undelivered d out evs \<longleftrightarrow> \<not> Delivered out \<and> \<not> taken d evs \<and>
     (Permanent out \<longrightarrow> OCode out \<ge> 500 \<and> Got (OCode out) (OReply out) \<in> set evs)"

definition unsent :: "string \<Rightarrow> wire_event list \<Rightarrow> bool" where
  "unsent d evs \<longleftrightarrow> Wrote (dotStuff d) \<notin> set evs"

lemma unsent_not_taken: "unsent d evs \<Longrightarrow> \<not> taken d evs"
  by (auto simp: unsent_def taken_def)

lemma outcome_simps [simp]:
  "Delivered no_outcome = False" "Permanent no_outcome = False"
  "Delivered (reply_outcome code t) = False" "Permanent (reply_outcome code t) = (code \<ge> 500)"
  "OCode (reply_outcome code t) = code" "OReply (reply_outcome code t) = t"
  "Delivered (withTLS o1 u) = Delivered o1" "Permanent (withTLS o1 u) = Permanent o1"
  "OCode (withTLS o1 u) = OCode o1" "OReply (withTLS o1 u) = OReply o1"
  by (simp_all add: no_outcome_def reply_outcome_def withTLS_def)

lemma command_not_data:
  assumes "LF \<notin> set cmd"
  shows "cmd @ CRLF \<noteq> dotStuff d"
proof
  assume c: "cmd @ CRLF = dotStuff d"
  have "\<exists>w. dotStuff d = (w @ CRLF @ ''.'') @ CRLF" by (auto simp: dotStuff_def Let_def has_suffix_iff suffix_def)
  with c obtain w where "cmd @ CRLF = (w @ CRLF @ ''.'') @ CRLF" by metis
  then have "cmd = w @ CRLF @ ''.''" by blast
  with assms show False by simp
qed

lemma smtp_step_Inr:
  assumes "smtp_step sm cmd st = Some (Inr (code, t), st')"
  shows "talk st' = talk st @ (if cmd = [] then [] else [Wrote (cmd @ CRLF)]) @ [Got code t]"
proof (cases "cmd = []")
  case True
  then show ?thesis using assms hear_talk [of sm st "Inr (code, t)" st'] by (simp add: smtp_step_def)
next
  case False
  obtain e s1 where s1: "say sm (cmd @ CRLF) st = (e, s1)" by (metis prod.exhaust)
  with assms False have "e = None" "hear sm s1 = Some (Inr (code, t), st')" by (auto simp: smtp_step_def split: option.splits)
  with hear_talk [OF this(2)] say_talk [OF s1] False show ?thesis by simp
qed

text \<open>An expected reply, or the end of the delivery without the message having been sent.\<close>

lemma expect_cases:
  assumes "expect sm cmd want used st go = Some (out, st')" "unsent d (talk st)" "LF \<notin> set cmd"
  shows "undelivered d out (talk st') \<or> (\<exists>t st1 code. go t st1 = Some (out, st') \<and> unsent d (talk st1) \<and> want code \<and>
    talk st1 = talk st @ (if cmd = [] then [] else [Wrote (cmd @ CRLF)]) @ [Got code t])"
proof -
  obtain r s1 where r: "smtp_step sm cmd st = Some (r, s1)"
    using assms(1) by (cases "smtp_step sm cmd st") (auto simp: expect_def)
  from smtp_step_talk [OF r] obtain ws where ws: "set ws \<subseteq> {Wrote (cmd @ CRLF)}"
    "talk s1 = talk st @ ws @ (case r of Inl _ \<Rightarrow> [] | Inr (code, t) \<Rightarrow> [Got code t])" by blast
  have un: "unsent d (talk s1)"
    using ws assms(2) command_not_data [OF assms(3), of d] by (auto simp: unsent_def split: sum.splits)
  show ?thesis
  proof (cases r)
    case (Inl e)
    with assms(1) r un unsent_not_taken [OF un] show ?thesis by (auto simp: expect_def undelivered_def)
  next
    case (Inr p)
    obtain code t where p: "p = (code, t)" by fastforce
    show ?thesis
    proof (cases "want code")
      case False
      with assms(1) r Inr p ws unsent_not_taken [OF un] show ?thesis by (auto simp: expect_def undelivered_def)
    next
      case True
      with assms(1) r Inr p un smtp_step_Inr [OF r [unfolded Inr p]] show ?thesis
        by (intro disjI2 exI [of _ t] exI [of _ s1] exI [of _ code]) (auto simp: expect_def)
    qed
  qed
qed

lemma taken_once:
  assumes "unsent d pre" "unsent d post"
  shows "taken d (pre @ Wrote (dotStuff d) # Got code t # post) \<longleftrightarrow> code = 250"
proof -
  have "Wrote (dotStuff d) \<notin> set (Got code t # post)" "Wrote (dotStuff d) \<notin> set pre"
    using assms by (simp_all add: unsent_def)
  from append_Cons_eq_iff [OF this(2,1)] show ?thesis by (auto simp: taken_def)
qed

lemma taken_unanswered: "unsent d pre \<Longrightarrow> \<not> taken d (pre @ [Wrote (dotStuff d)])"
  using append_Cons_eq_iff [of "Wrote (dotStuff d)" pre "[]"] by (auto simp: taken_def unsent_def)

text \<open>The end of a delivery that got as far as the reply to the data.\<close>

definition settled :: "send_options \<Rightarrow> outcome \<Rightarrow> wire_event list \<Rightarrow> bool" where
  "settled opt out evs \<longleftrightarrow>
     (\<exists>p r t1 t2 code t post. evs = p @ [Wrote (''RCPT TO:<'' @ SRcptTo opt @ ''>'' @ CRLF), Got r t1, Wrote (''DATA'' @ CRLF), Got 354 t2,
        Wrote (dotStuff (SData opt)), Got code t] @ post \<and> (r = 250 \<or> r = 251) \<and>
      (Delivered out \<longleftrightarrow> code = 250) \<and> (taken (SData opt) evs \<longleftrightarrow> code = 250) \<and>
      (Permanent out \<longrightarrow> code \<ge> 500 \<and> OCode out = code \<and> OReply out = t))"

lemma data_settled:
  assumes "send_data sm opt used st = Some (out, st')" "unsent (SData opt) (talk st)" "r = 250 \<or> r = 251"
    and "talk st = p @ [Wrote (''RCPT TO:<'' @ SRcptTo opt @ ''>'' @ CRLF), Got r t1, Wrote (''DATA'' @ CRLF), Got 354 t2]"
  shows "undelivered (SData opt) out (talk st') \<or> settled opt out (talk st')"
proof -
  let ?d = "SData opt"
  obtain e s1 where s1: "say sm (dotStuff ?d) st = (e, s1)" by (metis prod.exhaust)
  note t1 = say_talk [OF s1]
  show ?thesis
  proof (cases e)
    case (Some x)
    with assms(1) s1 t1 unsent_not_taken [OF assms(2)] show ?thesis by (auto simp: send_data_def undelivered_def)
  next
    case None
    obtain r2 s2 where s2: "smtp_step sm [] s1 = Some (r2, s2)"
      using assms(1) s1 None by (cases "smtp_step sm [] s1") (auto simp: send_data_def)
    then have t2: "talk s2 = talk s1 @ (case r2 of Inl _ \<Rightarrow> [] | Inr (code, t) \<Rightarrow> [Got code t])"
      using hear_talk [of sm s1 r2 s2] by (simp add: smtp_step_def)
    show ?thesis
    proof (cases r2)
      case (Inl x)
      with assms(1) s1 s2 None t1 t2 taken_unanswered [OF assms(2)] show ?thesis
        by (auto simp: send_data_def undelivered_def)
    next
      case (Inr c)
      obtain code t where c: "c = (code, t)" by fastforce
      obtain r3 s3 where s3: "smtp_step sm ''QUIT'' s2 = Some (r3, s3)"
        using assms(1) s1 s2 None Inr c by (cases "smtp_step sm ''QUIT'' s2") (auto simp: send_data_def)
      from smtp_step_talk [OF s3] obtain ws where ws: "set ws \<subseteq> {Wrote (''QUIT'' @ CRLF)}"
        "talk s3 = talk s2 @ ws @ (case r3 of Inl _ \<Rightarrow> [] | Inr (code, t) \<Rightarrow> [Got code t])" by blast
      let ?post = "ws @ (case r3 of Inl _ \<Rightarrow> [] | Inr (code, t) \<Rightarrow> [Got code t])"
      have post: "unsent ?d ?post"
        using ws(1) command_not_data [of "''QUIT''" ?d] by (auto simp: unsent_def split: sum.splits)
      have out: "st' = s3" "out = (if code = 250 then no_outcome\<lparr>Delivered := True, OCode := code, OReply := t, OTLS := used\<rparr>
          else withTLS (reply_outcome code t) used)"
        using assms(1) s1 s2 s3 None Inr c by (auto simp: send_data_def)
      have talk: "talk st' = talk st @ Wrote (dotStuff ?d) # Got code t # ?post"
        using out(1) None Inr c t1 t2 ws(2) by simp
      have "settled opt out (talk st')"
        unfolding settled_def
        by (intro exI [of _ p] exI [of _ r] exI [of _ t1] exI [of _ t2] exI [of _ code] exI [of _ t] exI [of _ ?post])
          (use talk assms(3,4) taken_once [OF assms(2) post, of code t] in \<open>simp add: out(2) no_outcome_def\<close>)
      then show ?thesis ..
    qed
  qed
qed

lemma transfer_settled:
  assumes "transfer sm opt used st = Some (out, st')" "unsent (SData opt) (talk st)"
    and "LF \<notin> set (SMailFrom opt)" "LF \<notin> set (SRcptTo opt)"
  shows "undelivered (SData opt) out (talk st') \<or> settled opt out (talk st')"
proof (rule ccontr)
  let ?d = "SData opt"
  assume no: "\<not> ?thesis"
  from expect_cases [OF assms(1) [unfolded transfer_def] assms(2)] no assms(3) obtain st1 where 1: "unsent ?d (talk st1)"
    and g1: "expect sm (''RCPT TO:<'' @ SRcptTo opt @ ''>'') (\<lambda>c. c = 250 \<or> c = 251) used st1
      (\<lambda>_ st. expect sm ''DATA'' (\<lambda>c. c = 354) used st (\<lambda>_ st. send_data sm opt used st)) = Some (out, st')" by auto
  from expect_cases [OF g1 1] no assms(4) obtain t2 st2 r where 2: "unsent ?d (talk st2)" "r = 250 \<or> r = 251"
    and talk2: "talk st2 = talk st1 @ [Wrote (''RCPT TO:<'' @ SRcptTo opt @ ''>'' @ CRLF), Got r t2]"
    and g2: "expect sm ''DATA'' (\<lambda>c. c = 354) used st2 (\<lambda>_ st. send_data sm opt used st) = Some (out, st')" by auto
  from expect_cases [OF g2 2(1)] no obtain t3 st3 where "unsent ?d (talk st3)" "send_data sm opt used st3 = Some (out, st')"
    "talk st3 = talk st2 @ [Wrote (''DATA'' @ CRLF), Got 354 t3]" by auto
  with data_settled [of sm opt used st3 out st' r "talk st1" t2 t3] 2(2) talk2 no show False by simp
qed

lemma Send_settled:
  assumes "Send sm opt st = Some (out, st')" "talk st = []"
    and plain: "LF \<notin> set (SHelo opt)" "LF \<notin> set (SMailFrom opt)" "LF \<notin> set (SRcptTo opt)"
  shows "undelivered (SData opt) out (talk st') \<or> settled opt out (talk st')"
proof (rule ccontr)
  let ?d = "SData opt"
  assume no: "\<not> ?thesis"
  have 0: "unsent ?d (talk st)" by (simp add: assms(2) unsent_def)
  from expect_cases [OF assms(1) [unfolded Send_def] 0] no obtain st1 where 1: "unsent ?d (talk st1)"
    and g1: "expect sm (''EHLO '' @ SHelo opt) (\<lambda>c. c = 250) False st1 (\<lambda>t st.
       if contains (to_upper t) ''STARTTLS'' then
         expect sm ''STARTTLS'' (\<lambda>c. c = 220) False st (\<lambda>_ st.
           case handshake sm (world st) of
             (Some e, w) \<Rightarrow> Some (no_outcome\<lparr>OErr := e\<rparr>, st\<lparr>world := w\<rparr>)
           | (None, w) \<Rightarrow>
               expect sm (''EHLO '' @ SHelo opt) (\<lambda>c. c = 250) False \<lparr>world = w, talk = talk st @ [Handshake]\<rparr>
                 (\<lambda>_ st. transfer sm opt True st))
       else transfer sm opt False st) = Some (out, st')" by auto
  from expect_cases [OF g1 1] no plain(1) obtain t st2 where 2: "unsent ?d (talk st2)"
    and g2: "(if contains (to_upper t) ''STARTTLS'' then
         expect sm ''STARTTLS'' (\<lambda>c. c = 220) False st2 (\<lambda>_ st.
           case handshake sm (world st) of
             (Some e, w) \<Rightarrow> Some (no_outcome\<lparr>OErr := e\<rparr>, st\<lparr>world := w\<rparr>)
           | (None, w) \<Rightarrow>
               expect sm (''EHLO '' @ SHelo opt) (\<lambda>c. c = 250) False \<lparr>world = w, talk = talk st @ [Handshake]\<rparr>
                 (\<lambda>_ st. transfer sm opt True st))
       else transfer sm opt False st2) = Some (out, st')" by auto
  show False
  proof (cases "contains (to_upper t) ''STARTTLS''")
    case False
    with g2 transfer_settled [OF _ 2 plain(2,3)] no show False by simp
  next
    case True
    from expect_cases [OF g2 [simplified True if_True] 2] no obtain st3 where 3: "unsent ?d (talk st3)"
      and g3: "(case handshake sm (world st3) of
             (Some e, w) \<Rightarrow> Some (no_outcome\<lparr>OErr := e\<rparr>, st3\<lparr>world := w\<rparr>)
           | (None, w) \<Rightarrow>
               expect sm (''EHLO '' @ SHelo opt) (\<lambda>c. c = 250) False \<lparr>world = w, talk = talk st3 @ [Handshake]\<rparr>
                 (\<lambda>_ st. transfer sm opt True st)) = Some (out, st')" by auto
    obtain e w where h: "handshake sm (world st3) = (e, w)" by (metis prod.exhaust)
    show False
    proof (cases e)
      case (Some x)
      with g3 h unsent_not_taken [OF 3] no show False by (auto simp: undelivered_def)
    next
      case None
      have 4: "unsent ?d (talk \<lparr>world = w, talk = talk st3 @ [Handshake]\<rparr>)" using 3 by (simp add: unsent_def)
      from g3 h None have "expect sm (''EHLO '' @ SHelo opt) (\<lambda>c. c = 250) False \<lparr>world = w, talk = talk st3 @ [Handshake]\<rparr>
          (\<lambda>_ st. transfer sm opt True st) = Some (out, st')" by simp
      from expect_cases [OF this 4] no plain(1) obtain st5 where "unsent ?d (talk st5)" "transfer sm opt True st5 = Some (out, st')"
        by auto
      with transfer_settled [OF _ _ plain(2,3)] no show False by blast
    qed
  qed
qed

text \<open>
  C30. A delivery is reported exactly when the server was heard to take the message: \<open>Delivered\<close> says that the client
  read an acceptance of the recipient, a 354 to DATA and, after it had written the whole message, a 250; when
  \<open>Delivered\<close> is not set, no such answer was read (a server whose answer was lost may still have the message). \<open>Permanent\<close> is
  only said when \<open>Delivered\<close> is not, and a reply with a code of 500 or more was read, which is the one reported.
  The name of the greeting, the sender and the recipient hold no line feed.
\<close>

theorem Send_reports_truth:
  assumes "Send sm opt \<lparr>world = w, talk = []\<rparr> = Some (out, st')"
    and "LF \<notin> set (SHelo opt)" "LF \<notin> set (SMailFrom opt)" "LF \<notin> set (SRcptTo opt)"
  shows "(Delivered out \<longleftrightarrow> taken (SData opt) (talk st')) \<and>
    (Delivered out \<longrightarrow> (\<exists>p r t1 t2 t post. (r = 250 \<or> r = 251) \<and>
       talk st' = p @ [Wrote (''RCPT TO:<'' @ SRcptTo opt @ ''>'' @ CRLF), Got r t1, Wrote (''DATA'' @ CRLF), Got 354 t2,
         Wrote (dotStuff (SData opt)), Got 250 t] @ post)) \<and>
    (Permanent out \<longrightarrow> \<not> Delivered out \<and> OCode out \<ge> 500 \<and> Got (OCode out) (OReply out) \<in> set (talk st'))"
proof (cases "settled opt out (talk st')")
  case True
  then obtain p r t1 t2 code t post where s: "talk st' = p @ [Wrote (''RCPT TO:<'' @ SRcptTo opt @ ''>'' @ CRLF), Got r t1,
      Wrote (''DATA'' @ CRLF), Got 354 t2, Wrote (dotStuff (SData opt)), Got code t] @ post" "r = 250 \<or> r = 251"
    "Delivered out \<longleftrightarrow> code = 250" "taken (SData opt) (talk st') \<longleftrightarrow> code = 250"
    "Permanent out \<longrightarrow> code \<ge> 500 \<and> OCode out = code \<and> OReply out = t" unfolding settled_def by blast
  have heard: "Got code t \<in> set (talk st')" by (simp add: s(1))
  have D: "Delivered out \<longleftrightarrow> taken (SData opt) (talk st')" using s(3,4) by simp
  have P: "Permanent out \<longrightarrow> \<not> Delivered out \<and> OCode out \<ge> 500 \<and> Got (OCode out) (OReply out) \<in> set (talk st')"
    using s(3,5) heard by auto
  show ?thesis
  proof (cases "code = 250")
    case True
    with s(1,2) D P show ?thesis by blast
  next
    case False
    with s(3) D P show ?thesis by blast
  qed
next
  case False
  with Send_settled [OF assms(1) _ assms(2-4)] show ?thesis by (auto simp: undelivered_def)
qed

section \<open>A delivery ends\<close>

definition deadlined :: "'w smtp \<Rightarrow> bool" where
  "deadlined sm \<longleftrightarrow> (\<exists>m :: 'w \<Rightarrow> nat. \<forall>w l w'. get_line sm w = (Inr l, w') \<longrightarrow> m w' < m w)"

lemma readFullReply_ends:
  assumes "\<And>w l w'. get_line sm w = (Inr l, w') \<Longrightarrow> m w' < (m w :: nat)"
  shows "readFullReply sm all w \<noteq> None"
proof (induction "m w" arbitrary: all w rule: less_induct)
  case less
  obtain r w1 where r: "get_line sm w = (r, w1)" by (metis prod.exhaust)
  show ?case
  proof (cases r)
    case (Inl e)
    with r show ?thesis by (subst readFullReply.simps) simp
  next
    case (Inr l)
    with r assms [of w l w1] less [of w1] show ?thesis
      by (subst readFullReply.simps) (simp add: Let_def split: option.split)
  qed
qed

text \<open>
  A delivery ends, whatever the server sends, when the deadline of the connection makes reading end.
\<close>

theorem Send_ends:
  assumes "deadlined sm"
  shows "\<exists>out st'. Send sm opt st = Some (out, st')"
proof -
  from assms have rd: "readFullReply sm all w \<noteq> None" for all w
    unfolding deadlined_def using readFullReply_ends by metis
  have hear: "hear sm st \<noteq> None" for st using rd [of "[]" "world st"] by (auto simp: hear_def split: option.split sum.split)
  have step: "smtp_step sm cmd st \<noteq> None" for cmd st
    using hear by (auto simp: smtp_step_def split: prod.split option.split)
  have ex: "expect sm cmd want used st go \<noteq> None" if "\<And>t st. go t st \<noteq> None" for cmd want used st go
    using step [of cmd st] that by (auto simp: expect_def split: option.split sum.split prod.split)
  have data: "send_data sm opt used st \<noteq> None" for used st
  proof -
    obtain r st1 where 1: "smtp_step sm [] (snd (say sm (dotStuff (SData opt)) st)) = Some (r, st1)"
      using step by (metis option.exhaust surj_pair)
    obtain r2 st2 where 2: "smtp_step sm ''QUIT'' st1 = Some (r2, st2)"
      using step by (metis option.exhaust surj_pair)
    show ?thesis using 1 2 by (auto simp: send_data_def split: prod.split option.split sum.split)
  qed
  have tr: "transfer sm opt used st \<noteq> None" for used st
    unfolding transfer_def by (intro ex data)
  have enc: "(case hs of (Some e, w) \<Rightarrow> Some (no_outcome\<lparr>OErr := e\<rparr>, st\<lparr>world := w\<rparr>)
      | (None, w) \<Rightarrow> expect sm (''EHLO '' @ SHelo opt) (\<lambda>c. c = 250) False \<lparr>world = w, talk = talk st @ [Handshake]\<rparr>
          (\<lambda>_ st. transfer sm opt True st)) \<noteq> None" for hs st
    using ex [OF tr] by (cases hs; cases "fst hs") auto
  have "Send sm opt st \<noteq> None"
    unfolding Send_def by (intro ex, split if_split, intro conjI impI ex enc tr)
  then show ?thesis by auto
qed

text \<open>
  The server of the witnesses reads nothing and sends its lines one after the other.
\<close>

definition scripted :: "(string list) smtp" where
  "scripted = \<lparr>put = (\<lambda>b w. (None, w)),
     get_line = (\<lambda>w. case w of [] \<Rightarrow> (Inl ''EOF'', []) | l # w \<Rightarrow> (Inr l, w)), handshake = (\<lambda>w. (None, w))\<rparr>"

definition accepting :: "string list" where
  "accepting = [''220 hello'' @ CRLF, ''250-mx'' @ CRLF, ''250 STARTTLS'' @ CRLF, ''220 go'' @ CRLF, ''250 mx'' @ CRLF,
     ''250 ok'' @ CRLF, ''250 ok'' @ CRLF, ''354 go'' @ CRLF, ''250 queued'' @ CRLF]"

definition a_delivery :: send_options where
  "a_delivery = \<lparr>SHelo = ''us.example'', SMailFrom = ''a@us.example'', SRcptTo = ''b@them.example'',
     SData = ''Subject: hi'' @ CRLF @ CRLF @ ''.hidden'' @ CRLF\<rparr>"

lemma scripted_deadlined: "deadlined scripted"
  unfolding deadlined_def by (intro exI [of _ length]) (auto simp: scripted_def split: list.splits)

lemma scripted_delivers:
  "map_option fst (Send scripted a_delivery \<lparr>world = accepting, talk = []\<rparr>) =
     Some \<lparr>Delivered = True, Permanent = False, OCode = 250, OReply = ''250 queued'', OErr = [], OTLS = True\<rparr>"
  unfolding accepting_def by code_simp

theorem Send_reports_truth_witness:
  "\<exists>st'. Send scripted a_delivery \<lparr>world = accepting, talk = []\<rparr> =
      Some (\<lparr>Delivered = True, Permanent = False, OCode = 250, OReply = ''250 queued'', OErr = [], OTLS = True\<rparr>, st') \<and>
    taken (SData a_delivery) (talk st')"
proof -
  obtain st' where s: "Send scripted a_delivery \<lparr>world = accepting, talk = []\<rparr> =
      Some (\<lparr>Delivered = True, Permanent = False, OCode = 250, OReply = ''250 queued'', OErr = [], OTLS = True\<rparr>, st')"
    using scripted_delivers by fastforce
  have "taken (SData a_delivery) (talk st')"
    using Send_reports_truth [OF s] by (simp add: a_delivery_def)
  with s show ?thesis by blast
qed

theorem Send_ends_witness: "\<exists>out st'. Send scripted a_delivery \<lparr>world = [''220-a'' @ CRLF], talk = []\<rparr> = Some (out, st')"
  by (rule Send_ends [OF scripted_deadlined])

section \<open>What a delivery leaves alone\<close>

text \<open>What the operations of the connection do not change, a delivery does not change.\<close>

lemma readFullReply_keeps:
  assumes "\<And>w x w'. get_line sm w = (x, w') \<Longrightarrow> view w' = view w" "readFullReply sm all w = Some y"
  shows "view (snd y) = view w"
proof -
  have "sm = sm \<longrightarrow> view (snd y) = view w"
  proof (rule readFullReply.raw_induct [where P = "\<lambda>s all w y. s = sm \<longrightarrow> view (snd y) = view w", OF _ assms(2)], intro impI)
    fix go s all w y
    assume IH: "\<And>s all w y. go s all w = Some y \<Longrightarrow> s = sm \<longrightarrow> view (snd y) = view w" and s: "s = sm"
      and y: "(case get_line s w of (Inl e, w) \<Rightarrow> Some (Inl e, w)
      | (Inr raw, w) \<Rightarrow> let line = trim_right line_end raw
          in if length line < 3 then Some (Inl ''relay: short reply'', w)
             else case atoi (take 3 line) of None \<Rightarrow> Some (Inl ''relay: bad reply'', w)
                  | Some code \<Rightarrow> if 3 < length line \<and> line ! 3 = CHR ''-'' then go s (all @ [line]) w
                      else Some (Inr (code, join_with [LF] (all @ [line])), w)) = Some y"
    obtain r w1 where r: "get_line sm w = (r, w1)" by (metis prod.exhaust)
    have v: "view w1 = view w" using assms(1) r by blast
    show "view (snd y) = view w"
    proof (cases r)
      case (Inl e)
      with y r v s show ?thesis by auto
    next
      case (Inr raw)
      with y r v s IH [of sm _ w1 y] show ?thesis by (auto simp: Let_def split: if_splits option.splits)
    qed
  qed
  then show ?thesis by simp
qed
definition conn_keeps :: "('w \<Rightarrow> 'v) \<Rightarrow> 'w smtp \<Rightarrow> bool" where
  "conn_keeps view sm \<longleftrightarrow> (\<forall>b w. view (snd (put sm b w)) = view w) \<and> (\<forall>w. view (snd (get_line sm w)) = view w) \<and>
     (\<forall>w. view (snd (handshake sm w)) = view w)"

lemma conn_keeps_laws:
  assumes "conn_keeps view sm"
  shows "put sm b w = (x, w') \<Longrightarrow> view w' = view w" "get_line sm w = (y, w') \<Longrightarrow> view w' = view w" "handshake sm w = (z, w') \<Longrightarrow> view w' = view w"
  using assms unfolding conn_keeps_def by (metis snd_conv)+

lemma smtp_step_keeps:
  assumes "conn_keeps view sm" "smtp_step sm cmd st = Some (r, st')"
  shows "view (world st') = view (world st)"
proof -
  have hear: "hear sm st = Some (r, st') \<Longrightarrow> view (world st') = view (world st)" for st
    using readFullReply_keeps [of sm view "[]" "world st"] conn_keeps_laws(2) [OF assms(1)]
    by (auto simp: hear_def split: option.splits sum.splits)
  show ?thesis
  proof (cases "cmd = []")
    case True
    with assms(2) hear show ?thesis by (simp add: smtp_step_def)
  next
    case False
    obtain e w where w: "put sm (cmd @ CRLF) (world st) = (e, w)" by (metis prod.exhaust)
    with conn_keeps_laws(1) [OF assms(1)] have "view w = view (world st)" by blast
    with False w assms(2) hear [of "\<lparr>world = w, talk = talk st @ [Wrote (cmd @ CRLF)]\<rparr>"] show ?thesis
      by (cases e) (auto simp: smtp_step_def say_def)
  qed
qed

lemma expect_keeps:
  assumes "conn_keeps view sm" "expect sm cmd want used st go = Some (out, st')"
    and "\<And>t s. go t s = Some (out, st') \<Longrightarrow> view (world st') = view (world s)"
  shows "view (world st') = view (world st)"
proof -
  obtain r s where s: "smtp_step sm cmd st = Some (r, s)" using assms(2) by (auto simp: expect_def split: option.splits)
  with smtp_step_keeps [OF assms(1)] have "view (world s) = view (world st)" by blast
  with s assms(2,3) show ?thesis by (auto simp: expect_def split: sum.splits if_splits)
qed

lemma send_data_keeps:
  assumes "conn_keeps view sm" "send_data sm opt used st = Some (out, st')"
  shows "view (world st') = view (world st)"
proof -
  obtain e w where w: "put sm (dotStuff (SData opt)) (world st) = (e, w)" by (metis prod.exhaust)
  with conn_keeps_laws(1) [OF assms(1)] have v: "view w = view (world st)" by blast
  show ?thesis
  proof (cases e)
    case (Some x)
    with w v assms(2) show ?thesis by (auto simp: send_data_def say_def)
  next
    case None
    then obtain r s where s: "smtp_step sm [] \<lparr>world = w, talk = talk st @ [Wrote (dotStuff (SData opt))]\<rparr> = Some (r, s)"
      using w assms(2) by (auto simp: send_data_def say_def split: option.splits)
    with smtp_step_keeps [OF assms(1) s] v have v2: "view (world s) = view (world st)" by simp
    show ?thesis
    proof (cases r)
      case (Inl x)
      with w None s v2 assms(2) show ?thesis by (auto simp: send_data_def say_def)
    next
      case (Inr c)
      then obtain r2 s2 where "smtp_step sm ''QUIT'' s = Some (r2, s2)"
        using w None s assms(2) by (auto simp: send_data_def say_def split: option.splits prod.splits)
      with smtp_step_keeps [OF assms(1) this] w None s v2 Inr assms(2) show ?thesis
        by (auto simp: send_data_def say_def split: prod.splits)
    qed
  qed
qed

lemma transfer_keeps:
  assumes "conn_keeps view sm" "transfer sm opt used st = Some (out, st')"
  shows "view (world st') = view (world st)"
  using assms(2) unfolding transfer_def
proof (rule expect_keeps [OF assms(1)], goal_cases)
  case (1 t s)
  then show ?case
  proof (rule expect_keeps [OF assms(1)], goal_cases)
    case (1 t s)
    then show ?case by (rule expect_keeps [OF assms(1)]) (rule send_data_keeps [OF assms(1)])
  qed
qed

lemma Send_keeps:
  assumes "conn_keeps view sm" "Send sm opt st = Some (out, st')"
  shows "view (world st') = view (world st)"
  using assms(2) unfolding Send_def
proof (rule expect_keeps [OF assms(1)], goal_cases)
  case (1 t s)
  then show ?case
  proof (rule expect_keeps [OF assms(1)], goal_cases)
    case (1 t' s')
    show ?case
    proof (cases "contains (to_upper t') ''STARTTLS''")
      case False
      with 1 transfer_keeps [OF assms(1)] show ?thesis by auto
    next
      case True
      with 1 have "expect sm ''STARTTLS'' (\<lambda>c. c = 220) False s' (\<lambda>_ st. case handshake sm (world st) of
          (Some e, w) \<Rightarrow> Some (no_outcome\<lparr>OErr := e\<rparr>, st\<lparr>world := w\<rparr>)
        | (None, w) \<Rightarrow> expect sm (''EHLO '' @ SHelo opt) (\<lambda>c. c = 250) False \<lparr>world = w, talk = talk st @ [Handshake]\<rparr>
            (\<lambda>_ st. transfer sm opt True st)) = Some (out, st')" by simp
      then show ?thesis
      proof (rule expect_keeps [OF assms(1)])
        fix t2 s2
        assume h: "(case handshake sm (world s2) of (Some e, w) \<Rightarrow> Some (no_outcome\<lparr>OErr := e\<rparr>, s2\<lparr>world := w\<rparr>)
          | (None, w) \<Rightarrow> expect sm (''EHLO '' @ SHelo opt) (\<lambda>c. c = 250) False \<lparr>world = w, talk = talk s2 @ [Handshake]\<rparr>
            (\<lambda>_ st. transfer sm opt True st)) = Some (out, st')"
        obtain e w where w: "handshake sm (world s2) = (e, w)" by (metis prod.exhaust)
        with conn_keeps_laws(3) [OF assms(1)] have v: "view w = view (world s2)" by blast
        show "view (world st') = view (world s2)"
        proof (cases e)
          case (Some x)
          with h w v show ?thesis by auto
        next
          case None
          with h w have "expect sm (''EHLO '' @ SHelo opt) (\<lambda>c. c = 250) False \<lparr>world = w, talk = talk s2 @ [Handshake]\<rparr>
            (\<lambda>_ st. transfer sm opt True st) = Some (out, st')" by simp
          from expect_keeps [OF assms(1) this transfer_keeps [OF assms(1)]] v show ?thesis by simp
        qed
      qed
    qed
  qed
qed

end
