(* ===== verification/Dkim.thy ===== *)
theory Dkim
  imports Sender Digest
begin

text \<open>
  DKIM signatures: \<open>internal/relay/dkim.go\<close>.

  A Go loop over a string reads code points and writes U+FFFD for a byte that does not belong to one;
  \<open>runes\<close> is that reading. The key is of any type and what signs a digest with it is a parameter, as is
  the decoding of key files. The digest is SHA-256 as in \<open>Digest\<close>, and base64 is written out.

  \<open>rfc_body\<close>, \<open>rfc_header\<close> and \<open>verifies\<close> are the receiver's side as RFC 6376 gives it, on bytes. The
  theorems show that the code's canonical body is the one of the RFC for the message that arrives, and
  that a message built, signed and sent by this service verifies at the receiver, as long as its texts
  are valid UTF-8; a body that is not gets a signature that does not verify.
\<close>

section \<open>Code points\<close>

text \<open>The ranges of the bytes that follow a first byte of more than 127.\<close>

definition continuation :: "nat \<Rightarrow> (nat \<times> nat) list" where
  "continuation b =
     (if 0xC2 \<le> b \<and> b \<le> 0xDF then [(0x80, 0xBF)]
      else if b = 0xE0 then [(0xA0, 0xBF), (0x80, 0xBF)]
      else if b = 0xED then [(0x80, 0x9F), (0x80, 0xBF)]
      else if 0xE1 \<le> b \<and> b \<le> 0xEF then [(0x80, 0xBF), (0x80, 0xBF)]
      else if b = 0xF0 then [(0x90, 0xBF), (0x80, 0xBF), (0x80, 0xBF)]
      else if 0xF1 \<le> b \<and> b \<le> 0xF3 then [(0x80, 0xBF), (0x80, 0xBF), (0x80, 0xBF)]
      else if b = 0xF4 then [(0x80, 0x8F), (0x80, 0xBF), (0x80, 0xBF)]
      else [])"

fun follows :: "(nat \<times> nat) list \<Rightarrow> string \<Rightarrow> bool" where
  "follows [] s \<longleftrightarrow> True"
| "follows (r # rs) [] \<longleftrightarrow> False"
| "follows ((lo, hi) # rs) (c # s) \<longleftrightarrow> lo \<le> byte_of c \<and> byte_of c \<le> hi \<and> follows rs s"

function runes :: "string \<Rightarrow> string list" where
  "runes [] = []"
| "runes (c # s) =
     (let k = continuation (byte_of c)
      in if byte_of c < 128 then [c] # runes s
         else if k \<noteq> [] \<and> follows k s then (c # take (length k) s) # runes (drop (length k) s)
         else [CHR 0xEF, CHR 0xBF, CHR 0xBD] # runes s)"
  by pat_completeness auto
termination by (relation "measure length") auto

text \<open>\<open>utf8.ValidString\<close>: writing the code points back gives the string.\<close>

definition valid_utf8 :: "string \<Rightarrow> bool" where
  "valid_utf8 s \<longleftrightarrow> concat (runes s) = s"

section \<open>Canonical form\<close>

definition wsp :: "char \<Rightarrow> bool" where
  "wsp c \<longleftrightarrow> c = CHR '' '' \<or> c = CHR 0x09"

definition wsp_rune :: "string \<Rightarrow> bool" where
  "wsp_rune r \<longleftrightarrow> r = '' '' \<or> r = [CHR 0x09]"

fun header_runes :: "bool \<Rightarrow> bool \<Rightarrow> string list \<Rightarrow> string" where
  "header_runes space some [] = []"
| "header_runes space some (r # rs) =
     (if wsp_rune r then header_runes True some rs
      else (if space \<and> some then '' '' else []) @ r @ header_runes False True rs)"

definition canonicalizeHeaderNoCRLF :: "string \<Rightarrow> string \<Rightarrow> string" where
  "canonicalizeHeaderNoCRLF name val =
     (let val = replace_all [LF] [] (replace_all CRLF [] val)
      in to_lower (trim_space name) @ '':'' @ header_runes False False (runes val))"

definition canonicalizeHeader :: "string \<Rightarrow> string \<Rightarrow> string" where
  "canonicalizeHeader name val = canonicalizeHeaderNoCRLF name val @ CRLF"

fun body_runes :: "bool \<Rightarrow> string list \<Rightarrow> string" where
  "body_runes space [] = []"
| "body_runes space (r # rs) =
     (if wsp_rune r then body_runes True rs else (if space then '' '' else []) @ r @ body_runes False rs)"

definition drop_empty :: "string list \<Rightarrow> string list" where
  "drop_empty ls = rev (dropWhile (\<lambda>l. l = []) (rev ls))"

definition canonicalizeBody :: "string \<Rightarrow> string" where
  "canonicalizeBody content =
     (let ls = split_on LF (replace_all CRLF [LF] content);
          ls = drop_empty (map (\<lambda>l. body_runes False (runes l)) ls)
      in if ls = [] then [] else join_with CRLF ls @ CRLF)"

section \<open>Base64\<close>

definition base64_alphabet :: string where
  "base64_alphabet = ''ABCDEFGHIJKLMNOPQRSTUVWXYZabcdefghijklmnopqrstuvwxyz0123456789+/''"

definition sextet :: "nat \<Rightarrow> char" where
  "sextet n = base64_alphabet ! n"

fun base64 :: "nat list \<Rightarrow> string" where
  "base64 [] = []"
| "base64 [a] = [sextet (a div 4), sextet (a mod 4 * 16), CHR ''='', CHR ''='']"
| "base64 [a, b] = [sextet (a div 4), sextet (a mod 4 * 16 + b div 16), sextet (b mod 16 * 4), CHR ''='']"
| "base64 (a # b # c # s) =
     [sextet (a div 4), sextet (a mod 4 * 16 + b div 16), sextet (b mod 16 * 4 + c div 64), sextet (c mod 64)] @ base64 s"

section \<open>Signing\<close>

record 'k signer =
  SDomain :: string
  SSelector :: string
  SKey :: 'k

datatype 'k parsed_key = RSA 'k | OtherKey string

datatype signer_error = NoPEMBlock | NotRSA string | UnusableKey string | IdentityRequired

text \<open>\<open>NewSigner\<close>: PKCS#8 first, PKCS#1 when that does not parse.\<close>

definition NewSigner ::
  "(string \<Rightarrow> string option) \<Rightarrow> (string \<Rightarrow> string + 'k parsed_key) \<Rightarrow> (string \<Rightarrow> string + 'k) \<Rightarrow>
   string \<Rightarrow> string \<Rightarrow> string \<Rightarrow> signer_error + 'k signer" where
  "NewSigner pem_decode parsePKCS8 parsePKCS1 domain selector pemKey =
     (case pem_decode pemKey of
        None \<Rightarrow> Inl NoPEMBlock
      | Some block \<Rightarrow>
          (case (case parsePKCS8 block of
                   Inr (RSA k) \<Rightarrow> Inr k
                 | Inr (OtherKey t) \<Rightarrow> Inl (NotRSA t)
                 | Inl _ \<Rightarrow> (case parsePKCS1 block of Inr k \<Rightarrow> Inr k | Inl e \<Rightarrow> Inl (UnusableKey e))) of
             Inl e \<Rightarrow> Inl e
           | Inr k \<Rightarrow>
               if domain = [] \<or> selector = [] then Inl IdentityRequired
               else Inr \<lparr>SDomain = domain, SSelector = selector, SKey = k\<rparr>))"

definition signedHeaders :: "string list" where
  "signedHeaders = [''from'', ''to'', ''subject'', ''date'', ''message-id'', ''mime-version'', ''content-type'']"

text \<open>\<open>present\<close>: of the headers with the same name, the last.\<close>

definition header_present :: "header list \<Rightarrow> string \<rightharpoonup> header" where
  "header_present hs = fold (\<lambda>h m. m(to_lower (Name h) \<mapsto> h)) hs Map.empty"

definition signed_names :: "header list \<Rightarrow> string list" where
  "signed_names hs = filter (\<lambda>n. header_present hs n \<noteq> None) signedHeaders"

definition signature_tag :: "'k signer \<Rightarrow> instant \<Rightarrow> string list \<Rightarrow> string \<Rightarrow> string" where
  "signature_tag sg now hList content =
     ''v=1; a=rsa-sha256; c=relaxed/relaxed; d='' @ SDomain sg @ ''; s='' @ SSelector sg @ ''; t='' @ itoa (now div second) @
     ''; h='' @ join_with '':'' hList @ ''; bh='' @ base64 (sha256 (canonicalizeBody content)) @ ''; b=''"

definition Sign ::
  "('k \<Rightarrow> nat list \<Rightarrow> string + string) \<Rightarrow> instant \<Rightarrow> 'k signer \<Rightarrow> header list \<Rightarrow> string \<Rightarrow> string + string" where
  "Sign rsa now sg hs content =
     (let hList = signed_names hs;
          canon = concat (map (\<lambda>n. case header_present hs n of None \<Rightarrow> [] | Some h \<Rightarrow> canonicalizeHeader (Name h) (Value h)) hList);
          tag = signature_tag sg now hList content;
          canon = canon @ canonicalizeHeaderNoCRLF ''DKIM-Signature'' tag
      in case rsa (SKey sg) (sha256 canon) of
           Inl e \<Rightarrow> Inl (''dkim: signing: '' @ e)
         | Inr sig \<Rightarrow> Inr (''DKIM-Signature: '' @ tag @ base64 (map of_char sig) @ CRLF))"

section \<open>The receiver\<close>

text \<open>RFC 6376, 3.4: runs of white space become one space; around the colon and at the end of a line there
  is none; empty lines at the end of the body do not count.\<close>

function reduce_wsp :: "string \<Rightarrow> string" where
  "reduce_wsp [] = []"
| "reduce_wsp (c # s) = (if wsp c then CHR '' '' # reduce_wsp (dropWhile wsp s) else c # reduce_wsp s)"
  by pat_completeness auto
termination by (relation "measure length") (auto intro: le_imp_less_Suc length_dropWhile_le)

definition rfc_line :: "string \<Rightarrow> string" where
  "rfc_line l = trim_right wsp (reduce_wsp l)"

function crlf_split :: "string \<Rightarrow> string list" where
  "crlf_split s = (case crlf_line s of None \<Rightarrow> [s] | Some (l, r) \<Rightarrow> l # crlf_split r)"
  by auto
termination by (relation "measure length") (auto dest: crlf_line_rest)

declare crlf_split.simps [simp del]

text \<open>The lines up to the last that is not empty.\<close>

fun up_to_text :: "string list \<Rightarrow> string list" where
  "up_to_text [] = []"
| "up_to_text (l # ls) = (if l = [] \<and> list_all (\<lambda>x. x = []) ls then [] else l # up_to_text ls)"

definition rfc_body :: "string \<Rightarrow> string" where
  "rfc_body s = concat (map (\<lambda>l. l @ CRLF) (up_to_text (map rfc_line (crlf_split s))))"

definition field_name :: "string \<Rightarrow> string" where
  "field_name l = to_lower (trim_right wsp (takeWhile (\<lambda>c. c \<noteq> CHR '':'') l))"

definition rfc_header :: "string \<Rightarrow> string" where
  "rfc_header l = field_name l @ '':'' @ trim_left wsp (rfc_line (after_first (CHR '':'') l))"

text \<open>The tags of a signature, the signature with the value of \<open>b=\<close> taken out, and the check (6.1.3): the
  hash of the body, then the digest of the last header of each name in \<open>h=\<close>, each name once, and the
  signature itself. \<open>check\<close> is the RSA verification with the signer's public key.\<close>

definition tag_of :: "string \<Rightarrow> string \<times> string" where
  "tag_of p = (let p = trim_left wsp p in (takeWhile (\<lambda>c. c \<noteq> CHR ''='') p, trim_right wsp (after_first (CHR ''='') p)))"

definition without_b :: "string \<Rightarrow> string" where
  "without_b v = join_with '';'' (map (\<lambda>p. if fst (tag_of p) = ''b'' then takeWhile (\<lambda>c. c \<noteq> CHR ''='') p @ ''='' else p) (split_on (CHR '';'') v))"

fun last_field :: "string \<Rightarrow> string list \<Rightarrow> string option" where
  "last_field n [] = None"
| "last_field n (l # ls) = (case last_field n ls of None \<Rightarrow> if field_name l = n then Some l else None | Some l' \<Rightarrow> Some l')"

fun unsextet :: "char \<Rightarrow> string \<Rightarrow> nat" where
  "unsextet c [] = 0"
| "unsextet c (a # as) = (if c = a then 0 else Suc (unsextet c as))"

fun unbase64 :: "string \<Rightarrow> nat list" where
  "unbase64 (p # q # r # t # s) =
     (let w = unsextet p base64_alphabet; x = unsextet q base64_alphabet;
          y = unsextet r base64_alphabet; z = unsextet t base64_alphabet
      in if r = CHR ''='' then [w * 4 + x div 16]
         else if t = CHR ''='' then [w * 4 + x div 16, x mod 16 * 16 + y div 4]
         else [w * 4 + x div 16, x mod 16 * 16 + y div 4, y mod 4 * 64 + z] @ unbase64 s)"
| "unbase64 _ = []"

definition verifies :: "(nat list \<Rightarrow> string \<Rightarrow> bool) \<Rightarrow> string \<Rightarrow> bool" where
  "verifies check msg =
     (case header_lines msg of
        None \<Rightarrow> False
      | Some (ls, content) \<Rightarrow>
          (case filter (\<lambda>l. field_name l = ''dkim-signature'') ls of
             [] \<Rightarrow> False
           | sl # _ \<Rightarrow>
               let v = after_first (CHR '':'') sl;
                   tags = map_of (map tag_of (split_on (CHR '';'') v))
               in case (tags ''h'', tags ''bh'', tags ''b'') of
                    (Some h, Some bh, Some b) \<Rightarrow>
                      let names = split_on (CHR '':'') h;
                          fields = List.map_filter (\<lambda>n. last_field n ls) names
                      in tags ''v'' = Some ''1'' \<and> tags ''a'' = Some ''rsa-sha256'' \<and> tags ''c'' = Some ''relaxed/relaxed'' \<and>
                         distinct names \<and> ''from'' \<in> set names \<and>
                         bh = base64 (sha256 (rfc_body content)) \<and>
                         check (sha256 (concat (map (\<lambda>l. rfc_header l @ CRLF) fields) @ rfc_header (field_name sl @ '':'' @ without_b v)))
                           (map char_of (unbase64 b))
                  | _ \<Rightarrow> False))"

section \<open>Valid texts\<close>

lemma continuation_high: "(lo, hi) \<in> set (continuation b) \<Longrightarrow> 128 \<le> lo"
  by (auto simp: continuation_def split: if_splits)

lemma follows_ascii:
  assumes "byte_of c < 128" "\<And>lo hi. (lo, hi) \<in> set k \<Longrightarrow> 128 \<le> lo"
  shows "follows k (s @ c # t) \<longleftrightarrow> follows k s"
  using assms by (induction k s rule: follows.induct) fastforce+

lemma follows_length: "follows k s \<Longrightarrow> length k \<le> length s"
  by (induction k s rule: follows.induct) auto

lemma runes_ascii_append: "byte_of c < 128 \<Longrightarrow> runes (s @ c # t) = runes s @ [c] # runes t"
proof (induction s rule: runes.induct)
  case (2 d s)
  let ?k = "continuation (byte_of d)"
  have "follows ?k (s @ c # t) \<longleftrightarrow> follows ?k s"
    by (rule follows_ascii [OF 2(4)]) (rule continuation_high)
  with 2 follows_length [of ?k s] show ?case by (auto simp: Let_def)
qed simp

lemma runes_grow: "length s \<le> length (concat (runes s))"
proof (induction s rule: runes.induct)
  case (2 c s)
  let ?k = "continuation (byte_of c)"
  show ?case
  proof (cases "128 \<le> byte_of c \<and> ?k \<noteq> [] \<and> follows ?k s")
    case True
    then show ?thesis using 2(2) [OF refl] follows_length [of ?k s] by (simp add: Let_def)
  next
    case False
    then show ?thesis using 2(1,3) [OF refl] by (auto simp: Let_def)
  qed
qed simp

lemma valid_utf8_ascii: "byte_of c < 128 \<Longrightarrow> valid_utf8 (s @ c # t) \<longleftrightarrow> valid_utf8 s \<and> valid_utf8 t"
proof -
  assume c: "byte_of c < 128"
  have "length (concat (runes s)) = length s" if e: "concat (runes s) @ c # concat (runes t) = s @ c # t"
  proof -
    from e have "length (concat (runes s)) + length (concat (runes t)) = length s + length t"
      by (metis add_Suc_right length_Cons length_append nat.inject)
    with runes_grow [of s] runes_grow [of t] show ?thesis by simp
  qed
  then show ?thesis unfolding valid_utf8_def runes_ascii_append [OF c] by auto
qed

lemma valid_utf8_all_ascii: "list_all (\<lambda>c. byte_of c < 128) s \<Longrightarrow> valid_utf8 s"
  by (induction s) (auto simp: valid_utf8_def Let_def)

lemma valid_utf8_append: "list_all (\<lambda>c. byte_of c < 128) s \<Longrightarrow> valid_utf8 (s @ t) \<longleftrightarrow> valid_utf8 t"
  by (induction s) (auto simp: valid_utf8_def Let_def)

lemma split_on_ascii_valid:
  assumes "byte_of d < 128"
  shows "valid_utf8 s \<longleftrightarrow> list_all valid_utf8 (split_on d s)"
proof (induction "length s" arbitrary: s rule: less_induct)
  case less
  show ?case
  proof (cases "d \<in> set s")
    case True
    then obtain w t where s: "s = w @ d # t" "d \<notin> set w" using split_list_first by metis
    with less [of t] valid_utf8_ascii [OF assms] show ?thesis by (simp add: split_on_append)
  qed (simp add: split_on_single)
qed

lemma crlf_line_Some: "crlf_line s = Some (l, r) \<Longrightarrow> s = l @ CRLF @ r \<and> replace_all CRLF x s = l @ x @ replace_all CRLF x r"
proof (induction s arbitrary: l r)
  case (Cons c s)
  show ?case
  proof (cases "c = CR \<and> s \<noteq> [] \<and> hd s = LF")
    case True
    with Cons.prems show ?thesis by (cases s) (auto simp: has_prefix_def)
  next
    case False
    then have "\<not> has_prefix (c # s) CRLF" by (cases s) (auto simp: has_prefix_def)
    with False Cons show ?thesis by (auto split: if_splits)
  qed
qed simp

lemma crlf_line_None: "crlf_line s = None \<Longrightarrow> replace_all CRLF x s = s"
proof (induction s)
  case (Cons c s)
  then have "\<not> (c = CR \<and> s \<noteq> [] \<and> hd s = LF)" by auto
  then have "\<not> has_prefix (c # s) CRLF" by (cases s) (auto simp: has_prefix_def)
  with Cons show ?case by (auto split: if_splits)
qed simp

lemma valid_utf8_replace: "valid_utf8 s \<Longrightarrow> valid_utf8 (replace_all CRLF [LF] s)"
proof (induction "length s" arbitrary: s rule: less_induct)
  case less
  show ?case
  proof (cases "crlf_line s")
    case None
    then show ?thesis using less.prems crlf_line_None by simp
  next
    case (Some lr)
    obtain l r where lr: "lr = (l, r)" by (metis prod.exhaust)
    note s = crlf_line_Some [OF Some [unfolded lr], of "[LF]"]
    with less.prems have "valid_utf8 l" "valid_utf8 r" using valid_utf8_ascii [of CR l] valid_utf8_ascii [of LF "[]" r] by auto
    with less.hyps [of r] crlf_line_rest [OF Some [unfolded lr]]
    show ?thesis unfolding conjunct2 [OF s] using valid_utf8_ascii [of LF l] by simp
  qed
qed

section \<open>The canonical body is the one of the RFC\<close>

lemma wsp_rune_single [simp]: "wsp_rune [c] = wsp c"
  by (simp add: wsp_rune_def wsp_def)

lemma wsp_rune_high: "\<not> byte_of c < 128 \<Longrightarrow> \<not> wsp_rune (c # s)"
  by (auto simp: wsp_rune_def)

lemma body_runes_plain: "list_all (\<lambda>c. \<not> wsp c) s \<Longrightarrow> body_runes False (map (\<lambda>c. [c]) (s @ t)) = s @ body_runes False (map (\<lambda>c. [c]) t)"
  by (induction s) auto

lemma header_runes_plain:
  "list_all (\<lambda>c. \<not> wsp c) s \<Longrightarrow> header_runes False True (map (\<lambda>c. [c]) (s @ t)) = s @ header_runes False True (map (\<lambda>c. [c]) t)"
  by (induction s) auto

lemma follows_plain: "follows k s \<Longrightarrow> (\<And>lo hi. (lo, hi) \<in> set k \<Longrightarrow> 128 \<le> lo) \<Longrightarrow> list_all (\<lambda>c. \<not> wsp c) (take (length k) s)"
proof (induction k s rule: follows.induct)
  case (3 lo hi rs c s)
  then have "128 \<le> byte_of c" by fastforce
  then have "\<not> wsp c" by (auto simp: wsp_def)
  with 3 show ?case by auto
qed auto

text \<open>On a valid text, reading code points is reading bytes.\<close>

lemma valid_utf8_follows:
  assumes "valid_utf8 (c # s)" "\<not> byte_of c < 128"
  shows "continuation (byte_of c) \<noteq> [] \<and> follows (continuation (byte_of c)) s"
proof (rule ccontr)
  assume "\<not> ?thesis"
  with assms have "[CHR 0xEF, CHR 0xBF, CHR 0xBD] @ concat (runes s) = c # s" by (auto simp: valid_utf8_def Let_def)
  then have "length ([CHR 0xEF, CHR 0xBF, CHR 0xBD] @ concat (runes s)) = length (c # s)" by (rule arg_cong)
  then have "length (concat (runes s)) < length s" by simp
  with runes_grow [of s] show False by simp
qed

lemma valid_utf8_cases:
  assumes "valid_utf8 (c # s)" "\<not> byte_of c < 128"
  shows "\<exists>k. runes (c # s) = (c # take k s) # runes (drop k s) \<and> list_all (\<lambda>c. \<not> wsp c) (take k s) \<and> valid_utf8 (drop k s)"
proof -
  let ?k = "continuation (byte_of c)"
  note f = valid_utf8_follows [OF assms]
  with assms have r: "runes (c # s) = (c # take (length ?k) s) # runes (drop (length ?k) s)" by (simp add: Let_def)
  with assms(1) have "take (length ?k) s @ concat (runes (drop (length ?k) s)) = s" by (simp add: valid_utf8_def)
  then have "valid_utf8 (drop (length ?k) s)" unfolding valid_utf8_def by (metis append_take_drop_id same_append_eq)
  with r follows_plain [OF conjunct2 [OF f]] continuation_high show ?thesis by blast
qed

lemma body_runes_bytes: "valid_utf8 s \<Longrightarrow> body_runes sp (runes s) = body_runes sp (map (\<lambda>c. [c]) s)"
proof (induction "length s" arbitrary: s sp rule: less_induct)
  case less
  show ?case
  proof (cases s)
    case (Cons c t)
    show ?thesis
    proof (cases "byte_of c < 128")
      case True
      with Cons less.prems have "valid_utf8 t" using valid_utf8_ascii [of c "[]" t] by simp
      with True less.hyps [of t] Cons show ?thesis by (simp add: Let_def)
    next
      case False
      from valid_utf8_cases [OF less.prems [unfolded Cons] False] obtain k where
        k: "runes s = (c # take k t) # runes (drop k t)" "list_all (\<lambda>c. \<not> wsp c) (take k t)" "valid_utf8 (drop k t)"
        using Cons by blast
      from less.hyps [OF _ k(3)] Cons k body_runes_plain [OF k(2), of "drop k t"] wsp_rune_high [OF False]
      show ?thesis using wsp_rune_high [OF False, of "[]"] by simp
    qed
  qed simp
qed

lemma reduce_wsp_dropWhile: "wsp c \<Longrightarrow> reduce_wsp (c # s) = CHR '' '' # reduce_wsp (dropWhile wsp s)"
  by simp

lemma trim_right_Cons: "trim_right p (c # s) = (if trim_right p s = [] \<and> p c then [] else c # trim_right p s)"
  unfolding trim_right_def by (auto simp: dropWhile_append dropWhile_eq_Nil_conv)

lemma body_runes_rfc:
  "body_runes sp (map (\<lambda>c. [c]) s) =
     (if sp then (let t = rfc_line (dropWhile wsp s) in if t = [] then [] else CHR '' '' # t) else rfc_line s)"
proof (induction s arbitrary: sp)
  case Nil
  then show ?case by (simp add: rfc_line_def trim_right_def)
next
  case (Cons c s)
  have sp: "wsp (CHR '' '')" by (simp add: wsp_def)
  show ?case
  proof (cases "wsp c")
    case True
    with Cons [of True] sp show ?thesis by (simp add: rfc_line_def trim_right_Cons Let_def)
  next
    case False
    with Cons [of False] sp show ?thesis by (simp add: rfc_line_def trim_right_Cons Let_def)
  qed
qed

lemma body_line_rfc: "valid_utf8 l \<Longrightarrow> body_runes False (runes l) = rfc_line l"
  using body_runes_bytes [of l False] body_runes_rfc [of False l] by simp

lemma drop_empty_snoc [simp]: "drop_empty (ls @ [[]]) = drop_empty ls"
  by (simp add: drop_empty_def)

lemma up_to_text_drop_empty: "up_to_text ls = drop_empty ls"
proof (induction ls)
  case (Cons l ls)
  show ?case
  proof (cases "list_all (\<lambda>x. x = []) ls")
    case True
    then have e: "\<And>x. x \<in> set (rev ls) \<Longrightarrow> x = []" by (simp add: list_all_iff)
    then have "dropWhile (\<lambda>x. x = []) (rev ls @ [l]) = dropWhile (\<lambda>x. x = []) [l]" by (rule dropWhile_append2)
    moreover have "drop_empty ls = []" using e by (simp add: drop_empty_def dropWhile_eq_Nil_conv)
    ultimately have "drop_empty ls = []" "drop_empty (l # ls) = (if l = [] then [] else [l])" by (simp_all add: drop_empty_def)
    with Cons True show ?thesis by simp
  next
    case False
    then obtain x where "x \<in> set (rev ls)" "x \<noteq> []" by (auto simp: list_all_iff)
    then have "drop_empty (l # ls) = l # drop_empty ls" by (simp add: drop_empty_def dropWhile_append1)
    with Cons False show ?thesis by auto
  qed
qed (simp add: drop_empty_def)

lemma join_crlf_concat: "ls \<noteq> [] \<Longrightarrow> join_with CRLF ls @ CRLF = concat (map (\<lambda>l. l @ CRLF) ls)"
proof (induction ls)
  case (Cons l ls)
  then show ?case by (cases ls) auto
qed simp

lemma crlf_split_lines: "\<forall>l \<in> set ls. LF \<notin> set l \<Longrightarrow> crlf_split (concat (map (\<lambda>l. l @ CRLF) ls)) = ls @ [[]]"
proof (induction ls)
  case Nil
  then show ?case by (subst crlf_split.simps) simp
next
  case (Cons l ls)
  have "crlf_line (concat (map (\<lambda>l. l @ CRLF) (l # ls))) = Some (l, concat (map (\<lambda>l. l @ CRLF) ls))"
    using crlf_line_no_lf [of l "concat (map (\<lambda>l. l @ CRLF) ls)"] Cons.prems by simp
  with Cons show ?case by (subst crlf_split.simps) simp
qed

definition text_lines :: "string \<Rightarrow> string list" where
  "text_lines d = split_on LF (replace_all CRLF [LF] d)"

definition full_lines :: "string list \<Rightarrow> string list" where
  "full_lines ls = (if last ls = [] \<and> length ls > 1 then butlast ls else ls)"

lemma text_lines_facts: "text_lines d \<noteq> []" "\<forall>l \<in> set (text_lines d). LF \<notin> set l" "\<forall>l \<in> set (full_lines (text_lines d)). LF \<notin> set l"
  unfolding text_lines_def full_lines_def using split_on_no_sep by (auto dest!: in_set_butlastD)

lemma as_lines_concat: "as_lines d = concat (map (\<lambda>l. l @ CRLF) (full_lines (text_lines d)))"
  using ended_concat [OF text_lines_facts(1,2)] by (simp add: as_lines_def ended_def text_lines_def full_lines_def Let_def)

lemma full_lines_drop_empty: "f [] = [] \<Longrightarrow> drop_empty (map f (full_lines ls)) = drop_empty (map f ls)"
proof (cases "last ls = [] \<and> length ls > 1")
  case True
  assume f: "f [] = []"
  from True have "ls = butlast ls @ [[]]" by (metis append_butlast_last_id length_0_conv less_numeral_extra(4) not_one_less_zero)
  then have "drop_empty (map f ls) = drop_empty (map f (butlast ls @ [[]]))" by simp
  with True f show ?thesis by (simp add: full_lines_def)
next
  case False
  then show ?thesis by (auto simp: full_lines_def)
qed

lemma canonicalizeBody_rfc: "valid_utf8 content \<Longrightarrow> canonicalizeBody content = rfc_body (as_lines content)"
proof -
  assume v: "valid_utf8 content"
  have "list_all valid_utf8 (text_lines content)"
    unfolding text_lines_def using split_on_ascii_valid [of LF] valid_utf8_replace [OF v] by simp
  then have lines: "map (\<lambda>l. body_runes False (runes l)) (text_lines content) = map rfc_line (text_lines content)"
    using body_line_rfc by (simp add: list_all_iff)
  have nil: "rfc_line [] = []" by (simp add: rfc_line_def trim_right_def)
  have "rfc_body (as_lines content) = concat (map (\<lambda>l. l @ CRLF) (drop_empty (map rfc_line (full_lines (text_lines content) @ [[]]))))"
    unfolding rfc_body_def up_to_text_drop_empty as_lines_concat by (simp only: crlf_split_lines [OF text_lines_facts(3)])
  also have "\<dots> = concat (map (\<lambda>l. l @ CRLF) (drop_empty (map rfc_line (text_lines content))))"
    using nil full_lines_drop_empty [of rfc_line, OF nil] by simp
  finally have rfc: "rfc_body (as_lines content) = concat (map (\<lambda>l. l @ CRLF) (drop_empty (map rfc_line (text_lines content))))" .
  have "canonicalizeBody content =
      (let ls = drop_empty (map rfc_line (text_lines content)) in if ls = [] then [] else join_with CRLF ls @ CRLF)"
    unfolding canonicalizeBody_def Let_def text_lines_def [symmetric] lines ..
  then show ?thesis using join_crlf_concat rfc by (simp add: Let_def)
qed

text \<open>
  C32. The body that is hashed is the body that arrives: for every text in UTF-8, whatever its line ends and
  white space, the canonical form the code computes before sending is the relaxed canonical form of
  RFC 6376, computed byte by byte, of the text after transport.
\<close>

theorem canonicalizeBody_is_rfc: "valid_utf8 content \<Longrightarrow> canonicalizeBody content = rfc_body (as_lines content)"
  by (rule canonicalizeBody_rfc)

theorem canonicalizeBody_is_rfc_witness:
  "canonicalizeBody ('' C '' @ CRLF @ ''D '' @ [CHR 0x09] @ '' E'' @ [LF] @ [LF]) = rfc_body (as_lines ('' C '' @ CRLF @ ''D '' @ [CHR 0x09] @ '' E'' @ [LF] @ [LF])) \<and>
   canonicalizeBody ('' C '' @ CRLF @ ''D '' @ [CHR 0x09] @ '' E'' @ [LF] @ [LF]) = '' C'' @ CRLF @ ''D E'' @ CRLF"
proof
  show "canonicalizeBody ('' C '' @ CRLF @ ''D '' @ [CHR 0x09] @ '' E'' @ [LF] @ [LF]) = rfc_body (as_lines ('' C '' @ CRLF @ ''D '' @ [CHR 0x09] @ '' E'' @ [LF] @ [LF]))"
    by (rule canonicalizeBody_is_rfc, rule valid_utf8_all_ascii) simp
qed code_simp

text \<open>A body that is not UTF-8 is hashed as another text than the one that is sent.\<close>

theorem signed_body_differs:
  "canonicalizeBody (''caf'' @ [CHR 0xE9]) = ''caf'' @ [CHR 0xEF, CHR 0xBF, CHR 0xBD] @ CRLF \<and>
   rfc_body (as_lines (''caf'' @ [CHR 0xE9])) = ''caf'' @ [CHR 0xE9] @ CRLF"
  by code_simp

section \<open>Headers\<close>

lemma header_runes_bytes: "valid_utf8 s \<Longrightarrow> header_runes sp sm (runes s) = header_runes sp sm (map (\<lambda>c. [c]) s)"
proof (induction "length s" arbitrary: s sp sm rule: less_induct)
  case less
  show ?case
  proof (cases s)
    case (Cons c t)
    show ?thesis
    proof (cases "byte_of c < 128")
      case True
      with Cons less.prems have "valid_utf8 t" using valid_utf8_ascii [of c "[]" t] by simp
      with True less.hyps [of t] Cons show ?thesis by (simp add: Let_def)
    next
      case False
      from valid_utf8_cases [OF less.prems [unfolded Cons] False] obtain k where
        k: "runes s = (c # take k t) # runes (drop k t)" "list_all (\<lambda>c. \<not> wsp c) (take k t)" "valid_utf8 (drop k t)"
        using Cons by blast
      from less.hyps [OF _ k(3)] Cons k header_runes_plain [OF k(2), of "drop k t"] wsp_rune_high [OF False]
      show ?thesis using wsp_rune_high [OF False, of "[]"] by simp
    qed
  qed simp
qed

lemma header_runes_rest:
  "header_runes sp True (map (\<lambda>c. [c]) s) = body_runes sp (map (\<lambda>c. [c]) s)"
  by (induction s arbitrary: sp) auto

lemma header_runes_rfc: "header_runes sp False (map (\<lambda>c. [c]) s) = trim_left wsp (rfc_line s)"
proof (induction s arbitrary: sp)
  case Nil
  then show ?case by (simp add: rfc_line_def trim_right_def trim_left_def)
next
  case (Cons c s)
  have sp: "wsp (CHR '' '')" by (simp add: wsp_def)
  have tl: "trim_left wsp (rfc_line (dropWhile wsp s)) = trim_left wsp (rfc_line s)"
    using sp by (cases s) (auto simp: rfc_line_def trim_right_Cons trim_left_def)
  show ?case
  proof (cases "wsp c")
    case True
    have "trim_left wsp (rfc_line (c # s)) = trim_left wsp (rfc_line (dropWhile wsp s))"
      using True sp by (auto simp: rfc_line_def trim_right_Cons trim_left_def)
    with Cons [of True] True tl show ?thesis by simp
  next
    case False
    with header_runes_rest [of False s] body_runes_rfc [of False s] show ?thesis
      by (simp add: rfc_line_def trim_right_Cons trim_left_def)
  qed
qed

lemma replace_all_absent: "old \<noteq> [] \<Longrightarrow> hd old \<notin> set s \<Longrightarrow> replace_all old x s = s"
proof (induction s)
  case (Cons c s)
  then have "\<not> has_prefix (c # s) old" by (cases old) (auto simp: has_prefix_def)
  with Cons show ?case by simp
qed simp

lemma no_break_replace: "\<not> breaks_line v \<Longrightarrow> replace_all [LF] x (replace_all CRLF y v) = v"
proof -
  assume "\<not> breaks_line v"
  then have "CR \<notin> set v" "LF \<notin> set v" by (auto simp: breaks_line_def list_ex_iff)
  then show ?thesis using replace_all_absent [of CRLF v y] replace_all_absent [of "[LF]" v x] by simp
qed

text \<open>A name as a header has it: no colon, no white space, not empty.\<close>

definition field_token :: "string \<Rightarrow> bool" where
  "field_token n \<longleftrightarrow> n \<noteq> [] \<and> list_all (\<lambda>c. c \<noteq> CHR '':'' \<and> \<not> is_space c) n"

lemma field_token_line:
  assumes "field_token n"
  shows "takeWhile (\<lambda>c. c \<noteq> CHR '':'') (n @ CHR '':'' # v) = n" "after_first (CHR '':'') (n @ CHR '':'' # v) = v"
    "trim_right wsp n = n" "trim_space n = n"
proof -
  have t: "takeWhile (\<lambda>c. c \<noteq> CHR '':'') n = n" "dropWhile (\<lambda>c. c \<noteq> CHR '':'') n = []"
    using assms by (auto simp: field_token_def list_all_iff takeWhile_eq_all_conv dropWhile_eq_Nil_conv)
  show "takeWhile (\<lambda>c. c \<noteq> CHR '':'') (n @ CHR '':'' # v) = n" "after_first (CHR '':'') (n @ CHR '':'' # v) = v"
    using t by (simp_all add: takeWhile_append after_first_def dropWhile_append)
  have n: "n \<noteq> []" "\<not> is_space (last n)" "\<not> is_space (hd n)"
    using assms by (simp_all add: field_token_def list_all_iff)
  then have "\<not> wsp (last n)" by (auto simp: wsp_def is_space_def)
  with n have "dropWhile wsp (rev n) = rev n" "dropWhile is_space (rev n) = rev n" "dropWhile is_space n = n"
    by (simp_all add: dropWhile_eq_self_iff hd_rev)
  then show "trim_right wsp n = n" "trim_space n = n" by (simp_all add: trim_space_def trim_left_def trim_right_def)
qed

lemma canonicalizeHeader_rfc:
  assumes "field_token n" "\<not> breaks_line v" "valid_utf8 v"
  shows "canonicalizeHeaderNoCRLF n v = rfc_header (n @ '': '' @ v)" "field_name (n @ '':'' @ w) = to_lower n"
proof -
  note f = field_token_line [OF assms(1)]
  have w: "wsp (CHR '' '')" by (simp add: wsp_def)
  have "trim_left wsp (rfc_line ('' '' @ v)) = trim_left wsp (rfc_line v)"
    using header_runes_rfc [of False "'' '' @ v"] header_runes_rfc [of True v] w by simp
  then show "canonicalizeHeaderNoCRLF n v = rfc_header (n @ '': '' @ v)"
    using assms(2,3) f no_break_replace header_runes_bytes header_runes_rfc
    by (simp add: canonicalizeHeaderNoCRLF_def rfc_header_def field_name_def Let_def)
  show "field_name (n @ '':'' @ w) = to_lower n" using f by (simp add: field_name_def)
qed

section \<open>Base64 reads back\<close>

lemma sextet_facts:
  assumes "n < 64"
  shows "unsextet (sextet n) base64_alphabet = n" "sextet n \<noteq> CHR ''=''" "sextet n \<in> set base64_alphabet"
proof -
  have "list_all (\<lambda>n. unsextet (sextet n) base64_alphabet = n \<and> sextet n \<noteq> CHR ''='' \<and> sextet n \<in> set base64_alphabet) [0..<64]"
    by code_simp
  with assms show "unsextet (sextet n) base64_alphabet = n" "sextet n \<noteq> CHR ''=''" "sextet n \<in> set base64_alphabet"
    by (auto simp: list_all_iff)
qed

lemma unbase64_base64: "list_all (\<lambda>b. b < 256) bs \<Longrightarrow> unbase64 (base64 bs) = bs"
proof (induction bs rule: base64.induct)
  case (2 a)
  then have "a div 4 < 64" "a mod 4 * 16 < 64" "a div 4 * 4 + a mod 4 * 16 div 16 = a" by auto
  then show ?case by (simp add: sextet_facts)
next
  case (3 a b)
  then have "a div 4 < 64" "a mod 4 * 16 + b div 16 < 64" "b mod 16 * 4 < 64"
    "a div 4 * 4 + (a mod 4 * 16 + b div 16) div 16 = a" "(a mod 4 * 16 + b div 16) mod 16 * 16 + b mod 16 * 4 div 4 = b" by auto
  then show ?case by (simp add: sextet_facts)
next
  case (4 a b c s)
  define w x y z
    where wxyz: "w = a div 4" "x = a mod 4 * 16 + b div 16" "y = b mod 16 * 4 + c div 64" "z = c mod 64"
  have lt: "w < 64" "x < 64" "y < 64" "z < 64"
    and again: "w * 4 + x div 16 = a" "x mod 16 * 16 + y div 4 = b" "y mod 4 * 64 + z = c"
    using 4(2) unfolding wxyz by auto
  show ?case unfolding base64.simps wxyz [symmetric] using 4 lt again by (simp add: sextet_facts)
qed simp

definition base64_char :: "char \<Rightarrow> bool" where
  "base64_char c \<longleftrightarrow> c = CHR ''='' \<or> c \<in> set base64_alphabet"

lemma base64_chars: "list_all (\<lambda>b. b < 256) bs \<Longrightarrow> list_all base64_char (base64 bs)"
proof (induction bs rule: base64.induct)
  case (4 a b c s)
  then have "a div 4 < 64" "a mod 4 * 16 + b div 16 < 64" "b mod 16 * 4 + c div 64 < 64" "c mod 64 < 64" by auto
  with 4 show ?case by (simp add: base64_char_def sextet_facts)
qed (auto simp: base64_char_def intro!: sextet_facts)

text \<open>What may stand in a tag of the signature.\<close>

definition tag_char :: "char \<Rightarrow> bool" where
  "tag_char c \<longleftrightarrow> 33 \<le> byte_of c \<and> byte_of c \<le> 126 \<and> c \<noteq> CHR '';''"

lemma base64_tag_char: "base64_char c \<Longrightarrow> tag_char c"
proof -
  assume "base64_char c"
  moreover have "list_all tag_char (CHR ''='' # base64_alphabet)" by code_simp
  ultimately show ?thesis by (auto simp: base64_char_def list_all_iff)
qed

lemma base64_tag: "list_all (\<lambda>b. b < 256) bs \<Longrightarrow> list_all tag_char (base64 bs)"
  using base64_chars base64_tag_char by (metis list_all_iff)

lemma sha256_bytes: "list_all (\<lambda>b. b < 256) (sha256 m)"
proof -
  have "unat (w AND 255) < 256" for w :: word32
    proof -
    have "w AND 255 \<le> 255" by (rule word_and_le1)
    then have "unat (w AND 255) \<le> unat (255 :: word32)" by (simp only: word_le_nat_alt)
    then show ?thesis by simp
  qed
  then show ?thesis by (auto simp: sha256_def be_bytes_def list_all_iff)
qed

lemma tag_char_facts:
  assumes "tag_char c"
  shows "\<not> wsp c" "c \<noteq> CHR '';''" "c \<noteq> CR" "c \<noteq> LF" "byte_of c < 128"
  using assms by (auto simp: tag_char_def wsp_def)

lemma trim_right_tag: "list_all tag_char x \<Longrightarrow> trim_right wsp x = x"
proof (induction x)
  case Nil
  then show ?case by (simp add: trim_right_def)
next
  case (Cons c x)
  then show ?case using tag_char_facts(1) [of c] by (simp add: trim_right_Cons)
qed

lemma itoa_tag: "list_all tag_char (itoa n)"
proof -
  have "is_digit c \<Longrightarrow> tag_char c" for c by (auto simp: is_digit_def tag_char_def)
  then show ?thesis using nat_digits_digits [of "nat n"] nat_digits_digits [of "nat (- n)"]
    by (auto simp: itoa_def list_all_iff tag_char_def)
qed

lemma join_tag: "list_all tag_char sep \<Longrightarrow> list_all (list_all tag_char) ws \<Longrightarrow> list_all tag_char (join_with sep ws)"
  by (induction sep ws rule: join_with.induct) auto

lemma split_join: "ws \<noteq> [] \<Longrightarrow> \<forall>w \<in> set ws. d \<notin> set w \<Longrightarrow> split_on d (join_with [d] ws) = ws"
proof (induction ws)
  case (Cons w ws)
  then show ?case by (cases ws) (auto simp: split_on_single split_on_append)
qed simp

section \<open>Tags\<close>

definition tag_pieces :: "'k signer \<Rightarrow> instant \<Rightarrow> string list \<Rightarrow> string \<Rightarrow> string \<Rightarrow> string list" where
  "tag_pieces sg now hList content b =
     ['' v=1'', '' a=rsa-sha256'', '' c=relaxed/relaxed'', '' d='' @ SDomain sg, '' s='' @ SSelector sg, '' t='' @ itoa (now div second),
      '' h='' @ join_with '':'' hList, '' bh='' @ base64 (sha256 (canonicalizeBody content)), '' b='' @ b]"

definition good_signer :: "'k signer \<Rightarrow> bool" where
  "good_signer sg \<longleftrightarrow> list_all tag_char (SDomain sg) \<and> list_all tag_char (SSelector sg)"

lemma signature_tag_pieces: "'' '' @ signature_tag sg now hList content @ b = join_with '';'' (tag_pieces sg now hList content b)"
  by (simp add: signature_tag_def tag_pieces_def)

lemma tag_char_list: "list_all tag_char x \<Longrightarrow> CHR '';'' \<notin> set x"
  by (auto simp: list_all_iff tag_char_def)

lemma tag_of_piece:
  "list_all tag_char x \<Longrightarrow> tag_of ('' h='' @ x) = (''h'', x)" "list_all tag_char x \<Longrightarrow> tag_of ('' bh='' @ x) = (''bh'', x)"
  "list_all tag_char x \<Longrightarrow> tag_of ('' b='' @ x) = (''b'', x)" "list_all tag_char x \<Longrightarrow> tag_of ('' d='' @ x) = (''d'', x)"
  "list_all tag_char x \<Longrightarrow> tag_of ('' s='' @ x) = (''s'', x)" "list_all tag_char x \<Longrightarrow> tag_of ('' t='' @ x) = (''t'', x)"
  "tag_of '' v=1'' = (''v'', ''1'')" "tag_of '' a=rsa-sha256'' = (''a'', ''rsa-sha256'')"
  "tag_of '' c=relaxed/relaxed'' = (''c'', ''relaxed/relaxed'')"
  by (simp_all add: tag_of_def trim_left_def wsp_def after_first_def trim_right_tag, simp_all add: trim_right_def wsp_def)

lemma tag_pieces_read:
  assumes "good_signer sg" "list_all (list_all tag_char) hList" "list_all tag_char b"
  shows "split_on (CHR '';'') ('' '' @ signature_tag sg now hList content @ b) = tag_pieces sg now hList content b"
    and "map tag_of (tag_pieces sg now hList content b) =
      [(''v'', ''1''), (''a'', ''rsa-sha256''), (''c'', ''relaxed/relaxed''), (''d'', SDomain sg), (''s'', SSelector sg),
       (''t'', itoa (now div second)), (''h'', join_with '':'' hList), (''bh'', base64 (sha256 (canonicalizeBody content))), (''b'', b)]"
    and "without_b ('' '' @ signature_tag sg now hList content @ b) = '' '' @ signature_tag sg now hList content"
proof -
  have h: "list_all tag_char (join_with '':'' hList)" using assms(2) by (intro join_tag) (auto simp: tag_char_def)
  note parts = assms(1) [unfolded good_signer_def] h base64_tag [OF sha256_bytes] itoa_tag assms(3)
  have "\<forall>w \<in> set (tag_pieces sg now hList content b). CHR '';'' \<notin> set w"
    using parts tag_char_list by (simp add: tag_pieces_def)
  then show pieces: "split_on (CHR '';'') ('' '' @ signature_tag sg now hList content @ b) = tag_pieces sg now hList content b"
    unfolding signature_tag_pieces by (intro split_join) (auto simp: tag_pieces_def)
  show tags: "map tag_of (tag_pieces sg now hList content b) =
      [(''v'', ''1''), (''a'', ''rsa-sha256''), (''c'', ''relaxed/relaxed''), (''d'', SDomain sg), (''s'', SSelector sg),
       (''t'', itoa (now div second)), (''h'', join_with '':'' hList), (''bh'', base64 (sha256 (canonicalizeBody content))), (''b'', b)]"
    unfolding tag_pieces_def using parts by (simp only: list.map tag_of_piece)
  have "map (\<lambda>p. if fst (tag_of p) = ''b'' then takeWhile (\<lambda>c. c \<noteq> CHR ''='') p @ ''='' else p) (tag_pieces sg now hList content b) =
      tag_pieces sg now hList content []"
    unfolding tag_pieces_def using parts by (simp only: list.map tag_of_piece fst_conv) simp
  then show "without_b ('' '' @ signature_tag sg now hList content @ b) = '' '' @ signature_tag sg now hList content"
    unfolding without_b_def pieces using signature_tag_pieces [of sg now hList content "[]"] by simp
qed

section \<open>What arrives\<close>

lemma full_lines_Cons: "ls \<noteq> [] \<Longrightarrow> ls \<noteq> [[]] \<Longrightarrow> full_lines (l # ls) = l # full_lines ls"
proof -
  assume "ls \<noteq> []" "ls \<noteq> [[]]"
  then show ?thesis by (cases ls; cases "tl ls") (auto simp: full_lines_def)
qed

lemma text_lines_Cons: "\<not> breaks_line l \<Longrightarrow> text_lines (l @ CRLF @ d) = l # text_lines d"
proof -
  assume l: "\<not> breaks_line l"
  then have "LF \<notin> set l" by (auto simp: breaks_line_def list_ex_iff)
  with conjunct2 [OF crlf_line_Some [OF crlf_line_app [OF l, of d], of "[LF]"]] show ?thesis
    unfolding text_lines_def by (simp only: split_on_append append_Cons append_Nil not_False_eq_True)
qed

lemma text_lines_Nil: "text_lines d = [[]] \<longleftrightarrow> d = []"
proof
  assume "text_lines d = [[]]"
  then have "join_with [LF] (split_on LF (replace_all CRLF [LF] d)) = []" by (simp add: text_lines_def)
  then have "replace_all CRLF [LF] d = []" by (simp only: join_with_split)
  then show "d = []" by (cases d) (auto split: if_splits)
qed (simp add: text_lines_def)

lemma as_lines_line: "\<not> breaks_line l \<Longrightarrow> as_lines (l @ CRLF @ d) = l @ CRLF @ (if d = [] then [] else as_lines d)"
proof (cases "d = []")
  case True
  assume "\<not> breaks_line l"
  from text_lines_Cons [OF this, of "[]"] True show ?thesis unfolding as_lines_concat by (simp add: full_lines_def text_lines_def)
next
  case False
  assume "\<not> breaks_line l"
  from text_lines_Cons [OF this, of d] False text_lines_Nil [of d] text_lines_facts(1) [of d] full_lines_Cons [of "text_lines d" l]
  show ?thesis unfolding as_lines_concat by simp
qed

lemma header_lines_Cons: "\<not> breaks_line l \<Longrightarrow> l \<noteq> [] \<Longrightarrow> header_lines (l @ CRLF @ r) = map_option (\<lambda>(ls, b). (l # ls, b)) (header_lines r)"
  using crlf_line_app [of l r] by (subst header_lines.simps) simp

lemma Render_arrives:
  "\<forall>h \<in> set hs. one_line h \<Longrightarrow>
   header_lines (as_lines (Render hs content)) = Some (map (\<lambda>h. Name h @ '': '' @ Value h) hs, if content = [] then [] else as_lines content)"
proof (induction hs)
  case Nil
  have "as_lines (CRLF @ content) = CRLF @ (if content = [] then [] else as_lines content)"
    using as_lines_line [of "[]" content] by simp
  then show ?case by (subst header_lines.simps) (simp add: Render_def)
next
  case (Cons h hs)
  let ?l = "Name h @ '': '' @ Value h"
  have l: "\<not> breaks_line ?l" using Cons.prems by (simp add: one_line_def)
  have "Render (h # hs) content = ?l @ CRLF @ Render hs content" by (simp add: Render_def render_header_def)
  moreover have "Render hs content \<noteq> []" by (simp add: Render_def)
  ultimately have "as_lines (Render (h # hs) content) = ?l @ CRLF @ as_lines (Render hs content)"
    using as_lines_line [OF l, of "Render hs content"] by (simp only: if_False)
  with header_lines_Cons [OF l] Cons show ?case by simp
qed

lemma header_present_snoc: "header_present (hs @ [h]) = (header_present hs)(to_lower (Name h) \<mapsto> h)"
  by (simp add: header_present_def)

lemma last_field_snoc: "last_field n (ls @ [l]) = (if field_name l = n then Some l else last_field n ls)"
  by (induction ls) auto

lemma last_field_present:
  "\<forall>h \<in> set hs. field_token (Name h) \<Longrightarrow>
   last_field n (map (\<lambda>h. Name h @ '': '' @ Value h) hs) = map_option (\<lambda>h. Name h @ '': '' @ Value h) (header_present hs n)"
proof (induction hs rule: rev_induct)
  case Nil
  then show ?case by (simp add: header_present_def)
next
  case (snoc h hs)
  then have "field_name (Name h @ '': '' @ Value h) = to_lower (Name h)"
    using field_token_line(1,3) [of "Name h"] by (simp add: field_name_def)
  with snoc show ?case by (simp add: last_field_snoc header_present_snoc)
qed

lemma header_present_in: "header_present hs n = Some h \<Longrightarrow> h \<in> set hs \<and> to_lower (Name h) = n"
  by (induction hs rule: rev_induct) (auto simp: header_present_snoc header_present_def split: if_splits)

section \<open>The signature verifies\<close>

text \<open>The headers a signature of this service can be checked with.\<close>

definition good_headers :: "header list \<Rightarrow> bool" where
  "good_headers hs \<longleftrightarrow> list_all (\<lambda>h. field_token (Name h) \<and> one_line h \<and> valid_utf8 (Value h)) hs"

lemma signed_names_tags: "list_all (list_all tag_char) (signed_names hs)"
proof -
  have "list_all (list_all tag_char) signedHeaders" by code_simp
  then show ?thesis by (auto simp: signed_names_def list_all_iff)
qed

lemma names_read:
  assumes "header_present hs ''from'' \<noteq> None"
  shows "split_on (CHR '':'') (join_with '':'' (signed_names hs)) = signed_names hs" "''from'' \<in> set (signed_names hs)" "distinct (signed_names hs)"
    "''dkim-signature'' \<notin> set (signed_names hs)"
proof -
  show f: "''from'' \<in> set (signed_names hs)" "distinct (signed_names hs)" "''dkim-signature'' \<notin> set (signed_names hs)"
    using assms by (auto simp: signed_names_def signedHeaders_def)
  have "list_all (\<lambda>n. CHR '':'' \<notin> set n) signedHeaders" by code_simp
  then have "\<forall>n \<in> set (signed_names hs). CHR '':'' \<notin> set n" by (auto simp: signed_names_def list_all_iff)
  with f(1) show "split_on (CHR '':'') (join_with '':'' (signed_names hs)) = signed_names hs" by (intro split_join) auto
qed

lemma signed_fields:
  assumes "good_headers hs" "''dkim-signature'' \<notin> set ns" "field_name sl = ''dkim-signature''"
  shows "concat (map (\<lambda>l. rfc_header l @ CRLF) (List.map_filter (\<lambda>n. last_field n (sl # map (\<lambda>h. Name h @ '': '' @ Value h) hs)) ns)) =
    concat (map (\<lambda>n. case header_present hs n of None \<Rightarrow> [] | Some h \<Rightarrow> canonicalizeHeader (Name h) (Value h)) ns)"
  using assms(2)
proof (induction ns)
  case (Cons n ns)
  have "last_field n (sl # map (\<lambda>h. Name h @ '': '' @ Value h) hs) = map_option (\<lambda>h. Name h @ '': '' @ Value h) (header_present hs n)"
    using last_field_present [of hs n] assms(1,3) Cons.prems by (auto simp: good_headers_def list_all_iff split: option.split)
  moreover have "rfc_header (Name h @ '': '' @ Value h) = canonicalizeHeaderNoCRLF (Name h) (Value h)" if "header_present hs n = Some h" for h
    using header_present_in [OF that] assms(1) canonicalizeHeader_rfc(1) by (auto simp: good_headers_def list_all_iff one_line_def)
  ultimately show ?case using Cons by (cases "header_present hs n") (auto simp: List.map_filter_simps canonicalizeHeader_def)
qed (simp add: List.map_filter_simps)

lemma tag_plain: "list_all tag_char x \<Longrightarrow> list_all (\<lambda>c. byte_of c < 128 \<and> c \<noteq> CR \<and> c \<noteq> LF) x"
  by (induction x) (auto simp: tag_char_def)

lemma plain_facts:
  assumes "list_all (\<lambda>c. byte_of c < 128 \<and> c \<noteq> CR \<and> c \<noteq> LF) x"
  shows "\<not> breaks_line x" "valid_utf8 x"
proof -
  show "\<not> breaks_line x" using assms by (auto simp: breaks_line_def list_all_iff list_ex_iff)
  show "valid_utf8 x" by (rule valid_utf8_all_ascii, rule list.pred_mono_strong [OF assms]) simp
qed

lemma signature_tag_plain:
  assumes "good_signer sg"
  shows "list_all (\<lambda>c. byte_of c < 128 \<and> c \<noteq> CR \<and> c \<noteq> LF) (signature_tag sg now (signed_names hs) content)"
proof -
  have h: "list_all tag_char (join_with '':'' (signed_names hs))" by (intro join_tag signed_names_tags) (simp add: tag_char_def)
  have "list_all (\<lambda>c. byte_of c < 128 \<and> c \<noteq> CR \<and> c \<noteq> LF) (SDomain sg)" "list_all (\<lambda>c. byte_of c < 128 \<and> c \<noteq> CR \<and> c \<noteq> LF) (SSelector sg)"
    using assms tag_plain by (simp_all add: good_signer_def)
  with tag_plain [OF h] tag_plain [OF itoa_tag] tag_plain [OF base64_tag [OF sha256_bytes]] show ?thesis
    by (simp add: signature_tag_def)
qed

lemma verifiesI:
  assumes "header_lines msg = Some (sl # ls, content)" "field_name sl = ''dkim-signature''" "after_first (CHR '':'') sl = v"
    and "map tag_of (split_on (CHR '';'') v) =
      [(''v'', ''1''), (''a'', ''rsa-sha256''), (''c'', ''relaxed/relaxed''), (''d'', d), (''s'', s), (''t'', t), (''h'', h), (''bh'', bh), (''b'', b)]"
    and "split_on (CHR '':'') h = ns" "distinct ns" "''from'' \<in> set ns" "bh = base64 (sha256 (rfc_body content))"
    and "without_b v = v'" "unbase64 b = raw"
    and "check (sha256 (concat (map (\<lambda>l. rfc_header l @ CRLF) (List.map_filter (\<lambda>n. last_field n (sl # ls)) ns)) @
        rfc_header (''dkim-signature'' @ '':'' @ v'))) (map char_of raw)"
  shows "verifies check msg"
  unfolding verifies_def assms(1) using assms(2-) by (simp add: Let_def del: last_field.simps)

lemma Sign_verifies:
  assumes "Sign rsa now sg hs content = Inr sig" "good_headers hs" "header_present hs ''from'' \<noteq> None"
    and "good_signer sg" "valid_utf8 content" "\<And>d s. rsa (SKey sg) d = Inr s \<Longrightarrow> check d s"
  shows "verifies check (as_lines (sig @ Render hs content))"
proof -
  let ?ns = "signed_names hs"
  let ?tag = "signature_tag sg now ?ns content"
  let ?canon = "concat (map (\<lambda>n. case header_present hs n of None \<Rightarrow> [] | Some h \<Rightarrow> canonicalizeHeader (Name h) (Value h)) ?ns)"
  obtain raw where raw: "rsa (SKey sg) (sha256 (?canon @ canonicalizeHeaderNoCRLF ''DKIM-Signature'' ?tag)) = Inr raw"
    "sig = ''DKIM-Signature: '' @ ?tag @ base64 (map of_char raw) @ CRLF"
    using assms(1) by (auto simp: Sign_def Let_def split: sum.splits)
  let ?b = "base64 (map of_char raw)"
  let ?sl = "''DKIM-Signature: '' @ ?tag @ ?b"
  have bytes: "list_all (\<lambda>b. b < 256) (map of_char raw :: nat list)" by (simp add: list_all_iff)
  note b = base64_tag [OF bytes]
  note tags = tag_pieces_read [OF assms(4) signed_names_tags [of hs] b, of now content]
  note names = names_read [OF assms(3)]
  have ascii: "list_all (\<lambda>c. byte_of c < 128 \<and> c \<noteq> CR \<and> c \<noteq> LF) (?tag @ ?b)"
    using signature_tag_plain [OF assms(4), of now hs content] tag_plain [OF b] by simp
  then have plain: "\<not> breaks_line ?sl" "valid_utf8 ?tag" "\<not> breaks_line ?tag"
    using plain_facts [OF ascii] plain_facts [OF signature_tag_plain [OF assms(4), of now hs content]] by simp_all
  have tok: "field_token ''DKIM-Signature''" "field_token ''dkim-signature''" by code_simp+
  have low: "to_lower ''DKIM-Signature'' = ''dkim-signature''" by code_simp
  have sl: "field_name ?sl = ''dkim-signature''" "after_first (CHR '':'') ?sl = '' '' @ ?tag @ ?b"
    using canonicalizeHeader_rfc(2) [OF tok(1), of "[]" "'' '' @ ?tag @ ?b"] field_token_line(2) [OF tok(1), of "'' '' @ ?tag @ ?b"] low
    by (simp_all add: valid_utf8_def)
  have one: "\<forall>h \<in> set hs. one_line h" using assms(2) by (simp add: good_headers_def list_all_iff)
  have "as_lines (sig @ Render hs content) = ?sl @ CRLF @ as_lines (Render hs content)"
    using as_lines_line [OF plain(1), of "Render hs content"] raw(2) by (simp add: Render_def)
  then have arrived: "header_lines (as_lines (sig @ Render hs content)) =
      Some (?sl # map (\<lambda>h. Name h @ '': '' @ Value h) hs, if content = [] then [] else as_lines content)"
    using header_lines_Cons [OF plain(1), of "as_lines (Render hs content)"] Render_arrives [OF one, of content] by simp
  have empty: "rfc_body [] = canonicalizeBody []" by code_simp
  have rfc: "rfc_body (if content = [] then [] else as_lines content) = canonicalizeBody content"
    using canonicalizeBody_rfc [OF assms(5)] empty by (cases "content = []") auto
  have self: "rfc_header (''dkim-signature'' @ '':'' @ '' '' @ ?tag) = canonicalizeHeaderNoCRLF ''DKIM-Signature'' ?tag"
    using canonicalizeHeader_rfc(1) [OF tok(2) plain(3,2)] field_token_line(4) [OF tok(1)] field_token_line(4) [OF tok(2)] low
    by (simp add: canonicalizeHeaderNoCRLF_def Let_def to_lower_def lower_char_def)
  have "(map char_of (map of_char raw :: nat list)) = raw" by (simp add: comp_def)
  with assms(6) [OF raw(1)] have "check (sha256 (?canon @ rfc_header (''dkim-signature'' @ '':'' @ '' '' @ ?tag))) (map char_of (map of_char raw :: nat list))"
    unfolding self by simp
  then have ok: "check (sha256 (concat (map (\<lambda>l. rfc_header l @ CRLF) (List.map_filter
      (\<lambda>n. last_field n (?sl # map (\<lambda>h. Name h @ '': '' @ Value h) hs)) ?ns)) @ rfc_header (''dkim-signature'' @ '':'' @ '' '' @ ?tag)))
      (map char_of (map of_char raw :: nat list))"
    unfolding signed_fields [OF assms(2) names(4) sl(1)] .
  show ?thesis
    by (rule verifiesI [where check = check, OF arrived sl tags(2) [folded tags(1)] names(1,3,2) _ tags(3) unbase64_base64 [OF bytes] ok]) (simp only: rfc)
qed

section \<open>Texts in UTF-8\<close>

lemma follows_append: "follows k s \<Longrightarrow> follows k (s @ t)"
  by (induction k s rule: follows.induct) auto

lemma runes_append: "valid_utf8 s \<Longrightarrow> runes (s @ t) = runes s @ runes t"
proof (induction "length s" arbitrary: s rule: less_induct)
  case less
  show ?case
  proof (cases s)
    case (Cons c u)
    show ?thesis
    proof (cases "byte_of c < 128")
      case True
      with Cons less.prems have "valid_utf8 u" using valid_utf8_ascii [of c "[]" u] by simp
      with True less.hyps [of u] Cons show ?thesis by (simp add: Let_def)
    next
      case False
      let ?k = "continuation (byte_of c)"
      have f: "?k \<noteq> [] \<and> follows ?k u" using valid_utf8_follows [OF less.prems [unfolded Cons] False] .
      then have le: "length ?k \<le> length u" using follows_length by blast
      have v: "valid_utf8 (drop (length ?k) u)"
        using less.prems Cons False f by (auto simp: valid_utf8_def Let_def) (metis append_take_drop_id same_append_eq)
      have "runes (drop (length ?k) u @ t) = runes (drop (length ?k) u) @ runes t"
        by (rule less.hyps [OF _ v]) (simp add: Cons)
      with f le False Cons follows_append [of ?k u t] show ?thesis by (simp add: Let_def)
    qed
  qed simp
qed

lemma valid_append: "valid_utf8 s \<Longrightarrow> valid_utf8 t \<Longrightarrow> valid_utf8 (s @ t)"
  by (simp add: valid_utf8_def runes_append)

lemma valid_newlines: "valid_utf8 s \<Longrightarrow> valid_utf8 (normaliseNewlines s)"
proof -
  have "valid_utf8 u \<Longrightarrow> valid_utf8 (replace_all [LF] CRLF u)" for u
  proof (induction "length u" arbitrary: u rule: less_induct)
    case less
    show ?case
    proof (cases "LF \<in> set u")
      case True
      then obtain x y where u: "u = x @ LF # y" "LF \<notin> set x" using split_list_first by metis
      have "replace_all [LF] CRLF (x @ LF # y) = x @ CRLF @ replace_all [LF] CRLF y"
        using u(2) by (induction x) (auto simp: has_prefix_def)
      moreover have "valid_utf8 x" "valid_utf8 (replace_all [LF] CRLF y)"
        using less u(1) valid_utf8_ascii [of LF x y] by auto
      ultimately show ?thesis unfolding u(1) using valid_append [of x] valid_append [of CRLF] valid_utf8_all_ascii [of CRLF] by simp
    next
      case False
      then show ?thesis using less.prems replace_all_absent [of "[LF]" u CRLF] by simp
    qed
  qed
  then show "valid_utf8 s \<Longrightarrow> valid_utf8 (normaliseNewlines s)" unfolding normaliseNewlines_def using valid_utf8_replace by blast
qed

definition utf8_message :: "tools \<Rightarrow> message \<Rightarrow> bool" where
  "utf8_message tk m \<longleftrightarrow> list_all valid_utf8 ([From m, To m, encodeSubject tk (Subject m), Text m, HTML m] @ map Value (Extra m)) \<and>
     (\<forall>t. valid_utf8 (rfc1123z tk t))"

lemma Build_valid:
  assumes "Build tk (Inr b) now messageID m = Inr (hs, content)" "utf8_message tk m" "valid_utf8 messageID" "valid_utf8 b"
  shows "list_all (\<lambda>h. valid_utf8 (Value h)) hs" "valid_utf8 content"
proof -
  have lit: "valid_utf8 ''multipart/alternative; boundary=\"''" "valid_utf8 ''\"''" "valid_utf8 ''text/html; charset=utf-8''"
    "valid_utf8 ''text/plain; charset=utf-8''" "valid_utf8 ''<''" "valid_utf8 ''>''" "valid_utf8 ''1.0''" "valid_utf8 CRLF" "valid_utf8 ''--''"
    "valid_utf8 ''Content-Type: text/plain; charset=utf-8''" "valid_utf8 ''Content-Type: text/html; charset=utf-8''"
    by (rule valid_utf8_all_ascii, simp)+
  have nl: "valid_utf8 (normaliseNewlines (Text m))" "valid_utf8 (normaliseNewlines (HTML m))"
    using assms(2) valid_newlines by (simp_all add: utf8_message_def)
  have "valid_utf8 (multipart_body b m)" unfolding multipart_body_def by (intro valid_append lit nl assms(4))
  then show "valid_utf8 content" using assms(1) nl
    by (auto simp: Build_def Let_def add_extra_headers split: option.splits if_splits sum.splits)
  have mid: "valid_utf8 (''<'' @ messageID @ ''>'')" by (intro valid_append lit assms(3))
  have bd: "valid_utf8 (''multipart/alternative; boundary=\"'' @ b @ ''\"'')" by (intro valid_append lit assms(4))
  have own: "list_all (\<lambda>h. valid_utf8 (Value h)) (own_headers tk now messageID m)"
    using assms(2) mid lit by (simp add: own_headers_def utf8_message_def)
  have "\<exists>ctype. hs = own_headers tk now messageID m @ [\<lparr>Name = ''Content-Type'', Value = ctype\<rparr>] @ Extra m \<and> valid_utf8 ctype"
    using assms(1) bd lit by (auto simp: Build_def Let_def add_extra_headers split: option.splits if_splits sum.splits)
  with own assms(2) show "list_all (\<lambda>h. valid_utf8 (Value h)) hs" by (auto simp: utf8_message_def list_all_iff)
qed

section \<open>Mail that was built\<close>

lemma from_present: "header_present (\<lparr>Name = ''From'', Value = v\<rparr> # hs) ''from'' \<noteq> None"
proof (induction hs rule: rev_induct)
  case Nil
  have "to_lower ''From'' = ''from''" by code_simp
  then show ?case by (simp add: header_present_def)
next
  case (snoc h hs)
  then show ?case using header_present_snoc [of "\<lparr>Name = ''From'', Value = v\<rparr> # hs" h] by simp
qed

lemma signature_holds:
  assumes "Build tk (Inr b) now messageID m = Inr (hs, content)" "Sign rsa now sg hs content = Inr sig"
    and "clean_tools tk" "\<not> breaks_line messageID" "\<not> breaks_line b"
    and "list_all (\<lambda>h. field_token (Name h)) (Extra m)" "list_all (\<lambda>h. valid_utf8 (Value h)) hs" "valid_utf8 content"
    and "good_signer sg" "\<And>d s. rsa (SKey sg) d = Inr s \<Longrightarrow> check d s"
  shows "\<exists>msg. receive (dotStuff (sig @ Render hs content) @ rest) = Some (msg, rest) \<and> verifies check msg"
proof -
  from Build_headers(2) [OF assms(1)] obtain ctype where
    hs: "hs = own_headers tk now messageID m @ [\<lparr>Name = ''Content-Type'', Value = ctype\<rparr>] @ Extra m" by blast
  have one: "\<forall>h \<in> set hs. one_line h" by (rule Build_one_line [OF assms(1,3,4)]) (use assms(5) in auto)
  have "list_all field_token [''From'', ''To'', ''Subject'', ''Date'', ''Message-ID'', ''MIME-Version'', ''Content-Type'']" by code_simp
  then have "list_all (\<lambda>h. field_token (Name h)) hs" using assms(6) by (simp add: hs own_headers_def)
  with one assms(7) have good: "good_headers hs" by (simp add: good_headers_def list_all_iff)
  have "header_present hs ''from'' \<noteq> None" unfolding hs own_headers_def using from_present [of "From m"] by simp
  from Sign_verifies [OF assms(2) good this assms(9,8,10)] have "verifies check (as_lines (sig @ Render hs content))" by simp
  then show ?thesis using receive_dotStuff [of "sig @ Render hs content" rest] by blast
qed

text \<open>
  A message this service sends verifies where it arrives: of a message that was built and signed, what
  the receiver reads after DATA is a message whose DKIM signature holds, for every receiver that checks
  as RFC 6376 says, with a public key that accepts what the private key signs. The names the caller
  added are names (no colon, no white space), the texts are UTF-8, and the domain and the selector
  are printable and without a semicolon.
\<close>

theorem signed_mail_verifies:
  assumes "Build tk (Inr b) now messageID m = Inr (hs, content)" "Sign rsa now sg hs content = Inr sig"
    and "clean_tools tk" "\<not> breaks_line messageID" "\<not> breaks_line b"
    and "list_all (\<lambda>h. field_token (Name h)) (Extra m)" "list_all (\<lambda>h. valid_utf8 (Value h)) hs" "valid_utf8 content"
    and "good_signer sg" "\<And>d s. rsa (SKey sg) d = Inr s \<Longrightarrow> check d s"
  shows "\<exists>msg. receive (dotStuff (sig @ Render hs content) @ rest) = Some (msg, rest) \<and> verifies check msg"
  using signature_holds [OF assms] .

definition example_signer :: "unit signer" where
  "example_signer = \<lparr>SDomain = ''x.org'', SSelector = ''s1'', SKey = ()\<rparr>"

text \<open>The signature of the witness is the digest itself, and it is checked by comparison.\<close>

definition example_rsa :: "unit \<Rightarrow> nat list \<Rightarrow> string + string" where
  "example_rsa k d = Inr (map char_of d)"

theorem signed_mail_verifies_witness:
  "\<exists>hs content sig msg. Build example_tools (Inr ''B'') 0 ''1@x.org'' example_message = Inr (hs, content) \<and>
     Sign example_rsa 0 example_signer hs content = Inr sig \<and>
     receive (dotStuff (sig @ Render hs content) @ ''QUIT'') = Some (msg, ''QUIT'') \<and> verifies (\<lambda>d s. map char_of d = s) msg"
proof -
  let ?hs = "own_headers example_tools 0 ''1@x.org'' example_message @
       [\<lparr>Name = ''Content-Type'', Value = ''text/plain; charset=utf-8''\<rparr>, \<lparr>Name = ''X-Tag'', Value = ''1''\<rparr>]"
  obtain sig where sig: "Sign example_rsa 0 example_signer ?hs ''hello'' = Inr sig"
    by (auto simp: Sign_def example_rsa_def Let_def)
  have "clean_tools example_tools" by (simp add: clean_tools_def example_tools_def)
  moreover have "list_all (\<lambda>h. field_token (Name h)) (Extra example_message)" "list_all (\<lambda>h. valid_utf8 (Value h)) ?hs"
    "valid_utf8 ''hello''" "good_signer example_signer" by code_simp+
  ultimately obtain msg where "receive (dotStuff (sig @ Render ?hs ''hello'') @ ''QUIT'') = Some (msg, ''QUIT'') \<and>
      verifies (\<lambda>d s. map char_of d = s) msg"
    using signed_mail_verifies [OF example_build sig, of "\<lambda>d s. map char_of d = s" "''QUIT''"] by (auto simp: example_rsa_def)
  with example_build sig show ?thesis by blast
qed

end
