(* ===== verification/Relay.thy ===== *)
theory Relay
  imports Queue Dkim Suppress Resolver
begin

text \<open>
  Outgoing mail: \<open>internal/relay/relay.go\<close>.

  A relay is its options and what it works with: the Redis that holds the queue and the suppression list,
  the resolver, the pacer, the health of the address, the connection and the clock are parameters over one
  world. The queue, the list, the assembling, signing and sending of a message are those of the other
  theories. What a delivery did is kept in a log, in order.

  The theorems show that a connection is only opened after every check has passed, in the order of the
  code, that a delivery does to the queue what a drainer of \<open>Queue\<close> does, that a message that was accepted
  is stored and verifies where it arrives, and that somebody who is on the list is not written to. Two
  theorems show what the code does not mean to do: a list that cannot be vouched for deletes the
  message, and a message that was refused for good is offered again.
\<close>

datatype relay_error =
    NotSending string | AddressSuppressed string | QueueError queue_error | EntropyError string | BuildError build_error | SigningError string

datatype relay_event =
    Took item | Dialled string addr bool | Offered outcome | Observed string bool | Recorded string | Ended string | PutBack string string

record ('w, 'k) relay =
  redis :: "'w redis"
  r_codec :: codec
  r_maxAttempts :: int
  r_signer :: "'k signer"
  r_rsa :: "'k \<Rightarrow> nat list \<Rightarrow> string + string"
  r_tools :: tools
  r_mx :: "string \<Rightarrow> 'w \<Rightarrow> (string + string list) \<times> 'w"
  r_resolve :: "string \<Rightarrow> 'w \<Rightarrow> (string + addr list) \<times> 'w"
  r_dial :: "string \<Rightarrow> addr \<Rightarrow> 'w \<Rightarrow> string option \<times> 'w"
  r_conn :: "'w smtp"
  r_acquire :: "string \<Rightarrow> string \<Rightarrow> 'w \<Rightarrow> string option \<times> 'w"
  r_observe :: "string \<Rightarrow> bool \<Rightarrow> 'w \<Rightarrow> 'w"
  r_list :: "suppress_list option"
  r_health :: "(('w \<Rightarrow> bool \<times> string) \<times> ('w \<Rightarrow> (bool \<times> string) \<times> 'w)) option"
  r_metrics :: bool
  r_clock :: "'w \<Rightarrow> instant"
  r_helo :: string
  r_returnPath :: "string \<Rightarrow> string"
  r_retryBase :: duration
  r_network :: string

text \<open>\<open>New\<close> fills in the defaults; the timeout of a delivery is the environment's.\<close>

definition New_relay :: "('w, 'k) relay \<Rightarrow> ('w, 'k) relay" where
  "New_relay r = r\<lparr>r_retryBase := (if r_retryBase r \<le> 0 then 5 * minute else r_retryBase r),
     r_network := (if r_network r = [] then ''tcp4'' else r_network r)\<rparr>"

definition addressOnly :: "string \<Rightarrow> string" where
  "addressOnly s =
     (case after_last (CHR ''<'') s of
        Some r \<Rightarrow> if CHR ''>'' \<in> set r then takeWhile (\<lambda>c. c \<noteq> CHR ''>'') r else trim_space s
      | None \<Rightarrow> trim_space s)"

definition domainOf :: "string \<Rightarrow> string" where
  "domainOf a = (case after_last (CHR ''@'') a of Some d \<Rightarrow> to_lower d | None \<Rightarrow> [])"

definition firstLine :: "string \<Rightarrow> string" where
  "firstLine s = takeWhile (\<lambda>c. c \<noteq> LF) s"

section \<open>Accepting\<close>

definition suppressionAllows :: "('w, 'k) relay \<Rightarrow> string \<Rightarrow> 'w \<Rightarrow> relay_error option \<times> 'w" where
  "suppressionAllows r a w =
     (case r_list r of
        None \<Rightarrow> (None, w)
      | Some l \<Rightarrow>
          if \<not> Enforcing l then (None, w)
          else case Stale (redis r) (r_clock r w) l w of
            (True, w) \<Rightarrow> (Some (NotSending ''the suppression list is stale and sending cannot be taken back''), w)
          | (False, w) \<Rightarrow>
              (case Suppressed (redis r) l a w of
                 (Inl e, w) \<Rightarrow> (Some (NotSending ''the suppression list is unreadable''), w)
               | (Inr (hit, why), w) \<Rightarrow> (if hit then Some (AddressSuppressed why) else None, w)))"

text \<open>\<open>token\<close> and \<open>boundary\<close> are what the random generator gave, or its error.\<close>

definition Accept ::
  "('w, 'k) relay \<Rightarrow> string + string \<Rightarrow> string + string \<Rightarrow> message \<Rightarrow> 'w \<Rightarrow> (relay_error + string) \<times> 'w" where
  "Accept r token boundary m w =
     (case token of
        Inl e \<Rightarrow> (Inl (EntropyError e), w)
      | Inr mid \<Rightarrow>
          let messageID = mid @ ''@'' @ SDomain (r_signer r)
          in case suppressionAllows r (To m) w of
               (Some e, w) \<Rightarrow> (Inl e, w)
             | (None, w) \<Rightarrow>
                 (case Build (r_tools r) boundary (r_clock r w) messageID m of
                    Inl e \<Rightarrow> (Inl (BuildError e), w)
                  | Inr (hs, content) \<Rightarrow>
                      (case Sign (r_rsa r) (r_clock r w) (r_signer r) hs content of
                         Inl e \<Rightarrow> (Inl (SigningError e), w)
                       | Inr sig \<Rightarrow>
                           let it = \<lparr>ItemID = mid, MailFrom = r_returnPath r mid, RcptTo = addressOnly (To m),
                                     Data = sig @ Render hs content, Attempts = 0, Queued = r_clock r w, LastErr = []\<rparr>
                           in case run_prog (Enqueue (r_codec r) it) (redis r) w of
                                (Some e, w) \<Rightarrow> (Inl (QueueError e), w)
                              | (None, w) \<Rightarrow> (Inr messageID, w))))"

section \<open>Delivering\<close>

record 'w rstate =
  rw :: 'w
  events :: "relay_event list"

definition note_event :: "relay_event \<Rightarrow> 'w rstate \<Rightarrow> 'w rstate" where
  "note_event e st = st\<lparr>events := events st @ [e]\<rparr>"

definition record_outcome :: "('w, 'k) relay \<Rightarrow> string \<Rightarrow> 'w rstate \<Rightarrow> 'w rstate" where
  "record_outcome r o1 st = (if r_metrics r then note_event (Recorded o1) st else st)"

definition put_back :: "('w, 'k) relay \<Rightarrow> item \<Rightarrow> string \<Rightarrow> 'w rstate \<Rightarrow> (bool \<times> relay_error option) \<times> 'w rstate" where
  "put_back r it why st =
     (case run_prog (Retry (r_codec r) (r_maxAttempts r) (r_clock r (rw st)) it (r_retryBase r) why) (redis r) (rw st) of
        (e, w) \<Rightarrow> ((True, map_option QueueError e), note_event (PutBack (ItemID it) why) (st\<lparr>rw := w\<rparr>)))"

definition end_item :: "('w, 'k) relay \<Rightarrow> item \<Rightarrow> 'w rstate \<Rightarrow> (bool \<times> relay_error option) \<times> 'w rstate" where
  "end_item r it st =
     (case run_prog (Done (ItemID it)) (redis r) (rw st) of
        (e, w) \<Rightarrow> ((True, map_option QueueError e), note_event (Ended (ItemID it)) (st\<lparr>rw := w\<rparr>)))"

definition observe :: "('w, 'k) relay \<Rightarrow> string \<Rightarrow> bool \<Rightarrow> 'w rstate \<Rightarrow> 'w rstate" where
  "observe r host throttled st = note_event (Observed host throttled) (st\<lparr>rw := r_observe r host throttled (rw st)\<rparr>)"

text \<open>The reply of the server decides.\<close>

definition after_send :: "('w, 'k) relay \<Rightarrow> string \<Rightarrow> item \<Rightarrow> outcome \<Rightarrow> 'w rstate \<Rightarrow> (bool \<times> relay_error option) \<times> 'w rstate" where
  "after_send r mxHost it out st =
     (let said = itoa (OCode out) @ '' '' @ firstLine (OReply out)
      in if Delivered out then end_item r it (record_outcome r ''delivered'' (observe r mxHost False st))
         else if Permanent out then put_back r it said (record_outcome r ''rejected'' (observe r mxHost False st))
         else put_back r it (if OErr out = [] then said else OErr out) (record_outcome r ''deferred'' (observe r mxHost True st)))"

definition send_item :: "('w, 'k) relay \<Rightarrow> item \<Rightarrow> 'w rstate \<Rightarrow> ((bool \<times> relay_error option) \<times> 'w rstate) option" where
  "send_item r it st =
     (let domain = domainOf (RcptTo it)
      in case r_mx r domain (rw st) of
           (Inr (mxHost # hosts), w) \<Rightarrow>
             (let st = st\<lparr>rw := w\<rparr>
              in case r_acquire r mxHost domain (rw st) of
                   (Some e, w) \<Rightarrow> Some (put_back r it (''no budget: '' @ e) (record_outcome r ''no_budget'' (st\<lparr>rw := w\<rparr>)))
                 | (None, w) \<Rightarrow>
                     (let st = st\<lparr>rw := w\<rparr>
                      in case r_resolve r mxHost (rw st) of
                           (Inr (a # as), w) \<Rightarrow>
                             (let st = st\<lparr>rw := w\<rparr>
                              in case r_dial r (r_network r) a (rw st) of
                                   (Some e, w) \<Rightarrow>
                                     Some (put_back r it e (record_outcome r ''dial_failed''
                                       (observe r mxHost True (note_event (Dialled (r_network r) a False) (st\<lparr>rw := w\<rparr>)))))
                                 | (None, w) \<Rightarrow>
                                     (let st = note_event (Dialled (r_network r) a True) (st\<lparr>rw := w\<rparr>);
                                          opt = \<lparr>SHelo = r_helo r, SMailFrom = MailFrom it, SRcptTo = RcptTo it, SData = Data it\<rparr>
                                      in case Send (r_conn r) opt \<lparr>world = rw st, talk = []\<rparr> of
                                           None \<Rightarrow> None
                                         | Some (out, dv) \<Rightarrow> Some (after_send r mxHost it out (note_event (Offered out) (st\<lparr>rw := world dv\<rparr>)))))
                         | (_, w) \<Rightarrow>
                             Some (put_back r it (''no vetted address for '' @ mxHost) (record_outcome r ''guarded'' (st\<lparr>rw := w\<rparr>)))))
         | (_, w) \<Rightarrow> Some (put_back r it (''no usable MX for '' @ domain) (record_outcome r ''no_mx'' (st\<lparr>rw := w\<rparr>))))"

definition deliver_item :: "('w, 'k) relay \<Rightarrow> item \<Rightarrow> 'w rstate \<Rightarrow> ((bool \<times> relay_error option) \<times> 'w rstate) option" where
  "deliver_item r it st =
     (let st = (if r_metrics r then st\<lparr>rw := snd (run_prog Depth (redis r) (rw st))\<rparr> else st)
      in case suppressionAllows r (RcptTo it) (rw st) of
           (Some _, w) \<Rightarrow> Some (end_item r it (record_outcome r ''suppressed'' (st\<lparr>rw := w\<rparr>)))
         | (None, w) \<Rightarrow> send_item r it (st\<lparr>rw := w\<rparr>))"

definition take_and_deliver :: "('w, 'k) relay \<Rightarrow> 'w rstate \<Rightarrow> ((bool \<times> relay_error option) \<times> 'w rstate) option" where
  "take_and_deliver r st =
     (case run_prog (Next (r_codec r) (r_clock r (rw st))) (redis r) (rw st) of
        (Inl e, w) \<Rightarrow> Some ((False, Some (QueueError e)), st\<lparr>rw := w\<rparr>)
      | (Inr None, w) \<Rightarrow> Some ((False, None), st\<lparr>rw := w\<rparr>)
      | (Inr (Some it), w) \<Rightarrow> deliver_item r it (note_event (Took it) (st\<lparr>rw := w\<rparr>)))"

definition DeliverNext :: "('w, 'k) relay \<Rightarrow> 'w rstate \<Rightarrow> ((bool \<times> relay_error option) \<times> 'w rstate) option" where
  "DeliverNext r st =
     (case r_health r of
        None \<Rightarrow> take_and_deliver r st
      | Some (burned_op, paused_op) \<Rightarrow>
          (case burned_op (rw st) of
             (True, why) \<Rightarrow> Some ((False, Some (NotSending (''the sending IP is listed: '' @ why))), st)
           | (False, _) \<Rightarrow>
               (case paused_op (rw st) of
                  ((True, why), w) \<Rightarrow> Some ((False, Some (NotSending why)), st\<lparr>rw := w\<rparr>)
                | ((False, _), w) \<Rightarrow> take_and_deliver r (st\<lparr>rw := w\<rparr>))))"

section \<open>Before a connection\<close>

fun dials :: "relay_event \<Rightarrow> bool" where
  "dials (Dialled net a ok) = True"
| "dials _ = False"

text \<open>What happens after an attempt.\<close>

fun late :: "relay_event \<Rightarrow> bool" where
  "late (Offered out) = True"
| "late (Observed h b) = True"
| "late (Recorded o1) = True"
| "late (Ended x) = True"
| "late (PutBack x why) = True"
| "late _ = False"

lemma late_not_dials: "list_all late q \<Longrightarrow> list_all (\<lambda>e. \<not> dials e) q"
  by (rule list.pred_mono_strong, assumption) (auto elim: late.elims)

lemma late_not_took: "list_all late q \<Longrightarrow> Took x \<notin> set q"
  by (auto simp: list_all_iff)

lemma note_event_simps [simp]: "events (note_event e st) = events st @ [e]" "rw (note_event e st) = rw st"
  by (simp_all add: note_event_def)

definition quietly :: "'w rstate \<Rightarrow> 'w rstate \<Rightarrow> bool" where
  "quietly st st' \<longleftrightarrow> (\<exists>q. events st' = events st @ q \<and> list_all late q)"

lemma quietly_ends:
  "put_back r it why (record_outcome r o1 st) = (res, st') \<Longrightarrow> quietly st st'"
  "put_back r it why (record_outcome r o1 (observe r host th st)) = (res, st') \<Longrightarrow> quietly st st'"
  "end_item r it (record_outcome r o1 st) = (res, st') \<Longrightarrow> quietly st st'"
  "end_item r it (record_outcome r o1 (observe r host th st)) = (res, st') \<Longrightarrow> quietly st st'"
  by (auto simp: quietly_def put_back_def end_item_def record_outcome_def observe_def note_event_def split: prod.splits if_splits)

lemma quietly_after_send: "after_send r host it out st = (res, st') \<Longrightarrow> quietly st st'"
  unfolding after_send_def Let_def by (auto split: if_splits dest: quietly_ends)

lemma quietly_none: "quietly st st' \<Longrightarrow> list_all (\<lambda>e. \<not> dials e) (events st) \<Longrightarrow> list_all (\<lambda>e. \<not> dials e) (events st')"
  using late_not_dials by (auto simp: quietly_def)

text \<open>What the suppression list has to say for a message to go out, from one world to the next: when it is enforced, that it is
  not stale and that the address is not on it.\<close>

definition list_clears :: "('w, 'k) relay \<Rightarrow> string \<Rightarrow> 'w \<Rightarrow> 'w \<Rightarrow> bool" where
  "list_clears r a w w' \<longleftrightarrow>
     (case r_list r of
        None \<Rightarrow> w' = w
      | Some l \<Rightarrow>
          if Enforcing l
          then \<exists>w1 why. Stale (redis r) (r_clock r w) l w = (False, w1) \<and> Suppressed (redis r) l a w1 = (Inr (False, why), w')
          else w' = w)"

lemma suppressionAllows_clears: "suppressionAllows r a w = (None, w') \<Longrightarrow> list_clears r a w w'"
  by (auto simp: suppressionAllows_def list_clears_def split: option.splits if_splits prod.splits bool.splits sum.splits)

text \<open>A delivery that found a server, was given a token and an address, connected to it, and did nothing more of that kind.\<close>

definition connects :: "('w, 'k) relay \<Rightarrow> item \<Rightarrow> 'w \<Rightarrow> relay_event list \<Rightarrow> relay_event list \<Rightarrow> bool" where
  "connects r it w before evs \<longleftrightarrow> (\<exists>host hosts w1 w2 a as w3 post.
     r_mx r (domainOf (RcptTo it)) w = (Inr (host # hosts), w1) \<and> r_acquire r host (domainOf (RcptTo it)) w1 = (None, w2) \<and>
     r_resolve r host w2 = (Inr (a # as), w3) \<and> list_all late post \<and>
     evs = before @ Dialled (r_network r) a (fst (r_dial r (r_network r) a w3) = None) # post)"

lemma connectsI:
  assumes "quietly st st'" "events st = before @ Dialled (r_network r) a (fst (r_dial r (r_network r) a w3) = None) # p" "list_all late p"
    and "r_mx r (domainOf (RcptTo it)) w = (Inr (host # hosts), w1)" "r_acquire r host (domainOf (RcptTo it)) w1 = (None, w2)"
    and "r_resolve r host w2 = (Inr (a # as), w3)"
  shows "connects r it w before (events st')"
proof -
  obtain q where "events st' = events st @ q" "list_all late q" using assms(1) unfolding quietly_def by blast
  with assms(2,3) have "events st' = before @ Dialled (r_network r) a (fst (r_dial r (r_network r) a w3) = None) # (p @ q)" "list_all late (p @ q)"
    by simp_all
  with assms(4-6) show ?thesis unfolding connects_def by metis
qed

lemma send_item_connects:
  assumes "send_item r it st = Some (res, st')" "list_all (\<lambda>e. \<not> dials e) (events st)"
  shows "list_all (\<lambda>e. \<not> dials e) (events st') \<or> connects r it (rw st) (events st) (events st')"
proof -
  let ?d = "domainOf (RcptTo it)"
  obtain h w where h: "r_mx r ?d (rw st) = (h, w)" by (metis prod.exhaust)
  show ?thesis
  proof (cases "\<exists>host hosts. h = Inr (host # hosts)")
    case False
    then have "quietly (st\<lparr>rw := w\<rparr>) st'"
      using assms(1) h by (cases h) (auto simp: send_item_def Let_def split: list.splits dest: quietly_ends)
    from quietly_none [OF this] assms(2) show ?thesis by simp
  next
    case True
    then obtain host hosts where hh: "h = Inr (host # hosts)" by blast
    obtain e w1 where e: "r_acquire r host ?d w = (e, w1)" by (metis prod.exhaust)
    obtain as w2 where as: "r_resolve r host w1 = (as, w2)" by (metis prod.exhaust)
    consider "e \<noteq> None" | "e = None" "\<nexists>a rest. as = Inr (a # rest)" | a rest where "e = None" "as = Inr (a # rest)" by blast
    then show ?thesis
    proof cases
      case 1
      then have "quietly (st\<lparr>rw := w1\<rparr>) st'"
        using assms(1) h hh e by (auto simp: send_item_def Let_def dest: quietly_ends)
      from quietly_none [OF this] assms(2) show ?thesis by simp
    next
      case 2
      then have "quietly (st\<lparr>rw := w2\<rparr>) st'"
        using assms(1) h hh e as by (cases as) (auto simp: send_item_def Let_def split: list.splits dest: quietly_ends)
      from quietly_none [OF this] assms(2) show ?thesis by simp
    next
      case 3
      obtain x w3 where x: "r_dial r (r_network r) a w2 = (x, w3)" by (metis prod.exhaust)
      let ?st4 = "\<lambda>ok. note_event (Dialled (r_network r) a ok) (st\<lparr>rw := w3\<rparr>)"
      have "connects r it (rw st) (events st) (events st')"
      proof (cases x)
        case (Some why)
        then have "quietly (?st4 False) st'" using assms(1) h hh e as 3 x by (auto simp: send_item_def Let_def dest: quietly_ends)
        then show ?thesis by (rule connectsI [where p = "[]"]) (use h hh e as 3 x Some in auto)
      next
        case None
        then obtain out w4 where "after_send r host it out (note_event (Offered out) ((?st4 True)\<lparr>rw := w4\<rparr>)) = (res, st')"
          using assms(1) h hh e as 3 x by (auto simp: send_item_def Let_def split: option.splits)
        from quietly_after_send [OF this] show ?thesis
          by (rule connectsI [where p = "[Offered out]"]) (use h hh e as 3 x None in auto)
      qed
      then show ?thesis ..
    qed
  qed
qed

lemma deliver_item_connects:
  assumes "deliver_item r it st = Some (res, st')" "list_all (\<lambda>e. \<not> dials e) (events st)"
  shows "list_all (\<lambda>e. \<not> dials e) (events st') \<or>
    (\<exists>w. suppressionAllows r (RcptTo it) (if r_metrics r then snd (run_prog Depth (redis r) (rw st)) else rw st) = (None, w) \<and>
      connects r it w (events st) (events st'))"
proof -
  let ?st = "if r_metrics r then st\<lparr>rw := snd (run_prog Depth (redis r) (rw st))\<rparr> else st"
  have ev: "events ?st = events st" "rw ?st = (if r_metrics r then snd (run_prog Depth (redis r) (rw st)) else rw st)" by simp_all
  obtain e w where e: "suppressionAllows r (RcptTo it) (rw ?st) = (e, w)" by (metis prod.exhaust)
  show ?thesis
  proof (cases e)
    case (Some x)
    with assms(1) e have "end_item r it (record_outcome r ''suppressed'' (?st\<lparr>rw := w\<rparr>)) = (res, st')" by (simp add: deliver_item_def Let_def)
    from quietly_none [OF quietly_ends(3) [OF this]] assms(2) ev(1) show ?thesis by simp
  next
    case None
    with assms(1) e have "send_item r it (?st\<lparr>rw := w\<rparr>) = Some (res, st')"
      by (simp add: deliver_item_def Let_def)
    from send_item_connects [OF this] assms(2) e None show ?thesis unfolding ev(2) by (simp add: ev(1))
  qed
qed

text \<open>What this node has to say before it takes a message: that its address is not listed and that sending is not paused.\<close>

definition may_send :: "('w, 'k) relay \<Rightarrow> 'w \<Rightarrow> 'w \<Rightarrow> bool" where
  "may_send r w w' \<longleftrightarrow>
     (case r_health r of None \<Rightarrow> w' = w | Some (burned_op, paused_op) \<Rightarrow> \<not> fst (burned_op w) \<and> \<not> fst (fst (paused_op w)) \<and> w' = snd (paused_op w))"

lemma dials_in_order:
  assumes "DeliverNext r \<lparr>rw = w, events = []\<rparr> = Some (res, st')" "Dialled net a ok \<in> set (events st')"
  shows "\<exists>w1 it w2 w3. may_send r w w1 \<and> run_prog (Next (r_codec r) (r_clock r w1)) (redis r) w1 = (Inr (Some it), w2) \<and>
    suppressionAllows r (RcptTo it) (if r_metrics r then snd (run_prog Depth (redis r) w2) else w2) = (None, w3) \<and>
    connects r it w3 [Took it] (events st')"
proof -
  have some: "\<not> list_all (\<lambda>e. \<not> dials e) (events st')" using assms(2) unfolding list_all_iff by (metis dials.simps(1))
  have "\<exists>w1. may_send r w w1 \<and> take_and_deliver r \<lparr>rw = w1, events = []\<rparr> = Some (res, st')"
    using assms by (auto simp: DeliverNext_def may_send_def split: option.splits prod.splits bool.splits)
  then obtain w1 where t: "may_send r w w1" "take_and_deliver r \<lparr>rw = w1, events = []\<rparr> = Some (res, st')" by blast
  obtain it w2 where d: "run_prog (Next (r_codec r) (r_clock r w1)) (redis r) w1 = (Inr (Some it), w2)"
    "deliver_item r it (note_event (Took it) \<lparr>rw = w2, events = []\<rparr>) = Some (res, st')"
    using t(2) some by (auto simp: take_and_deliver_def split: prod.splits sum.splits option.splits)
  from deliver_item_connects [OF d(2)] some obtain w3 where
    "suppressionAllows r (RcptTo it) (if r_metrics r then snd (run_prog Depth (redis r) w2) else w2) = (None, w3)"
    "connects r it w3 [Took it] (events st')"
    unfolding note_event_simps rstate.select_convs append_Nil by auto
  with t(1) d(1) show ?thesis by blast
qed

text \<open>
  C28. A connection is the last thing to happen: when a delivery opened one, or tried to, then, each check made on the
  state the one before left, the address of this node was not listed and sending was not paused (where its health
  is watched), the queue gave the message, the suppression list, where it is enforced, was not stale and did not have the recipient on
  it, the mail servers of the recipient's domain were found, the pacer gave a token for the first of them
  and the resolver its addresses; the connection is to the first of these over the configured network,
  and it is the only one.
\<close>

theorem dials_after_every_check:
  assumes "DeliverNext r \<lparr>rw = w, events = []\<rparr> = Some (res, st')" "Dialled net a ok \<in> set (events st')"
  shows "\<exists>w1 it w2 w3 host hosts w4 w5 as w6 post. may_send r w w1 \<and>
    run_prog (Next (r_codec r) (r_clock r w1)) (redis r) w1 = (Inr (Some it), w2) \<and>
    list_clears r (RcptTo it) (if r_metrics r then snd (run_prog Depth (redis r) w2) else w2) w3 \<and>
    r_mx r (domainOf (RcptTo it)) w3 = (Inr (host # hosts), w4) \<and> r_acquire r host (domainOf (RcptTo it)) w4 = (None, w5) \<and>
    r_resolve r host w5 = (Inr (a # as), w6) \<and> net = r_network r \<and> (ok \<longleftrightarrow> fst (r_dial r net a w6) = None) \<and>
    events st' = Took it # Dialled net a ok # post \<and> list_all late post"
proof -
  obtain w1 it w2 w3 where c: "may_send r w w1" "run_prog (Next (r_codec r) (r_clock r w1)) (redis r) w1 = (Inr (Some it), w2)"
    "suppressionAllows r (RcptTo it) (if r_metrics r then snd (run_prog Depth (redis r) w2) else w2) = (None, w3)"
    "connects r it w3 [Took it] (events st')" using dials_in_order [OF assms] by blast
  from c(4) obtain host hosts w4 w5 a' as w6 post where k: "r_mx r (domainOf (RcptTo it)) w3 = (Inr (host # hosts), w4)"
    "r_acquire r host (domainOf (RcptTo it)) w4 = (None, w5)" "r_resolve r host w5 = (Inr (a' # as), w6)" "list_all late post"
    "events st' = Took it # Dialled (r_network r) a' (fst (r_dial r (r_network r) a' w6) = None) # post" unfolding connects_def by auto
  have "Dialled net a ok \<notin> set post" using k(4) by (auto simp: list_all_iff)
  then have eq: "net = r_network r" "a = a'" "ok \<longleftrightarrow> fst (r_dial r (r_network r) a' w6) = None" using assms(2) k(5) by auto
  have "events st' = Took it # Dialled (r_network r) a' ok # post" using k(5) eq(3) by simp
  with c(1,2) suppressionAllows_clears [OF c(3)] k(1-4) eq(3) show ?thesis unfolding eq(1,2) by blast
qed

section \<open>What a delivery does to the queue\<close>

text \<open>Nothing else that a relay works with touches the queue, and the clock reads a 64-bit number of nanoseconds.\<close>

definition apart :: "('w \<Rightarrow> 'v) \<Rightarrow> ('w, 'k) relay \<Rightarrow> bool" where
  "apart view r \<longleftrightarrow>
     (\<forall>d w. view (snd (r_mx r d w)) = view w) \<and> (\<forall>h w. view (snd (r_resolve r h w)) = view w) \<and>
     (\<forall>n a w. view (snd (r_dial r n a w)) = view w) \<and> (\<forall>h d w. view (snd (r_acquire r h d w)) = view w) \<and>
     (\<forall>h b w. view (r_observe r h b w) = view w) \<and> conn_keeps view (r_conn r) \<and>
     (\<forall>b p w. r_health r = Some (b, p) \<longrightarrow> view (snd (p w)) = view w) \<and> (\<forall>w. in_int64 (r_clock r w))"

lemma apart_laws:
  assumes "apart view r"
  shows "r_mx r d w = (x1, w') \<Longrightarrow> view w' = view w" "r_resolve r h w = (x2, w') \<Longrightarrow> view w' = view w"
    "r_dial r n a w = (x3, w') \<Longrightarrow> view w' = view w" "r_acquire r h d w = (x4, w') \<Longrightarrow> view w' = view w"
    "view (r_observe r h b w) = view w" "conn_keeps view (r_conn r)"
    "r_health r = Some (bo, po) \<Longrightarrow> po w = (x8, w') \<Longrightarrow> view w' = view w" "in_int64 (r_clock r w)"
  using assms unfolding apart_def by (metis snd_conv)+

text \<open>The commands with which the list is read.\<close>

definition list_read :: "string list \<Rightarrow> bool" where
  "list_read args \<longleftrightarrow> (\<exists>k \<in> {versionKey, updatedKey}. args = [''GET'', k]) \<or> args = [''SCARD'', setKey] \<or> (\<exists>d. args = [''SISMEMBER'', setKey, d])"

lemma suppressed_loop_keeps:
  assumes "\<And>args s r s'. list_read args \<Longrightarrow> run args s = (r, s') \<Longrightarrow> f s' = f s" "suppressed_loop run salt cs s = (x, s')"
  shows "f s' = f s"
  using assms(2)
proof (induction cs arbitrary: s)
  case (Cons c cs)
  obtain kind val where c: "c = (kind, val)" by fastforce
  obtain y s1 where y: "suppress_member run (Hash salt val) s = (y, s1)" by (metis prod.exhaust)
  obtain r s2 where r: "run [''SISMEMBER'', setKey, Hash salt val] s = (r, s2)" by (metis prod.exhaust)
  have s1: "s1 = s2" using y r by (auto simp: suppress_member_def split: sum.splits resp.splits)
  have "f s2 = f s" using assms(1) [OF _ r] by (simp add: list_read_def)
  then show ?case using Cons c y s1 by (auto split: sum.splits if_splits)
qed simp

lemma Stale_keeps:
  assumes "\<And>args s x s'. list_read args \<Longrightarrow> run args s = (x, s') \<Longrightarrow> f s' = f s" "Stale run now l w = (b, w')"
  shows "f w' = f w"
proof (cases "Enabled l")
  case True
  have get: "Get run k s = (x, s') \<Longrightarrow> k \<in> {versionKey, updatedKey} \<Longrightarrow> f s' = f s" for k s x s'
    using assms(1) [of "[''GET'', k]" s] by (auto simp: Get_def list_read_def split: prod.splits sum.splits resp.splits)
  obtain v s1 where 1: "Get run versionKey w = (v, s1)" by (metis prod.exhaust)
  obtain u s2 where 2: "Get run updatedKey s1 = (u, s2)" by (metis prod.exhaust)
  obtain n s3 where 3: "run [''SCARD'', setKey] s2 = (n, s3)" by (metis prod.exhaust)
  have "w' = s3" using assms(2) True 1 2 3 by (simp add: Stale_def Status_def Let_def)
  then show ?thesis using get [OF 1] get [OF 2] assms(1) [OF _ 3] by (simp add: list_read_def)
next
  case False
  with assms(2) show ?thesis by (simp add: Stale_def Status_def Let_def)
qed

lemma suppressionAllows_keeps:
  assumes "\<And>args s x s'. list_read args \<Longrightarrow> redis r args s = (x, s') \<Longrightarrow> f s' = f s" "suppressionAllows r a w = (e, w')"
  shows "f w' = f w"
proof -
  have sup: "f w2 = f w1" if "Suppressed (redis r) l a w1 = (x, w2)" for l w1 x w2
    using that suppressed_loop_keeps [of "redis r" f, OF assms(1)] by (auto simp: Suppressed_def split: if_splits)
  show ?thesis
  proof (cases "\<exists>l. r_list r = Some l \<and> Enforcing l")
    case False
    then show ?thesis using assms(2) by (auto simp: suppressionAllows_def split: option.splits if_splits)
  next
    case True
    then obtain l where l: "r_list r = Some l" "Enforcing l" by blast
    obtain b w1 where b: "Stale (redis r) (r_clock r w) l w = (b, w1)" by (metis prod.exhaust)
    obtain x w2 where x: "Suppressed (redis r) l a w1 = (x, w2)" by (metis prod.exhaust)
    have v: "f w1 = f w" by (rule Stale_keeps [OF _ b]) (rule assms(1))
    have "w' = (if b then w1 else w2)"
      using assms(2) l b x by (cases b) (auto simp: suppressionAllows_def split: sum.splits prod.splits)
    then show ?thesis using v sup [OF x] by (cases b) auto
  qed
qed

lemma serves_reads: "serves faults view run \<Longrightarrow> list_read args \<Longrightarrow> run args s = (x, s') \<Longrightarrow> view s' = view s"
proof -
  assume s: "serves faults view run" "list_read args" "run args s = (x, s')"
  show ?thesis
  proof (cases "\<exists>k. args = [''GET'', k]")
    case True
    with s have "redis_step args (view s) x (view s')" unfolding serves_def by (metis queue_cmds(1))
    with True show ?thesis by (auto elim: redis_step.cases)
  next
    case False
    with s(2) have "\<not> queue_cmd args" by (auto simp: list_read_def queue_cmd_def answers_def)
    with s(1,3) show ?thesis unfolding serves_def by metis
  qed
qed

text \<open>How a delivery ends: the message is ended or put back.\<close>

definition settles :: "bool \<Rightarrow> ('w, 'k) relay \<Rightarrow> item \<Rightarrow> db \<Rightarrow> db \<Rightarrow> bool" where
  "settles faults r it d d' \<longleftrightarrow> (\<exists>e. exec faults (Done (ItemID it)) d e d') \<or>
     (\<exists>now why e. exec faults (Retry (r_codec r) (r_maxAttempts r) now it (r_retryBase r) why) d e d')"

lemma put_back_settles:
  assumes "serves faults view (redis r)" "apart view r" "put_back r it why st = (res, st')"
  shows "settles faults r it (view (rw st)) (view (rw st'))"
proof -
  obtain e w where e: "run_prog (Retry (r_codec r) (r_maxAttempts r) (r_clock r (rw st)) it (r_retryBase r) why) (redis r) (rw st) = (e, w)"
    by (metis prod.exhaust)
  from run_prog_exec [OF assms(1) queue_only_ops(5) [OF apart_laws(8) [OF assms(2)]] e] assms(3) e show ?thesis
    by (auto simp: put_back_def settles_def)
qed

lemma end_item_settles:
  assumes "serves faults view (redis r)" "end_item r it st = (res, st')"
  shows "settles faults r it (view (rw st)) (view (rw st'))"
proof -
  obtain e w where e: "run_prog (Done (ItemID it)) (redis r) (rw st) = (e, w)" by (metis prod.exhaust)
  from run_prog_exec [OF assms(1) queue_only_ops(2) e] assms(2) e show ?thesis by (auto simp: end_item_def settles_def)
qed

lemma record_outcome_rw [simp]: "rw (record_outcome r o1 st) = rw st"
  by (simp add: record_outcome_def)

lemma observe_view: "apart view r \<Longrightarrow> view (rw (observe r h b st)) = view (rw st)"
  by (simp add: observe_def apart_laws(5))

lemma after_send_settles:
  assumes "serves faults view (redis r)" "apart view r" "after_send r host it out st = (res, st')"
  shows "settles faults r it (view (rw st)) (view (rw st'))"
  using assms(3) put_back_settles [OF assms(1,2)] end_item_settles [OF assms(1)] observe_view [OF assms(2)]
  unfolding after_send_def Let_def by (metis record_outcome_rw)

lemma send_item_settles:
  assumes "serves faults view (redis r)" "apart view r" "send_item r it st = Some (res, st')"
  shows "settles faults r it (view (rw st)) (view (rw st'))"
proof -
  note pb = put_back_settles [OF assms(1,2)]
  note laws = apart_laws [OF assms(2)]
  let ?d = "domainOf (RcptTo it)"
  obtain h w where h: "r_mx r ?d (rw st) = (h, w)" by (metis prod.exhaust)
  note v = laws(1) [OF h]
  show ?thesis
  proof (cases "\<exists>host hosts. h = Inr (host # hosts)")
    case False
    then have "\<exists>why o1. put_back r it why (record_outcome r o1 (st\<lparr>rw := w\<rparr>)) = (res, st')"
      using assms(3) h by (cases h) (auto simp: send_item_def Let_def split: list.splits)
    then show ?thesis using pb v by fastforce
  next
    case True
    then obtain host hosts where hh: "h = Inr (host # hosts)" by blast
    obtain e w1 where e: "r_acquire r host ?d w = (e, w1)" by (metis prod.exhaust)
    obtain as w2 where as: "r_resolve r host w1 = (as, w2)" by (metis prod.exhaust)
    note v = v laws(4) [OF e] laws(2) [OF as]
    consider "e \<noteq> None" | "e = None" "\<nexists>a rest. as = Inr (a # rest)" | a rest where "e = None" "as = Inr (a # rest)" by blast
    then show ?thesis
    proof cases
      case 1
      then have "\<exists>why o1. put_back r it why (record_outcome r o1 (st\<lparr>rw := w1\<rparr>)) = (res, st')"
        using assms(3) h hh e by (auto simp: send_item_def Let_def) blast
      then show ?thesis using pb v by fastforce
    next
      case 2
      then have "\<exists>why o1. put_back r it why (record_outcome r o1 (st\<lparr>rw := w2\<rparr>)) = (res, st')"
        using assms(3) h hh e as by (cases as) (auto simp: send_item_def Let_def split: list.splits)
      then show ?thesis using pb v by fastforce
    next
      case 3
      obtain x w3 where x: "r_dial r (r_network r) a w2 = (x, w3)" by (metis prod.exhaust)
      note v = v laws(3) [OF x]
      let ?st4 = "\<lambda>ok. note_event (Dialled (r_network r) a ok) (st\<lparr>rw := w3\<rparr>)"
      show ?thesis
      proof (cases x)
        case (Some why)
        then have "\<exists>o1. put_back r it why (record_outcome r o1 (observe r host True (?st4 False))) = (res, st')"
          using assms(3) h hh e as 3 x by (auto simp: send_item_def Let_def)
        then show ?thesis using pb v observe_view [OF assms(2)] by fastforce
      next
        case None
        then obtain out dv where dv: "Send (r_conn r) \<lparr>SHelo = r_helo r, SMailFrom = MailFrom it, SRcptTo = RcptTo it, SData = Data it\<rparr>
            \<lparr>world = w3, talk = []\<rparr> = Some (out, dv)"
          and a: "after_send r host it out (note_event (Offered out) ((?st4 True)\<lparr>rw := world dv\<rparr>)) = (res, st')"
          using assms(3) h hh e as 3 x by (auto simp: send_item_def Let_def split: option.splits)
        from Send_keeps [OF laws(6) dv] after_send_settles [OF assms(1,2) a] v show ?thesis by simp
      qed
    qed
  qed
qed

lemma deliver_item_settles:
  assumes "serves faults view (redis r)" "apart view r" "deliver_item r it st = Some (res, st')"
  shows "settles faults r it (view (rw st)) (view (rw st'))"
proof -
  let ?st = "if r_metrics r then st\<lparr>rw := snd (run_prog Depth (redis r) (rw st))\<rparr> else st"
  obtain n w0 where n: "run_prog Depth (redis r) (rw st) = (n, w0)" by (metis prod.exhaust)
  have d: "view (rw ?st) = view (rw st)" using Depth_reads [OF run_prog_exec [OF assms(1) queue_only_ops(3) n]] n by simp
  obtain e w where e: "suppressionAllows r (RcptTo it) (rw ?st) = (e, w)" by (metis prod.exhaust)
  have "view w = view (rw ?st)" by (rule suppressionAllows_keeps [OF _ e]) (rule serves_reads [OF assms(1)])
  with d have v: "view w = view (rw st)" by simp
  show ?thesis
  proof (cases e)
    case (Some x)
    with assms(3) e have "end_item r it (record_outcome r ''suppressed'' (?st\<lparr>rw := w\<rparr>)) = (res, st')" by (simp add: deliver_item_def Let_def)
    from end_item_settles [OF assms(1) this] v show ?thesis by simp
  next
    case None
    with assms(3) e have "send_item r it (?st\<lparr>rw := w\<rparr>) = Some (res, st')"
      by (simp add: deliver_item_def Let_def)
    from send_item_settles [OF assms(1,2) this] v show ?thesis by simp
  qed
qed

lemma settles_drainer:
  assumes "exec faults (Next cd now) d (Inr (Some it)) d1" "settles faults r it d1 d'" "r_codec r = cd"
  shows "\<exists>now' decide. exec faults (drainer cd (r_maxAttempts r) now now' decide) d () d'"
proof -
  have "\<exists>now' dec. exec faults (case dec of None \<Rightarrow> bind_prog (Done (ItemID it)) (\<lambda>_. Ret ())
      | Some (base, why) \<Rightarrow> bind_prog (Retry cd (r_maxAttempts r) now' it base why) (\<lambda>_. Ret ())) d1 () d'"
    using assms(2) unfolding settles_def
  proof (elim disjE exE)
    fix e assume "exec faults (Done (ItemID it)) d1 e d'"
    then show ?thesis by (intro exI [of _ 0] exI [of _ None]) (auto simp: exec_bind)
  next
    fix now' why e assume "exec faults (Retry (r_codec r) (r_maxAttempts r) now' it (r_retryBase r) why) d1 e d'"
    then show ?thesis using assms(3) by (intro exI [of _ now'] exI [of _ "Some (r_retryBase r, why)"]) (auto simp: exec_bind)
  qed
  then obtain now' dec where "exec faults (case dec of None \<Rightarrow> bind_prog (Done (ItemID it)) (\<lambda>_. Ret ())
      | Some (base, why) \<Rightarrow> bind_prog (Retry cd (r_maxAttempts r) now' it base why) (\<lambda>_. Ret ())) d1 () d'" by blast
  then have "exec faults (drainer cd (r_maxAttempts r) now now' (\<lambda>_. dec)) d () d'"
    unfolding drainer_def exec_bind using assms(1) by force
  then show ?thesis by blast
qed

text \<open>
  C29. A delivery is a drainer: whatever the server, the resolver, the pacer and the list say, what \<open>DeliverNext\<close> does
  to the queue is what the drainer of the queue does for some decision; or it did not touch the queue,
  because the address is listed or sending is paused. So the invariants of the queue hold for
  deliveries.
\<close>

theorem DeliverNext_is_a_drainer:
  assumes "serves faults view (redis r)" "apart view r" "DeliverNext r st = Some (res, st')"
  shows "(\<exists>why. res = (False, Some (NotSending why)) \<and> view (rw st') = view (rw st)) \<or>
    (\<exists>now now' decide. exec faults (drainer (r_codec r) (r_maxAttempts r) now now' decide) (view (rw st)) () (view (rw st')))"
proof -
  have go: "\<exists>now now' decide. exec faults (drainer (r_codec r) (r_maxAttempts r) now now' decide) (view (rw s)) () (view (rw st'))"
    if t: "take_and_deliver r s = Some (res, st')" for s
  proof -
    let ?now = "r_clock r (rw s)"
    obtain x w where x: "run_prog (Next (r_codec r) ?now) (redis r) (rw s) = (x, w)" by (metis prod.exhaust)
    note nx = run_prog_exec [OF assms(1) queue_only_ops(4) [OF apart_laws(8) [OF assms(2)]] x]
    show ?thesis
    proof (cases "\<exists>it. x = Inr (Some it)")
      case True
      then obtain it where it: "x = Inr (Some it)" by blast
      with t x have "deliver_item r it (note_event (Took it) (s\<lparr>rw := w\<rparr>)) = Some (res, st')" by (simp add: take_and_deliver_def)
      from deliver_item_settles [OF assms(1,2) this] have "settles faults r it (view w) (view (rw st'))" by simp
      from settles_drainer [OF nx [unfolded it] this refl] show ?thesis by blast
    next
      case False
      then have w: "rw st' = w" using t x by (cases x) (auto simp: take_and_deliver_def split: option.splits)
      have "exec faults (drainer (r_codec r) (r_maxAttempts r) ?now 0 (\<lambda>_. None)) (view (rw s)) () (view w)"
        unfolding drainer_def exec_bind
        by (rule exI [of _ x], rule exI [of _ "view w"], rule conjI [OF nx]) (use False in \<open>cases x; auto split: option.splits\<close>)
      then show ?thesis using w by blast
    qed
  qed
  show ?thesis
  proof (cases "r_health r")
    case None
    with assms(3) go show ?thesis by (simp add: DeliverNext_def)
  next
    case (Some bp)
    obtain bo po where bp: "bp = (bo, po)" by (metis prod.exhaust)
    obtain p w where p: "po (rw st) = (p, w)" by (metis prod.exhaust)
    have v: "view w = view (rw st)" using apart_laws(7) [OF assms(2) Some [unfolded bp] p] .
    consider why where "bo (rw st) = (True, why)" | why why' where "bo (rw st) = (False, why')" "p = (True, why)"
      | why why' where "bo (rw st) = (False, why')" "p = (False, why)" by (metis (full_types) prod.exhaust)
    then show ?thesis
    proof cases
      case 1
      with assms(3) Some bp show ?thesis by (auto simp: DeliverNext_def)
    next
      case 2
      with assms(3) Some bp p v show ?thesis by (auto simp: DeliverNext_def)
    next
      case 3
      with assms(3) Some bp p have "take_and_deliver r (st\<lparr>rw := w\<rparr>) = Some (res, st')" by (simp add: DeliverNext_def)
      from go [OF this] v show ?thesis by simp
    qed
  qed
qed

section \<open>Accepting is storing\<close>

lemma exec_do_cmd: "exec faults (do_cmd args fail nxt) d a d' \<Longrightarrow> (\<exists>e. a = fail e) \<or> (\<exists>v d1. answers args d v d1 \<and> exec faults nxt d1 a d')"
  unfolding do_cmd_def by (erule exec_CmdE) (auto elim!: redis_step.cases split: sum.splits)

lemma Enqueue_stored:
  assumes "exec faults (Enqueue cd it) d None d'"
  shows "\<exists>b. marshal cd it = Inr b \<and> ItemID it \<noteq> [] \<and>
    d' = d\<lparr>strs := (strs d)(itemPrefix @ ItemID it \<mapsto> b), lsts := (lsts d)(readyKey := ItemID it # lsts d readyKey)\<rparr>"
proof -
  obtain b where b: "marshal cd it = Inr b" "ItemID it \<noteq> []"
    using assms by (auto simp: Enqueue_def store_item_def split: if_splits sum.splits)
  with assms have "exec faults (do_cmd [''SET'', itemPrefix @ ItemID it, b] (\<lambda>e. Some (StoringItem e))
      (do_cmd [''LPUSH'', readyKey, ItemID it] (\<lambda>e. Some (QueueingItem e)) (Ret None))) d None d'"
    by (simp add: Enqueue_def store_item_def)
  from exec_do_cmd [OF this] have "exec faults (do_cmd [''LPUSH'', readyKey, ItemID it] (\<lambda>e. Some (QueueingItem e)) (Ret None))
      (d\<lparr>strs := (strs d)(itemPrefix @ ItemID it \<mapsto> b)\<rparr>) None d'" by auto
  from exec_do_cmd [OF this] b show ?thesis by auto
qed

text \<open>The two commands of an \<open>Enqueue\<close> that succeeded, in order: the body, then the identifier.\<close>

lemma Enqueue_commands:
  assumes "run_prog (Enqueue cd it) run w = (None, w')" "marshal cd it = Inr b"
  shows "\<exists>v1 w1 v2. run [''SET'', itemPrefix @ ItemID it, b] w = (Inr v1, w1) \<and> run [''LPUSH'', readyKey, ItemID it] w1 = (Inr v2, w')"
  using assms by (auto simp: Enqueue_def store_item_def do_cmd_def split: if_splits prod.splits sum.splits)

lemma serves_set:
  assumes "serves faults view run" "run [''SET'', k, x] w = (Inr v, w')"
  shows "view w' = (view w)\<lparr>strs := (strs (view w))(k \<mapsto> x)\<rparr>"
proof -
  have "redis_step [''SET'', k, x] (view w) (Inr v) (view w')" using assms unfolding serves_def by (metis queue_cmds(4))
  then show ?thesis by (auto elim: redis_step.cases)
qed

lemma Accept_cases:
  assumes "Accept r token boundary m w = (Inr messageID, w')"
  obtains mid w1 hs content sig it where "token = Inr mid" "messageID = mid @ ''@'' @ SDomain (r_signer r)"
    "suppressionAllows r (To m) w = (None, w1)" "Build (r_tools r) boundary (r_clock r w1) messageID m = Inr (hs, content)"
    "Sign (r_rsa r) (r_clock r w1) (r_signer r) hs content = Inr sig"
    "it = \<lparr>ItemID = mid, MailFrom = r_returnPath r mid, RcptTo = addressOnly (To m), Data = sig @ Render hs content,
       Attempts = 0, Queued = r_clock r w1, LastErr = []\<rparr>"
    "run_prog (Enqueue (r_codec r) it) (redis r) w1 = (None, w')"
  using assms unfolding Accept_def Let_def by (auto split: sum.splits prod.splits option.splits)

text \<open>
  C26. Accepted means stored, and stored means sendable: when a message is accepted, even while commands fail, the store was sent
  its body and then, answered, its identifier: in between the queue has gained exactly the body, at the end also
  the identifier, at the end at which new ones wait; and the
  stored message is one that a receiver takes over complete, and whose signature it finds valid. The store
  answers as Redis does or fails, the texts of the message are UTF-8, the names of the headers the caller added are header names, the
  identifier and the encoders bring in no line break, the domain and the selector of the signer have only
  characters of a tag value, and the check of a signature accepts what the key signs.
\<close>

theorem Accept_stores_signed_mail:
  assumes "Accept r (Inr mid) (Inr b) m w = (Inr messageID, w')" "serves True view (redis r)"
    and "clean_tools (r_tools r)" "\<not> breaks_line mid" "\<not> breaks_line b" "good_signer (r_signer r)"
    and "list_all (\<lambda>h. field_token (Name h)) (Extra m)" "utf8_message (r_tools r) m" "valid_utf8 mid" "valid_utf8 b"
    and "\<And>d s. r_rsa r (SKey (r_signer r)) d = Inr s \<Longrightarrow> check d s"
  shows "\<exists>it blob w1 v1 w2 v2. messageID = mid @ ''@'' @ SDomain (r_signer r) \<and> ItemID it = mid \<and> RcptTo it = addressOnly (To m) \<and>
    marshal (r_codec r) it = Inr blob \<and> view w1 = view w \<and>
    redis r [''SET'', itemPrefix @ mid, blob] w1 = (Inr v1, w2) \<and> view w2 = (view w)\<lparr>strs := (strs (view w))(itemPrefix @ mid \<mapsto> blob)\<rparr> \<and>
    redis r [''LPUSH'', readyKey, mid] w2 = (Inr v2, w') \<and>
    view w' = (view w)\<lparr>strs := (strs (view w))(itemPrefix @ mid \<mapsto> blob), lsts := (lsts (view w))(readyKey := mid # lsts (view w) readyKey)\<rparr> \<and>
    (\<forall>rest. \<exists>msg. receive (dotStuff (Data it) @ rest) = Some (msg, rest) \<and> verifies check msg)"
  using assms(1)
proof (rule Accept_cases)
  fix mid' w1 hs content sig it
  assume mid: "Inr mid = (Inr mid' :: string + string)" and id: "messageID = mid' @ ''@'' @ SDomain (r_signer r)"
    and sup: "suppressionAllows r (To m) w = (None, w1)" and bld: "Build (r_tools r) (Inr b) (r_clock r w1) messageID m = Inr (hs, content)"
    and sgn: "Sign (r_rsa r) (r_clock r w1) (r_signer r) hs content = Inr sig"
    and it: "it = \<lparr>ItemID = mid', MailFrom = r_returnPath r mid', RcptTo = addressOnly (To m), Data = sig @ Render hs content,
       Attempts = 0, Queued = r_clock r w1, LastErr = []\<rparr>"
    and enq: "run_prog (Enqueue (r_codec r) it) (redis r) w1 = (None, w')"
  have v: "view w1 = view w" by (rule suppressionAllows_keeps [OF _ sup]) (rule serves_reads [OF assms(2)])
  with Enqueue_stored [OF run_prog_exec [OF assms(2) queue_only_ops(1) enq]] it mid obtain blob where
    stored: "marshal (r_codec r) it = Inr blob"
    "view w' = (view w)\<lparr>strs := (strs (view w))(itemPrefix @ mid \<mapsto> blob), lsts := (lsts (view w))(readyKey := mid # lsts (view w) readyKey)\<rparr>"
    by auto
  from Enqueue_commands [OF enq stored(1)] it mid obtain v1 w2 v2 where
    cmds: "redis r [''SET'', itemPrefix @ mid, blob] w1 = (Inr v1, w2)" "redis r [''LPUSH'', readyKey, mid] w2 = (Inr v2, w')" by auto
  have dom: "\<not> breaks_line (SDomain (r_signer r))" "valid_utf8 (SDomain (r_signer r))"
    using plain_facts [OF tag_plain] assms(6) by (auto simp: good_signer_def)
  have idok: "\<not> breaks_line messageID" "valid_utf8 messageID"
    using id mid dom assms(4,9) valid_utf8_ascii [of "CHR ''@''" mid] by auto
  have vals: "list_all (\<lambda>h. valid_utf8 (Value h)) hs" "valid_utf8 content"
    using Build_valid [OF bld assms(8) idok(2) assms(10)] by simp_all
  from signature_holds [OF bld sgn assms(3) idok(1) assms(5,7) vals assms(6,11)] it
  have "\<exists>msg. receive (dotStuff (Data it) @ rest) = Some (msg, rest) \<and> verifies check msg" for rest by simp
  with stored id mid it v cmds serves_set [OF assms(2) cmds(1)] show ?thesis
    by (intro exI [of _ it] exI [of _ blob] exI [of _ w1] exI [of _ v1] exI [of _ w2] exI [of _ v2]) simp
qed

section \<open>Somebody who is on the list\<close>

text \<open>A command on another key leaves the set alone.\<close>

definition other_key :: "string list \<Rightarrow> bool" where
  "other_key args \<longleftrightarrow> (case args of c # k # _ \<Rightarrow> k \<noteq> setKey | _ \<Rightarrow> False)"

primrec elsewhere :: "'a prog \<Rightarrow> bool" where
  "elsewhere (Ret a) \<longleftrightarrow> True"
| "elsewhere (Cmd args k) \<longleftrightarrow> other_key args \<and> (\<forall>r. elsewhere (k r))"

lemma elsewhere_bind: "elsewhere p \<Longrightarrow> (\<And>a. elsewhere (f a)) \<Longrightarrow> elsewhere (bind_prog p f)"
  by (induction p) auto

lemma run_prog_elsewhere:
  assumes "\<And>args w x w'. other_key args \<Longrightarrow> run args w = (x, w') \<Longrightarrow> members w' = members w"
  shows "elsewhere p \<Longrightarrow> run_prog p run w = (a, w') \<Longrightarrow> members w' = members w"
proof (induction p arbitrary: w)
  case (Cmd args k)
  obtain x w1 where x: "run args w = (x, w1)" by (metis prod.exhaust)
  have "members w1 = members w" using assms [OF _ x] Cmd.prems(1) by simp
  with Cmd.IH [of "k x" w1] Cmd.prems x show ?case by auto
qed simp

lemma queue_keys: "other_key (c # readyKey # xs)" "other_key (c # laterKey # xs)" "other_key (c # deadKey # xs)" "other_key (c # (itemPrefix @ x) # xs)"
  by (simp_all add: other_key_def readyKey_def laterKey_def deadKey_def itemPrefix_def setKey_def)

lemma elsewhere_ops: "elsewhere (Next cd now)" "elsewhere Depth"
proof -
  have "elsewhere (promote_ids xs)" for xs
    by (induction xs) (auto simp: queue_keys do_cmd_def split: sum.split option.split)
  moreover have "elsewhere (take_item cd x)" for x by (auto simp: take_item_def queue_keys split: sum.split resp.split)
  ultimately show "elsewhere (Next cd now)"
    by (auto simp: Next_def promote_def queue_keys split: sum.split option.split intro!: elsewhere_bind)
  show "elsewhere Depth" by (simp add: Depth_def count_cmd_def queue_keys)
qed

definition gentle :: "'w redis \<Rightarrow> 'w members \<Rightarrow> bool" where
  "gentle run members \<longleftrightarrow> (\<forall>args w x w'. (other_key args \<or> args = [''SCARD'', setKey]) \<longrightarrow> run args w = (x, w') \<longrightarrow> members w' = members w)"

lemma gentle_keeps: "gentle run members \<Longrightarrow> elsewhere p \<Longrightarrow> run_prog p run w = (a, w') \<Longrightarrow> members w' = members w"
  by (rule run_prog_elsewhere) (auto simp: gentle_def)

lemma gentle_reads:
  assumes "keeps_members run members" "gentle run members" "list_read args" "run args w = (x, w')"
  shows "members w' = members w"
proof -
  have "other_key [''GET'', versionKey]" "other_key [''GET'', updatedKey]" by (simp_all add: other_key_def versionKey_def updatedKey_def setKey_def)
  then show ?thesis
    using assms keeps_members_laws(1) [OF assms(1)] unfolding list_read_def gentle_def by (metis empty_iff insert_iff)
qed

lemma listed_not_allowed:
  assumes "keeps_members (redis r) members" "gentle (redis r) members"
    and "r_list r = Some l" "Enforcing l" "on_list (Salt l) (members w) a" "a \<noteq> []" "suppressionAllows r a w = (e, w')"
  shows "e \<noteq> None"
proof
  assume "e = None"
  then obtain w1 why where st: "Stale (redis r) (r_clock r w) l w = (False, w1)" "Suppressed (redis r) l a w1 = (Inr (False, why), w')"
    using assms(3,4,7) by (auto simp: suppressionAllows_def split: prod.splits bool.splits sum.splits if_splits)
  have en: "Enabled l" using assms(4) by (simp add: Enforcing_def)
  have "members w1 = members w"
    by (rule Stale_keeps [OF gentle_reads [OF assms(1,2)] st(1)])
  with Suppressed_Inr [OF assms(1) en assms(6) st(2)] assms(5) show False by simp
qed

text \<open>
  C27. Whoever asked to be forgotten is not written to: when an export that holds the digest of an address or of its
  domain was imported and the list is enforced, a delivery that takes a message to that address off the
  queue opens no connection, whatever was accepted before and whether or not the list can be read.
\<close>

theorem forgotten_not_mailed:
  assumes "keeps_members (redis r) members" "gentle (redis r) members" "apart members r" "r_list r = Some l" "Enforcing l"
    and "Import (redis r) now l version digests replace w0 = (None, w)"
    and "DeliverNext r \<lparr>rw = w, events = []\<rparr> = Some (res, st')" "Took it \<in> set (events st')"
    and "RcptTo it \<noteq> []" "on_list (Salt l) (set digests) (RcptTo it)"
  shows "Dialled net a ok \<notin> set (events st')"
proof
  assume dialled: "Dialled net a ok \<in> set (events st')"
  have on: "on_list (Salt l) (members w) (RcptTo it)"
    using assms(10) Import_members [OF assms(1,6)] unfolding on_list_def Let_def by auto
  obtain w1 it2 w2 w4 where c: "may_send r w w1" "run_prog (Next (r_codec r) (r_clock r w1)) (redis r) w1 = (Inr (Some it2), w2)"
    "suppressionAllows r (RcptTo it2) (if r_metrics r then snd (run_prog Depth (redis r) w2) else w2) = (None, w4)"
    "connects r it2 w4 [Took it2] (events st')" using dials_in_order [OF assms(7) dialled] by blast
  have it: "it2 = it" using c(4) assms(8) late_not_took by (auto simp: connects_def)
  note laws = apart_laws [OF assms(3)]
  have "members w1 = members w" using c(1) laws(7) by (cases "r_health r") (fastforce simp: may_send_def intro: prod.collapse [symmetric])+
  then have n: "members w2 = members w" using gentle_keeps [OF assms(2) elsewhere_ops(1) c(2)] by simp
  define w3 where "w3 = (if r_metrics r then snd (run_prog Depth (redis r) w2) else w2)"
  obtain dp w2' where "run_prog Depth (redis r) w2 = (dp, w2')" by (metis prod.exhaust)
  with gentle_keeps [OF assms(2) elsewhere_ops(2) this] n have m3: "members w3 = members w" by (simp add: w3_def)
  have "suppressionAllows r (RcptTo it) w3 = (None, w4)" using c(3) by (simp only: it w3_def)
  from listed_not_allowed [OF assms(1,2,4,5) _ assms(9) this] show False by (simp add: m3 on)
qed

section \<open>Where the code does something else\<close>

text \<open>
  A list that cannot be vouched for deletes mail. \<open>ErrNotSending\<close> says that the queue is left untouched when
  the list is stale; but the message has been taken off by then, every error of the check is taken for a
  hit, and the message that was accepted is ended.
\<close>

theorem stale_list_deletes_mail:
  assumes "serves False view (redis r)" "r_health r = None" "r_list r = Some l" "Enforcing l"
    and "\<And>w. fst (Stale (redis r) (r_clock r w) l w)" "in_int64 (r_clock r w)"
    and "lsts (view w) readyKey = xs @ [x]" "x \<noteq> []" "strs (view w) (itemPrefix @ x) = Some b" "unmarshal (r_codec r) b = Inr it" "ItemID it = x"
    and "DeliverNext r \<lparr>rw = w, events = []\<rparr> = Some (res, st')"
  shows "res = (True, None) \<and> strs (view (rw st')) (itemPrefix @ x) = None \<and> Ended x \<in> set (events st')"
proof -
  obtain y w1 where y: "run_prog (Next (r_codec r) (r_clock r w)) (redis r) w = (y, w1)" by (metis prod.exhaust)
  note nx = run_prog_exec [OF assms(1) queue_only_ops(4) [OF assms(6)] y]
  have "y = Inr (Some it)"
    using Next_ok [OF nx assms(7,8) seconds_in_int64(1) [OF assms(6)]] assms(9,10) by auto
  with assms(2,12) y have "deliver_item r it (note_event (Took it) \<lparr>rw = w1, events = []\<rparr>) = Some (res, st')"
    by (simp add: DeliverNext_def take_and_deliver_def)
  moreover have "\<exists>e. fst (suppressionAllows r a v) = Some e" for a v
    using assms(3,4) assms(5) [of v] by (cases "Stale (redis r) (r_clock r v) l v") (auto simp: suppressionAllows_def)
  ultimately obtain st1 where "end_item r it (record_outcome r ''suppressed'' st1) = (res, st')"
    by (auto simp: deliver_item_def Let_def split: prod.splits option.splits) (metis fst_conv option.distinct(1))+
  moreover obtain e w2 where e: "run_prog (Done x) (redis r) (rw st1) = (e, w2)" by (metis prod.exhaust)
  moreover have "e = None \<and> strs (view w2) (itemPrefix @ x) = None"
    using run_prog_exec [OF assms(1) queue_only_ops(2) e] by (auto simp: Done_def)
  ultimately show ?thesis using assms(11) by (auto simp: end_item_def)
qed

text \<open>
  A message that a server refused for good is offered again. The comment says that retrying spends standing on a
  question already settled; the branch retries like any other.
\<close>

theorem refused_is_offered_again:
  assumes "serves False view (redis r)" "apart view r" "faithful_codec (r_codec r)" "storable it" "\<not> Delivered out" "Permanent out"
    and "after_send r host it out st = (res, st')" "Attempts it + 1 < r_maxAttempts r"
    and "0 < r_retryBase r" "r_retryBase r * 2 ^ nat (Attempts it) < 2 ^ 63"
  shows "zset (view (rw st')) laterKey (ItemID it) \<noteq> None"
proof -
  let ?st = "record_outcome r ''rejected'' (observe r host False st)"
  let ?now = "r_clock r (rw ?st)"
  obtain why where why: "put_back r it why ?st = (res, st')" using assms(5-7) by (auto simp: after_send_def Let_def)
  obtain e w where e: "run_prog (Retry (r_codec r) (r_maxAttempts r) ?now it (r_retryBase r) why) (redis r) (rw ?st) = (e, w)"
    by (metis prod.exhaust)
  note ex = run_prog_exec [OF assms(1) queue_only_ops(5) [OF apart_laws(8) [OF assms(2)]] e]
  have "to_int64 (r_retryBase r * 2 ^ nat (Attempts it)) = r_retryBase r * 2 ^ nat (Attempts it)" using assms(9,10) by (simp add: to_int64_def)
  with seconds_in_int64(2) [OF apart_laws(8) [OF assms(2)], of "rw ?st" "r_retryBase r * 2 ^ nat (Attempts it)"]
  have "in_int64 ((?now + r_retryBase r * 2 ^ nat (Attempts it)) div second)" by simp
  from Retry_ok [OF ex assms(3,4,9,10) this] assms(8) why e show ?thesis by (auto simp: put_back_def)
qed

text \<open>
  A recipient written with a display name is not looked up when the message is accepted: the digests are taken of the
  whole field, so neither the address nor its domain is among them. The delivery looks up the address
  alone, and drops the message then, without telling the caller.
\<close>

theorem accept_looks_up_display_name:
  "candidates (to_lower (trim_space ''Jo <jo@example.org>'')) = [(''address'', ''jo <jo@example.org>''), (''domain'', ''example.org>'')] \<and>
   addressOnly ''Jo <jo@example.org>'' = ''jo@example.org'' \<and> domainOf ''jo@example.org'' = ''example.org''"
  by code_simp

section \<open>A relay with one message\<close>

text \<open>The store of the witnesses keeps the strings, the lists and one set; nothing is ever in the retry set, since what
  would put it there fails. The server is the scripted one of \<open>Sender\<close>.\<close>

record demo =
  ddb :: db
  dset :: "string list"
  dlines :: "string list"

definition demo_view :: "demo \<Rightarrow> db" where
  "demo_view w = (ddb w)\<lparr>zset := (\<lambda>_. Map.empty)\<rparr>"

definition demo_redis :: "demo redis" where
  "demo_redis args w =
     (let fail = (Inl (RedisError ''ERR''), w) in case args of
        [c, k] \<Rightarrow>
          if c = ''GET'' then (Inr (case strs (ddb w) k of None \<Rightarrow> RNil | Some b \<Rightarrow> RStr b), w)
          else if c = ''DEL'' then
            (Inr (RInt 1), w\<lparr>ddb := (ddb w)\<lparr>strs := (strs (ddb w))(k := None)\<rparr>, dset := (if k = setKey then [] else dset w)\<rparr>)
          else if c = ''RPOP'' then
            (if lsts (ddb w) k = [] then (Inr RNil, w)
             else (Inr (RStr (last (lsts (ddb w) k))), w\<lparr>ddb := (ddb w)\<lparr>lsts := (lsts (ddb w))(k := butlast (lsts (ddb w) k))\<rparr>\<rparr>))
          else if c = ''LLEN'' then (Inr (RInt (int (length (lsts (ddb w) k)))), w)
          else if c = ''ZCARD'' then (Inr (RInt 0), w)
          else if c = ''SCARD'' then (Inr (RInt (int (length (dset w)))), w)
          else fail
      | [c, k, x] \<Rightarrow>
          if c = ''SET'' then (Inr (RStr ''OK''), w\<lparr>ddb := (ddb w)\<lparr>strs := (strs (ddb w))(k \<mapsto> x)\<rparr>\<rparr>)
          else if c = ''LPUSH'' then (Inr (RInt 1), w\<lparr>ddb := (ddb w)\<lparr>lsts := (lsts (ddb w))(k := x # lsts (ddb w) k)\<rparr>\<rparr>)
          else if c = ''ZREM'' then (Inr (RInt 0), w)
          else if c = ''SADD'' \<and> k = setKey then (Inr (RInt 1), w\<lparr>dset := x # dset w\<rparr>)
          else if c = ''SISMEMBER'' \<and> k = setKey then (Inr (RInt (if x \<in> set (dset w) then 1 else 0)), w)
          else fail
      | [c, k, a, x] \<Rightarrow> if c = ''ZRANGEBYSCORE'' \<and> a = ''-inf'' \<and> atoi x \<noteq> None then (Inr (RArr []), w) else fail
      | _ \<Rightarrow> fail)"

lemma demo_fails: "demo_redis args w = (Inl e, w') \<Longrightarrow> w' = w"
  by (auto simp: demo_redis_def Let_def split: list.splits if_splits)

lemma demo_answers:
  assumes "demo_redis args w = (Inr v, w')"
  shows "answers args (demo_view w) v (demo_view w') \<or> demo_view w' = demo_view w \<and> \<not> queue_cmd args"
proof -
  have no: "\<not> queue_cmd [''SCARD'', k]" "\<not> queue_cmd [''SADD'', k, x]" "\<not> queue_cmd [''SISMEMBER'', k, x]" for k x
    by (simp_all add: queue_cmd_def answers_def)
  have none: "((\<lambda>_ x. None) :: string \<Rightarrow> string \<Rightarrow> int option)(k := \<lambda>x. None) = (\<lambda>_ x. None)" for k by (simp add: fun_eq_iff)
  consider c k where "args = [c, k]" | c k x where "args = [c, k, x]" | c k a x where "args = [c, k, a, x]"
    using assms by (auto simp: demo_redis_def Let_def split: list.splits)
  then show ?thesis
  proof cases
    case 1
    with assms no show ?thesis by (auto simp: demo_redis_def Let_def demo_view_def split: if_splits)
  next
    case 2
    with assms no none show ?thesis by (auto simp: demo_redis_def Let_def demo_view_def split: if_splits)
  next
    case 3
    with assms show ?thesis by (auto simp: demo_redis_def Let_def demo_view_def split: if_splits)
  qed
qed

lemma demo_serves: "serves True demo_view demo_redis"
  unfolding serves_def
proof (intro allI impI)
  fix args w x w' assume r: "demo_redis args w = (x, w')"
  show "if queue_cmd args then redis_step args (demo_view w) x (demo_view w') \<and> (True \<or> \<not> isl x) else demo_view w' = demo_view w"
  proof (cases x)
    case (Inl e)
    with demo_fails [of args w e w'] r show ?thesis by (auto intro: unsent)
  next
    case (Inr v)
    with demo_answers [of args w v w'] r show ?thesis by (auto intro: answered simp: queue_cmd_def)
  qed
qed

lemma demo_members: "keeps_members demo_redis (\<lambda>w. set (dset w))" "gentle demo_redis (\<lambda>w. set (dset w))"
proof -
  show "keeps_members demo_redis (\<lambda>w. set (dset w))"
    unfolding keeps_members_def by (auto simp: demo_redis_def Let_def setKey_def versionKey_def updatedKey_def split: list.splits if_splits)
  show "gentle demo_redis (\<lambda>w. set (dset w))"
    unfolding gentle_def by (auto simp: demo_redis_def Let_def other_key_def split: list.splits if_splits)
qed

definition demo_conn :: "demo smtp" where
  "demo_conn = \<lparr>put = (\<lambda>b w. (None, w)),
     get_line = (\<lambda>w. case dlines w of [] \<Rightarrow> (Inl ''EOF'', w) | l # ls \<Rightarrow> (Inr l, w\<lparr>dlines := ls\<rparr>)), handshake = (\<lambda>w. (None, w))\<rparr>"

definition demo_relay :: "(demo, unit) relay" where
  "demo_relay = \<lparr>redis = demo_redis, r_codec = field_codec, r_maxAttempts = 5, r_signer = example_signer, r_rsa = example_rsa,
     r_tools = example_tools, r_mx = (\<lambda>d w. (Inr [''mx.them.example''], w)), r_resolve = (\<lambda>h w. (Inr [V4 7], w)),
     r_dial = (\<lambda>n a w. (None, w)), r_conn = demo_conn, r_acquire = (\<lambda>h d w. (None, w)), r_observe = (\<lambda>h b w. w),
     r_list = Some example_list, r_health = None, r_metrics = False, r_clock = (\<lambda>w. 0), r_helo = ''us.example'',
     r_returnPath = (\<lambda>x. ''bounces@us.example''), r_retryBase = second, r_network = ''tcp4''\<rparr>"

definition demo_blob :: string where
  "demo_blob = (case marshal field_codec an_item of Inr b \<Rightarrow> b | Inl _ \<Rightarrow> [])"

definition demo_world :: "string list \<Rightarrow> demo" where
  "demo_world ls = \<lparr>ddb = \<lparr>strs = [itemPrefix @ ''m1'' \<mapsto> demo_blob], lsts = (\<lambda>_. [])(readyKey := [''m1'']), zset = (\<lambda>_. Map.empty)\<rparr>,
     dset = [], dlines = ls\<rparr>"

definition open_relay :: "(demo, unit) relay" where
  "open_relay = demo_relay\<lparr>r_list := None, r_dial := (\<lambda>n a w. (Some ''refused'', w))\<rparr>"

lemma demo_apart: "apart demo_view open_relay" "apart (\<lambda>w. set (dset w)) demo_relay"
  by (auto simp: apart_def demo_relay_def open_relay_def demo_view_def conn_keeps_def demo_conn_def in_int64_def split: list.splits)

lemma demo_blob_reads: "unmarshal field_codec demo_blob = Inr an_item"
proof -
  have e: "get_field (put_field x) = (x, [])" for x using get_put_field [of x "[]"] by simp
  show ?thesis by (simp add: demo_blob_def field_codec_def get_put_field get_int_itoa e an_item_def)
qed

lemma demo_next:
  "run_prog (Next field_codec 0) demo_redis ((demo_world ls)\<lparr>dset := ds\<rparr>) =
   (Inr (Some an_item), (demo_world ls)\<lparr>ddb := (ddb (demo_world ls))\<lparr>lsts := (lsts (ddb (demo_world ls)))(readyKey := [])\<rparr>, dset := ds\<rparr>)"
proof -
  have z: "itoa 0 = ''0''" "atoi ''0'' = Some 0" by code_simp+
  show ?thesis
    by (simp add: Next_def promote_def take_item_def demo_redis_def z asStrings_def asString_def List.map_filter_simps demo_world_def demo_blob_reads)
qed

lemma open_relay_tries:
  "\<exists>w. DeliverNext open_relay \<lparr>rw = demo_world [], events = []\<rparr> = Some ((True, Some (QueueError (SchedulingRetry (RedisError ''ERR'')))),
     \<lparr>rw = w, events = [Took an_item, Dialled ''tcp4'' (V4 7) False,
      Observed ''mx.them.example'' True, PutBack ''m1'' ''refused'']\<rparr>)"
proof -
  have d: "domainOf ''b@them.example'' = ''them.example''" by code_simp
  have same: "(demo_world [])\<lparr>dset := []\<rparr> = demo_world []" by (simp add: demo_world_def)
  have i: "ItemID an_item = ''m1''" "RcptTo an_item = ''b@them.example''" "Attempts an_item = 0" by (simp_all add: an_item_def)
  have rt: "\<exists>w'. run_prog (Retry field_codec 5 0 an_item second ''refused'') demo_redis w = (Some (SchedulingRetry (RedisError ''ERR'')), w')" for w
    by (auto simp: Retry_def store_item_def do_cmd_def field_codec_def demo_redis_def i Let_def)
  have pb: "\<exists>w'. put_back open_relay an_item ''refused'' st = ((True, Some (QueueError (SchedulingRetry (RedisError ''ERR'')))),
      \<lparr>rw = w', events = events st @ [PutBack ''m1'' ''refused'']\<rparr>)" for st :: "demo rstate"
  proof -
    obtain w' where "run_prog (Retry field_codec 5 0 an_item second ''refused'') demo_redis (rw st) = (Some (SchedulingRetry (RedisError ''ERR'')), w')"
      using rt by blast
    then show ?thesis by (cases st) (simp add: put_back_def open_relay_def demo_relay_def note_event_def i)
  qed
  have r: "redis open_relay = demo_redis" "r_codec open_relay = field_codec" "r_mx open_relay = (\<lambda>d w. (Inr [''mx.them.example''], w))"
    "r_resolve open_relay = (\<lambda>h w. (Inr [V4 7], w))" "r_dial open_relay = (\<lambda>n a w. (Some ''refused'', w))" "r_acquire open_relay = (\<lambda>h d w. (None, w))"
    "r_observe open_relay = (\<lambda>h b w. w)" "r_list open_relay = None" "r_health open_relay = None" "r_metrics open_relay = False"
    "r_clock open_relay = (\<lambda>w. 0)" "r_network open_relay = ''tcp4''" by (simp_all add: open_relay_def demo_relay_def)
  show ?thesis using demo_next [of "[]" "[]"] unfolding same
    by (simp add: DeliverNext_def take_and_deliver_def deliver_item_def send_item_def suppressionAllows_def r i d note_event_def observe_def
        record_outcome_def Let_def)
      (rule exE [OF pb], rule exI, erule trans, simp)
qed

theorem dials_after_every_check_witness:
  "\<exists>res st' w1 w2 (it :: item). DeliverNext open_relay \<lparr>rw = demo_world [], events = []\<rparr> = Some (res, st') \<and>
     Dialled ''tcp4'' (V4 7) False \<in> set (events st') \<and> may_send open_relay (demo_world []) w1 \<and>
     run_prog (Next (r_codec open_relay) (r_clock open_relay w1)) (redis open_relay) w1 = (Inr (Some it), w2)"
proof -
  obtain res st' where d: "DeliverNext open_relay \<lparr>rw = demo_world [], events = []\<rparr> = Some (res, st')"
    "Dialled ''tcp4'' (V4 7) False \<in> set (events st')" using open_relay_tries by fastforce
  from dials_after_every_check [OF d] obtain w1 w2 and it :: item where "may_send open_relay (demo_world []) w1"
    "run_prog (Next (r_codec open_relay) (r_clock open_relay w1)) (redis open_relay) w1 = (Inr (Some it), w2)" by blast
  with d show ?thesis by blast
qed

theorem DeliverNext_is_a_drainer_witness:
  "\<exists>w' now now' decide. exec True (drainer field_codec 5 now now' decide) (demo_view (demo_world [])) () (demo_view w')"
proof -
  obtain st' where d: "DeliverNext open_relay \<lparr>rw = demo_world [], events = []\<rparr> = Some ((True, Some (QueueError (SchedulingRetry (RedisError ''ERR'')))), st')"
    using open_relay_tries by fastforce
  have r: "redis open_relay = demo_redis" "r_codec open_relay = field_codec" "r_maxAttempts open_relay = 5"
    by (simp_all add: open_relay_def demo_relay_def)
  have "\<exists>now now' decide. exec True (drainer field_codec 5 now now' decide) (demo_view (demo_world [])) () (demo_view (rw st'))"
    using DeliverNext_is_a_drainer [of True demo_view open_relay, OF _ demo_apart(1) d] demo_serves unfolding r by simp
  then show ?thesis by blast
qed

theorem Accept_stores_signed_mail_witness:
  "\<exists>messageID w' (it :: item). Accept open_relay (Inr ''1'') (Inr ''B'') example_message (demo_world []) = (Inr messageID, w') \<and>
     lsts (demo_view w') readyKey = [''1'', ''m1''] \<and> RcptTo it = ''b@y.org'' \<and>
     (\<exists>msg. receive (dotStuff (Data it) @ ''QUIT'') = Some (msg, ''QUIT'') \<and> verifies (\<lambda>d s. map char_of d = s) msg)"
proof -
  let ?w = "demo_world []"
  have r: "redis open_relay = demo_redis" "r_list open_relay = None" "r_tools open_relay = example_tools" "r_signer open_relay = example_signer"
    "r_rsa open_relay = example_rsa" "r_codec open_relay = field_codec" "r_clock open_relay = (\<lambda>w. 0)"
    by (simp_all add: open_relay_def demo_relay_def)
  have b: "Build example_tools (Inr ''B'') 0 (''1'' @ ''@'' @ SDomain example_signer) example_message = Inr (own_headers example_tools 0 ''1@x.org'' example_message @
       [\<lparr>Name = ''Content-Type'', Value = ''text/plain; charset=utf-8''\<rparr>, \<lparr>Name = ''X-Tag'', Value = ''1''\<rparr>], ''hello'')"
    using example_build by (simp add: example_signer_def)
  have sg: "\<exists>sig. Sign example_rsa 0 example_signer hs content = Inr sig" for hs content
    by (auto simp: Sign_def example_rsa_def Let_def)
  obtain sig where sg: "Sign example_rsa 0 example_signer (own_headers example_tools 0 ''1@x.org'' example_message @
       [\<lparr>Name = ''Content-Type'', Value = ''text/plain; charset=utf-8''\<rparr>, \<lparr>Name = ''X-Tag'', Value = ''1''\<rparr>]) ''hello'' = Inr sig"
    by (auto simp: Sign_def example_rsa_def Let_def)
  have "\<exists>w'. run_prog (Enqueue field_codec it) demo_redis ?w = (None, w')" if "ItemID it = ''1''" for it
    using that by (auto simp: Enqueue_def store_item_def do_cmd_def field_codec_def demo_redis_def)
  then have "\<exists>messageID w'. Accept open_relay (Inr ''1'') (Inr ''B'') example_message ?w = (Inr messageID, w')"
    unfolding Accept_def suppressionAllows_def r sum.case option.case prod.case Let_def b sg by (auto split: prod.split option.split) (metis Pair_inject option.distinct(1) item.select_convs(1))+
  then obtain messageID w' where a: "Accept open_relay (Inr ''1'') (Inr ''B'') example_message ?w = (Inr messageID, w')" by blast
  have tools: "clean_tools (r_tools open_relay)" unfolding r by (simp add: clean_tools_def example_tools_def)
  have msg: "list_all (\<lambda>h. field_token (Name h)) (Extra example_message)" "good_signer (r_signer open_relay)" "valid_utf8 ''1''" "valid_utf8 ''B''"
    unfolding r by code_simp+
  have utf: "utf8_message (r_tools open_relay) example_message" unfolding r
    by (auto simp: utf8_message_def example_tools_def example_message_def intro!: valid_utf8_all_ascii)
  have rsa: "r_rsa open_relay (SKey (r_signer open_relay)) d = Inr s \<Longrightarrow> map char_of d = s" for d s unfolding r by (simp add: example_rsa_def)
  have sv: "serves True demo_view (redis open_relay)" unfolding r by (rule demo_serves)
  from Accept_stores_signed_mail [where check = "\<lambda>d s. map char_of d = s", OF a sv tools _ _ msg(2,1) utf msg(3,4) rsa]
  obtain it :: item and blob where "RcptTo it = addressOnly (To example_message)"
    "demo_view w' = (demo_view ?w)\<lparr>strs := (strs (demo_view ?w))(itemPrefix @ ''1'' \<mapsto> blob), lsts := (lsts (demo_view ?w))(readyKey := ''1'' # lsts (demo_view ?w) readyKey)\<rparr>"
    "\<And>rest. \<exists>msg. receive (dotStuff (Data it) @ rest) = Some (msg, rest) \<and> verifies (\<lambda>d s. map char_of d = s) msg"
    by (simp add: breaks_line_def) blast
  moreover have "addressOnly (To example_message) = ''b@y.org''" by code_simp
  ultimately show ?thesis using a
    by (intro exI [of _ messageID] exI [of _ w'] exI [of _ it]) (simp add: demo_view_def demo_world_def)
qed

text \<open>The recipient of the message asked to be forgotten.\<close>

definition demo_export :: "string list" where
  "demo_export = [Hash ''pepper'' ''b@them.example'']"

lemma demo_import:
  "\<exists>w. Import demo_redis 0 example_list ''v1'' demo_export True (demo_world []) = (None, w) \<and>
     (\<exists>d. ddb w = (ddb (demo_world []))\<lparr>strs := d\<rparr> \<and> d (itemPrefix @ ''m1'') = Some demo_blob) \<and> dlines w = []"
proof -
  have k: "setKey \<noteq> itemPrefix @ ''m1''" "versionKey \<noteq> itemPrefix @ ''m1''" "updatedKey \<noteq> itemPrefix @ ''m1''"
    by (simp_all add: setKey_def versionKey_def updatedKey_def itemPrefix_def)
  then show ?thesis
    by (auto simp: Import_def import_rest_def demo_export_def isDigest_Hash example_list_def New_list_def Enabled_def Set_def demo_redis_def
        demo_world_def)
qed

theorem forgotten_not_mailed_witness:
  "\<exists>w res st'. Import demo_redis 0 example_list ''v1'' demo_export True (demo_world []) = (None, w) \<and>
     DeliverNext demo_relay \<lparr>rw = w, events = []\<rparr> = Some (res, st') \<and> Took an_item \<in> set (events st') \<and>
     Dialled ''tcp4'' (V4 7) True \<notin> set (events st')"
proof -
  let ?m = "\<lambda>w :: demo. set (dset w)"
  obtain w d where im: "Import demo_redis 0 example_list ''v1'' demo_export True (demo_world []) = (None, w)"
    and w: "ddb w = (ddb (demo_world []))\<lparr>strs := d\<rparr>" "d (itemPrefix @ ''m1'') = Some demo_blob" "dlines w = []" using demo_import by blast
  have r: "redis demo_relay = demo_redis" "r_list demo_relay = Some example_list" "r_codec demo_relay = field_codec" "r_clock demo_relay = (\<lambda>w. 0)"
    "r_health demo_relay = None" "r_metrics demo_relay = False" by (simp_all add: demo_relay_def)
  have en: "Enforcing example_list" by (simp add: example_list_def New_list_def Enforcing_def Enabled_def)
  have e: "to_lower (trim_space ''b@them.example'') = ''b@them.example''" by code_simp
  have on: "on_list (Salt example_list) (set demo_export) ''b@them.example''"
    by (simp add: on_list_def e demo_export_def example_list_def New_list_def)
  have z: "itoa 0 = ''0''" "atoi ''0'' = Some 0" by code_simp+
  have i: "RcptTo an_item = ''b@them.example''" by (simp add: an_item_def)
  obtain w1 where nx: "run_prog (Next field_codec 0) demo_redis w = (Inr (Some an_item), w1)" "?m w1 = ?m w"
    using w by (simp add: Next_def promote_def take_item_def demo_redis_def z asStrings_def asString_def List.map_filter_simps demo_world_def demo_blob_reads)
  obtain x w2 where x: "suppressionAllows demo_relay ''b@them.example'' w1 = (x, w2)" by (metis prod.exhaust)
  have "on_list (Salt example_list) (?m w1) ''b@them.example''"
    using on Import_members [OF demo_members(1) im] nx(2) unfolding on_list_def Let_def by auto
  from listed_not_allowed [of demo_relay ?m example_list w1, OF _ _ r(2) en this _ x] have "x \<noteq> None"
    unfolding r using demo_members by simp
  then have "\<exists>res st'. DeliverNext demo_relay \<lparr>rw = w, events = []\<rparr> = Some (res, st') \<and> Took an_item \<in> set (events st')"
    using nx(1) x by (auto simp: DeliverNext_def take_and_deliver_def deliver_item_def r i note_event_def end_item_def record_outcome_def
        split: prod.split)
  then obtain res st' where d: "DeliverNext demo_relay \<lparr>rw = w, events = []\<rparr> = Some (res, st')" "Took an_item \<in> set (events st')" by blast
  have "Dialled ''tcp4'' (V4 7) True \<notin> set (events st')"
    by (rule forgotten_not_mailed [of demo_relay ?m example_list, OF _ _ demo_apart(2) r(2) en _ d])
      (use demo_members im on i r(1) in simp_all)
  with im d show ?thesis by blast
qed

end
