(* ===== verification/Config.thy ===== *)
theory Config
  imports Prelude Complex_Main
begin

text \<open>
  \<open>internal/config/config.go\<close>: the settings of the service, their three layers (built-in values, a file,
  the environment) and the check that decides whether the service starts.
\<close>

section \<open>The settings\<close>

record tls_conf =
  t_certFile :: string
  t_keyFile :: string
  t_clientCAFile :: string

definition TLS_Enabled :: "tls_conf \<Rightarrow> bool" where
  "TLS_Enabled t \<longleftrightarrow> t_certFile t \<noteq> [] \<or> t_keyFile t \<noteq> []"

definition MutualAuth :: "tls_conf \<Rightarrow> bool" where
  "MutualAuth t \<longleftrightarrow> t_clientCAFile t \<noteq> []"

record dns_conf =
  d_servers :: "string list"
  d_timeout :: duration
  d_cacheTTL :: duration
  d_negativeTTL :: duration
  d_cacheSize :: int

record pacer_conf =
  p_idleTTL :: duration
  p_maxTracked :: int
  p_promoteAfter :: int
  p_promoteStep :: rat
  p_promoteCeiling :: rat
  p_sessionLease :: duration
  p_leaseWait :: duration

record standdown_conf =
  s_hosts :: int
  s_window :: duration
  s_pause :: duration

definition DataScoutProbeTimeout :: duration where
  "DataScoutProbeTimeout = 90 * second"

record iphealth_conf =
  i_resolvers :: "string list"
  i_zones :: "string list"
  i_interval :: duration
  i_timeout :: duration
  i_complaintWindow :: duration
  i_complaintThreshold :: int

definition IPHealth_Enabled :: "iphealth_conf \<Rightarrow> bool" where
  "IPHealth_Enabled i \<longleftrightarrow> i_resolvers i \<noteq> []"

record suppress_conf =
  u_salt :: string
  u_stale :: duration
  u_maxHashes :: int
  u_enabled :: bool

record probe_conf =
  b_helo :: string
  b_mailFrom :: string
  b_sourceIP :: string
  b_dialNetwork :: string
  b_port :: string
  b_timeout :: duration
  b_maxRCPT :: int
  b_catchAllProbes :: int
  b_auditRate :: rat
  b_startTLS :: string
  b_handshakeTimeout :: duration
  b_policyStop :: int
  b_policyStopMax :: int
  b_randomiserTTL :: duration
  b_deferralRetry :: duration
  b_maxEmails :: int

record http_conf =
  h_addr :: string
  h_readTimeout :: duration
  h_writeTimeout :: duration
  h_idleTimeout :: duration
  h_shutdownTimeout :: duration

record redis_conf =
  r_addr :: string
  r_dialTimeout :: duration

definition Endpoint :: "redis_conf \<Rightarrow> string \<times> string" where
  "Endpoint r = (if has_prefix (r_addr r) ''unix:'' then (''unix'', drop 5 (r_addr r)) else (''tcp'', r_addr r))"

record auth_conf =
  a_enabled :: bool
  a_apiKey :: string

record relay_conf =
  y_enabled :: bool
  y_keyFile :: string
  y_selector :: string
  y_domain :: string
  y_returnPathDomain :: string
  y_maxAttempts :: int
  y_retryBase :: duration
  y_drainInterval :: duration
  y_sendTimeout :: duration

record log_conf =
  l_level :: string
  l_format :: string
  l_replies :: bool
  l_replyMaxChars :: int

record config =
  c_http :: http_conf
  c_tls :: tls_conf
  c_redis :: redis_conf
  c_dns :: dns_conf
  c_pacer :: pacer_conf
  c_standDown :: standdown_conf
  c_ipHealth :: iphealth_conf
  c_suppress :: suppress_conf
  c_probe :: probe_conf
  c_auth :: auth_conf
  c_relay :: relay_conf
  c_log :: log_conf

definition defaults :: config where
  "defaults = \<lparr>
     c_http = \<lparr>h_addr = ''127.0.0.1:8080'', h_readTimeout = 10 * second, h_writeTimeout = 30 * second,
       h_idleTimeout = 60 * second, h_shutdownTimeout = 30 * second\<rparr>,
     c_tls = \<lparr>t_certFile = [], t_keyFile = [], t_clientCAFile = []\<rparr>,
     c_redis = \<lparr>r_addr = ''unix:/run/redis/redis-server.sock'', r_dialTimeout = 2 * second\<rparr>,
     c_dns = \<lparr>d_servers = [], d_timeout = 5 * second, d_cacheTTL = 5 * minute, d_negativeTTL = minute, d_cacheSize = 4096\<rparr>,
     c_pacer = \<lparr>p_idleTTL = 30 * minute, p_maxTracked = 512, p_promoteAfter = 500, p_promoteStep = 3 / 2,
       p_promoteCeiling = 20, p_sessionLease = 50 * second, p_leaseWait = 60 * second\<rparr>,
     c_standDown = \<lparr>s_hosts = 3, s_window = 30 * minute, s_pause = 6 * hour\<rparr>,
     c_ipHealth = \<lparr>i_resolvers = [], i_zones = [], i_interval = 15 * minute, i_timeout = 5 * second,
       i_complaintWindow = 0, i_complaintThreshold = 0\<rparr>,
     c_suppress = \<lparr>u_salt = [], u_stale = 24 * hour, u_maxHashes = 200000, u_enabled = False\<rparr>,
     c_probe = \<lparr>b_helo = [], b_mailFrom = [], b_sourceIP = [], b_dialNetwork = ''tcp4'', b_port = ''25'',
       b_timeout = 20 * second, b_maxRCPT = 50, b_catchAllProbes = 2, b_auditRate = 1 / 20,
       b_startTLS = ''opportunistic'', b_handshakeTimeout = 10 * second, b_policyStop = 5, b_policyStopMax = 10,
       b_randomiserTTL = 24 * hour, b_deferralRetry = 15 * minute, b_maxEmails = 500\<rparr>,
     c_auth = \<lparr>a_enabled = True, a_apiKey = []\<rparr>,
     c_relay = \<lparr>y_enabled = False, y_keyFile = [], y_selector = [], y_domain = [], y_returnPathDomain = [],
       y_maxAttempts = 5, y_retryBase = 5 * minute, y_drainInterval = 10 * second, y_sendTimeout = 60 * second\<rparr>,
     c_log = \<lparr>l_level = ''info'', l_format = ''json'', l_replies = True, l_replyMaxChars = 200\<rparr>\<rparr>"

lemma default_endpoint: "Endpoint (c_redis defaults) = (''unix'', ''/run/redis/redis-server.sock'')"
  by (simp add: Endpoint_def defaults_def has_prefix_def)

section \<open>The environment\<close>

definition EnvPrefix :: string where "EnvPrefix = ''VERIFIERD_''"

text \<open>The parsers of the library that are not written out here, by what they accept.\<close>

record parsers =
  parse_duration :: "string \<rightharpoonup> duration"
  parse_float :: "string \<rightharpoonup> rat"
  parse_ip :: "string \<Rightarrow> bool"
  split_host_port :: "string \<Rightarrow> string option"

definition parse_bool :: "string \<Rightarrow> bool option" where
  "parse_bool v =
     (if v \<in> set [''1'', ''t'', ''T'', ''TRUE'', ''true'', ''True''] then Some True
      else if v \<in> set [''0'', ''f'', ''F'', ''FALSE'', ''false'', ''False''] then Some False else None)"

text \<open>A problem is its message, without the values printed in it.\<close>

type_synonym problem = string

datatype load_error =
    Unreadable string string
  | Unparsable string string
  | BadVariable string
  | Invalid "problem list"

text \<open>The closures \<open>str\<close>, \<open>dur\<close>, \<open>integer\<close>, \<open>float\<close> and \<open>boolean\<close>: an empty variable counts as unset.\<close>

definition env_str :: "(string \<Rightarrow> string) \<Rightarrow> string \<Rightarrow> string \<Rightarrow> string" where
  "env_str getenv key dst = (let v = getenv (EnvPrefix @ key) in if v = [] then dst else v)"

definition env_list :: "(string \<Rightarrow> string) \<Rightarrow> string \<Rightarrow> string list \<Rightarrow> string list" where
  "env_list getenv key dst = (let v = getenv (EnvPrefix @ key) in if v = [] then dst else split_on (CHR '','') v)"

definition env_read ::
  "(string \<rightharpoonup> 'a) \<Rightarrow> (string \<Rightarrow> string) \<Rightarrow> string \<Rightarrow> ('a \<Rightarrow> config \<Rightarrow> config) \<Rightarrow> config \<Rightarrow> load_error + config" where
  "env_read parse getenv key assign cfg =
     (let v = getenv (EnvPrefix @ key)
      in if v = [] then Inr cfg
         else case parse v of None \<Rightarrow> Inl (BadVariable (EnvPrefix @ key)) | Some x \<Rightarrow> Inr (assign x cfg))"

fun in_turn :: "(config \<Rightarrow> load_error + config) list \<Rightarrow> config \<Rightarrow> load_error + config" where
  "in_turn [] cfg = Inr cfg"
| "in_turn (f # fs) cfg = (case f cfg of Inl e \<Rightarrow> Inl e | Inr cfg' \<Rightarrow> in_turn fs cfg')"

definition env_strings :: "(string \<Rightarrow> string) \<Rightarrow> config \<Rightarrow> config" where
  "env_strings getenv cfg =
     (let str = env_str getenv; lst = env_list getenv
      in cfg
        \<lparr>c_http := (c_http cfg)\<lparr>h_addr := str ''HTTP_ADDR'' (h_addr (c_http cfg))\<rparr>,
         c_tls := (c_tls cfg)\<lparr>t_certFile := str ''TLS_CERT_FILE'' (t_certFile (c_tls cfg)),
           t_keyFile := str ''TLS_KEY_FILE'' (t_keyFile (c_tls cfg)),
           t_clientCAFile := str ''TLS_CLIENT_CA_FILE'' (t_clientCAFile (c_tls cfg))\<rparr>,
         c_redis := (c_redis cfg)\<lparr>r_addr := str ''REDIS_ADDR'' (r_addr (c_redis cfg))\<rparr>,
         c_dns := (c_dns cfg)\<lparr>d_servers := lst ''DNS_SERVERS'' (d_servers (c_dns cfg))\<rparr>,
         c_ipHealth := (c_ipHealth cfg)\<lparr>i_resolvers := lst ''IP_HEALTH_RESOLVERS'' (i_resolvers (c_ipHealth cfg)),
           i_zones := lst ''IP_HEALTH_ZONES'' (i_zones (c_ipHealth cfg))\<rparr>,
         c_suppress := (c_suppress cfg)\<lparr>u_salt := str ''SUPPRESS_SALT'' (u_salt (c_suppress cfg))\<rparr>,
         c_probe := (c_probe cfg)\<lparr>b_helo := str ''PROBE_HELO'' (b_helo (c_probe cfg)),
           b_mailFrom := str ''PROBE_MAIL_FROM'' (b_mailFrom (c_probe cfg)),
           b_sourceIP := str ''PROBE_SOURCE_IP'' (b_sourceIP (c_probe cfg)),
           b_dialNetwork := str ''PROBE_DIAL_NETWORK'' (b_dialNetwork (c_probe cfg)),
           b_startTLS := str ''PROBE_STARTTLS'' (b_startTLS (c_probe cfg)),
           b_port := str ''PROBE_PORT'' (b_port (c_probe cfg))\<rparr>,
         c_auth := (c_auth cfg)\<lparr>a_apiKey := str ''AUTH_API_KEY'' (a_apiKey (c_auth cfg))\<rparr>,
         c_log := (c_log cfg)\<lparr>l_level := str ''LOG_LEVEL'' (l_level (c_log cfg)),
           l_format := str ''LOG_FORMAT'' (l_format (c_log cfg))\<rparr>\<rparr>)"

definition env_values :: "parsers \<Rightarrow> (string \<Rightarrow> string) \<Rightarrow> (config \<Rightarrow> load_error + config) list" where
  "env_values ps getenv =
     (let dur = env_read (parse_duration ps) getenv; integer = env_read atoi getenv;
          float = env_read (parse_float ps) getenv; boolean = env_read parse_bool getenv
      in [dur ''HTTP_READ_TIMEOUT'' (\<lambda>x. c_http_update (h_readTimeout_update (\<lambda>_. x))),
          dur ''HTTP_WRITE_TIMEOUT'' (\<lambda>x. c_http_update (h_writeTimeout_update (\<lambda>_. x))),
          dur ''HTTP_IDLE_TIMEOUT'' (\<lambda>x. c_http_update (h_idleTimeout_update (\<lambda>_. x))),
          dur ''HTTP_SHUTDOWN_TIMEOUT'' (\<lambda>x. c_http_update (h_shutdownTimeout_update (\<lambda>_. x))),
          dur ''REDIS_DIAL_TIMEOUT'' (\<lambda>x. c_redis_update (r_dialTimeout_update (\<lambda>_. x))),
          dur ''DNS_TIMEOUT'' (\<lambda>x. c_dns_update (d_timeout_update (\<lambda>_. x))),
          dur ''DNS_CACHE_TTL'' (\<lambda>x. c_dns_update (d_cacheTTL_update (\<lambda>_. x))),
          dur ''DNS_NEGATIVE_TTL'' (\<lambda>x. c_dns_update (d_negativeTTL_update (\<lambda>_. x))),
          integer ''DNS_CACHE_SIZE'' (\<lambda>x. c_dns_update (d_cacheSize_update (\<lambda>_. x))),
          dur ''IP_HEALTH_INTERVAL'' (\<lambda>x. c_ipHealth_update (i_interval_update (\<lambda>_. x))),
          dur ''IP_HEALTH_TIMEOUT'' (\<lambda>x. c_ipHealth_update (i_timeout_update (\<lambda>_. x))),
          dur ''PACER_IDLE_TTL'' (\<lambda>x. c_pacer_update (p_idleTTL_update (\<lambda>_. x))),
          integer ''PACER_MAX_TRACKED'' (\<lambda>x. c_pacer_update (p_maxTracked_update (\<lambda>_. x))),
          dur ''PACER_SESSION_LEASE'' (\<lambda>x. c_pacer_update (p_sessionLease_update (\<lambda>_. x))),
          dur ''PACER_LEASE_WAIT'' (\<lambda>x. c_pacer_update (p_leaseWait_update (\<lambda>_. x))),
          integer ''STANDDOWN_HOSTS'' (\<lambda>x. c_standDown_update (s_hosts_update (\<lambda>_. x))),
          dur ''STANDDOWN_WINDOW'' (\<lambda>x. c_standDown_update (s_window_update (\<lambda>_. x))),
          dur ''STANDDOWN_PAUSE'' (\<lambda>x. c_standDown_update (s_pause_update (\<lambda>_. x))),
          integer ''PACER_PROMOTE_AFTER'' (\<lambda>x. c_pacer_update (p_promoteAfter_update (\<lambda>_. x))),
          dur ''PROBE_TIMEOUT'' (\<lambda>x. c_probe_update (b_timeout_update (\<lambda>_. x))),
          integer ''PROBE_MAX_RCPT_PER_SESSION'' (\<lambda>x. c_probe_update (b_maxRCPT_update (\<lambda>_. x))),
          integer ''PROBE_CATCH_ALL_PROBES'' (\<lambda>x. c_probe_update (b_catchAllProbes_update (\<lambda>_. x))),
          float ''PROBE_CATCH_ALL_AUDIT_RATE'' (\<lambda>x. c_probe_update (b_auditRate_update (\<lambda>_. x))),
          dur ''PROBE_TLS_HANDSHAKE_TIMEOUT'' (\<lambda>x. c_probe_update (b_handshakeTimeout_update (\<lambda>_. x))),
          integer ''PROBE_POLICY_STOP'' (\<lambda>x. c_probe_update (b_policyStop_update (\<lambda>_. x))),
          integer ''PROBE_POLICY_STOP_MAX'' (\<lambda>x. c_probe_update (b_policyStopMax_update (\<lambda>_. x))),
          dur ''PROBE_RANDOMISER_TTL'' (\<lambda>x. c_probe_update (b_randomiserTTL_update (\<lambda>_. x))),
          dur ''PROBE_DEFERRAL_RETRY'' (\<lambda>x. c_probe_update (b_deferralRetry_update (\<lambda>_. x))),
          integer ''PROBE_MAX_EMAILS_PER_REQUEST'' (\<lambda>x. c_probe_update (b_maxEmails_update (\<lambda>_. x))),
          boolean ''AUTH_ENABLED'' (\<lambda>x. c_auth_update (a_enabled_update (\<lambda>_. x))),
          boolean ''SUPPRESS_ENABLED'' (\<lambda>x. c_suppress_update (u_enabled_update (\<lambda>_. x))),
          dur ''SUPPRESS_STALE'' (\<lambda>x. c_suppress_update (u_stale_update (\<lambda>_. x))),
          integer ''SUPPRESS_MAX_HASHES'' (\<lambda>x. c_suppress_update (u_maxHashes_update (\<lambda>_. x)))])"

definition applyEnv :: "parsers \<Rightarrow> (string \<Rightarrow> string) \<Rightarrow> config \<Rightarrow> load_error + config" where
  "applyEnv ps getenv cfg = in_turn (env_values ps getenv) (env_strings getenv cfg)"

section \<open>The check\<close>

definition add_if :: "bool \<Rightarrow> problem \<Rightarrow> problem list" where
  "add_if c p = (if c then [p] else [])"

definition not_host_port :: "parsers \<Rightarrow> string \<Rightarrow> string list \<Rightarrow> problem list" where
  "not_host_port ps what srvs = concat (map (\<lambda>srv. add_if (split_host_port ps srv \<noteq> None) (what @ '' entry '' @ srv @ '' must be host:port'')) srvs)"

text \<open>A sum of durations is taken in 64 bits.\<close>

definition duration_sum :: "duration \<Rightarrow> duration \<Rightarrow> duration" where
  "duration_sum a b = (a + b + 2 ^ 63) mod 2 ^ 64 - 2 ^ 63"

definition validate_edge :: "config \<Rightarrow> problem list" where
  "validate_edge c = (let http = c_http c in
     add_if (h_addr http = []) ''http.addr must be set'' @
     add_if (r_addr (c_redis c) = []) ''redis.addr must be set'' @
     concat (map (\<lambda>(name, v). add_if (v \<le> 0) (name @ '' must be positive''))
       [(''http.read_timeout'', h_readTimeout http), (''http.write_timeout'', h_writeTimeout http),
        (''http.idle_timeout'', h_idleTimeout http), (''http.shutdown_timeout'', h_shutdownTimeout http),
        (''redis.dial_timeout'', r_dialTimeout (c_redis c))]) @
     add_if (a_enabled (c_auth c) \<and> a_apiKey (c_auth c) = []) ''auth.enabled is true but auth.api_key is empty'')"

definition validate_identity :: "parsers \<Rightarrow> config \<Rightarrow> problem list" where
  "validate_identity ps c = (let b = c_probe c; u = c_suppress c; i = c_ipHealth c in
     add_if (b_dialNetwork b \<noteq> ''tcp4'') ''probe.dial_network must be tcp4'' @
     add_if (b_helo b = []) ''probe.helo must be set'' @
     add_if (b_mailFrom b = []) ''probe.mail_from must be set'' @
     add_if (b_sourceIP b \<noteq> [] \<and> \<not> parse_ip ps (b_sourceIP b)) ''probe.source_ip is not an IP address'' @
     add_if (b_timeout b \<le> 0) ''probe.timeout must be positive'' @
     add_if (u_enabled u \<and> u_salt u = []) ''suppress.enabled is true but suppress.salt is empty'' @
     add_if (u_stale u \<le> 0 \<or> u_maxHashes u \<le> 0) ''suppress.stale and suppress.max_hashes_per_import must be positive'' @
     add_if (i_interval i \<le> 0 \<or> i_timeout i \<le> 0) ''ip_health.interval and ip_health.timeout must be positive'' @
     not_host_port ps ''ip_health.resolvers'' (i_resolvers i) @
     add_if (IPHealth_Enabled i \<and> b_sourceIP b = []) ''ip_health.resolvers is set but probe.source_ip is empty'')"

definition validate_pacing :: "parsers \<Rightarrow> config \<Rightarrow> problem list" where
  "validate_pacing ps c = (let p = c_pacer c; b = c_probe c; s = c_standDown c; d = c_dns c in
     add_if (p_idleTTL p \<le> 0 \<or> p_maxTracked p \<le> 0) ''pacer.idle_ttl and pacer.max_tracked must be positive'' @
     add_if (p_promoteAfter p < 0) ''pacer.promote_after must be 0 (disabled) or positive'' @
     add_if (p_promoteStep p \<le> 1 \<or> p_promoteCeiling p \<le> 0) ''pacer.promote_step must exceed 1 and pacer.promote_ceiling must be positive'' @
     add_if (p_sessionLease p \<le> b_timeout b) ''pacer.session_lease must exceed probe.timeout'' @
     add_if (s_hosts s < 2) ''standdown.hosts must be at least 2'' @
     add_if (s_window s \<le> 0) ''standdown.window must be positive'' @
     add_if (s_pause s \<le> 0) ''standdown.pause must be positive'' @
     (if p_leaseWait p \<le> 0 then [''pacer.lease_wait must be positive'']
      else add_if (DataScoutProbeTimeout \<le> duration_sum (p_leaseWait p) (b_timeout b))
             ''pacer.lease_wait + probe.timeout must stay under Data Scout's probe timeout'') @
     add_if (d_timeout d \<le> 0) ''dns.timeout must be positive'' @
     add_if (d_cacheTTL d \<le> 0 \<or> d_negativeTTL d \<le> 0 \<or> d_cacheSize d \<le> 0) ''dns.cache_ttl, dns.negative_ttl and dns.cache_size must be positive'' @
     not_host_port ps ''dns.servers'' (d_servers d))"

definition validate_session :: "config \<Rightarrow> problem list" where
  "validate_session c = (let b = c_probe c in
     add_if (b_port b = []) ''probe.port must be set'' @
     add_if (b_catchAllProbes b < 2) ''probe.catch_all_probes must be at least 2'' @
     add_if (b_auditRate b < 0 \<or> b_auditRate b > 1) ''probe.catch_all_audit_rate must be in [0, 1]'' @
     add_if (b_startTLS b \<noteq> ''opportunistic'' \<and> b_startTLS b \<noteq> ''off'') ''probe.starttls must be opportunistic or off'' @
     add_if (b_handshakeTimeout b \<le> 0 \<or> b_handshakeTimeout b \<ge> b_timeout b) ''probe.tls_handshake_timeout must be positive and below probe.timeout'' @
     add_if (b_randomiserTTL b \<le> 0) ''probe.randomiser_ttl must be positive'' @
     add_if (b_policyStop b < 0 \<or> b_policyStop b = 1) ''probe.policy_stop must be 0 (disabled) or at least 2'')"

definition validate_relay :: "config \<Rightarrow> problem list" where
  "validate_relay c = (let y = c_relay c in
     if y_enabled y then
       add_if (y_domain y = []) ''relay.domain is required when relay.enabled is true'' @
       add_if (y_keyFile y = [] \<or> y_selector y = []) ''relay.dkim_key_file and relay.dkim_selector are required when relay.enabled is true'' @
       add_if (y_returnPathDomain y = []) ''relay.return_path_domain is required when relay.enabled is true'' @
       add_if (y_maxAttempts y \<le> 0) ''relay.max_attempts must be positive'' @
       add_if (y_retryBase y \<le> 0) ''relay.retry_base must be positive''
     else [])"

definition validate_rest :: "config \<Rightarrow> problem list" where
  "validate_rest c = (let b = c_probe c; t = c_tls c; l = c_log c in
     add_if (b_policyStopMax b < 0) ''probe.policy_stop_max must not be negative'' @
     add_if (b_policyStopMax b > 0 \<and> b_policyStop b > 0 \<and> b_policyStopMax b < b_policyStop b) ''probe.policy_stop_max must not be below probe.policy_stop'' @
     add_if (b_deferralRetry b \<le> 0) ''probe.deferral_retry must be positive'' @
     add_if (b_maxRCPT b \<le> 0) ''probe.max_rcpt_per_session must be positive'' @
     add_if (b_maxEmails b \<le> 0) ''probe.max_emails_per_request must be positive'' @
     add_if ((t_certFile t = []) \<noteq> (t_keyFile t = [])) ''tls.cert_file and tls.key_file must be set together'' @
     add_if (t_clientCAFile t \<noteq> [] \<and> \<not> TLS_Enabled t) ''tls.client_ca_file requires tls.cert_file and tls.key_file'' @
     add_if (l_level l \<notin> set [''debug'', ''info'', ''warn'', ''error'']) ''log.level must be one of debug|info|warn|error'' @
     add_if (l_format l \<notin> set [''json'', ''text'']) ''log.format must be json or text'')"

definition Validate :: "parsers \<Rightarrow> config \<Rightarrow> problem list" where
  "Validate ps c =
     validate_edge c @ validate_identity ps c @ validate_pacing ps c @ validate_session c @ validate_relay c @ validate_rest c"

text \<open>
  The file is read and decoded by libraries: \<open>read_file\<close> is the operating system, and \<open>unmarshal\<close> the YAML
  package, which overwrites in its second argument what the text sets.
\<close>

definition Load ::
  "parsers \<Rightarrow> (string \<Rightarrow> string + string) \<Rightarrow> (string \<Rightarrow> config \<Rightarrow> string + config) \<Rightarrow> string \<Rightarrow> (string \<Rightarrow> string) \<Rightarrow> load_error + config" where
  "Load ps read_file unmarshal path getenv =
     (case (if path = [] then Inr defaults
            else case read_file path of
                   Inl e \<Rightarrow> Inl (Unreadable path e)
                 | Inr raw \<Rightarrow> (case unmarshal raw defaults of Inl e \<Rightarrow> Inl (Unparsable path e) | Inr cfg \<Rightarrow> Inr cfg)) of
        Inl e \<Rightarrow> Inl e
      | Inr cfg \<Rightarrow>
          (case applyEnv ps getenv cfg of
             Inl e \<Rightarrow> Inl e
           | Inr cfg \<Rightarrow> (let problems = Validate ps cfg in if problems = [] then Inr cfg else Inl (Invalid problems))))"

section \<open>What a loaded configuration has\<close>

lemma add_if_Nil [simp]: "add_if c p = [] \<longleftrightarrow> \<not> c"
  by (simp add: add_if_def)

lemma not_host_port_Nil [simp]: "not_host_port ps what srvs = [] \<longleftrightarrow> (\<forall>s\<in>set srvs. split_host_port ps s = None)"
  by (auto simp: not_host_port_def)

lemma Load_Inr:
  assumes "Load ps read_file unmarshal path getenv = Inr c"
  obtains base where "Validate ps c = []" "applyEnv ps getenv base = Inr c"
    "path = [] \<and> base = defaults \<or> (\<exists>raw. read_file path = Inr raw \<and> unmarshal raw defaults = Inr base)"
  using assms by (auto simp: Load_def Let_def split: if_splits sum.splits)

text \<open>
  The times that lie inside each other: a handshake ends within its session, a session within its lease, and
  a session that waited for its lease within the time the caller waits for the answer.
\<close>

definition times_nest :: "config \<Rightarrow> bool" where
  "times_nest c \<longleftrightarrow> 0 < b_handshakeTimeout (c_probe c) \<and> b_handshakeTimeout (c_probe c) < b_timeout (c_probe c) \<and>
     b_timeout (c_probe c) < p_sessionLease (c_pacer c) \<and>
     0 < p_leaseWait (c_pacer c) \<and> p_leaseWait (c_pacer c) + b_timeout (c_probe c) < DataScoutProbeTimeout"

text \<open>Nothing that needs a secret, a key or an address is switched on without it.\<close>

definition complete :: "config \<Rightarrow> bool" where
  "complete c \<longleftrightarrow>
     (a_enabled (c_auth c) \<longrightarrow> a_apiKey (c_auth c) \<noteq> []) \<and>
     (u_enabled (c_suppress c) \<longrightarrow> u_salt (c_suppress c) \<noteq> []) \<and>
     (MutualAuth (c_tls c) \<longrightarrow> t_certFile (c_tls c) \<noteq> [] \<and> t_keyFile (c_tls c) \<noteq> []) \<and>
     (y_enabled (c_relay c) \<longrightarrow> y_domain (c_relay c) \<noteq> [] \<and> y_selector (c_relay c) \<noteq> [] \<and>
        y_keyFile (c_relay c) \<noteq> [] \<and> y_returnPathDomain (c_relay c) \<noteq> []) \<and>
     (IPHealth_Enabled (c_ipHealth c) \<longrightarrow> b_sourceIP (c_probe c) \<noteq> []) \<and>
     b_helo (c_probe c) \<noteq> [] \<and> b_mailFrom (c_probe c) \<noteq> [] \<and> b_dialNetwork (c_probe c) = ''tcp4''"

text \<open>The numbers in the ranges the components are written for.\<close>

definition in_range :: "config \<Rightarrow> bool" where
  "in_range c \<longleftrightarrow>
     2 \<le> s_hosts (c_standDown c) \<and> 0 < s_window (c_standDown c) \<and> 0 < s_pause (c_standDown c) \<and>
     0 < p_maxTracked (c_pacer c) \<and> 0 < p_idleTTL (c_pacer c) \<and>
     0 \<le> p_promoteAfter (c_pacer c) \<and> 1 < p_promoteStep (c_pacer c) \<and> 0 < p_promoteCeiling (c_pacer c) \<and>
     0 < b_maxRCPT (c_probe c) \<and> 0 < b_maxEmails (c_probe c) \<and> 2 \<le> b_catchAllProbes (c_probe c) \<and>
     0 \<le> b_auditRate (c_probe c) \<and> b_auditRate (c_probe c) \<le> 1 \<and>
     (b_policyStop (c_probe c) = 0 \<or> 2 \<le> b_policyStop (c_probe c)) \<and>
     (b_policyStopMax (c_probe c) = 0 \<or> b_policyStop (c_probe c) \<le> b_policyStopMax (c_probe c)) \<and>
     0 < b_deferralRetry (c_probe c) \<and> 0 < b_randomiserTTL (c_probe c) \<and>
     0 < u_stale (c_suppress c) \<and> 0 < u_maxHashes (c_suppress c) \<and>
     0 < d_cacheTTL (c_dns c) \<and> 0 < d_negativeTTL (c_dns c) \<and> 0 < d_cacheSize (c_dns c) \<and> 0 < d_timeout (c_dns c)"

text \<open>Durations are 64-bit numbers.\<close>

definition durations_fit :: "config \<Rightarrow> bool" where
  "durations_fit c \<longleftrightarrow> p_leaseWait (c_pacer c) + b_timeout (c_probe c) < 2 ^ 63"

lemma duration_sum_small: "0 \<le> a \<Longrightarrow> 0 \<le> b \<Longrightarrow> a + b < 2 ^ 63 \<Longrightarrow> duration_sum a b = a + b"
  by (simp add: duration_sum_def)

lemma Validate_times:
  assumes "Validate ps c = []" "durations_fit c"
  shows "times_nest c"
proof -
  have "validate_pacing ps c = []" "validate_session c = []" "validate_identity ps c = []"
    using assms(1) by (simp_all add: Validate_def)
  then show ?thesis
    using assms(2) duration_sum_small [of "p_leaseWait (c_pacer c)" "b_timeout (c_probe c)"]
    by (auto simp: validate_pacing_def validate_session_def validate_identity_def Let_def times_nest_def durations_fit_def split: if_splits)
qed

lemma Validate_complete:
  assumes "Validate ps c = []"
  shows "complete c"
proof -
  have "validate_edge c = []" "validate_identity ps c = []" "validate_relay c = []" "validate_rest c = []"
    using assms by (simp_all add: Validate_def)
  then show ?thesis
    by (auto simp: validate_edge_def validate_identity_def validate_relay_def validate_rest_def Let_def complete_def
        MutualAuth_def TLS_Enabled_def split: if_splits)
qed

lemma Validate_in_range:
  assumes "Validate ps c = []"
  shows "in_range c"
proof -
  have p: "validate_pacing ps c = []" "validate_identity ps c = []" "validate_session c = []" "validate_rest c = []"
    using assms by (simp_all add: Validate_def)
  note parts = p(1) [unfolded validate_pacing_def Let_def append_is_Nil_conv add_if_Nil de_Morgan_disj not_le not_less]
    p(2) [unfolded validate_identity_def Let_def append_is_Nil_conv add_if_Nil de_Morgan_disj not_le not_less]
    p(3) [unfolded validate_session_def Let_def append_is_Nil_conv add_if_Nil de_Morgan_disj not_le not_less]
    p(4) [unfolded validate_rest_def Let_def append_is_Nil_conv add_if_Nil not_le not_less]
  then have "b_policyStop (c_probe c) = 0 \<or> 2 \<le> b_policyStop (c_probe c)"
    "b_policyStopMax (c_probe c) = 0 \<or> b_policyStop (c_probe c) \<le> b_policyStopMax (c_probe c)" by linarith+
  with parts show ?thesis unfolding in_range_def by (elim conjE) (intro conjI, assumption+)
qed

text \<open>
  Whatever file and environment it is given, the service starts only on a complete configuration: nothing is
  switched on without its secret, key or address, every number is in the range the components are written
  for, and the times lie inside each other, as long as the sum of two of them does not overflow.
\<close>

theorem loaded_configuration_wf:
  assumes "Load ps read_file unmarshal path getenv = Inr c"
  shows "complete c \<and> in_range c \<and> (durations_fit c \<longrightarrow> times_nest c)"
  by (rule Load_Inr [OF assms]) (simp add: Validate_complete Validate_in_range Validate_times)

text \<open>
  The sum is not checked for overflow: a wait for a lease of nearly three hundred years is accepted as one
  that ends, with the session, before the caller gives up.
\<close>

definition minimal :: "string \<Rightarrow> string \<Rightarrow> string \<Rightarrow> config" where
  "minimal helo mailFrom key = defaults\<lparr>c_probe := (c_probe defaults)\<lparr>b_helo := helo, b_mailFrom := mailFrom\<rparr>,
     c_auth := (c_auth defaults)\<lparr>a_apiKey := key\<rparr>\<rparr>"

lemmas validate_defs = Validate_def validate_edge_def validate_identity_def validate_pacing_def validate_session_def
  validate_relay_def validate_rest_def add_if_def not_host_port_def Let_def TLS_Enabled_def IPHealth_Enabled_def
  DataScoutProbeTimeout_def duration_sum_def

lemma Validate_minimal:
  "Validate ps (minimal helo mailFrom key) =
     add_if (key = []) ''auth.enabled is true but auth.api_key is empty'' @
     add_if (helo = []) ''probe.helo must be set'' @ add_if (mailFrom = []) ''probe.mail_from must be set''"
  by (simp add: validate_defs minimal_def defaults_def)

theorem wait_overflows:
  "Validate ps ((minimal ''mx'' ''a@b'' ''k'')\<lparr>c_pacer := (c_pacer defaults)\<lparr>p_leaseWait := 2 ^ 63 - 1\<rparr>\<rparr>) = []"
  by (simp add: validate_defs minimal_def defaults_def)

section \<open>The layers\<close>

text \<open>
  The reference: every variable with the setting it stands for. A setting follows its variable when that is
  set and not empty, and is otherwise as the file, or the built-in value, has it.
\<close>

definition string_settings :: "(string \<times> (config \<Rightarrow> string)) list" where
  "string_settings =
    [(''HTTP_ADDR'', h_addr \<circ> c_http), (''TLS_CERT_FILE'', t_certFile \<circ> c_tls), (''TLS_KEY_FILE'', t_keyFile \<circ> c_tls),
     (''TLS_CLIENT_CA_FILE'', t_clientCAFile \<circ> c_tls), (''REDIS_ADDR'', r_addr \<circ> c_redis),
     (''SUPPRESS_SALT'', u_salt \<circ> c_suppress), (''PROBE_HELO'', b_helo \<circ> c_probe), (''PROBE_MAIL_FROM'', b_mailFrom \<circ> c_probe),
     (''PROBE_SOURCE_IP'', b_sourceIP \<circ> c_probe), (''PROBE_DIAL_NETWORK'', b_dialNetwork \<circ> c_probe),
     (''PROBE_STARTTLS'', b_startTLS \<circ> c_probe), (''PROBE_PORT'', b_port \<circ> c_probe), (''AUTH_API_KEY'', a_apiKey \<circ> c_auth),
     (''LOG_LEVEL'', l_level \<circ> c_log), (''LOG_FORMAT'', l_format \<circ> c_log)]"

definition list_settings :: "(string \<times> (config \<Rightarrow> string list)) list" where
  "list_settings =
    [(''DNS_SERVERS'', d_servers \<circ> c_dns), (''IP_HEALTH_RESOLVERS'', i_resolvers \<circ> c_ipHealth), (''IP_HEALTH_ZONES'', i_zones \<circ> c_ipHealth)]"

definition duration_settings :: "(string \<times> (config \<Rightarrow> duration)) list" where
  "duration_settings =
    [(''HTTP_READ_TIMEOUT'', h_readTimeout \<circ> c_http), (''HTTP_WRITE_TIMEOUT'', h_writeTimeout \<circ> c_http),
     (''HTTP_IDLE_TIMEOUT'', h_idleTimeout \<circ> c_http), (''HTTP_SHUTDOWN_TIMEOUT'', h_shutdownTimeout \<circ> c_http),
     (''REDIS_DIAL_TIMEOUT'', r_dialTimeout \<circ> c_redis), (''DNS_TIMEOUT'', d_timeout \<circ> c_dns),
     (''DNS_CACHE_TTL'', d_cacheTTL \<circ> c_dns), (''DNS_NEGATIVE_TTL'', d_negativeTTL \<circ> c_dns),
     (''IP_HEALTH_INTERVAL'', i_interval \<circ> c_ipHealth), (''IP_HEALTH_TIMEOUT'', i_timeout \<circ> c_ipHealth),
     (''PACER_IDLE_TTL'', p_idleTTL \<circ> c_pacer), (''PACER_SESSION_LEASE'', p_sessionLease \<circ> c_pacer),
     (''PACER_LEASE_WAIT'', p_leaseWait \<circ> c_pacer), (''STANDDOWN_WINDOW'', s_window \<circ> c_standDown),
     (''STANDDOWN_PAUSE'', s_pause \<circ> c_standDown), (''PROBE_TIMEOUT'', b_timeout \<circ> c_probe),
     (''PROBE_TLS_HANDSHAKE_TIMEOUT'', b_handshakeTimeout \<circ> c_probe), (''PROBE_RANDOMISER_TTL'', b_randomiserTTL \<circ> c_probe),
     (''PROBE_DEFERRAL_RETRY'', b_deferralRetry \<circ> c_probe), (''SUPPRESS_STALE'', u_stale \<circ> c_suppress)]"

definition integer_settings :: "(string \<times> (config \<Rightarrow> int)) list" where
  "integer_settings =
    [(''DNS_CACHE_SIZE'', d_cacheSize \<circ> c_dns), (''PACER_MAX_TRACKED'', p_maxTracked \<circ> c_pacer),
     (''STANDDOWN_HOSTS'', s_hosts \<circ> c_standDown), (''PACER_PROMOTE_AFTER'', p_promoteAfter \<circ> c_pacer),
     (''PROBE_MAX_RCPT_PER_SESSION'', b_maxRCPT \<circ> c_probe), (''PROBE_CATCH_ALL_PROBES'', b_catchAllProbes \<circ> c_probe),
     (''PROBE_POLICY_STOP'', b_policyStop \<circ> c_probe), (''PROBE_POLICY_STOP_MAX'', b_policyStopMax \<circ> c_probe),
     (''PROBE_MAX_EMAILS_PER_REQUEST'', b_maxEmails \<circ> c_probe), (''SUPPRESS_MAX_HASHES'', u_maxHashes \<circ> c_suppress)]"

definition bool_settings :: "(string \<times> (config \<Rightarrow> bool)) list" where
  "bool_settings = [(''AUTH_ENABLED'', a_enabled \<circ> c_auth), (''SUPPRESS_ENABLED'', u_enabled \<circ> c_suppress)]"

definition layered :: "(string \<rightharpoonup> 'a) \<Rightarrow> (string \<Rightarrow> string) \<Rightarrow> config \<Rightarrow> config \<Rightarrow> string \<times> (config \<Rightarrow> 'a) \<Rightarrow> bool" where
  "layered parse getenv base c = (\<lambda>(key, get).
     let v = getenv (EnvPrefix @ key) in if v = [] then get c = get base else parse v = Some (get c))"

text \<open>A reader keeps a setting, or a list of readers leaves it as its variable says.\<close>

definition keeps :: "(config \<Rightarrow> 'b) \<Rightarrow> (config \<Rightarrow> load_error + config) \<Rightarrow> bool" where
  "keeps get f \<longleftrightarrow> (\<forall>d d'. f d = Inr d' \<longrightarrow> get d' = get d)"

definition settles :: "(string \<rightharpoonup> 'a) \<Rightarrow> (string \<Rightarrow> string) \<Rightarrow> string \<times> (config \<Rightarrow> 'a) \<Rightarrow> (config \<Rightarrow> load_error + config) list \<Rightarrow> bool" where
  "settles parse getenv e fs \<longleftrightarrow> (\<forall>d d'. in_turn fs d = Inr d' \<longrightarrow> layered parse getenv d d' e)"

lemma in_turn_keeps: "list_all (keeps get) fs \<Longrightarrow> in_turn fs d = Inr d' \<Longrightarrow> get d' = get d"
  by (induction fs arbitrary: d) (auto simp: keeps_def split: sum.splits)

lemma keeps_env_read: "(\<And>x d. get (assign x d) = get d) \<Longrightarrow> keeps get (env_read parse getenv key assign)"
  by (auto simp: keeps_def env_read_def Let_def split: option.splits if_splits)

lemma settles_here:
  "(\<And>x d. get (assign x d) = x) \<Longrightarrow> list_all (keeps get) fs \<Longrightarrow> settles parse getenv (key, get) (env_read parse getenv key assign # fs)"
  using in_turn_keeps [of get fs]
  by (fastforce simp: settles_def env_read_def layered_def Let_def split: option.splits if_splits)

lemma settles_later: "keeps get f \<Longrightarrow> settles parse getenv (key, get) fs \<Longrightarrow> settles parse getenv (key, get) (f # fs)"
  unfolding settles_def keeps_def layered_def by (fastforce simp: Let_def split: sum.splits if_splits)

text \<open>Each table, reader by reader.\<close>

lemma durations_settle: "list_all (\<lambda>e. settles (parse_duration ps) getenv e (env_values ps getenv)) duration_settings"
  unfolding duration_settings_def env_values_def Let_def list.pred_inject
  by (simp add: settles_here settles_later keeps_env_read)

lemma integers_settle: "list_all (\<lambda>e. settles atoi getenv e (env_values ps getenv)) integer_settings"
  unfolding integer_settings_def env_values_def Let_def list.pred_inject
  by (simp add: settles_here settles_later keeps_env_read)

lemma bools_settle: "list_all (\<lambda>e. settles parse_bool getenv e (env_values ps getenv)) bool_settings"
  unfolding bool_settings_def env_values_def Let_def list.pred_inject
  by (simp add: settles_here settles_later keeps_env_read)

lemma rate_settles: "settles (parse_float ps) getenv (''PROBE_CATCH_ALL_AUDIT_RATE'', b_auditRate \<circ> c_probe) (env_values ps getenv)"
  unfolding env_values_def Let_def
  by (simp add: settles_here settles_later keeps_env_read)

lemma strings_kept:
  "list_all (\<lambda>(key, get). list_all (keeps get) (env_values ps getenv)) string_settings"
  "list_all (\<lambda>(key, get). list_all (keeps get) (env_values ps getenv)) list_settings"
  unfolding string_settings_def list_settings_def env_values_def Let_def list.pred_inject split
  by (simp_all add: keeps_env_read)

lemma env_strings_sections [simp]:
  "c_http (env_strings getenv b) = (c_http b)\<lparr>h_addr := env_str getenv ''HTTP_ADDR'' (h_addr (c_http b))\<rparr>"
  "c_tls (env_strings getenv b) = (c_tls b)\<lparr>t_certFile := env_str getenv ''TLS_CERT_FILE'' (t_certFile (c_tls b)),
     t_keyFile := env_str getenv ''TLS_KEY_FILE'' (t_keyFile (c_tls b)),
     t_clientCAFile := env_str getenv ''TLS_CLIENT_CA_FILE'' (t_clientCAFile (c_tls b))\<rparr>"
  "c_redis (env_strings getenv b) = (c_redis b)\<lparr>r_addr := env_str getenv ''REDIS_ADDR'' (r_addr (c_redis b))\<rparr>"
  "c_dns (env_strings getenv b) = (c_dns b)\<lparr>d_servers := env_list getenv ''DNS_SERVERS'' (d_servers (c_dns b))\<rparr>"
  "c_ipHealth (env_strings getenv b) = (c_ipHealth b)\<lparr>i_resolvers := env_list getenv ''IP_HEALTH_RESOLVERS'' (i_resolvers (c_ipHealth b)),
     i_zones := env_list getenv ''IP_HEALTH_ZONES'' (i_zones (c_ipHealth b))\<rparr>"
  "c_suppress (env_strings getenv b) = (c_suppress b)\<lparr>u_salt := env_str getenv ''SUPPRESS_SALT'' (u_salt (c_suppress b))\<rparr>"
  "c_probe (env_strings getenv b) = (c_probe b)\<lparr>b_helo := env_str getenv ''PROBE_HELO'' (b_helo (c_probe b)),
     b_mailFrom := env_str getenv ''PROBE_MAIL_FROM'' (b_mailFrom (c_probe b)),
     b_sourceIP := env_str getenv ''PROBE_SOURCE_IP'' (b_sourceIP (c_probe b)),
     b_dialNetwork := env_str getenv ''PROBE_DIAL_NETWORK'' (b_dialNetwork (c_probe b)),
     b_startTLS := env_str getenv ''PROBE_STARTTLS'' (b_startTLS (c_probe b)),
     b_port := env_str getenv ''PROBE_PORT'' (b_port (c_probe b))\<rparr>"
  "c_auth (env_strings getenv b) = (c_auth b)\<lparr>a_apiKey := env_str getenv ''AUTH_API_KEY'' (a_apiKey (c_auth b))\<rparr>"
  "c_log (env_strings getenv b) = (c_log b)\<lparr>l_level := env_str getenv ''LOG_LEVEL'' (l_level (c_log b)),
     l_format := env_str getenv ''LOG_FORMAT'' (l_format (c_log b))\<rparr>"
  "c_pacer (env_strings getenv b) = c_pacer b" "c_standDown (env_strings getenv b) = c_standDown b"
  by (simp_all add: env_strings_def Let_def)

lemma layered_env_str: "get c = env_str getenv key (get base) \<Longrightarrow> layered Some getenv base c (key, get)"
  by (simp add: layered_def env_str_def Let_def)

lemma layered_env_list: "get c = env_list getenv key (get base) \<Longrightarrow> layered (Some \<circ> split_on (CHR '','')) getenv base c (key, get)"
  by (simp add: layered_def env_list_def Let_def)

lemma env_strings_settings:
  "list_all (layered Some getenv base (env_strings getenv base)) string_settings"
  "list_all (layered (Some \<circ> split_on (CHR '','')) getenv base (env_strings getenv base)) list_settings"
  unfolding string_settings_def list_settings_def list.pred_inject
  by (intro conjI TrueI layered_env_str layered_env_list; simp)+

lemma env_strings_rest:
  "list_all (\<lambda>(key, get). get (env_strings getenv base) = get base) duration_settings"
  "list_all (\<lambda>(key, get). get (env_strings getenv base) = get base) integer_settings"
  "list_all (\<lambda>(key, get). get (env_strings getenv base) = get base) bool_settings"
  unfolding duration_settings_def integer_settings_def bool_settings_def list.pred_inject
  by simp_all

lemma layered_kept:
  assumes "in_turn fs s = Inr c" "list_all (\<lambda>(key, get). list_all (keeps get) fs) T" "list_all (layered parse getenv base s) T"
  shows "list_all (layered parse getenv base c) T"
proof (unfold list_all_iff, intro ballI)
  fix e assume e: "e \<in> set T"
  obtain key get where e_eq: "e = (key, get)" by fastforce
  with e assms(2) have "list_all (keeps get) fs" by (auto simp: list_all_iff)
  from in_turn_keeps [OF this assms(1)] have "get c = get s" .
  moreover have "layered parse getenv base s e" using e assms(3) by (simp add: list_all_iff)
  ultimately show "layered parse getenv base c e" by (simp add: layered_def e_eq Let_def)
qed

lemma layered_settled:
  assumes "in_turn fs s = Inr c" "list_all (\<lambda>e. settles parse getenv e fs) T" "list_all (\<lambda>(key, get). get s = get base) T"
  shows "list_all (layered parse getenv base c) T"
proof (unfold list_all_iff, intro ballI)
  fix e assume e: "e \<in> set T"
  obtain key get where e_eq: "e = (key, get)" by fastforce
  have "layered parse getenv s c e" using e assms(1,2) by (auto simp: settles_def list_all_iff)
  moreover have "get s = get base" using e assms(3) by (auto simp: list_all_iff e_eq)
  ultimately show "layered parse getenv base c e" by (simp add: layered_def e_eq Let_def)
qed

lemma applyEnv_layers:
  assumes "applyEnv ps getenv base = Inr c"
  shows "list_all (layered Some getenv base c) string_settings"
    and "list_all (layered (Some \<circ> split_on (CHR '','')) getenv base c) list_settings"
    and "list_all (layered (parse_duration ps) getenv base c) duration_settings"
    and "list_all (layered atoi getenv base c) integer_settings"
    and "list_all (layered parse_bool getenv base c) bool_settings"
    and "list_all (layered (parse_float ps) getenv base c) [(''PROBE_CATCH_ALL_AUDIT_RATE'', b_auditRate \<circ> c_probe)]"
proof -
  have run: "in_turn (env_values ps getenv) (env_strings getenv base) = Inr c" using assms by (simp add: applyEnv_def)
  show "list_all (layered Some getenv base c) string_settings"
    "list_all (layered (Some \<circ> split_on (CHR '','')) getenv base c) list_settings"
    by (rule layered_kept [OF run] strings_kept env_strings_settings)+
  show "list_all (layered (parse_duration ps) getenv base c) duration_settings"
    "list_all (layered atoi getenv base c) integer_settings" "list_all (layered parse_bool getenv base c) bool_settings"
    by (rule layered_settled [OF run] durations_settle integers_settle bools_settle env_strings_rest)+
  show "list_all (layered (parse_float ps) getenv base c) [(''PROBE_CATCH_ALL_AUDIT_RATE'', b_auditRate \<circ> c_probe)]"
    by (rule layered_settled [OF run]) (simp_all add: rate_settles)
qed

text \<open>The settings that have no variable.\<close>

definition file_only :: "config \<Rightarrow> (rat \<times> rat) \<times> (duration \<times> int) \<times> relay_conf \<times> bool \<times> int" where
  "file_only c = ((p_promoteStep (c_pacer c), p_promoteCeiling (c_pacer c)),
     (i_complaintWindow (c_ipHealth c), i_complaintThreshold (c_ipHealth c)), c_relay c, l_replies (c_log c), l_replyMaxChars (c_log c))"

lemma file_only_kept: "list_all (keeps file_only) (env_values ps getenv)"
  unfolding env_values_def Let_def list.pred_inject by (simp add: keeps_env_read file_only_def)

lemma applyEnv_file_only:
  assumes "applyEnv ps getenv base = Inr c"
  shows "file_only c = file_only base"
proof -
  have "c_relay (env_strings getenv base) = c_relay base" by (simp add: env_strings_def Let_def)
  then have "file_only (env_strings getenv base) = file_only base" by (simp add: file_only_def)
  with in_turn_keeps [OF file_only_kept] assms show ?thesis unfolding applyEnv_def by metis
qed

text \<open>
  C33. The environment wins over the file and the file over the built-in values, for every variable and nothing
  else: when the service starts, each setting that has a variable which is set has exactly the value that
  variable was parsed to, and each other, as well as every setting without a variable, has the value of the file, or the
  built-in one without a file; and the check has no objection. So a
  variable that cannot be parsed stops the service, and none is read into the setting of another.
\<close>

theorem environment_wins:
  assumes "Load ps read_file unmarshal path getenv = Inr c"
  shows "\<exists>base. (if path = [] then base = defaults else \<exists>raw. read_file path = Inr raw \<and> unmarshal raw defaults = Inr base) \<and>
    list_all (layered Some getenv base c) string_settings \<and>
    list_all (layered (Some \<circ> split_on (CHR '','')) getenv base c) list_settings \<and>
    list_all (layered (parse_duration ps) getenv base c) duration_settings \<and>
    list_all (layered atoi getenv base c) integer_settings \<and>
    list_all (layered parse_bool getenv base c) bool_settings \<and>
    list_all (layered (parse_float ps) getenv base c) [(''PROBE_CATCH_ALL_AUDIT_RATE'', b_auditRate \<circ> c_probe)] \<and>
    file_only c = file_only base \<and> Validate ps c = []"
proof -
  have valid: "Validate ps c = []" by (rule Load_Inr [OF assms])
  have "\<exists>base. applyEnv ps getenv base = Inr c \<and>
      (if path = [] then base = defaults else \<exists>raw. read_file path = Inr raw \<and> unmarshal raw defaults = Inr base)"
    using assms by (auto simp: Load_def Let_def split: if_splits sum.splits)
  then obtain base where base: "applyEnv ps getenv base = Inr c"
    "if path = [] then base = defaults else \<exists>raw. read_file path = Inr raw \<and> unmarshal raw defaults = Inr base" by blast
  show ?thesis by (intro exI [of _ base] conjI base(2) applyEnv_layers [OF base(1)] applyEnv_file_only [OF base(1)] valid)
qed

text \<open>A file with what has no built-in value, and one variable.\<close>

definition one_variable :: "string \<Rightarrow> string" where
  "one_variable k = (if k = EnvPrefix @ ''STANDDOWN_HOSTS'' then ''4'' else [])"

definition any_parsers :: parsers where
  "any_parsers = \<lparr>parse_duration = (\<lambda>_. None), parse_float = (\<lambda>_. None), parse_ip = (\<lambda>_. True), split_host_port = (\<lambda>_. None)\<rparr>"

definition small_config :: config where
  "small_config = (minimal ''mx.example.org'' ''probe@example.org'' ''secret'')\<lparr>c_standDown := \<lparr>s_hosts = 4, s_window = 30 * minute, s_pause = 6 * hour\<rparr>\<rparr>"

lemma small_load:
  "Load any_parsers Inr (\<lambda>_ _. Inr (minimal ''mx.example.org'' ''probe@example.org'' ''secret'')) ''verifierd.yaml'' one_variable = Inr small_config"
proof -
  let ?m = "minimal ''mx.example.org'' ''probe@example.org'' ''secret''"
  have s: "env_strings one_variable ?m = ?m"
    by (simp add: env_strings_def env_str_def env_list_def Let_def one_variable_def)
  have v: "in_turn (env_values any_parsers one_variable) ?m = Inr small_config"
    unfolding env_values_def by (simp add: env_read_def Let_def one_variable_def small_config_def minimal_def defaults_def atoi_def
        digit_value_def is_digit_def in_int64_def)
  have "Validate any_parsers small_config = []"
    by (simp add: validate_defs small_config_def minimal_def defaults_def)
  with s v show ?thesis by (simp add: Load_def applyEnv_def Let_def)
qed

theorem loaded_configuration_wf_witness: "complete small_config \<and> in_range small_config \<and> times_nest small_config"
  using loaded_configuration_wf [OF small_load]
  by (simp add: durations_fit_def small_config_def minimal_def defaults_def)

theorem environment_wins_witness: "s_hosts (c_standDown small_config) = 4 \<and> b_helo (c_probe small_config) = ''mx.example.org''"
  using environment_wins [OF small_load]
  by (auto simp: integer_settings_def string_settings_def layered_def one_variable_def Let_def small_config_def minimal_def)

text \<open>
  The built-in times do not fit the listener: a session may wait a minute for its lease and then run twenty
  seconds, but the response may be written only within thirty seconds of the request (and sixty in the file
  the repository ships). The check compares the two with the caller's limit only.
\<close>

theorem answer_after_write_timeout:
  "h_writeTimeout (c_http defaults) < p_leaseWait (c_pacer defaults) + b_timeout (c_probe defaults) \<and>
   Validate ps (minimal helo mailFrom key) = [] \<or> helo = [] \<or> mailFrom = [] \<or> key = []"
  by (simp add: Validate_minimal add_if_def defaults_def)

end
