(* ===== verification/Metrics.thy ===== *)
theory Metrics
  imports Reply Pacer "HOL-Library.Word"
begin

text \<open>
  \<open>internal/metrics/metrics.go\<close>: the counters of the service and the text a scrape reads. A counter is a
  \<open>uint64\<close> and wraps; durations are exact rationals where the code has float64.
\<close>

section \<open>Counters\<close>

type_synonym uint64 = "64 word"
type_synonym 'k counters = "('k \<times> uint64) list"

fun bump :: "'k \<Rightarrow> 'k counters \<Rightarrow> 'k counters" where
  "bump k [] = [(k, 1)]"
| "bump k ((j, n) # m) = (if j = k then (j, n + 1) # m else (j, n) # bump k m)"

definition tally_of :: "'k counters \<Rightarrow> 'k \<Rightarrow> uint64" where
  "tally_of m k = (case map_of m k of None \<Rightarrow> 0 | Some n \<Rightarrow> n)"

definition buckets :: "rat list" where
  "buckets = [5/100, 1/10, 25/100, 5/10, 1, 25/10, 5, 10, 30, 60]"

definition bucket_labels :: "string list" where
  "bucket_labels = [''0.05'', ''0.1'', ''0.25'', ''0.5'', ''1'', ''2.5'', ''5'', ''10'', ''30'', ''60'']"

definition domainBuckets :: "int list" where
  "domainBuckets = [1, 2, 3, 5, 10, 20, 50]"

text \<open>One value in a histogram: every bucket it does not exceed, and the last, which is unbounded.\<close>

definition hist_add :: "'a::linorder list \<Rightarrow> 'a \<Rightarrow> uint64 list \<Rightarrow> uint64 list" where
  "hist_add bs x ns = map (\<lambda>(b, n). if x \<le> b then n + 1 else n) (zip bs ns) @ [ns ! length bs + 1]"

record mx_row =
  mr_host :: string
  mr_rate :: rat
  mr_maxRate :: rat
  mr_conc :: int
  mr_state :: string
  mr_inflight :: int

text \<open>The gauges are read from their owners at the scrape: functions of the world.\<close>

record 'w registry =
  mt_results :: "string counters"
  mt_replies :: "(string \<times> string) counters"
  mt_blocked :: "string counters"
  mt_catchAll :: "string counters"
  mt_leaseWaits :: "string counters"
  mt_tlsSessions :: "string counters"
  mt_pauses :: "string counters"
  mt_refusals :: "string counters"
  mt_fallbacks :: "(string \<times> string) counters"
  mt_domCounts :: "uint64 list"
  mt_domSum :: uint64
  mt_listed :: "((string \<times> string) \<times> bool) list"
  mt_sent :: "string counters"
  mt_qDepth :: "int \<times> int \<times> int"
  mt_complaints :: uint64
  mt_counts :: "uint64 list"
  mt_sum :: rat
  mt_observed :: uint64
  mt_pacer :: "('w \<Rightarrow> mx_row list) option"
  mt_standDown :: "('w \<Rightarrow> (string \<times> bool) list) option"
  mt_policyHosts :: "('w \<Rightarrow> int) option"

definition New :: "('w \<Rightarrow> mx_row list) option \<Rightarrow> 'w registry" where
  "New p = \<lparr>mt_results = [], mt_replies = [], mt_blocked = [], mt_catchAll = [], mt_leaseWaits = [], mt_tlsSessions = [], mt_pauses = [],
     mt_refusals = [], mt_fallbacks = [], mt_domCounts = replicate (length domainBuckets + 1) 0, mt_domSum = 0, mt_listed = [], mt_sent = [],
     mt_qDepth = (0, 0, 0), mt_complaints = 0, mt_counts = replicate (length buckets + 1) 0, mt_sum = 0, mt_observed = 0,
     mt_pacer = p, mt_standDown = None, mt_policyHosts = None\<rparr>"

definition SetPacer :: "('w \<Rightarrow> mx_row list) \<Rightarrow> 'w registry \<Rightarrow> 'w registry" where
  "SetPacer p m = m\<lparr>mt_pacer := Some p\<rparr>"

definition SetStandDown :: "('w \<Rightarrow> (string \<times> bool) list) \<Rightarrow> 'w registry \<Rightarrow> 'w registry" where
  "SetStandDown s m = m\<lparr>mt_standDown := Some s\<rparr>"

definition SetPolicyHosts :: "('w \<Rightarrow> int) \<Rightarrow> 'w registry \<Rightarrow> 'w registry" where
  "SetPolicyHosts f m = m\<lparr>mt_policyHosts := Some f\<rparr>"

section \<open>Recording\<close>

definition RefusalOfUs :: "string \<Rightarrow> 'w registry \<Rightarrow> 'w registry" where
  "RefusalOfUs key m = m\<lparr>mt_refusals := bump (if has_prefix key ''@'' then key else ''host'') (mt_refusals m)\<rparr>"

definition Result :: "string \<Rightarrow> 'w registry \<Rightarrow> 'w registry" where
  "Result c m = m\<lparr>mt_results := bump c (mt_results m)\<rparr>"

definition Reply :: "int \<Rightarrow> string \<Rightarrow> 'w registry \<Rightarrow> 'w registry" where
  "Reply k c m = (if k = 0 then m else m\<lparr>mt_replies := bump (itoa k, c) (mt_replies m)\<rparr>)"

definition Blocked :: "string \<Rightarrow> 'w registry \<Rightarrow> 'w registry" where
  "Blocked r m = m\<lparr>mt_blocked := bump r (mt_blocked m)\<rparr>"

definition CatchAllProbes :: "string \<Rightarrow> 'w registry \<Rightarrow> 'w registry" where
  "CatchAllProbes out m = m\<lparr>mt_catchAll := bump out (mt_catchAll m)\<rparr>"

definition LeaseWait :: "string \<Rightarrow> 'w registry \<Rightarrow> 'w registry" where
  "LeaseWait out m = m\<lparr>mt_leaseWaits := bump out (mt_leaseWaits m)\<rparr>"

definition TLSSessions :: "string \<Rightarrow> 'w registry \<Rightarrow> 'w registry" where
  "TLSSessions out m = m\<lparr>mt_tlsSessions := bump out (mt_tlsSessions m)\<rparr>"

definition SessionDomain :: "int \<Rightarrow> 'w registry \<Rightarrow> 'w registry" where
  "SessionDomain n m = m\<lparr>mt_domCounts := hist_add domainBuckets n (mt_domCounts m), mt_domSum := mt_domSum m + of_int (max n 0)\<rparr>"

definition MultiDomainFallback :: "string \<Rightarrow> string \<Rightarrow> 'w registry \<Rightarrow> 'w registry" where
  "MultiDomainFallback family reason m = m\<lparr>mt_fallbacks := bump (family, reason) (mt_fallbacks m)\<rparr>"

definition Pause :: "string \<Rightarrow> 'w registry \<Rightarrow> 'w registry" where
  "Pause h m = m\<lparr>mt_pauses := bump h (mt_pauses m)\<rparr>"

fun put_key :: "'k \<Rightarrow> 'v \<Rightarrow> ('k \<times> 'v) list \<Rightarrow> ('k \<times> 'v) list" where
  "put_key k v [] = [(k, v)]"
| "put_key k v ((j, u) # m) = (if j = k then (j, v) # m else (j, u) # put_key k v m)"

definition IPListed :: "string \<Rightarrow> string \<Rightarrow> bool \<Rightarrow> 'w registry \<Rightarrow> 'w registry" where
  "IPListed i l b m = m\<lparr>mt_listed := put_key (i, l) b (mt_listed m)\<rparr>"

definition Sent :: "string \<Rightarrow> 'w registry \<Rightarrow> 'w registry" where
  "Sent out m = m\<lparr>mt_sent := bump out (mt_sent m)\<rparr>"

definition Complaint :: "'w registry \<Rightarrow> 'w registry" where
  "Complaint m = m\<lparr>mt_complaints := mt_complaints m + 1\<rparr>"

definition QueueDepth :: "int \<Rightarrow> int \<Rightarrow> int \<Rightarrow> 'w registry \<Rightarrow> 'w registry" where
  "QueueDepth r l d m = m\<lparr>mt_qDepth := (r, l, d)\<rparr>"

definition Observe :: "rat \<Rightarrow> 'w registry \<Rightarrow> 'w registry" where
  "Observe s m = m\<lparr>mt_sum := mt_sum m + s, mt_observed := mt_observed m + 1, mt_counts := hist_add buckets s (mt_counts m)\<rparr>"

section \<open>The scrape\<close>

definition utoa :: "uint64 \<Rightarrow> string" where
  "utoa n = nat_digits (unat n)"

definition put_line :: "string \<Rightarrow> string" where
  "put_line s = s @ [LF]"

definition head_lines :: "string \<Rightarrow> string \<Rightarrow> string \<Rightarrow> string" where
  "head_lines name help typ = put_line (''# HELP '' @ name @ '' '' @ help) @ put_line (''# TYPE '' @ name @ '' '' @ typ)"

definition writeGauge :: "string \<Rightarrow> string \<Rightarrow> string" where
  "writeGauge name help = head_lines name help ''gauge''"

definition label1 :: "string \<Rightarrow> string \<Rightarrow> string \<Rightarrow> string \<Rightarrow> string" where
  "label1 name l k v = put_line (name @ ''{'' @ l @ ''='' @ go_quote k @ ''} '' @ v)"

definition label2 :: "string \<Rightarrow> string \<Rightarrow> string \<Rightarrow> string \<Rightarrow> string \<Rightarrow> string \<Rightarrow> string" where
  "label2 name l k l' k' v = put_line (name @ ''{'' @ l @ ''='' @ go_quote k @ '','' @ l' @ ''='' @ go_quote k' @ ''} '' @ v)"

definition counter :: "string \<Rightarrow> string \<Rightarrow> string counters \<Rightarrow> string \<Rightarrow> string" where
  "counter name help values l = head_lines name help ''counter'' @
     concat (map (\<lambda>k. label1 name l k (utoa (tally_of values k))) (sort_strings (map fst values)))"

definition pair_le :: "string \<times> string \<Rightarrow> string \<times> string \<Rightarrow> bool" where
  "pair_le a b \<longleftrightarrow> (if fst a \<noteq> fst b then byte_le (fst a) (fst b) else byte_le (snd a) (snd b))"

definition writeFallbacks :: "(string \<times> string) counters \<Rightarrow> string" where
  "writeFallbacks m = (let name = ''verify_multi_domain_fallbacks_total'' in
     head_lines name ''Families switched to one domain per session, by reason (plan 033).'' ''counter'' @
     concat (map (\<lambda>k. label2 name ''family'' (fst k) ''reason'' (snd k) (utoa (tally_of m k))) (sort_by pair_le (map fst m))))"

definition writeReplies :: "(string \<times> string) counters \<Rightarrow> string" where
  "writeReplies m = (let name = ''verify_smtp_replies_total'' in
     head_lines name ''SMTP replies read, by code and classification.'' ''counter'' @
     concat (map (\<lambda>k. label2 name ''code'' (fst k) ''class'' (snd k) (utoa (tally_of m k))) (sort_by pair_le (map fst m))))"

definition zero_one :: "bool \<Rightarrow> string" where
  "zero_one b = (if b then ''1'' else ''0'')"

definition session_domains_text :: "'w registry \<Rightarrow> string" where
  "session_domains_text m = (let name = ''verify_session_domains'' in
     head_lines name ''Domains asked about per SMTP session (plan 033).'' ''histogram'' @
     concat (map (\<lambda>(b, n). put_line (name @ ''_bucket{le='' @ go_quote (itoa b) @ ''} '' @ utoa n)) (zip domainBuckets (mt_domCounts m))) @
     put_line (name @ ''_bucket{le='' @ go_quote ''+Inf'' @ ''} '' @ utoa (mt_domCounts m ! length domainBuckets)) @
     put_line (name @ ''_sum '' @ utoa (mt_domSum m)) @
     put_line (name @ ''_count '' @ utoa (mt_domCounts m ! length domainBuckets)))"

definition stand_down_text :: "'w registry \<Rightarrow> 'w \<Rightarrow> string" where
  "stand_down_text m w =
     (case mt_standDown m of
        None \<Rightarrow> []
      | Some f \<Rightarrow> writeGauge ''verify_key_stood_down'' ''1 while a pace key is stood down for refusals of us (plan 032).'' @
          concat (map (\<lambda>k. label1 ''verify_key_stood_down'' ''mx_host'' k (zero_one (map_of (f w) k = Some True))) (sort_strings (map fst (f w))))) @
     (case mt_policyHosts m of
        None \<Rightarrow> []
      | Some f \<Rightarrow> writeGauge ''ip_health_policy_hosts'' ''Distinct MX hosts that refused our client in the last hour.'' @
          put_line (''ip_health_policy_hosts '' @ itoa (f w)))"

text \<open>\<open>fmt_g\<close> is the \<open>%g\<close> of the library.\<close>

definition pacer_text :: "(rat \<Rightarrow> string) \<Rightarrow> mx_row list \<Rightarrow> string" where
  "pacer_text fmt_g rows =
     (let snap = sort_by (\<lambda>a b. byte_le (mr_host a) (mr_host b)) rows;
          each = (\<lambda>name f. concat (map (\<lambda>s. label1 name ''mx_host'' (mr_host s) (f s)) snap))
      in writeGauge ''verify_rate_per_sec'' ''Rate the AIMD loop has settled on, per MX.'' @ each ''verify_rate_per_sec'' (\<lambda>s. fmt_g (mr_rate s)) @
         writeGauge ''verify_concurrency'' ''Concurrency the AIMD loop has settled on, per MX.'' @ each ''verify_concurrency'' (\<lambda>s. itoa (mr_conc s)) @
         writeGauge ''verify_inflight'' ''Session leases this process holds, per pace key (plan 028).'' @ each ''verify_inflight'' (\<lambda>s. itoa (mr_inflight s)) @
         writeGauge ''verify_mx_state'' ''1 for the MX's current pacer state.'' @
         concat (map (\<lambda>s. label2 ''verify_mx_state'' ''mx_host'' (mr_host s) ''state'' (mr_state s) ''1'') snap))"

definition listed_text :: "((string \<times> string) \<times> bool) list \<Rightarrow> string" where
  "listed_text m =
     (if m = [] then []
      else writeGauge ''ip_health_listed'' ''1 if this sending IP is on the named blocklist.'' @
        concat (map (\<lambda>k. label2 ''ip_health_listed'' ''ip'' (fst k) ''list'' (snd k) (zero_one (map_of m k = Some True))) (sort_by pair_le (map fst m))))"

definition relay_text :: "'w registry \<Rightarrow> string" where
  "relay_text m =
     (if mt_complaints m > 0
      then head_lines ''relay_complaints_total'' ''Spam complaints reported by the caller.'' ''counter'' @
        put_line (''relay_complaints_total '' @ utoa (mt_complaints m))
      else []) @
     (if mt_sent m \<noteq> [] \<or> mt_qDepth m \<noteq> (0, 0, 0)
      then counter ''relay_sent_total'' ''Outbound delivery attempts by outcome.'' (mt_sent m) ''outcome'' @
        head_lines ''relay_queue_depth'' ''Messages waiting, by state.'' ''gauge'' @
        (case mt_qDepth m of (r, l, d) \<Rightarrow>
           label1 ''relay_queue_depth'' ''state'' ''ready'' (itoa r) @ label1 ''relay_queue_depth'' ''state'' ''later'' (itoa l) @
           label1 ''relay_queue_depth'' ''state'' ''dead'' (itoa d))
      else [])"

definition duration_text :: "(rat \<Rightarrow> string) \<Rightarrow> 'w registry \<Rightarrow> string" where
  "duration_text fmt_g m = (let name = ''verify_request_duration_seconds'' in
     head_lines name ''End-to-end POST /probe latency.'' ''histogram'' @
     concat (map (\<lambda>(b, n). put_line (name @ ''_bucket{le='' @ go_quote b @ ''} '' @ utoa n)) (zip bucket_labels (mt_counts m))) @
     put_line (name @ ''_bucket{le='' @ go_quote ''+Inf'' @ ''} '' @ utoa (mt_counts m ! length buckets)) @
     put_line (name @ ''_sum '' @ fmt_g (mt_sum m)) @ put_line (name @ ''_count '' @ utoa (mt_observed m)))"

definition Render :: "(rat \<Rightarrow> string) \<Rightarrow> int \<Rightarrow> 'w \<Rightarrow> 'w registry \<Rightarrow> string" where
  "Render fmt_g goroutines w m =
     counter ''verify_results_total'' ''Addresses answered, by classification.'' (mt_results m) ''class'' @
     writeReplies (mt_replies m) @
     counter ''verify_probe_blocked_total'' ''Probes this service declined to send, by reason.'' (mt_blocked m) ''reason'' @
     counter ''verify_catch_all_probes_total'' ''How each domain's catch-all question was settled, by outcome.'' (mt_catchAll m) ''outcome'' @
     counter ''verify_lease_waits_total'' ''How session leases were obtained, by outcome (plan 028).'' (mt_leaseWaits m) ''outcome'' @
     counter ''verify_tls_sessions_total'' ''How SMTP sessions were encrypted, by STARTTLS outcome (plan 031).'' (mt_tlsSessions m) ''outcome'' @
     counter ''verify_pause_events_total'' ''Times the pacer stood an MX down after throttling at the floor of its band.'' (mt_pauses m) ''mx_host'' @
     writeFallbacks (mt_fallbacks m) @ session_domains_text m @
     counter ''verify_refusals_of_us_total'' ''Refusals of us that count toward a stand-down, per family key (lone hosts share one label).''
       (mt_refusals m) ''mx_host'' @
     stand_down_text m w @
     (case mt_pacer m of None \<Rightarrow> [] | Some f \<Rightarrow> pacer_text fmt_g (f w)) @
     listed_text (mt_listed m) @
     writeGauge ''verify_tracked_mx'' ''MX hosts the pacer is currently holding state for.'' @
     put_line (''verify_tracked_mx '' @ itoa (case mt_pacer m of None \<Rightarrow> 0 | Some f \<Rightarrow> int (length (f w)))) @
     relay_text m @ duration_text fmt_g m @
     writeGauge ''go_goroutines'' ''Goroutines currently running.'' @ put_line (''go_goroutines '' @ itoa goroutines)"

section \<open>The registry is its history\<close>

datatype recording =
    ResultOf string | ReplyOf int string | BlockedFor string | CatchAllOf string | LeaseOf string | TLSOf string | DomainsOf int
  | FallbackOf string string | PauseOf string | RefusalOf string | ListedOf string string bool | SentAs string | Complained
  | Depth int int int | Took rat

fun recorded :: "recording \<Rightarrow> 'w registry \<Rightarrow> 'w registry" where
  "recorded (ResultOf c) = Result c"
| "recorded (ReplyOf k c) = Reply k c"
| "recorded (BlockedFor r) = Blocked r"
| "recorded (CatchAllOf out) = CatchAllProbes out"
| "recorded (LeaseOf out) = LeaseWait out"
| "recorded (TLSOf out) = TLSSessions out"
| "recorded (DomainsOf n) = SessionDomain n"
| "recorded (FallbackOf f r) = MultiDomainFallback f r"
| "recorded (PauseOf h) = Pause h"
| "recorded (RefusalOf k) = RefusalOfUs k"
| "recorded (ListedOf i l b) = IPListed i l b"
| "recorded (SentAs out) = Sent out"
| "recorded Complained = Complaint"
| "recorded (Depth r l d) = QueueDepth r l d"
| "recorded (Took s) = Observe s"

lemmas recorded_defs = Result_def Reply_def Blocked_def CatchAllProbes_def LeaseWait_def TLSSessions_def SessionDomain_def MultiDomainFallback_def
  Pause_def RefusalOfUs_def IPListed_def Sent_def Complaint_def QueueDepth_def Observe_def

lemma tally_of_Nil [simp]: "tally_of [] k = 0"
  by (simp add: tally_of_def)

lemma tally_of_bump [simp]: "tally_of (bump k m) j = tally_of m j + (if j = k then 1 else 0)"
  by (induction m) (auto simp: tally_of_def)

lemma bump_keys: "map fst (bump k m) = (if k \<in> fst ` set m then map fst m else map fst m @ [k])"
  by (induction m) (auto split: prod.split if_splits simp: image_iff)

lemma bump_distinct: "distinct (map fst m) \<Longrightarrow> distinct (map fst (bump k m))"
  by (simp add: bump_keys image_iff)

text \<open>A histogram is cumulative: a bucket counts every value up to its bound.\<close>

definition hist_of :: "'a::linorder list \<Rightarrow> 'a list \<Rightarrow> uint64 list" where
  "hist_of bs xs = map (\<lambda>b. of_nat (length (filter (\<lambda>x. x \<le> b) xs))) bs @ [of_nat (length xs)]"

lemma hist_add_hist_of: "hist_add bs x (hist_of bs xs) = hist_of bs (xs @ [x])"
proof -
  have "zip bs (map f bs @ [c]) = map (\<lambda>b. (b, f b)) bs" for f and c :: uint64
    by (induction bs) auto
  then show ?thesis by (simp add: hist_add_def hist_of_def nth_append comp_def)
qed

lemma hist_of_Nil: "hist_of bs [] = replicate (length bs + 1) 0"
  by (simp add: hist_of_def map_replicate_const replicate_append_same)

definition durations :: "recording list \<Rightarrow> rat list" where
  "durations es = concat (map (\<lambda>e. case e of Took s \<Rightarrow> [s] | _ \<Rightarrow> []) es)"

definition domains_asked :: "recording list \<Rightarrow> int list" where
  "domains_asked es = concat (map (\<lambda>e. case e of DomainsOf n \<Rightarrow> [n] | _ \<Rightarrow> []) es)"

lemma recorded_append:
  "durations (es @ [e]) = durations es @ (case e of Took s \<Rightarrow> [s] | _ \<Rightarrow> [])"
  "domains_asked (es @ [e]) = domains_asked es @ (case e of DomainsOf n \<Rightarrow> [n] | _ \<Rightarrow> [])"
  by (simp_all add: durations_def domains_asked_def)

abbreviation number :: "('a \<Rightarrow> bool) \<Rightarrow> 'a list \<Rightarrow> uint64" where
  "number P es \<equiv> of_nat (length (filter P es))"

definition counts_ok :: "recording list \<Rightarrow> 'w registry \<Rightarrow> bool" where
  "counts_ok es m \<longleftrightarrow>
     (\<forall>c. tally_of (mt_results m) c = number (\<lambda>e. e = ResultOf c) es) \<and>
     (\<forall>k c. tally_of (mt_replies m) (k, c) = number (\<lambda>e. \<exists>i. i \<noteq> 0 \<and> itoa i = k \<and> e = ReplyOf i c) es) \<and>
     (\<forall>why. tally_of (mt_blocked m) why = number (\<lambda>e. e = BlockedFor why) es) \<and>
     (\<forall>out. tally_of (mt_catchAll m) out = number (\<lambda>e. e = CatchAllOf out) es) \<and>
     (\<forall>out. tally_of (mt_leaseWaits m) out = number (\<lambda>e. e = LeaseOf out) es) \<and>
     (\<forall>out. tally_of (mt_tlsSessions m) out = number (\<lambda>e. e = TLSOf out) es) \<and>
     (\<forall>h. tally_of (mt_pauses m) h = number (\<lambda>e. e = PauseOf h) es) \<and>
     (\<forall>f why. tally_of (mt_fallbacks m) (f, why) = number (\<lambda>e. e = FallbackOf f why) es) \<and>
     (\<forall>l. tally_of (mt_refusals m) l = number (\<lambda>e. \<exists>k. e = RefusalOf k \<and> l = (if has_prefix k ''@'' then k else ''host'')) es) \<and>
     (\<forall>out. tally_of (mt_sent m) out = number (\<lambda>e. e = SentAs out) es) \<and>
     mt_complaints m = number (\<lambda>e. e = Complained) es"

lemma counts_ok_recorded: "counts_ok es (fold recorded es (New p))"
proof (induction es rule: rev_induct)
  case Nil
  show ?case by (simp add: counts_ok_def New_def)
next
  case (snoc e es)
  then show ?case by (cases e) (auto simp: counts_ok_def recorded_defs)
qed

text \<open>The gauges that are set, with their last value.\<close>

definition listings :: "recording list \<Rightarrow> ((string \<times> string) \<times> bool) list" where
  "listings es = concat (map (\<lambda>e. case e of ListedOf i l b \<Rightarrow> [((i, l), b)] | _ \<Rightarrow> []) es)"

definition depths :: "recording list \<Rightarrow> (int \<times> int \<times> int) list" where
  "depths es = concat (map (\<lambda>e. case e of Depth r l d \<Rightarrow> [(r, l, d)] | _ \<Rightarrow> []) es)"

lemma map_of_put_key: "map_of (put_key k v m) = (map_of m)(k \<mapsto> v)"
  by (induction m) (auto simp: fun_eq_iff)

lemma gauges_recorded:
  "map_of (mt_listed (fold recorded es (New p))) = map_of (rev (listings es)) \<and>
   mt_qDepth (fold recorded es (New p)) = last ((0, 0, 0) # depths es)"
proof (induction es rule: rev_induct)
  case Nil
  show ?case by (simp add: New_def listings_def depths_def)
next
  case (snoc e es)
  then show ?case by (cases e) (simp_all add: recorded_defs listings_def depths_def map_of_put_key)
qed

lemma histograms_recorded:
  fixes p :: "('w \<Rightarrow> mx_row list) option" and es :: "recording list"
  defines "m \<equiv> fold recorded es (New p)"
  shows "mt_counts m = hist_of buckets (durations es) \<and> mt_sum m = sum_list (durations es) \<and> mt_observed m = of_nat (length (durations es)) \<and>
    mt_domCounts m = hist_of domainBuckets (domains_asked es) \<and> mt_domSum m = of_int (sum_list (map (max 0) (domains_asked es)))"
  unfolding m_def
proof (induction es rule: rev_induct)
  case Nil
  show ?case by (simp add: New_def hist_of_Nil durations_def domains_asked_def)
next
  case (snoc e es)
  then show ?case by (cases e) (simp_all add: recorded_defs recorded_append hist_add_hist_of max.commute)
qed

text \<open>
  C38. The registry is its history: after any sequence of recordings every counter (results, replies, blocked probes,
  catch-all questions, leases, TLS sessions, pauses, fallbacks, refusals, mails, complaints) is the number of the
  recordings of its kind and label, modulo the width of a counter; replies without a code are not counted, and refusals of
  single hosts are one series; the buckets of the two histograms count the values up to their bounds,
  so that they are cumulative, and the last one all of them; and the listings and the depth of
  the queue are the last ones recorded.
\<close>

theorem registry_counts_its_history:
  fixes p :: "('w \<Rightarrow> mx_row list) option" and es :: "recording list"
  defines "m \<equiv> fold recorded es (New p)"
  shows "tally_of (mt_results m) x = number (\<lambda>e. e = ResultOf x) es \<and>
    tally_of (mt_replies m) (k, x) = number (\<lambda>e. \<exists>i. i \<noteq> 0 \<and> itoa i = k \<and> e = ReplyOf i x) es \<and>
    tally_of (mt_blocked m) x = number (\<lambda>e. e = BlockedFor x) es \<and>
    tally_of (mt_catchAll m) x = number (\<lambda>e. e = CatchAllOf x) es \<and>
    tally_of (mt_leaseWaits m) x = number (\<lambda>e. e = LeaseOf x) es \<and>
    tally_of (mt_tlsSessions m) x = number (\<lambda>e. e = TLSOf x) es \<and>
    tally_of (mt_pauses m) x = number (\<lambda>e. e = PauseOf x) es \<and>
    tally_of (mt_fallbacks m) (k, x) = number (\<lambda>e. e = FallbackOf k x) es \<and>
    tally_of (mt_refusals m) x = number (\<lambda>e. \<exists>h. e = RefusalOf h \<and> x = (if has_prefix h ''@'' then h else ''host'')) es \<and>
    tally_of (mt_sent m) x = number (\<lambda>e. e = SentAs x) es \<and> mt_complaints m = number (\<lambda>e. e = Complained) es \<and>
    mt_counts m = hist_of buckets (durations es) \<and> mt_observed m = of_nat (length (durations es)) \<and> mt_sum m = sum_list (durations es) \<and>
    mt_domCounts m = hist_of domainBuckets (domains_asked es) \<and> mt_domSum m = of_int (sum_list (map (max 0) (domains_asked es))) \<and>
    map_of (mt_listed m) (k, x) = map_of (rev (listings es)) (k, x) \<and> mt_qDepth m = last ((0, 0, 0) # depths es)"
  using counts_ok_recorded [of es p, folded m_def] histograms_recorded [of es p, folded m_def] gauges_recorded [of es p, folded m_def]
  unfolding counts_ok_def by (elim conjE, intro conjI) (simp_all only:)

section \<open>No label breaks a line\<close>

definition metric_names :: "string list" where
  "metric_names = [''verify_'', ''ip_health_'', ''relay_'', ''go_goroutines'']"

definition exposition_line :: "string \<Rightarrow> bool" where
  "exposition_line l \<longleftrightarrow> LF \<notin> set l \<and> (has_prefix l ''# HELP '' \<or> has_prefix l ''# TYPE '' \<or> list_ex (has_prefix l) metric_names)"

text \<open>A text made of whole lines.\<close>

definition well_formed :: "string \<Rightarrow> bool" where
  "well_formed s \<longleftrightarrow> (\<exists>ls. s = concat (map put_line ls) \<and> list_all exposition_line ls)"

lemma well_formed_Nil [simp]: "well_formed []"
  unfolding well_formed_def by (rule exI [of _ "[]"]) simp

lemma well_formed_append [intro]: "well_formed s \<Longrightarrow> well_formed t \<Longrightarrow> well_formed (s @ t)"
  unfolding well_formed_def by (metis concat_append list_all_append map_append)

lemma well_formed_line [intro]: "exposition_line l \<Longrightarrow> well_formed (put_line l)"
  unfolding well_formed_def by (rule exI [of _ "[l]"]) simp

lemma well_formed_concat [intro]: "(\<And>x. x \<in> set xs \<Longrightarrow> well_formed (f x)) \<Longrightarrow> well_formed (concat (map f xs))"
  by (induction xs) auto

lemma hex_digit_no_LF: "n < 16 \<Longrightarrow> hex_digit n \<noteq> LF"
  by (cases "n < 10") (auto simp: hex_digit_def dest!: arg_cong [of _ _ byte_of])

lemma quote_char_no_LF: "LF \<notin> set (quote_char c)"
proof -
  have "byte_of c div 16 < 16" using byte_of_lt [of c] by (simp only: less_mult_imp_div_less)
  then show ?thesis by (auto simp: quote_char_def hex_digit_no_LF [THEN not_sym] dest: arg_cong [of _ _ byte_of])
qed

lemma go_quote_no_LF [simp]: "LF \<notin> set (go_quote s)"
  using quote_char_no_LF by (auto simp: go_quote_def)

lemma digits_no_LF: "list_all is_digit s \<Longrightarrow> LF \<notin> set s"
  by (auto simp: list_all_iff is_digit_def)

lemma numbers_no_LF [simp]: "LF \<notin> set (nat_digits n)" "LF \<notin> set (itoa k)" "LF \<notin> set (utoa u)"
  using digits_no_LF [OF nat_digits_digits] by (auto simp: itoa_def utoa_def)

text \<open>A name of ours without a newline, and the lines made of it.\<close>

definition our_name :: "string \<Rightarrow> bool" where
  "our_name name \<longleftrightarrow> LF \<notin> set name \<and> list_ex (has_prefix name) metric_names"

lemma has_prefix_more: "has_prefix s w \<Longrightarrow> has_prefix (s @ t) w"
  by (auto simp: has_prefix_iff)

lemma exposition_our: "our_name name \<Longrightarrow> LF \<notin> set t \<Longrightarrow> exposition_line (name @ t)"
  by (auto simp: our_name_def exposition_line_def list_ex_iff intro: has_prefix_more)

lemma well_formed_head [intro]: "LF \<notin> set name \<Longrightarrow> LF \<notin> set help \<Longrightarrow> LF \<notin> set typ \<Longrightarrow> well_formed (head_lines name help typ)"
  unfolding head_lines_def
  by (intro well_formed_append well_formed_line) (auto simp: exposition_line_def has_prefix_iff)

lemma well_formed_labels [intro]:
  "our_name name \<Longrightarrow> LF \<notin> set l \<Longrightarrow> LF \<notin> set v \<Longrightarrow> well_formed (label1 name l k v)"
  "our_name name \<Longrightarrow> LF \<notin> set l \<Longrightarrow> LF \<notin> set l' \<Longrightarrow> LF \<notin> set v \<Longrightarrow> well_formed (label2 name l k l' k' v)"
  unfolding label1_def label2_def by (intro well_formed_line exposition_our; simp)+

lemma well_formed_counter [intro]:
  "our_name name \<Longrightarrow> LF \<notin> set help \<Longrightarrow> LF \<notin> set l \<Longrightarrow> well_formed (counter name help values l)"
  unfolding counter_def by (intro well_formed_append well_formed_head well_formed_concat well_formed_labels) (auto simp: our_name_def)

lemma zero_one_no_LF [simp]: "LF \<notin> set (zero_one b)"
  by (simp add: zero_one_def)

lemmas one_line = our_name_def exposition_line_def metric_names_def has_prefix_def

lemma well_formed_parts:
  "well_formed (writeReplies rs)" "well_formed (writeFallbacks fs)" "well_formed (listed_text ls)" "well_formed (relay_text m)"
  by (auto simp: writeReplies_def writeFallbacks_def listed_text_def relay_text_def writeGauge_def one_line Let_def split: prod.split
      intro!: well_formed_append well_formed_head well_formed_concat well_formed_labels well_formed_counter well_formed_line)

lemma well_formed_histograms:
  assumes "\<And>x. LF \<notin> set (fmt_g x)"
  shows "well_formed (session_domains_text m)" "well_formed (duration_text fmt_g m)"
  using assms unfolding session_domains_text_def duration_text_def Let_def
  by (auto simp: one_line intro!: well_formed_append well_formed_head well_formed_concat well_formed_line)

lemma well_formed_stand_down: "well_formed (stand_down_text m w)"
  by (auto simp: stand_down_text_def writeGauge_def one_line split: option.split
      intro!: well_formed_append well_formed_head well_formed_concat well_formed_labels well_formed_line)

lemma well_formed_pacer:
  assumes "\<And>x. LF \<notin> set (fmt_g x)"
  shows "well_formed (pacer_text fmt_g rows)"
  using assms by (auto simp: pacer_text_def writeGauge_def one_line Let_def
      intro!: well_formed_append well_formed_head well_formed_concat well_formed_labels)

text \<open>
  C39. A host name cannot forge a line of the scrape: whatever names, zones and classes were recorded, the text is a
  sequence of whole lines, each a comment or a series of this service.
\<close>

theorem labels_break_no_line:
  assumes "\<And>x. LF \<notin> set (fmt_g x)"
  shows "\<exists>ls. Render fmt_g n w m = concat (map put_line ls) \<and> list_all exposition_line ls"
proof -
  have "well_formed (Render fmt_g n w m)"
    unfolding Render_def using well_formed_parts well_formed_histograms [OF assms] well_formed_stand_down well_formed_pacer [OF assms]
    by (auto simp: writeGauge_def one_line split: option.split intro!: well_formed_append well_formed_head well_formed_counter well_formed_line)
  then show ?thesis by (simp add: well_formed_def)
qed

theorem labels_break_no_line_witness:
  "\<exists>ls. Render (\<lambda>_. ''0'') 1 () (Result (''a'' @ [LF] @ ''go_goroutines 9'') (New None)) = concat (map put_line ls) \<and> list_all exposition_line ls"
  using labels_break_no_line [of "\<lambda>_. ''0''"] by simp

text \<open>
  The number of tracked hosts does not bound the series: a host that was paused once keeps its series when the pacer
  has long forgotten it.
\<close>

theorem pauses_are_never_dropped:
  "length (mt_pauses (fold Pause hs (New p))) = card (set hs)"
proof -
  have "distinct (map fst (mt_pauses (fold Pause hs (New p)))) \<and> set (map fst (mt_pauses (fold Pause hs (New p)))) = set hs"
  proof (induction hs rule: rev_induct)
    case (snoc h hs)
    define ps where "ps = mt_pauses (fold Pause hs (New p))"
    have "mt_pauses (fold Pause (hs @ [h]) (New p)) = bump h ps" by (simp add: ps_def Pause_def [of h])
    moreover have "set (map fst (bump h ps)) = insert h (set (map fst ps))" by (auto simp: bump_keys)
    ultimately show ?case using snoc bump_distinct [of ps h] by (simp add: ps_def del: set_map)
  qed (simp add: New_def)
  then show ?thesis by (metis distinct_card length_map)
qed

end
