(* ===== verification/Session.thy ===== *)
theory Session
  imports Reply Retry Resolver Band
begin

text \<open>
  One SMTP session of the prober: \<open>session\<close> of \<open>internal/prober/prober.go\<close> and what it calls.

  Everything outside the prober (the resolver, the pacer, the dialer, the connection, TLS, the
  profiles, randomness) is a record of operations on an environment of an arbitrary type, called
  exactly where the source calls it. The state of a session carries, beside the environment, the
  unread bytes of the connection, the families that fell back to one domain per session, and a log of
  every action in order: dials, commands written, replies read, tokens, leases, answers observed. The log is what
  the theorems speak about; nothing in the model reads it.

  The loops are structural recursions over the addresses and groups of the session, so the session
  always ends. The one plaintext rerun after a failed STARTTLS is a parameter of the body that is
  instantiated with the body itself, so a second rerun cannot happen.
\<close>

section \<open>Requests and results\<close>

record domain_group =
  dg_domain :: string
  dg_emails :: "string list"
  dg_need :: bool

record request =
  MXHost :: string
  Domain :: string
  Emails :: "string list"
  NeedCatchAll :: bool
  ReqHelo :: string
  ReqMailFrom :: string
  skipTLS :: bool
  ReqPolicyStop :: int
  Domains :: "domain_group list"

record group =
  g_domain :: string
  g_addrs :: "string list"
  g_askCatchAll :: bool

text \<open>The tri-state fields are options; \<open>[]\<close> is an absent TLS outcome.\<close>

record result =
  Connected :: "bool option"
  Accepted :: "bool option"
  CatchAll :: "bool option"
  Randomiser :: "bool option"
  SMTPCode :: int
  ECode :: string
  RClass :: reply_class
  RReply :: string
  RErr :: string
  RetryAfterSeconds :: int
  TLS :: string

type_synonym results = "string \<rightharpoonup> result"

record verdict =
  v_catchAll :: "bool option"
  v_randomiser :: "bool option"

type_synonym outcome = "results \<times> (string \<rightharpoonup> verdict) \<times> string list"

section \<open>Options\<close>

text \<open>The options the session reads. \<open>o_paced\<close> and \<open>o_leased\<close> say whether a pacer is set and
  whether it hands out session leases; \<open>o_multiDomain\<close> is \<open>None\<close> for a nil function.\<close>

record prober_options =
  o_helo :: string
  o_mailFrom :: string
  o_sourceIP :: string
  o_maxRCPT :: int
  o_paced :: bool
  o_leased :: bool
  o_multiDomain :: "(string \<Rightarrow> string \<times> bool) option"
  o_replyMaxChars :: int
  o_deferralRetry :: duration
  o_policyStopMax :: int
  o_policyStop :: int
  o_catchAllProbes :: int
  o_auditRate :: rat
  o_startTLS :: string

definition helo :: "prober_options \<Rightarrow> string" where
  "helo o1 = (if o_helo o1 \<noteq> [] then o_helo o1 else ''localhost'')"

definition mailFrom :: "prober_options \<Rightarrow> string" where
  "mailFrom o1 = (if o_mailFrom o1 \<noteq> [] then o_mailFrom o1 else ''verify@localhost'')"

definition deferralRetry :: "prober_options \<Rightarrow> duration" where
  "deferralRetry o1 = (if o_deferralRetry o1 > 0 then o_deferralRetry o1 else 15 * minute)"

definition policyStopFor :: "prober_options \<Rightarrow> request \<Rightarrow> int" where
  "policyStopFor o1 req =
     (let want = ReqPolicyStop req
      in if want \<le> 0 then o_policyStop o1
         else let want = (if want = 1 then 2 else want);
                  ceiling = (if o_policyStopMax o1 \<le> 0 then o_policyStop o1 else o_policyStopMax o1)
              in if want > ceiling then ceiling else want)"

definition catchAllProbes :: "prober_options \<Rightarrow> nat" where
  "catchAllProbes o1 = (if o_catchAllProbes o1 > 0 then nat (o_catchAllProbes o1) else 2)"

definition maxRCPT :: "prober_options \<Rightarrow> nat" where
  "maxRCPT o1 = (if o_maxRCPT o1 > 0 then nat (o_maxRCPT o1) else 50)"

definition startTLS :: "prober_options \<Rightarrow> bool" where
  "startTLS o1 \<longleftrightarrow> o_startTLS o1 \<noteq> ''off''"

definition auditProbes :: nat where "auditProbes = 3"

definition own_identity :: "prober_options \<Rightarrow> identity" where
  "own_identity o1 = \<lparr>SourceIP = o_sourceIP o1, Helo = o_helo o1, MailFromDomain = after_first CHR ''@'' (o_mailFrom o1)\<rparr>"

section \<open>The environment\<close>

text \<open>An error of the resolver: a refusal of the guard, or a failed lookup.\<close>

datatype resolve_fail = Refusal string | Unresolved net_error

datatype catch_all_outcome =
    skippedNoAccept | cleanAfter1 | isCatchAll | isRandomiser | auditFull | unanswered

datatype fallback_reason = FallbackRelay | FallbackDomainLimit | FallbackMailFrom

datatype event =
    Dialled addr
  | Said string
  | Heard int string
  | Encrypted
  | Closed
  | Token
  | Leased
  | Released
  | Observed bool
  | RefusedUs string
  | PolicySeen
  | Fell string fallback_reason string
  | CatchAllCount catch_all_outcome
  | TLSSession string
  | SessionDomains nat
  | SuppressionUnread string
  | Counted reply_class int "string option"
  | Explained string reply_class int string string string string

record 'w ops =
  burned_op :: "'w \<Rightarrow> string option \<times> 'w"
  resolve_op :: "string \<Rightarrow> 'w \<Rightarrow> (resolve_fail + addr list) \<times> 'w"
  lease_op :: "string \<Rightarrow> string \<Rightarrow> 'w \<Rightarrow> pacer_error option \<times> 'w"
  release_op :: "'w \<Rightarrow> 'w"
  acquire_op :: "string \<Rightarrow> string \<Rightarrow> 'w \<Rightarrow> pacer_error option \<times> 'w"
  observe_op :: "string \<Rightarrow> bool \<Rightarrow> 'w \<Rightarrow> 'w"
  refusal_op :: "string \<Rightarrow> string \<Rightarrow> 'w \<Rightarrow> 'w"
  policy_op :: "string \<Rightarrow> 'w \<Rightarrow> 'w"
  dial_op :: "addr \<Rightarrow> 'w \<Rightarrow> net_error option \<times> 'w"
  write_op :: "string \<Rightarrow> 'w \<Rightarrow> net_error option \<times> 'w"
  read_op :: "'w \<Rightarrow> (net_error \<times> string) \<times> 'w"
  upgrade_op :: "string \<Rightarrow> 'w \<Rightarrow> (net_error + bool) \<times> 'w"
  tlsBroken_op :: "string \<Rightarrow> 'w \<Rightarrow> bool \<times> 'w"
  markTLSBroken_op :: "string \<Rightarrow> 'w \<Rightarrow> 'w"
  draw_op :: "'w \<Rightarrow> rat \<times> 'w"
  random_op :: "'w \<Rightarrow> (string + nat list) \<times> 'w"

record 'w pst =
  env :: 'w
  unread :: string
  fallen :: "string list"
  log :: "event list"

definition emit :: "event \<Rightarrow> 'w pst \<Rightarrow> 'w pst" where
  "emit e st = st\<lparr>log := log st @ [e]\<rparr>"

definition call :: "('w \<Rightarrow> 'a \<times> 'w) \<Rightarrow> 'w pst \<Rightarrow> 'a \<times> 'w pst" where
  "call f st = (case f (env st) of (r, w) \<Rightarrow> (r, st\<lparr>env := w\<rparr>))"

definition tell :: "('w \<Rightarrow> 'w) \<Rightarrow> 'w pst \<Rightarrow> 'w pst" where
  "tell f st = st\<lparr>env := f (env st)\<rparr>"

section \<open>The connection\<close>

text \<open>\<open>step\<close>: a command and its reply. The reader keeps what it has read past a reply; \<open>read_op\<close> gives
  the bytes that arrive until the reply is complete or the connection ends, and the error it ends
  with.\<close>

definition step :: "'w ops \<Rightarrow> string \<Rightarrow> 'w pst \<Rightarrow> (net_error + int \<times> string) \<times> 'w pst" where
  "step op cmd st =
     (case (if cmd = [] then (None, st) else call (write_op op (cmd @ [CHR 0x0D, LF])) (emit (Said cmd) st)) of
        (Some e, st) \<Rightarrow> (Inl e, st)
      | (None, st) \<Rightarrow>
          (case call (read_op op) st of
             ((eof, bytes), st) \<Rightarrow>
               (case readReply eof [] (unread st @ bytes) of
                  (Inl e, rest) \<Rightarrow> (Inl e, st\<lparr>unread := rest\<rparr>)
                | (Inr (code, reply), rest) \<Rightarrow> (Inr (code, reply), emit (Heard code reply) (st\<lparr>unread := rest\<rparr>)))))"

text \<open>\<open>teardown\<close>: both writes are best effort.\<close>

definition teardown :: "'w ops \<Rightarrow> 'w pst \<Rightarrow> 'w pst" where
  "teardown op st =
     (let st = snd (call (write_op op (''RSET'' @ [CHR 0x0D, LF])) (emit (Said ''RSET'') st))
      in snd (call (write_op op (''QUIT'' @ [CHR 0x0D, LF])) (emit (Said ''QUIT'') st)))"

text \<open>\<open>dialAny\<close>: the first address that answers, or the last error.\<close>

fun dial_each :: "'w ops \<Rightarrow> net_error \<Rightarrow> addr list \<Rightarrow> 'w pst \<Rightarrow> net_error option \<times> 'w pst" where
  "dial_each op lastErr [] st = (Some lastErr, st)"
| "dial_each op lastErr (a # as) st =
     (case call (dial_op op a) (emit (Dialled a) st) of
        (None, st) \<Rightarrow> (None, st\<lparr>unread := []\<rparr>)
      | (Some e, st) \<Rightarrow> dial_each op e as st)"

definition dialAny :: "'w ops \<Rightarrow> addr list \<Rightarrow> 'w pst \<Rightarrow> net_error option \<times> 'w pst" where
  "dialAny op as st = dial_each op (NetErr False ''prober: no address to dial'') as st"

section \<open>Budget and signals\<close>

definition leaseSession :: "'w ops \<Rightarrow> prober_options \<Rightarrow> request \<Rightarrow> 'w pst \<Rightarrow> pacer_error option \<times> 'w pst" where
  "leaseSession op o1 req st =
     (if \<not> o_leased o1 then (None, emit Leased st)
      else case call (lease_op op (MXHost req) (Domain req)) st of
             (None, st) \<Rightarrow> (None, emit Leased st)
           | (Some e, st) \<Rightarrow> (Some e, st))"

definition release :: "'w ops \<Rightarrow> prober_options \<Rightarrow> 'w pst \<Rightarrow> 'w pst" where
  "release op o1 st = emit Released (if o_leased o1 then tell (release_op op) st else st)"

text \<open>\<open>acquire\<close>; without a pacer every question is granted, and the log has it as a token, as it has a lease without leases.\<close>

definition acquire :: "'w ops \<Rightarrow> prober_options \<Rightarrow> request \<Rightarrow> 'w pst \<Rightarrow> pacer_error option \<times> 'w pst" where
  "acquire op o1 req st =
     (if \<not> o_paced o1 then (None, emit Token st)
      else case call (acquire_op op (MXHost req) (Domain req)) st of
             (None, st) \<Rightarrow> (None, emit Token st)
           | (Some e, st) \<Rightarrow> (Some e, st))"

definition observe :: "'w ops \<Rightarrow> prober_options \<Rightarrow> string \<Rightarrow> reply_class \<Rightarrow> 'w pst \<Rightarrow> 'w pst" where
  "observe op o1 mxHost c st =
     (if \<not> o_paced o1 then st
      else emit (Observed (IsThrottle c)) (tell (observe_op op mxHost (IsThrottle c)) st))"

definition refused :: "'w ops \<Rightarrow> string \<Rightarrow> reply_class \<Rightarrow> string \<Rightarrow> 'w pst \<Rightarrow> 'w pst" where
  "refused op mxHost c reply st =
     (if c \<noteq> ClassPolicy then st else emit (RefusedUs reply) (tell (refusal_op op mxHost reply) st))"

definition budgetClass :: "pacer_error \<Rightarrow> reply_class" where
  "budgetClass e = (case e of PausedErr _ _ \<Rightarrow> ClassPaused | BudgetErr _ \<Rightarrow> ClassNoBudget)"

definition beforeRCPT :: "prober_options \<Rightarrow> int \<Rightarrow> string \<Rightarrow> reply_class" where
  "beforeRCPT o1 code reply =
     (let c = ClassifyAs code reply (own_identity o1)
      in if c \<noteq> ClassValid \<and> c \<noteq> ClassInvalid then c
         else if code \<ge> 500 \<and> code \<le> 599 then ClassPolicy
         else ClassUnknown)"

section \<open>Results\<close>

text \<open>A result with no answer: what the composite literals of the source leave out is zero.\<close>

definition no_answer :: "reply_class \<Rightarrow> string \<Rightarrow> result" where
  "no_answer c e = \<lparr>Connected = Some False, Accepted = None, CatchAll = None, Randomiser = None, SMTPCode = 0,
     ECode = [], RClass = c, RReply = [], RErr = e, RetryAfterSeconds = 0, TLS = []\<rparr>"

definition refused_result :: "prober_options \<Rightarrow> reply_class \<Rightarrow> int \<Rightarrow> string \<Rightarrow> string \<Rightarrow> result" where
  "refused_result o1 c code reply e =
     (no_answer c e)\<lparr>SMTPCode := code, ECode := EnhancedCode reply, RReply := reply,
        RetryAfterSeconds := retryHint c reply (deferralRetry o1)\<rparr>"

text \<open>The same result for every address of a list, and \<open>fail\<close>.\<close>

definition give_all :: "string list \<Rightarrow> result \<Rightarrow> results \<Rightarrow> results" where
  "give_all as r m = fold (\<lambda>a m. m(a \<mapsto> r)) as m"

definition fail_all :: "string list \<Rightarrow> result \<Rightarrow> outcome" where
  "fail_all as r = (give_all as r Map.empty, Map.empty, [])"

definition applyRetryAfter :: "results \<Rightarrow> int \<Rightarrow> results" where
  "applyRetryAfter m seconds =
     (if seconds \<le> 0 then m else (\<lambda>a. map_option (\<lambda>r. r\<lparr>RetryAfterSeconds := seconds\<rparr>) (m a)))"

definition budget_fail :: "prober_options \<Rightarrow> string list \<Rightarrow> pacer_error \<Rightarrow> outcome" where
  "budget_fail o1 as e =
     (case fail_all as (refused_result o1 (budgetClass e) 0 [] (pacer_text e)) of
        (m, vs, rest) \<Rightarrow> (applyRetryAfter m (retryAfterFor e [] (deferralRetry o1)), vs, rest))"

definition net_fail :: "prober_options \<Rightarrow> string list \<Rightarrow> net_error \<Rightarrow> outcome" where
  "net_fail o1 as e = fail_all as (refused_result o1 (classifyNetErr e) 0 [] (err_text e))"

text \<open>\<open>rcptResult\<close>.\<close>

definition rcptResult :: "int \<Rightarrow> string \<Rightarrow> duration \<Rightarrow> identity \<Rightarrow> result" where
  "rcptResult code reply retry i =
     (let c = ClassifyAs code reply i
      in \<lparr>Connected = Some True,
          Accepted = (if c = ClassValid then Some True else if c = ClassInvalid then Some False else None),
          CatchAll = None, Randomiser = None, SMTPCode = code, ECode = EnhancedCode reply, RClass = c,
          RReply = reply, RErr = [], RetryAfterSeconds = retryHint c reply retry, TLS = []\<rparr>)"

section \<open>Grouping\<close>

definition relayRe :: rx where
  "relayRe = RAlts
     [RCats [RLitI ''relay'', ROpt (RLitI ''ing''), RLitI '' '', ROpt (RLitI ''access ''),
        RAlts [RLitI ''denied'', RLitI ''not permitted'', RLitI ''not allowed'', RLitI ''prohibited'']],
      RLitI ''unable to relay'', RLitI ''not permitted to relay'', RLitI ''we do not relay'', RLitI ''5.7.64'']"

definition relayRefusal :: "int \<Rightarrow> string \<Rightarrow> bool" where
  "relayRefusal code reply \<longleftrightarrow> code \<ge> 400 \<and> match_string relayRe reply"

definition domainLimitRe :: rx where
  "domainLimitRe = RAlts
     [RLitI ''multiple destination domains'',
      RCats [RLitI ''too many '', ROpt (RAlts [RLitI ''destination '', RLitI ''recipient '']), RLitI ''domains'']]"

definition domainLimitRefusal :: "int \<Rightarrow> string \<Rightarrow> bool" where
  "domainLimitRefusal code reply \<longleftrightarrow>
     code \<ge> 400 \<and> (match_string domainLimitRe reply \<or> code < 500 \<and> EnhancedCode reply = ''4.3.0'')"

definition grouping :: "prober_options \<Rightarrow> string list \<Rightarrow> string \<Rightarrow> string \<times> bool" where
  "grouping o1 fell mxHost =
     (case o_multiDomain o1 of
        None \<Rightarrow> ([], False)
      | Some f \<Rightarrow>
          (case f mxHost of (fam, ok) \<Rightarrow> if \<not> ok then (fam, False) else if fam \<in> set fell then (fam, False) else (fam, True)))"

definition fallBack :: "prober_options \<Rightarrow> string \<Rightarrow> fallback_reason \<Rightarrow> string \<Rightarrow> 'w pst \<Rightarrow> 'w pst" where
  "fallBack o1 mxHost reason reply st =
     (let fam = fst (grouping o1 (fallen st) mxHost)
      in if fam = [] \<or> fam \<in> set (fallen st) then st
         else emit (Fell fam reason (redactReply reply
                (if o_replyMaxChars o1 = 0 then DefaultReplyMaxChars else o_replyMaxChars o1)))
                (st\<lparr>fallen := fam # fallen st\<rparr>))"

section \<open>Opening the session\<close>

text \<open>A command before the first RCPT and the code it must be answered with: any other answer is about
  us, is observed and passed on, and fails the session.\<close>

definition expect ::
  "'w ops \<Rightarrow> prober_options \<Rightarrow> request \<Rightarrow> string list \<Rightarrow> string \<Rightarrow> int \<Rightarrow> 'w pst \<Rightarrow> (outcome + string) \<times> 'w pst" where
  "expect op o1 req as cmd want st =
     (case step op cmd st of
        (Inl e, st) \<Rightarrow> (Inl (net_fail o1 as e), st)
      | (Inr (code, reply), st) \<Rightarrow>
          if code = want then (Inr reply, st)
          else let c = beforeRCPT o1 code reply;
                   st = refused op (MXHost req) c reply (observe op o1 (MXHost req) c st)
               in (Inl (fail_all as (refused_result o1 c code reply [])), st))"

definition ehlo :: "prober_options \<Rightarrow> request \<Rightarrow> string" where
  "ehlo o1 req = ''EHLO '' @ (if ReqHelo req = [] then helo o1 else ReqHelo req)"

definition mail_cmd :: "prober_options \<Rightarrow> request \<Rightarrow> string" where
  "mail_cmd o1 req = ''MAIL FROM:<'' @ (if ReqMailFrom req = [] then mailFrom o1 else ReqMailFrom req) @ ''>''"

definition rcpt_cmd :: "string \<Rightarrow> string" where
  "rcpt_cmd a = ''RCPT TO:<'' @ a @ ''>''"

text \<open>Banner and EHLO.\<close>

definition greet :: "'w ops \<Rightarrow> prober_options \<Rightarrow> request \<Rightarrow> string list \<Rightarrow> 'w pst \<Rightarrow> (outcome + string) \<times> 'w pst" where
  "greet op o1 req as st =
     (case expect op o1 req as [] 220 st of
        (Inl r, st) \<Rightarrow> (Inl r, st)
      | (Inr _, st) \<Rightarrow> expect op o1 req as (ehlo o1 req) 250 st)"

definition advertisesSTARTTLS :: "string \<Rightarrow> bool" where
  "advertisesSTARTTLS reply =
     list_ex (\<lambda>line. length line \<ge> 5 \<and>
        (case fields_of (drop 4 line) of [] \<Rightarrow> False | f # _ \<Rightarrow> to_lower f = ''starttls''))
       (tl (split_on LF reply))"

text \<open>The STARTTLS switch: carry on with this outcome, fail with this outcome, or run again in
  plaintext after this error.\<close>

datatype tls_step = Carry string | TLSFail string outcome | Rerun net_error

definition secure ::
  "'w ops \<Rightarrow> prober_options \<Rightarrow> request \<Rightarrow> string list \<Rightarrow> string \<Rightarrow> 'w pst \<Rightarrow> tls_step \<times> 'w pst" where
  "secure op o1 req as reply st =
     (if skipTLS req then (Carry ''fallback'', st)
      else if \<not> startTLS o1 \<or> \<not> advertisesSTARTTLS reply then (Carry ''none'', st)
      else case call (tlsBroken_op op (MXHost req)) st of
             (True, st) \<Rightarrow> (Carry ''skipped'', st)
           | (False, st) \<Rightarrow>
               (case step op ''STARTTLS'' st of
                  (Inl e, st) \<Rightarrow> (Rerun e, st)
                | (Inr (code, _), st) \<Rightarrow>
                    if code \<noteq> 220 then (Carry ''fallback'', st)
                    else case call (upgrade_op op (MXHost req)) st of
                           (Inl e, st) \<Rightarrow> (Rerun e, st)
                         | (Inr verified, st) \<Rightarrow>
                             (let st = emit Encrypted (st\<lparr>unread := []\<rparr>);
                                  out = (if verified then ''verified'' else ''unverified'')
                              in case expect op o1 req as (ehlo o1 req) 250 st of
                                   (Inl r, st) \<Rightarrow> (TLSFail out r, st)
                                 | (Inr _, st) \<Rightarrow> (Carry out, st))))"

text \<open>What a failed plaintext rerun becomes.\<close>

definition tls_failed_result :: "prober_options \<Rightarrow> net_error \<Rightarrow> result \<Rightarrow> result" where
  "tls_failed_result o1 e r =
     r\<lparr>RClass := ClassTLSFailed, RErr := ''tls handshake: '' @ err_text e @ ''; plaintext retry: '' @ RErr r,
       TLS := ''failed'', RetryAfterSeconds := retryHint ClassTLSFailed [] (deferralRetry o1)\<rparr>"

definition rerun_failed :: "result \<Rightarrow> bool" where
  "rerun_failed r \<longleftrightarrow> Connected r \<noteq> Some True \<and> RClass r \<in> {ClassConnError, ClassTimeout}"

definition relabel :: "prober_options \<Rightarrow> net_error \<Rightarrow> results \<Rightarrow> results" where
  "relabel o1 e m = (\<lambda>a. map_option (\<lambda>r. if rerun_failed r then tls_failed_result o1 e r else r) (m a))"

section \<open>The catch-all question\<close>

definition decideCatchAll :: "nat \<Rightarrow> nat \<Rightarrow> verdict" where
  "decideCatchAll accepted answered =
     (if answered = 0 then \<lparr>v_catchAll = None, v_randomiser = None\<rparr>
      else if accepted = answered then \<lparr>v_catchAll = Some True, v_randomiser = Some False\<rparr>
      else if accepted = 0 then \<lparr>v_catchAll = Some False, v_randomiser = Some False\<rparr>
      else \<lparr>v_catchAll = Some True, v_randomiser = Some True\<rparr>)"

definition bogusAddress :: "'w ops \<Rightarrow> string \<Rightarrow> 'w pst \<Rightarrow> string option \<times> 'w pst" where
  "bogusAddress op domain st =
     (if domain = [] then (None, st)
      else case call (random_op op) st of
             (Inl _, st) \<Rightarrow> (None, st)
           | (Inr bs, st) \<Rightarrow> (Some (concat (map hex_byte bs) @ ''@'' @ trim_suffix domain ''.''), st))"

text \<open>The loop: \<open>n\<close> more questions may be asked.\<close>

fun catch_loop ::
  "'w ops \<Rightarrow> prober_options \<Rightarrow> request \<Rightarrow> string \<Rightarrow> bool \<Rightarrow> nat \<Rightarrow> nat \<Rightarrow> nat \<Rightarrow> 'w pst \<Rightarrow> (nat \<times> nat) \<times> 'w pst" where
  "catch_loop op o1 req domain audit 0 accepted answered st = ((accepted, answered), st)"
| "catch_loop op o1 req domain audit (Suc n) accepted answered st =
     (case bogusAddress op domain st of
        (None, st) \<Rightarrow> ((accepted, answered), st)
      | (Some bogus, st) \<Rightarrow>
          (case acquire op o1 req st of
             (Some _, st) \<Rightarrow> ((accepted, answered), st)
           | (None, st) \<Rightarrow>
               (case step op (rcpt_cmd bogus) st of
                  (Inl _, st) \<Rightarrow> ((accepted, answered), st)
                | (Inr (code, reply), st) \<Rightarrow>
                    if ClassifyAs code reply (own_identity o1) = ClassValid
                    then catch_loop op o1 req domain audit n (Suc accepted) (Suc answered) st
                    else if audit then catch_loop op o1 req domain audit n accepted (Suc answered) st
                    else ((accepted, Suc answered), st))))"

definition auditDrawn :: "'w ops \<Rightarrow> prober_options \<Rightarrow> 'w pst \<Rightarrow> bool \<times> 'w pst" where
  "auditDrawn op o1 st =
     (if o_auditRate o1 \<le> 0 then (False, st)
      else case call (draw_op op) st of (x, st) \<Rightarrow> (x < o_auditRate o1, st))"

definition catch_all_count :: "bool \<Rightarrow> nat \<Rightarrow> verdict \<Rightarrow> catch_all_outcome" where
  "catch_all_count audit answered v =
     (if answered = 0 then unanswered
      else if audit then auditFull
      else if v_randomiser v = Some True then isRandomiser
      else if v_catchAll v = Some True then isCatchAll
      else cleanAfter1)"

definition askCatchAll ::
  "'w ops \<Rightarrow> prober_options \<Rightarrow> request \<Rightarrow> string \<Rightarrow> string list \<Rightarrow> results \<Rightarrow> 'w pst \<Rightarrow> verdict \<times> 'w pst" where
  "askCatchAll op o1 req domain as out st =
     (if \<not> list_ex (\<lambda>a. case out a of Some r \<Rightarrow> RClass r = ClassValid | None \<Rightarrow> False) as
      then (\<lparr>v_catchAll = None, v_randomiser = None\<rparr>, emit (CatchAllCount skippedNoAccept) st)
      else let (audit, st) = auditDrawn op o1 st;
               limit = (if audit then max (catchAllProbes o1) auditProbes else catchAllProbes o1);
               ((accepted, answered), st) = catch_loop op o1 req domain audit limit 0 0 st;
               v = decideCatchAll accepted answered
           in (v, emit (CatchAllCount (catch_all_count audit answered v)) st))"

section \<open>The transactions\<close>

record loop =
  l_out :: results
  l_verdicts :: "string \<rightharpoonup> verdict"
  l_policyRun :: nat
  l_asked :: nat

text \<open>\<open>unattempted\<close> and \<open>regroupFrom\<close>.\<close>

definition unattempted :: "string list \<Rightarrow> result \<Rightarrow> loop \<Rightarrow> outcome" where
  "unattempted rest r l = (give_all rest r (l_out l), l_verdicts l, [])"

definition regroupFrom ::
  "'w ops \<Rightarrow> prober_options \<Rightarrow> request \<Rightarrow> string list \<Rightarrow> fallback_reason \<Rightarrow> string \<Rightarrow> loop \<Rightarrow> 'w pst \<Rightarrow> outcome \<times> 'w pst" where
  "regroupFrom op o1 req rest reason reply l st =
     ((l_out l, l_verdicts l, rest), teardown op (fallBack o1 (MXHost req) reason reply st))"

text \<open>One answered RCPT: its result, whether it is a relay refusal, and the signals it gives.\<close>

definition rcpt_answer ::
  "'w ops \<Rightarrow> prober_options \<Rightarrow> request \<Rightarrow> bool \<Rightarrow> int \<Rightarrow> string \<Rightarrow> 'w pst \<Rightarrow> result \<times> 'w pst" where
  "rcpt_answer op o1 req relay code reply st =
     (let r0 = rcptResult code reply (deferralRetry o1) (own_identity o1);
          r = (if relay then r0\<lparr>RClass := ClassPolicy, Accepted := None, RetryAfterSeconds := 0\<rparr> else r0);
          st = observe op o1 (MXHost req) (RClass r) st;
          st = (if RClass r = ClassPolicy \<and> \<not> relay
                then emit PolicySeen (tell (policy_op op (MXHost req)) (refused op (MXHost req) (RClass r) reply st))
                else st)
      in (r, st))"

text \<open>The RCPTs of one group. \<open>later\<close> are the addresses of the groups still to come and \<open>foreign\<close> says
  whether this is not the first group of a grouped session.\<close>

fun ask_addrs ::
  "'w ops \<Rightarrow> prober_options \<Rightarrow> request \<Rightarrow> bool \<Rightarrow> string list \<Rightarrow> string list \<Rightarrow> loop \<Rightarrow> 'w pst \<Rightarrow> (outcome + loop) \<times> 'w pst" where
  "ask_addrs op o1 req foreign later [] l st = (Inr l, st)"
| "ask_addrs op o1 req foreign later (a # as) l st =
     (case (if l_asked l > 0 then acquire op o1 req st else (None, st)) of
        (Some e, st) \<Rightarrow> (Inl (unattempted (a # as @ later) (no_answer (budgetClass e) (pacer_text e)) l), st)
      | (None, st) \<Rightarrow>
          (case step op (rcpt_cmd a) st of
             (Inl e, st) \<Rightarrow> (Inl (unattempted (a # as @ later) (no_answer (classifyNetErr e) (err_text e)) l), st)
           | (Inr (code, reply), st) \<Rightarrow>
               if foreign \<and> \<not> relayRefusal code reply \<and> domainLimitRefusal code reply
               then (case regroupFrom op o1 req (a # as @ later) FallbackDomainLimit reply l st of (r, st) \<Rightarrow> (Inl r, st))
               else
                 (let relay = (foreign \<and> relayRefusal code reply);
                      (r, st) = rcpt_answer op o1 req relay code reply st;
                      run = (if RClass r = ClassPolicy then Suc (l_policyRun l) else 0);
                      l' = l\<lparr>l_out := (l_out l)(a \<mapsto> r), l_policyRun := run, l_asked := Suc (l_asked l)\<rparr>;
                      stop = policyStopFor o1 req
                  in if relay
                     then (case regroupFrom op o1 req (as @ later) FallbackRelay reply l' st of (r, st) \<Rightarrow> (Inl r, st))
                     else if stop > 0 \<and> int run \<ge> stop
                     then (Inl (unattempted (as @ later)
                             (no_answer ClassPolicy (''not attempted: '' @ itoa (int run) @
                                '' consecutive policy replies from this server'')) l'), teardown op st)
                     else ask_addrs op o1 req foreign later as l' st)))"

text \<open>The transaction of a further domain: RSET, then MAIL FROM.\<close>

fun next_transaction ::
  "'w ops \<Rightarrow> prober_options \<Rightarrow> request \<Rightarrow> string list \<Rightarrow> string list \<Rightarrow> loop \<Rightarrow> 'w pst \<Rightarrow> outcome option \<times> 'w pst" where
  "next_transaction op o1 req rest [] l st = (None, st)"
| "next_transaction op o1 req rest (cmd # cmds) l st =
     (case step op cmd st of
        (Inl e, st) \<Rightarrow> (Some (unattempted rest (no_answer (classifyNetErr e) (err_text e)) l), st)
      | (Inr (code, reply), st) \<Rightarrow>
          if code = 250 then next_transaction op o1 req rest cmds l st
          else let c = beforeRCPT o1 code reply
               in if code = 421 \<or> IsThrottle c
                  then (Some (unattempted rest (refused_result o1 c code reply []) l), observe op o1 (MXHost req) c st)
                  else (case regroupFrom op o1 req rest FallbackMailFrom reply l st of (r, st) \<Rightarrow> (Some r, st)))"

fun ask_groups ::
  "'w ops \<Rightarrow> prober_options \<Rightarrow> request \<Rightarrow> bool \<Rightarrow> bool \<Rightarrow> group list \<Rightarrow> loop \<Rightarrow> 'w pst \<Rightarrow> outcome \<times> 'w pst" where
  "ask_groups op o1 req grouped further [] l st = ((l_out l, l_verdicts l, []), teardown op st)"
| "ask_groups op o1 req grouped further (g # gs) l st =
     (let later = concat (map g_addrs gs)
      in case (if further then next_transaction op o1 req (g_addrs g @ later) [''RSET'', mail_cmd o1 req] l st
               else (None, st)) of
           (Some r, st) \<Rightarrow> (r, st)
         | (None, st) \<Rightarrow>
             (case ask_addrs op o1 req (grouped \<and> further) later (g_addrs g) l st of
                (Inl r, st) \<Rightarrow> (r, st)
              | (Inr l, st) \<Rightarrow>
                  if g_askCatchAll g
                  then (case askCatchAll op o1 req (g_domain g) (g_addrs g) (l_out l) st of
                          (v, st) \<Rightarrow>
                            ask_groups op o1 req grouped True gs (l\<lparr>l_verdicts := (l_verdicts l)(g_domain g \<mapsto> v)\<rparr>) st)
                  else ask_groups op o1 req grouped True gs l st))"

text \<open>MAIL FROM and everything after it.\<close>

definition transact ::
  "'w ops \<Rightarrow> prober_options \<Rightarrow> request \<Rightarrow> group list \<Rightarrow> bool \<Rightarrow> 'w pst \<Rightarrow> outcome \<times> 'w pst" where
  "transact op o1 req groups grouped st =
     (case expect op o1 req (concat (map g_addrs groups)) (mail_cmd o1 req) 250 st of
        (Inl r, st) \<Rightarrow> (r, st)
      | (Inr _, st) \<Rightarrow>
          ask_groups op o1 req grouped False groups
            \<lparr>l_out = Map.empty, l_verdicts = Map.empty, l_policyRun = 0, l_asked = 0\<rparr> st)"

section \<open>The session\<close>

text \<open>The deferred function: an outcome is stamped on every result and counted.\<close>

definition stamp :: "string \<Rightarrow> nat \<Rightarrow> outcome \<times> 'w pst \<Rightarrow> outcome \<times> 'w pst" where
  "stamp tls n x =
     (case x of ((out, vs, rest), st) \<Rightarrow>
        if tls = [] then x
        else (((\<lambda>a. map_option (\<lambda>r. r\<lparr>TLS := tls\<rparr>) (out a)), vs, rest), emit (SessionDomains n) (emit (TLSSession tls) st)))"

text \<open>The end of a session that holds a connection and a lease.\<close>

definition leave :: "'w ops \<Rightarrow> prober_options \<Rightarrow> outcome \<times> 'w pst \<Rightarrow> outcome \<times> 'w pst" where
  "leave op o1 x = (case x of (r, st) \<Rightarrow> (r, release op o1 (emit Closed st)))"

text \<open>What follows a connection: greeting, STARTTLS, and the transactions or the rerun.\<close>

definition converse ::
  "'w ops \<Rightarrow> prober_options \<Rightarrow> (request \<Rightarrow> 'w pst \<Rightarrow> outcome \<times> 'w pst) \<Rightarrow> request \<Rightarrow> group list \<Rightarrow> bool \<Rightarrow> 'w pst \<Rightarrow>
   outcome \<times> 'w pst" where
  "converse op o1 again req groups grouped st =
     (let as = concat (map g_addrs groups); n = length groups
      in case greet op o1 req as st of
           (Inl r, st) \<Rightarrow> leave op o1 (r, st)
         | (Inr reply, st) \<Rightarrow>
             (case secure op o1 req as reply st of
                (Carry tls, st) \<Rightarrow> stamp tls n (leave op o1 (transact op o1 req groups grouped st))
              | (TLSFail tls r, st) \<Rightarrow> stamp tls n (leave op o1 (r, st))
              | (Rerun e, st) \<Rightarrow>
                  (let st = release op o1 (emit Closed (tell (markTLSBroken_op op (MXHost req)) st));
                       ((out, vs, rest), st) = again (req\<lparr>skipTLS := True\<rparr>) st;
                       failed = (\<exists>a \<in> set as. case out a of Some r \<Rightarrow> rerun_failed r | None \<Rightarrow> False);
                       st = (if failed then emit (TLSSession ''failed'') st else st)
                   in ((relabel o1 e out, vs, rest), st))))"

definition session_with ::
  "'w ops \<Rightarrow> prober_options \<Rightarrow> (request \<Rightarrow> 'w pst \<Rightarrow> outcome \<times> 'w pst) \<Rightarrow> request \<Rightarrow> group list \<Rightarrow> bool \<Rightarrow> 'w pst \<Rightarrow>
   outcome \<times> 'w pst" where
  "session_with op o1 again req groups grouped st =
     (let as = concat (map g_addrs groups)
      in case call (burned_op op) st of
           (Some why, st) \<Rightarrow> (fail_all as (refused_result o1 ClassIPBurned 0 [] (''sending IP stood down: '' @ why)), st)
         | (None, st) \<Rightarrow>
             (case call (resolve_op op (MXHost req)) st of
                (Inl (Refusal e), st) \<Rightarrow> (fail_all as (refused_result o1 ClassGuarded 0 [] e), st)
              | (Inl (Unresolved e), st) \<Rightarrow> (net_fail o1 as e, st)
              | (Inr ips, st) \<Rightarrow>
                  (case leaseSession op o1 req st of
                     (Some e, st) \<Rightarrow> (budget_fail o1 as e, st)
                   | (None, st) \<Rightarrow>
                       (case acquire op o1 req st of
                          (Some e, st) \<Rightarrow> (budget_fail o1 as e, release op o1 st)
                        | (None, st) \<Rightarrow>
                            (case dialAny op ips st of
                               (Some e, st) \<Rightarrow> (net_fail o1 as e, release op o1 st)
                             | (None, st) \<Rightarrow> converse op o1 again req groups grouped st)))))"

text \<open>The rerun has TLS switched off, so it never asks for another one.\<close>

definition plain_session ::
  "'w ops \<Rightarrow> prober_options \<Rightarrow> group list \<Rightarrow> bool \<Rightarrow> request \<Rightarrow> 'w pst \<Rightarrow> outcome \<times> 'w pst" where
  "plain_session op o1 groups grouped req st =
     session_with op o1 (\<lambda>_ st. ((Map.empty, Map.empty, []), st)) req groups grouped st"

definition session ::
  "'w ops \<Rightarrow> prober_options \<Rightarrow> request \<Rightarrow> group list \<Rightarrow> bool \<Rightarrow> 'w pst \<Rightarrow> outcome \<times> 'w pst" where
  "session op o1 req groups grouped st =
     session_with op o1 (plain_session op o1 groups grouped) req groups grouped st"

end
