(* ===== verification/Conduct.thy ===== *)
theory Conduct
  imports Session
begin

text \<open>
  What a session does on the wire and to the shared limits, as a protocol: \<open>watch\<close> is an automaton over
  the log of a session (no lease; a lease with tokens drawn; connected; closed) that accepts an action
  only where it is allowed. \<open>idle_session\<close> shows that every session, over any environment, is accepted
  and ends without a lease; the theorems read the consequences off the automaton: every RCPT is paid
  by a token of its own, a dial needs a lease, a token and a vetted address, a lease is given back
  exactly once, nothing but the commands of a probe is ever written.
\<close>

section \<open>The conduct of a session\<close>

text \<open>The phase of a node and the tokens drawn for this lease and not yet spent.\<close>

datatype phase = Out | In nat | Up nat | Down nat

definition is_rcpt :: "string \<Rightarrow> bool" where
  "is_rcpt cmd \<longleftrightarrow> has_prefix cmd ''RCPT TO:<''"

fun watch :: "(addr \<Rightarrow> bool) \<Rightarrow> (string \<Rightarrow> bool) \<Rightarrow> phase \<Rightarrow> event \<Rightarrow> phase option" where
  "watch safe say Out Leased = Some (In 0)"
| "watch safe say p Leased = None"
| "watch safe say Out Token = None"
| "watch safe say (In k) Token = Some (In (Suc k))"
| "watch safe say (Up k) Token = Some (Up (Suc k))"
| "watch safe say (Down k) Token = None"
| "watch safe say (In k) (Dialled a) = (if safe a \<and> 0 < k then Some (Up k) else None)"
| "watch safe say (Up k) (Dialled a) = (if safe a \<and> 0 < k then Some (Up k) else None)"
| "watch safe say p (Dialled a) = None"
| "watch safe say (Up k) (Said cmd) =
     (if \<not> say cmd then None
      else if is_rcpt cmd then (if 0 < k then Some (Up (k - 1)) else None) else Some (Up k))"
| "watch safe say p (Said cmd) = None"
| "watch safe say (Up k) Encrypted = Some (Up k)"
| "watch safe say p Encrypted = None"
| "watch safe say (Up k) Closed = Some (Down k)"
| "watch safe say p Closed = None"
| "watch safe say Out Released = None"
| "watch safe say p Released = Some Out"
| "watch safe say p e = Some p"

fun watch_all :: "(addr \<Rightarrow> bool) \<Rightarrow> (string \<Rightarrow> bool) \<Rightarrow> phase \<Rightarrow> event list \<Rightarrow> phase option" where
  "watch_all safe say p [] = Some p"
| "watch_all safe say p (e # es) = Option.bind (watch safe say p e) (\<lambda>p. watch_all safe say p es)"

lemma watch_all_append:
  "watch_all safe say p (es @ fs) = Option.bind (watch_all safe say p es) (\<lambda>p. watch_all safe say p fs)"
  by (induction es arbitrary: p) (auto split: bind_splits)

definition up :: "(addr \<Rightarrow> bool) \<Rightarrow> (string \<Rightarrow> bool) \<Rightarrow> event list \<Rightarrow> nat \<Rightarrow> bool" where
  "up safe say es k \<longleftrightarrow> (\<exists>c \<ge> k. watch_all safe say Out es = Some (Up c))"

lemma log_simps [simp]:
  "log (emit e st) = log st @ [e]" "log (snd (call f st)) = log st" "log (tell g st) = log st"
  by (simp_all add: emit_def call_def tell_def split: prod.split)

lemma up_quiet:
  "e \<in> {Encrypted, PolicySeen} \<or> (\<exists>b. e = Observed b) \<or> (\<exists>t. e = RefusedUs t) \<or> (\<exists>f r t. e = Fell f r t) \<or>
   (\<exists>c. e = CatchAllCount c) \<or> (\<exists>t. e = TLSSession t) \<or> (\<exists>n t. e = Heard n t) \<or> (\<exists>n. e = SessionDomains n) \<Longrightarrow>
   up safe say es k \<Longrightarrow> up safe say (es @ [e]) k"
  by (auto simp: up_def watch_all_append)

lemma up_token: "up safe say es k \<Longrightarrow> up safe say (es @ [Token]) (Suc k)"
  by (auto simp: up_def watch_all_append)

lemma up_said: "up safe say es k \<Longrightarrow> say cmd \<Longrightarrow> \<not> is_rcpt cmd \<Longrightarrow> up safe say (es @ [Said cmd]) k"
  by (auto simp: up_def watch_all_append)

lemma rcpt_is_rcpt [simp]: "is_rcpt (rcpt_cmd a)" "rcpt_cmd a \<noteq> []"
  by (simp_all add: is_rcpt_def rcpt_cmd_def has_prefix_iff)

lemma up_rcpt: "up safe say es (Suc k) \<Longrightarrow> say (rcpt_cmd a) \<Longrightarrow> up safe say (es @ [Said (rcpt_cmd a)]) k"
  by (auto simp: up_def watch_all_append)

lemma up_mono: "up safe say es k \<Longrightarrow> j \<le> k \<Longrightarrow> up safe say es j"
  by (auto simp: up_def)

lemma not_rcpt:
  "\<not> is_rcpt ''STARTTLS''" "\<not> is_rcpt ''RSET''" "\<not> is_rcpt ''QUIT''" "\<not> is_rcpt (ehlo o1 req)" "\<not> is_rcpt (mail_cmd o1 req)"
  by (auto simp: is_rcpt_def ehlo_def mail_cmd_def has_prefix_iff)

text \<open>The commands a session about these groups may write.\<close>

definition speaks :: "(string \<Rightarrow> bool) \<Rightarrow> prober_options \<Rightarrow> request \<Rightarrow> group list \<Rightarrow> bool" where
  "speaks say o1 req gs \<longleftrightarrow> say ''STARTTLS'' \<and> say ''RSET'' \<and> say ''QUIT'' \<and> say (ehlo o1 req) \<and> say (mail_cmd o1 req) \<and>
     (\<forall>g \<in> set gs. (\<forall>a \<in> set (g_addrs g). say (rcpt_cmd a)) \<and>
        (\<forall>bs. say (rcpt_cmd (concat (map hex_byte bs) @ ''@'' @ trim_suffix (g_domain g) ''.''))))"

lemma speaks_skip [simp]: "speaks say o1 (req\<lparr>skipTLS := b\<rparr>) gs = speaks say o1 req gs"
proof -
  have "ehlo o1 (req\<lparr>skipTLS := b\<rparr>) = ehlo o1 req" "mail_cmd o1 (req\<lparr>skipTLS := b\<rparr>) = mail_cmd o1 req"
    by (simp_all add: ehlo_def mail_cmd_def)
  then show ?thesis by (simp add: speaks_def)
qed

abbreviation heard :: "net_error + int \<times> string \<Rightarrow> event list" where
  "heard r \<equiv> (case r of Inl _ \<Rightarrow> [] | Inr (code, reply) \<Rightarrow> [Heard code reply])"

lemma step_log:
  assumes "step op cmd st = (r, st')"
  shows "log st' = log st @ (if cmd = [] then [] else [Said cmd]) @ heard r"
proof -
  define w where "w = (if cmd = [] then (None, st) else call (write_op op (cmd @ [CHR 0x0D, LF])) (emit (Said cmd) st))"
  obtain e s where es: "w = (e, s)" by (cases w)
  then have "log s = log st @ (if cmd = [] then [] else [Said cmd])"
    by (auto simp: w_def split: if_splits) (metis log_simps(1,2) snd_conv)
  with assms es show ?thesis
    unfolding step_def w_def [symmetric]
    by (auto simp: call_def split: option.splits prod.splits sum.splits)
qed

lemma up_heard: "up safe say es k \<Longrightarrow> up safe say (es @ heard r) k"
  by (auto intro: up_quiet split: sum.split)

lemma up_step:
  assumes "step op cmd st = (r, st')" "up safe say (log st) k" "cmd = [] \<or> say cmd \<and> \<not> is_rcpt cmd"
  shows "up safe say (log st') k"
proof -
  have "up safe say (log st @ (if cmd = [] then [] else [Said cmd])) k" using assms(2,3) up_said by auto
  from up_heard [OF this] show ?thesis by (simp add: step_log [OF assms(1)])
qed

lemma up_step_rcpt:
  assumes "step op (rcpt_cmd a) st = (r, st')" "up safe say (log st) (Suc k)" "say (rcpt_cmd a)"
  shows "up safe say (log st') k"
  using up_heard [OF up_rcpt [OF assms(2,3)], of r] by (simp add: step_log [OF assms(1)])

lemma acquire_log: "log (snd (acquire op o1 req st)) = log st @ (if fst (acquire op o1 req st) = None then [Token] else [])"
  by (auto simp: acquire_def call_def split: option.split prod.split)

lemma up_acquire:
  "acquire op o1 req st = (e, st') \<Longrightarrow> up safe say (log st) k \<Longrightarrow> up safe say (log st') (if e = None then Suc k else k)"
  using acquire_log [of op o1 req st] up_token by auto

lemma up_call: "call f st = (r, st') \<Longrightarrow> up safe say (log st) k \<Longrightarrow> up safe say (log st') k"
  by (metis log_simps(2) snd_conv)

lemma up_observe: "up safe say (log st) k \<Longrightarrow> up safe say (log (observe op o1 h c st)) k"
  by (simp add: observe_def up_quiet)

lemma up_refused: "up safe say (log st) k \<Longrightarrow> up safe say (log (refused op h c t st)) k"
  by (simp add: refused_def up_quiet)

lemma up_teardown: "up safe say (log st) k \<Longrightarrow> say ''RSET'' \<Longrightarrow> say ''QUIT'' \<Longrightarrow> up safe say (log (teardown op st)) k"
  using up_said [of safe say "log st @ [Said ''RSET'']" k "''QUIT''"] up_said [of safe say "log st" k "''RSET''"] not_rcpt(2,3)
  by (simp add: teardown_def Let_def)

lemma up_fallBack: "up safe say (log st) k \<Longrightarrow> up safe say (log (fallBack o1 h r t st)) k"
  using up_quiet [of "Fell _ _ _" safe say "log st" k] by (simp add: fallBack_def Let_def)

lemma up_regroupFrom:
  "regroupFrom op o1 req rest reason reply l st = (r, st') \<Longrightarrow> up safe say (log st) k \<Longrightarrow> say ''RSET'' \<Longrightarrow> say ''QUIT'' \<Longrightarrow> up safe say (log st') k"
  by (auto simp: regroupFrom_def intro: up_teardown up_fallBack)

lemma up_expect:
  assumes "expect op o1 req as cmd want st = (r, st')" "up safe say (log st) k" "cmd = [] \<or> say cmd \<and> \<not> is_rcpt cmd"
  shows "up safe say (log st') k"
proof (cases "step op cmd st")
  case (Pair x s)
  from up_step [OF Pair assms(2,3)] assms(1) Pair show ?thesis
    by (auto simp: expect_def Let_def intro: up_refused up_observe split: sum.splits if_splits prod.splits)
qed

lemma up_greet: "greet op o1 req as st = (r, st') \<Longrightarrow> up safe say (log st) k \<Longrightarrow> say (ehlo o1 req) \<Longrightarrow> up safe say (log st') k"
  using not_rcpt(4) [of o1 req]
  by (auto simp: greet_def split: prod.splits sum.splits dest!: up_expect [of _ _ _ _ "[]"] up_expect [of _ _ _ _ "ehlo o1 req"])

lemma up_secure:
  assumes "secure op o1 req as reply st = (r, st')" "up safe say (log st) k" "say (ehlo o1 req)" "say ''STARTTLS''"
  shows "up safe say (log st') k"
proof (cases "skipTLS req \<or> \<not> startTLS o1 \<or> \<not> advertisesSTARTTLS reply")
  case True
  with assms show ?thesis by (auto simp: secure_def split: if_splits)
next
  case False
  obtain t s1 where t: "call (tlsBroken_op op (MXHost req)) st = (t, s1)" by (metis prod.exhaust)
  obtain x s2 where x: "step op ''STARTTLS'' s1 = (x, s2)" by (metis prod.exhaust)
  obtain u s3 where u: "call (upgrade_op op (MXHost req)) s2 = (u, s3)" by (metis prod.exhaust)
  obtain y s4 where y: "expect op o1 req as (ehlo o1 req) 250 (emit Encrypted (s3\<lparr>unread := []\<rparr>)) = (y, s4)"
    by (metis prod.exhaust)
  have s1: "up safe say (log s1) k" using up_call [OF t assms(2)] .
  have s2: "up safe say (log s2) k" using up_step [OF x s1] assms(4) not_rcpt(1) by blast
  have s3: "up safe say (log s3) k" using up_call [OF u s2] .
  have "up safe say (log (emit Encrypted (s3\<lparr>unread := []\<rparr>))) k" using up_quiet [OF _ s3, of Encrypted] by simp
  then have s4: "up safe say (log s4) k" using up_expect [OF y] assms(3) not_rcpt(4) by blast
  from False assms(1) t x u y s1 s2 s3 s4 show ?thesis
    by (auto simp: secure_def Let_def split: bool.splits sum.splits prod.splits if_splits)
qed

lemma up_bogus: "bogusAddress op d st = (r, st') \<Longrightarrow> up safe say (log st) k \<Longrightarrow> up safe say (log st') k"
  by (auto simp: bogusAddress_def split: if_splits prod.splits sum.splits dest!: up_call)

lemma up_catch_loop:
  "up safe say (log st) k \<Longrightarrow> (\<And>bs. say (rcpt_cmd (concat (map hex_byte bs) @ ''@'' @ trim_suffix d ''.''))) \<Longrightarrow>
    up safe say (log (snd (catch_loop op o1 req d audit n x y st))) k"
proof (induction op o1 req d audit n x y st rule: catch_loop.induct)
  case (2 op o1 req d audit n x y st)
  obtain b s1 where b: "bogusAddress op d st = (b, s1)" by (metis prod.exhaust)
  have s1: "up safe say (log s1) k" using up_bogus [OF b 2(3)] .
  obtain e s2 where a: "acquire op o1 req s1 = (e, s2)" by (metis prod.exhaust)
  show ?case
  proof (cases "b = None \<or> e \<noteq> None")
    case True
    then show ?thesis using s1 up_acquire [OF a s1] a b by (auto split: option.split if_splits)
  next
    case False
    then obtain bogus where bo: "b = Some bogus" and e: "e = None" by auto
    obtain r s3 where r: "step op (rcpt_cmd bogus) s2 = (r, s3)" by (metis prod.exhaust)
    have "say (rcpt_cmd bogus)" using 2(4) b bo by (auto simp: bogusAddress_def split: if_splits sum.splits prod.splits)
    then have s3: "up safe say (log s3) k" using up_acquire [OF a s1] e up_step_rcpt [OF r] by simp
    show ?thesis
      using 2(1,2,4) b bo a e r s3 by (auto split: sum.split prod.split)
  qed
qed simp


lemma up_askCatchAll:
  "askCatchAll op o1 req d as out st = (v, st') \<Longrightarrow> up safe say (log st) k \<Longrightarrow>
    (\<And>bs. say (rcpt_cmd (concat (map hex_byte bs) @ ''@'' @ trim_suffix d ''.''))) \<Longrightarrow> up safe say (log st') k"
  using up_quiet [of "CatchAllCount _" safe say] up_catch_loop [of safe say _ k d op o1 req]
  by (auto simp: askCatchAll_def auditDrawn_def Let_def split: if_splits prod.splits dest!: up_call)
    (metis snd_conv)+

lemma up_rcpt_answer:
  "rcpt_answer op o1 req relay code reply st = (r, st') \<Longrightarrow> up safe say (log st) k \<Longrightarrow> up safe say (log st') k"
  by (auto simp: rcpt_answer_def Let_def intro!: up_quiet up_refused up_observe split: if_splits)

abbreviation due :: "loop \<Rightarrow> nat" where
  "due l \<equiv> if l_asked l > 0 then 0 else 1"

lemma up_ask_addrs:
  "ask_addrs op o1 req foreign later as l st = (r, st') \<Longrightarrow> up safe say (log st) (due l) \<Longrightarrow>
    (\<And>a. a \<in> set as \<Longrightarrow> say (rcpt_cmd a)) \<Longrightarrow> say ''RSET'' \<Longrightarrow> say ''QUIT'' \<Longrightarrow>
    up safe say (log st') (case r of Inl _ \<Rightarrow> 0 | Inr l' \<Rightarrow> due l')"
proof (induction op o1 req foreign later as l st arbitrary: r rule: ask_addrs.induct)
  case (2 op o1 req foreign later a as l st)
  define first where "first = (if l_asked l > 0 then acquire op o1 req st else (None, st))"
  obtain e s1 where e: "first = (e, s1)" by (cases first)
  have s1: "up safe say (log s1) (if e = None then 1 else 0)"
    using 2(3) e up_acquire [of op o1 req st e s1] by (auto simp: first_def split: if_splits)
  show ?case
  proof (cases e)
    case (Some x)
    with 2(2) e s1 show ?thesis by (auto simp: first_def [symmetric])
  next
    case None
    obtain y s2 where y: "step op (rcpt_cmd a) s1 = (y, s2)" by (metis prod.exhaust)
    have s2: "up safe say (log s2) 0" using up_step_rcpt [OF y] s1 None 2(4) by simp
    show ?thesis
    proof (cases y)
      case (Inl n)
      with 2(2) e None y s2 show ?thesis by (auto simp: first_def [symmetric])
    next
      case (Inr cr)
      obtain code reply where cr: "cr = (code, reply)" by (cases cr)
      obtain res s3 where ra: "rcpt_answer op o1 req (foreign \<and> relayRefusal code reply) code reply s2 = (res, s3)"
        by (metis prod.exhaust)
      have s3: "up safe say (log s3) 0" using up_rcpt_answer [OF ra s2] .
      show ?thesis
        using 2(2,4-6) e None y Inr cr ra s2 s3
          2(1) [of None s1 "Inr (code, reply)" s2]
        by (auto simp: first_def [symmetric] Let_def split: if_splits prod.splits
            dest!: up_regroupFrom intro: up_teardown)
    qed
  qed
qed simp


lemma up_next_transaction:
  "next_transaction op o1 req rest cmds l st = (r, st') \<Longrightarrow> up safe say (log st) k \<Longrightarrow>
    list_all (\<lambda>c. say c \<and> \<not> is_rcpt c) cmds \<Longrightarrow> say ''RSET'' \<Longrightarrow> say ''QUIT'' \<Longrightarrow> up safe say (log st') k"
proof (induction op o1 req rest cmds l st rule: next_transaction.induct)
  case (2 op o1 req rest cmd cmds l st)
  obtain x s1 where x: "step op cmd st = (x, s1)" by (metis prod.exhaust)
  have s1: "up safe say (log s1) k" using up_step [OF x 2(3)] 2(4) by simp
  show ?case
    using 2(1) [OF x [symmetric]] 2(2,4-6) x s1
    by (auto simp: Let_def split: sum.splits prod.splits if_splits dest!: up_regroupFrom intro: up_observe)
qed simp

lemma up_ask_groups:
  "ask_groups op o1 req grouped further gs l st = (r, st') \<Longrightarrow> up safe say (log st) (due l) \<Longrightarrow>
    speaks say o1 req gs \<Longrightarrow> up safe say (log st') 0"
proof (induction op o1 req grouped further gs l st rule: ask_groups.induct)
  case (1 op o1 req grouped further l st)
  then have "up safe say (log st) 0" by (auto elim: up_mono)
  with 1(1,3) show ?case by (auto simp: speaks_def intro: up_teardown)
next
  case (2 op o1 req grouped further g gs l st)
  let ?later = "concat (map g_addrs gs)"
  define start where "start = (if further
      then next_transaction op o1 req (g_addrs g @ ?later) [''RSET'', mail_cmd o1 req] l st else (None, st))"
  obtain x s1 where x: "start = (x, s1)" by (cases start)
  have s1: "up safe say (log s1) (due l)"
    using x 2(4,5) not_rcpt(2,5) up_next_transaction [of op o1 req _ "[''RSET'', mail_cmd o1 req]" l st x s1]
    by (auto simp: start_def speaks_def split: if_splits)
  then have low: "up safe say (log s1) 0" by (rule up_mono) simp
  obtain y s2 where y: "ask_addrs op o1 req (grouped \<and> further) ?later (g_addrs g) l s1 = (y, s2)" by (metis prod.exhaust)
  have s2: "up safe say (log s2) (case y of Inl _ \<Rightarrow> 0 | Inr l' \<Rightarrow> due l')"
    using up_ask_addrs [OF y s1] 2(5) by (auto simp: speaks_def)
  have sp: "speaks say o1 req gs" using 2(5) by (auto simp: speaks_def)
  show ?case
  proof (cases x)
    case (Some o2)
    with 2(3) x low show ?thesis by (simp add: start_def [symmetric])
  next
    case None
    show ?thesis
    proof (cases y)
      case (Inl o2)
      with 2(3) x None y s2 show ?thesis by (simp add: start_def [symmetric])
    next
      case (Inr l')
      obtain v s3 where v: "askCatchAll op o1 req (g_domain g) (g_addrs g) (l_out l') s2 = (v, s3)" by (metis prod.exhaust)
      have s2': "up safe say (log s2) (due l')" using s2 Inr by simp
      have "up safe say (log s3) (due l')" using up_askCatchAll [OF v s2'] 2(5) by (auto simp: speaks_def)
      with 2(1-3) sp x None y Inr v s2' show ?thesis
        by (auto simp: start_def [symmetric] split: if_splits)
    qed
  qed
qed

lemma up_transact:
  assumes "transact op o1 req groups grouped st = (r, st')" "up safe say (log st) 1" "speaks say o1 req groups"
  shows "up safe say (log st') 0"
proof -
  obtain x s1 where x: "expect op o1 req (concat (map g_addrs groups)) (mail_cmd o1 req) 250 st = (x, s1)"
    by (metis prod.exhaust)
  have s1: "up safe say (log s1) 1" using up_expect [OF x assms(2)] assms(3) not_rcpt(5) by (auto simp: speaks_def)
  show ?thesis
  proof (cases x)
    case (Inl o2)
    with assms(1) x up_mono [OF s1, of 0] show ?thesis by (simp add: transact_def)
  next
    case (Inr t)
    with assms(1,3) x s1 show ?thesis by (auto simp: transact_def dest!: up_ask_groups)
  qed
qed

text \<open>A session with a lease ends by giving it back.\<close>

definition idle :: "(addr \<Rightarrow> bool) \<Rightarrow> (string \<Rightarrow> bool) \<Rightarrow> event list \<Rightarrow> bool" where
  "idle safe say es \<longleftrightarrow> watch_all safe say Out es = Some Out"

lemma release_log [simp]: "log (release op o1 st) = log st @ [Released]"
  by (simp add: release_def)

lemma up_leave: "up safe say (log (snd x)) k \<Longrightarrow> idle safe say (log (snd (leave op o1 x)))"
  by (auto simp: leave_def up_def idle_def watch_all_append split: prod.split)

lemma idle_stamp: "idle safe say (log (snd x)) \<Longrightarrow> idle safe say (log (snd (stamp t n x)))"
  by (auto simp: stamp_def idle_def watch_all_append split: prod.split)

lemma idle_count: "idle safe say es \<Longrightarrow> idle safe say (es @ [TLSSession t])"
  by (simp add: idle_def watch_all_append)

lemma idle_converse:
  assumes "up safe say (log st) 1" "speaks say o1 req groups"
    and "skipTLS req \<or> (\<forall>rq s. skipTLS rq \<longrightarrow> speaks say o1 rq groups \<longrightarrow> idle safe say (log s) \<longrightarrow> idle safe say (log (snd (again rq s))))"
  shows "idle safe say (log (snd (converse op o1 again req groups grouped st)))"
proof -
  let ?as = "concat (map g_addrs groups)"
  obtain x s1 where x: "greet op o1 req ?as st = (x, s1)" by (metis prod.exhaust)
  have s1: "up safe say (log s1) 1" using up_greet [OF x assms(1)] assms(2) by (simp add: speaks_def)
  show ?thesis
  proof (cases x)
    case (Inl o2)
    with x up_leave [of safe say "(o2, s1)"] s1 show ?thesis by (simp add: converse_def)
  next
    case (Inr reply)
    obtain y s2 where y: "secure op o1 req ?as reply s1 = (y, s2)" by (metis prod.exhaust)
    have s2: "up safe say (log s2) 1" using up_secure [OF y s1] assms(2) by (simp add: speaks_def)
    show ?thesis
    proof (cases y)
      case (Carry tls)
      obtain z s3 where z: "transact op o1 req groups grouped s2 = (z, s3)" by (metis prod.exhaust)
      from up_leave [of safe say "(z, s3)" 0 op o1] up_transact [OF z s2 assms(2)] x Inr y Carry z show ?thesis
        by (simp add: converse_def idle_stamp)
    next
      case (TLSFail tls o2)
      with up_leave [of safe say "(o2, s2)" 1 op o1] s2 x Inr y show ?thesis by (simp add: converse_def idle_stamp)
    next
      case (Rerun e)
      then have "\<not> skipTLS req" using y by (auto simp: secure_def split: if_splits)
      with assms(3) have again: "skipTLS rq \<Longrightarrow> speaks say o1 rq groups \<Longrightarrow> idle safe say (log s) \<Longrightarrow> idle safe say (log (snd (again rq s)))" for rq s by blast
      let ?s = "release op o1 (emit Closed (tell (markTLSBroken_op op (MXHost req)) s2))"
      have "idle safe say (log ?s)" using s2 by (auto simp: up_def idle_def watch_all_append)
      then have "idle safe say (log (snd (again (req\<lparr>skipTLS := True\<rparr>) ?s)))" using assms(2) by (intro again) simp_all
      moreover obtain out vs rest s3 where a: "again (req\<lparr>skipTLS := True\<rparr>) ?s = ((out, vs, rest), s3)"
        by (metis prod.exhaust)
      ultimately have "idle safe say (log s3)" by simp
      with x Inr y Rerun a idle_count [of safe say "log s3"] show ?thesis by (simp add: converse_def)
    qed
  qed
qed


lemma dial_each_log:
  assumes "dial_each op e as st = (r, st')" "\<And>a. a \<in> set as \<Longrightarrow> safe a"
    and "watch_all safe say Out (log st) = Some (In (Suc k)) \<or> watch_all safe say Out (log st) = Some (Up (Suc k))"
  shows "(r = None \<and> watch_all safe say Out (log st') = Some (Up (Suc k))) \<or>
    (r \<noteq> None \<and> (watch_all safe say Out (log st') = Some (In (Suc k)) \<or> watch_all safe say Out (log st') = Some (Up (Suc k))))"
  using assms
proof (induction op e as st rule: dial_each.induct)
  case (2 op e a as st)
  obtain x s1 where x: "call (dial_op op a) (emit (Dialled a) st) = (x, s1)" by (metis prod.exhaust)
  then have "log s1 = log st @ [Dialled a]" by (metis log_simps(1,2) snd_conv)
  with 2(4) 2(3) [of a] have s1: "watch_all safe say Out (log s1) = Some (Up (Suc k))"
    by (auto simp: watch_all_append)
  show ?case
  proof (cases x)
    case None
    with 2(2) x s1 show ?thesis by auto
  next
    case (Some n)
    with 2 x s1 show ?thesis by auto
  qed
qed auto

text \<open>The law of the resolver the session relies on.\<close>

definition resolves_to :: "(addr \<Rightarrow> bool) \<Rightarrow> 'w ops \<Rightarrow> bool" where
  "resolves_to safe op \<longleftrightarrow> (\<forall>h w as w'. resolve_op op h w = (Inr as, w') \<longrightarrow> (\<forall>a \<in> set as. safe a))"

lemma idle_session_with:
  assumes "idle safe say (log st)" "resolves_to safe op" "speaks say o1 req groups"
    and "skipTLS req \<or> (\<forall>rq s. skipTLS rq \<longrightarrow> speaks say o1 rq groups \<longrightarrow> idle safe say (log s) \<longrightarrow> idle safe say (log (snd (again rq s))))"
  shows "idle safe say (log (snd (session_with op o1 again req groups grouped st)))"
proof -
  obtain b s1 where b: "call (burned_op op) st = (b, s1)" by (metis prod.exhaust)
  then have l1: "log s1 = log st" by (metis log_simps(2) snd_conv)
  obtain r s2 where r: "call (resolve_op op (MXHost req)) s1 = (r, s2)" by (metis prod.exhaust)
  then have l2: "log s2 = log st" using l1 by (metis log_simps(2) snd_conv)
  obtain le s3 where le: "leaseSession op o1 req s2 = (le, s3)" by (metis prod.exhaust)
  have l3: "log s3 = log st @ (if le = None then [Leased] else [])"
    using le l2 by (auto simp: leaseSession_def call_def split: if_splits option.splits prod.splits)
  obtain e s4 where e: "acquire op o1 req s3 = (e, s4)" by (metis prod.exhaust)
  have l4: "log s4 = log s3 @ (if e = None then [Token] else [])"
    using acquire_log [of op o1 req s3] e by simp
  show ?thesis
  proof (cases "b = None \<and> (\<exists>ips. r = Inr ips) \<and> le = None")
    case False
    have "idle safe say (log s1)" "idle safe say (log s2)" "le \<noteq> None \<Longrightarrow> idle safe say (log s3)"
      using assms(1) l1 l2 l3 by auto
    note logs = this
    have "idle safe say (log (snd (session_with op o1 again req groups grouped st)))" if "b = None" "r = Inl f" for f
      using that b r logs by (cases f) (simp_all add: session_with_def)
    moreover have "idle safe say (log (snd (session_with op o1 again req groups grouped st)))" if "b = Some w" for w
      using that b logs by (simp add: session_with_def)
    moreover have "idle safe say (log (snd (session_with op o1 again req groups grouped st)))"
      if "b = None" "r = Inr ips" "le = Some x" for ips x
      using that b r le logs by (simp add: session_with_def)
    ultimately show ?thesis using False by (cases b; cases r; cases le) auto
  next
    case True
    then obtain ips where t: "b = None" "r = Inr ips" "le = None" by auto
    have ips: "a \<in> set ips \<Longrightarrow> safe a" for a
      using r t(2) assms(2) by (auto simp: call_def resolves_to_def split: prod.splits)
    have in0: "watch_all safe say Out (log s3) = Some (In 0)"
      using assms(1) l3 t by (simp add: idle_def watch_all_append)
    show ?thesis
    proof (cases e)
      case (Some x)
      with b r le e t in0 l4 show ?thesis
        by (simp add: session_with_def idle_def watch_all_append)
    next
      case None
      have in1: "watch_all safe say Out (log s4) = Some (In (Suc 0))"
        using in0 l4 None by (simp add: watch_all_append)
      obtain d s5 where d: "dialAny op ips s4 = (d, s5)" by (metis prod.exhaust)
      note D = dial_each_log [OF d [unfolded dialAny_def] ips, where k = 0, simplified, OF _ disjI1 [OF in1]]
      show ?thesis
      proof (cases d)
        case (Some x)
        with D b r le e t None d show ?thesis
          by (auto simp: session_with_def idle_def watch_all_append)
      next
        case up: None
        with D have "up safe say (log s5) 1" by (simp add: up_def)
        then show ?thesis
          using idle_converse [of safe say s5 o1 req groups again op grouped] b r le e t None d up assms(3,4)
          by (simp add: session_with_def)
      qed
    qed
  qed
qed


lemma idle_session:
  assumes "idle safe say (log st)" "resolves_to safe op" "speaks say o1 req groups"
  shows "idle safe say (log (snd (session op o1 req groups grouped st)))"
  unfolding session_def
  by (rule idle_session_with [OF assms]) (auto simp: plain_session_def intro!: idle_session_with assms(2))


section \<open>What the protocol says\<close>

abbreviation "tokens_in es \<equiv> length (filter (\<lambda>e. e = Token) es)"
abbreviation "leases_in es \<equiv> length (filter (\<lambda>e. e = Leased) es)"
abbreviation "releases_in es \<equiv> length (filter (\<lambda>e. e = Released) es)"

definition rcpts_in :: "event list \<Rightarrow> nat" where
  "rcpts_in es = length (filter (\<lambda>e. case e of Said cmd \<Rightarrow> is_rcpt cmd | _ \<Rightarrow> False) es)"

fun credit :: "phase \<Rightarrow> nat" where
  "credit Out = 0"
| "credit (In k) = k"
| "credit (Up k) = k"
| "credit (Down k) = k"

lemma watch_counts:
  "watch safe say p e = Some q \<Longrightarrow>
    rcpts_in [e] + credit q \<le> tokens_in [e] + credit p \<and>
    leases_in [e] + (if p = Out then 0 else 1) = releases_in [e] + (if q = Out then 0 else 1)"
  by (cases "(safe, say, p, e)" rule: watch.cases) (auto simp: rcpts_in_def split: if_splits)

lemma watch_all_counts:
  "watch_all safe say p es = Some q \<Longrightarrow>
    rcpts_in es + credit q \<le> tokens_in es + credit p \<and>
    leases_in es + (if p = Out then 0 else 1) = releases_in es + (if q = Out then 0 else 1)"
proof (induction es arbitrary: p)
  case (Cons e es)
  then obtain p' where p': "watch safe say p e = Some p'" "watch_all safe say p' es = Some q"
    by (auto split: bind_splits)
  have "rcpts_in (e # es) = rcpts_in [e] + rcpts_in es" "tokens_in (e # es) = tokens_in [e] + tokens_in es"
    "leases_in (e # es) = leases_in [e] + leases_in es" "releases_in (e # es) = releases_in [e] + releases_in es"
    by (simp_all add: rcpts_in_def)
  with watch_counts [OF p'(1)] Cons.IH [OF p'(2)] show ?case by linarith
qed (simp add: rcpts_in_def)

lemma watch_all_prefix: "watch_all safe say p (xs @ ys) = Some q \<Longrightarrow> \<exists>r. watch_all safe say p xs = Some r \<and> watch_all safe say r ys = Some q"
  by (auto simp: watch_all_append split: bind_splits)

lemma watch_dialled: "watch safe say p (Dialled a) = Some q \<Longrightarrow> safe a \<and> 0 < credit p \<and> p \<noteq> Out"
  by (cases p) (auto split: if_splits)

lemma watch_said: "watch safe say p (Said cmd) = Some q \<Longrightarrow> say cmd"
  by (cases p) (auto split: if_splits)

text \<open>An environment driven by a script of replies, for the witnesses: everything is granted and the
  server answers line by line.\<close>

definition scripted :: "string list ops" where
  "scripted = \<lparr>burned_op = (\<lambda>w. (None, w)),
     resolve_op = (\<lambda>h w. (Inr [V4 (v4 8 8 4 4)], w)),
     lease_op = (\<lambda>h d w. (None, w)), release_op = id, acquire_op = (\<lambda>h d w. (None, w)),
     observe_op = (\<lambda>h b w. w), refusal_op = (\<lambda>h t w. w), policy_op = (\<lambda>h w. w),
     dial_op = (\<lambda>a w. (None, w)), write_op = (\<lambda>t w. (None, w)),
     read_op = (\<lambda>w. case w of [] \<Rightarrow> ((NetErr False ''EOF'', []), []) | r # rs \<Rightarrow> ((NetErr False ''EOF'', r @ [CHR 0x0D, LF]), rs)),
     upgrade_op = (\<lambda>h w. (Inl (NetErr False ''tls''), w)), tlsBroken_op = (\<lambda>h w. (False, w)),
     markTLSBroken_op = (\<lambda>h w. w), draw_op = (\<lambda>w. (0, w)), random_op = (\<lambda>w. (Inr [0, 17, 255], w))\<rparr>"

definition example_options :: prober_options where
  "example_options = \<lparr>o_helo = ''probe.example.net'', o_mailFrom = ''verify@example.net'', o_sourceIP = ''203.0.114.7'',
     o_maxRCPT = 0, o_paced = True, o_leased = True, o_multiDomain = Some MultiDomain, o_replyMaxChars = 0,
     o_deferralRetry = 0, o_policyStopMax = 0, o_policyStop = 5, o_catchAllProbes = 0, o_auditRate = 0, o_startTLS = []\<rparr>"

definition example_request :: "string list \<Rightarrow> request" where
  "example_request as = \<lparr>MXHost = ''mx.example.org'', Domain = ''example.org'', Emails = as, NeedCatchAll = True,
     ReqHelo = [], ReqMailFrom = [], skipTLS = False, ReqPolicyStop = 0, Domains = []\<rparr>"

definition example_groups :: "string list \<Rightarrow> group list" where
  "example_groups as = [\<lparr>g_domain = ''example.org'', g_addrs = as, g_askCatchAll = True\<rparr>]"

definition example_session :: "string list \<Rightarrow> string list \<Rightarrow> outcome \<times> string list pst" where
  "example_session as replies = session scripted example_options (example_request as) (example_groups as) False
     \<lparr>env = replies, unread = [], fallen = [], log = []\<rparr>"

lemma scripted_ops [simp]:
  "burned_op scripted w = (None, w)" "resolve_op scripted h w = (Inr [V4 (v4 8 8 4 4)], w)"
  "lease_op scripted h d w = (None, w)" "release_op scripted w = w" "acquire_op scripted h d w = (None, w)"
  "observe_op scripted h b w = w" "refusal_op scripted h t w = w" "policy_op scripted h w = w"
  "dial_op scripted a w = (None, w)" "write_op scripted t w = (None, w)" "random_op scripted w = (Inr [0, 17, 255], w)"
  by (simp_all add: scripted_def)

lemma step_scripted:
  assumes "length cs = 3" "replyCode cs = Some code" "plain l"
  shows "step scripted cmd \<lparr>env = (cs @ '' '' @ l) # rs, unread = [], fallen = f, log = es\<rparr> =
    (Inr (code, cs @ '' '' @ l), \<lparr>env = rs, unread = [], fallen = f, log = es @ (if cmd = [] then [] else [Said cmd]) @ [Heard code (cs @ '' '' @ l)]\<rparr>)"
proof -
  have "readReply eof [] ((cs @ '' '' @ l) @ [CHR 0x0D, LF]) = (Inr (code, cs @ '' '' @ l), [])" for eof
    using readReply_wire_acc [of cs code "[]" l eof "[]" "[]"] assms
    by (simp add: wire_reply_def keep_line_def maxReplyBytes_def)
  then show ?thesis by (simp add: step_def call_def emit_def scripted_def)
qed

lemma codes: "replyCode ''220'' = Some 220" "replyCode ''250'' = Some 250" "replyCode ''550'' = Some 550"
  by code_simp+

lemma scripted_replies:
  "step scripted cmd \<lparr>env = ''220 mx.example.org'' # rs, unread = [], fallen = f, log = es\<rparr> =
    (Inr (220, ''220 mx.example.org''), \<lparr>env = rs, unread = [], fallen = f, log = es @ (if cmd = [] then [] else [Said cmd]) @ [Heard 220 ''220 mx.example.org'']\<rparr>)"
  "step scripted cmd \<lparr>env = ''250 ok'' # rs, unread = [], fallen = f, log = es\<rparr> =
    (Inr (250, ''250 ok''), \<lparr>env = rs, unread = [], fallen = f, log = es @ (if cmd = [] then [] else [Said cmd]) @ [Heard 250 ''250 ok'']\<rparr>)"
  "step scripted cmd \<lparr>env = ''550 5.1.1 no such user'' # rs, unread = [], fallen = f, log = es\<rparr> =
    (Inr (550, ''550 5.1.1 no such user''), \<lparr>env = rs, unread = [], fallen = f, log = es @ (if cmd = [] then [] else [Said cmd]) @ [Heard 550 ''550 5.1.1 no such user'']\<rparr>)"
  using step_scripted [of "''220''" 220 "''mx.example.org''" cmd rs f es] step_scripted [of "''250''" 250 "''ok''" cmd rs f es]
    step_scripted [of "''550''" 550 "''5.1.1 no such user''" cmd rs f es]
  by (simp_all add: codes is_crlf_def)

definition refusing :: "string list" where
  "refusing = [''220 mx.example.org'', ''250 ok'', ''250 ok'', ''550 5.1.1 no such user'']"

definition refused_answer :: result where
  "refused_answer = \<lparr>Connected = Some True, Accepted = Some False, CatchAll = None, Randomiser = None, SMTPCode = 550,
     ECode = ''5.1.1'', RClass = ClassInvalid, RReply = ''550 5.1.1 no such user'', RErr = [], RetryAfterSeconds = 0,
     TLS = ''none''\<rparr>"

lemma example_run:
  "example_session [a] refusing =
    (([a \<mapsto> refused_answer], [''example.org'' \<mapsto> \<lparr>v_catchAll = None, v_randomiser = None\<rparr>], []),
     \<lparr>env = [], unread = [], fallen = [], log =
       [Leased, Token, Dialled (V4 (v4 8 8 4 4)), Heard 220 ''220 mx.example.org'', Said ''EHLO probe.example.net'',
        Heard 250 ''250 ok'', Said ''MAIL FROM:<verify@example.net>'', Heard 250 ''250 ok'',
        Said (rcpt_cmd a), Heard 550 ''550 5.1.1 no such user'', Observed False, CatchAllCount skippedNoAccept,
        Said ''RSET'', Said ''QUIT'', Closed, Released, TLSSession ''none'', SessionDomains 1]\<rparr>)"
proof -
  have c: "ClassifyAs 550 ''550 5.1.1 no such user'' (own_identity example_options) = ClassInvalid"
    "EnhancedCode ''550 5.1.1 no such user'' = ''5.1.1''" "retryHint ClassInvalid ''550 5.1.1 no such user'' n = 0" for n
    by (code_simp, code_simp, simp add: retryHint_def carries_hint_def)
  have a: "advertisesSTARTTLS ''250 ok'' = False" by code_simp
  have o: "ehlo example_options (example_request [a]) = ''EHLO probe.example.net''"
    "mail_cmd example_options (example_request [a]) = ''MAIL FROM:<verify@example.net>''"
    by (simp_all add: ehlo_def mail_cmd_def example_options_def example_request_def helo_def mailFrom_def)
  have p: "policyStopFor example_options (example_request [a]) = 5" "o_paced example_options" "o_leased example_options"
    "skipTLS (example_request [a]) = False" "startTLS example_options"
    by (simp_all add: policyStopFor_def example_options_def example_request_def startTLS_def)
  have t: "\<not> IsThrottle ClassInvalid" by (simp add: IsThrottle_def)
  have u: "(\<lambda>x. map_option f (if x = a then Some r else None)) = [a \<mapsto> f r]" for f :: "result \<Rightarrow> result" and r
    by auto
  show ?thesis
    unfolding example_session_def session_def session_with_def refusing_def
    by (simp add: call_def leaseSession_def emit_def acquire_def dialAny_def converse_def greet_def expect_def
        scripted_replies o p a c t secure_def transact_def example_groups_def rcpt_answer_def rcptResult_def observe_def tell_def
        askCatchAll_def teardown_def leave_def release_def stamp_def Let_def rcpt_cmd_def refused_answer_def fun_upd_def u
        cong: if_cong)
qed

lemma example_refused:
  "log (snd (example_session [a] refusing)) =
    [Leased, Token, Dialled (V4 (v4 8 8 4 4)), Heard 220 ''220 mx.example.org'', Said ''EHLO probe.example.net'',
     Heard 250 ''250 ok'', Said ''MAIL FROM:<verify@example.net>'', Heard 250 ''250 ok'',
     Said (rcpt_cmd a), Heard 550 ''550 5.1.1 no such user'', Observed False, CatchAllCount skippedNoAccept,
     Said ''RSET'', Said ''QUIT'', Closed, Released, TLSSession ''none'', SessionDomains 1]"
  by (simp add: example_run)

section \<open>What the server reads\<close>

definition wire :: "event list \<Rightarrow> string" where
  "wire es = concat (map (\<lambda>e. case e of Said cmd \<Rightarrow> cmd @ [CHR 0x0D, LF] | _ \<Rightarrow> []) es)"

text \<open>The commands of a probe.\<close>

definition allowed_cmd :: "string \<Rightarrow> bool" where
  "allowed_cmd cmd \<longleftrightarrow> cmd \<in> {''STARTTLS'', ''RSET'', ''QUIT''} \<or>
     list_ex (has_prefix cmd) [''EHLO '', ''MAIL FROM:<'', ''RCPT TO:<'']"

lemma split_on_line: "c \<notin> set l \<Longrightarrow> split_on c (l @ c # s) = l # split_on c s"
  by (induction l) auto

lemma wire_lines:
  assumes "\<And>cmd. Said cmd \<in> set es \<Longrightarrow> LF \<notin> set cmd"
  shows "split_on LF (wire es) = concat (map (\<lambda>e. case e of Said cmd \<Rightarrow> [cmd @ [CHR 0x0D]] | _ \<Rightarrow> []) es) @ [[]]"
  using assms
proof (induction es)
  case (Cons e es)
  have IH: "split_on LF (wire es) = concat (map (\<lambda>e. case e of Said cmd \<Rightarrow> [cmd @ [CHR 0x0D]] | _ \<Rightarrow> []) es) @ [[]]"
    using Cons by auto
  show ?case
  proof (cases "\<exists>cmd. e = Said cmd")
    case True
    then obtain cmd where e: "e = Said cmd" by blast
    with Cons.prems have "LF \<notin> set (cmd @ [CHR 0x0D])" by auto
    from split_on_line [OF this, of "wire es"] e IH show ?thesis by (simp add: wire_def)
  next
    case False
    then have "wire (e # es) = wire es" by (cases e) (auto simp: wire_def)
    with False IH show ?thesis by (cases e) auto
  qed
qed (simp add: wire_def)

lemma watch_all_said:
  "watch_all safe say p es = Some q \<Longrightarrow> Said cmd \<in> set es \<Longrightarrow> say cmd"
  by (induction es arbitrary: p) (auto split: bind_splits dest: watch_said)

lemma allowed_not_data:
  assumes "allowed_cmd cmd" shows "\<not> has_prefix (to_upper (cmd @ [CHR 0x0D])) ''DATA''"
  using assms
  by (auto simp: allowed_cmd_def has_prefix_iff to_upper_def prefix_def upper_char_def)

lemma hex_byte_plain: "LF \<notin> set (concat (map hex_byte bs))"
proof -
  have h: "hex_digit (n mod 16) \<noteq> LF" for n
  proof -
    have "of_char (hex_digit (n mod 16)) \<noteq> (10 :: nat)" by (simp add: hex_digit_def of_char_of)
    then show ?thesis by auto
  qed
  show ?thesis by (auto simp: hex_byte_def h h [THEN not_sym])
qed

text \<open>The strings of a request and of the options carry no line break.\<close>

definition one_line :: "prober_options \<Rightarrow> request \<Rightarrow> group list \<Rightarrow> bool" where
  "one_line o1 req gs \<longleftrightarrow> LF \<notin> set (o_helo o1) \<and> LF \<notin> set (o_mailFrom o1) \<and> LF \<notin> set (ReqHelo req) \<and>
     LF \<notin> set (ReqMailFrom req) \<and> (\<forall>g \<in> set gs. LF \<notin> set (g_domain g) \<and> (\<forall>a \<in> set (g_addrs g). LF \<notin> set a))"

lemma one_line_speaks:
  assumes "one_line o1 req gs"
  shows "speaks (\<lambda>c. allowed_cmd c \<and> LF \<notin> set c) o1 req gs"
proof -
  have "set (trim_suffix d ''.'') \<subseteq> set d" for d :: string
    by (auto simp: trim_suffix_def dest: in_set_takeD)
  with assms hex_byte_plain show ?thesis
    by (fastforce simp: one_line_def speaks_def allowed_cmd_def ehlo_def mail_cmd_def rcpt_cmd_def helo_def mailFrom_def has_prefix_iff)
qed

text \<open>
  C7. DATA is never sent: when no string of the request and of the options carries a line break, every
  line the server reads in a session is one of EHLO, STARTTLS, MAIL FROM, RCPT TO, RSET and QUIT
  (the last line is empty), and none of them begins with DATA in any spelling.
\<close>

theorem data_never_sent:
  assumes "one_line o1 req groups"
    and "line \<in> set (split_on LF (wire (log (snd (session op o1 req groups grouped \<lparr>env = w, unread = u, fallen = f, log = []\<rparr>)))))"
  shows "line = [] \<or> (\<exists>cmd. line = cmd @ [CHR 0x0D] \<and> allowed_cmd cmd \<and> \<not> has_prefix (to_upper line) ''DATA'')"
proof -
  let ?es = "log (snd (session op o1 req groups grouped \<lparr>env = w, unread = u, fallen = f, log = []\<rparr>))"
  have "idle (\<lambda>_. True) (\<lambda>c. allowed_cmd c \<and> LF \<notin> set c) ?es"
    by (rule idle_session) (auto simp: idle_def resolves_to_def intro: one_line_speaks [OF assms(1)])
  then have say: "Said cmd \<in> set ?es \<Longrightarrow> allowed_cmd cmd \<and> LF \<notin> set cmd" for cmd
    unfolding idle_def by (auto dest: watch_all_said)
  then have "split_on LF (wire ?es) = concat (map (\<lambda>e. case e of Said cmd \<Rightarrow> [cmd @ [CHR 0x0D]] | _ \<Rightarrow> []) ?es) @ [[]]"
    by (intro wire_lines) blast
  with assms(2) have "line = [] \<or> (\<exists>cmd. Said cmd \<in> set ?es \<and> line = cmd @ [CHR 0x0D])"
    by (auto split: event.splits)
  with say allowed_not_data show ?thesis by blast
qed


theorem data_never_sent_witness:
  "''RCPT TO:<jo@example.org>'' @ [CHR 0x0D] \<in>
     set (split_on LF (wire (log (snd (example_session [''jo@example.org''] refusing))))) \<and>
   (\<exists>cmd. ''RCPT TO:<jo@example.org>'' @ [CHR 0x0D] = cmd @ [CHR 0x0D] \<and> allowed_cmd cmd \<and>
     \<not> has_prefix (to_upper (''RCPT TO:<jo@example.org>'' @ [CHR 0x0D])) ''DATA'')"
proof -
  have one: "one_line example_options (example_request [''jo@example.org'']) (example_groups [''jo@example.org''])"
    by (simp add: one_line_def example_options_def example_request_def example_groups_def)
  have sent: "''RCPT TO:<jo@example.org>'' @ [CHR 0x0D] \<in>
      set (split_on LF (wire (log (snd (example_session [''jo@example.org''] refusing)))))"
    unfolding example_refused by (simp add: wire_def rcpt_cmd_def)
  from data_never_sent [OF one sent [unfolded example_session_def]] sent show ?thesis by simp
qed

text \<open>
  The line breaks matter: nothing between the request and the socket looks for them, so an
  address that carries one makes the server read a DATA command of its own.
\<close>

theorem line_break_sends_data:
  "''DATA'' @ [CHR 0x0D] \<in> set (split_on LF (wire (log (snd (example_session
     [''jo@example.org>'' @ [CHR 0x0D, LF] @ ''DATA'' @ [CHR 0x0D, LF] @ ''x''] refusing)))))"
  unfolding example_refused by (simp add: wire_def rcpt_cmd_def)

section \<open>Over the guarded resolver\<close>

text \<open>The caches that arise, as a type, and the session's view of the resolver: the environment carries
  such a cache beside anything else, DNS and the clock are functions of the rest.\<close>

typedef vetted_cache = "{c. cache_ok c}"
  using newCache_ok by blast

definition as_session_error :: "resolve_error \<Rightarrow> resolve_fail" where
  "as_session_error e =
     (case e of
        BlockedError h a r \<Rightarrow> Refusal (''ssrf guard: '' @ h)
      | NoRoutableAddress \<Rightarrow> Refusal ''no routable address''
      | EmptyHost \<Rightarrow> Unresolved (NetErr False ''resolver: host is empty'')
      | LookupFailed t \<Rightarrow> Unresolved (NetErr False t))"

definition guarded_resolve ::
  "('v \<Rightarrow> string \<Rightarrow> string \<Rightarrow> string + addr list) \<Rightarrow> ('v \<Rightarrow> instant) \<Rightarrow> string \<Rightarrow> vetted_cache \<times> 'v \<Rightarrow>
   (resolve_fail + addr list) \<times> vetted_cache \<times> 'v" where
  "guarded_resolve dns clock host cv =
     (case Resolve (dns (snd cv)) ''ip4'' (clock (snd cv)) host (Rep_vetted_cache (fst cv)) of
        (r, c) \<Rightarrow> (map_sum as_session_error id r, Abs_vetted_cache c, snd cv))"

lemma guarded_resolve_vets: "resolve_op op = guarded_resolve dns clock \<Longrightarrow> resolves_to (\<lambda>a. Blocked a = None) op"
proof -
  assume r: "resolve_op op = guarded_resolve dns clock"
  have "Blocked a = None" if g: "guarded_resolve dns clock h w = (Inr as, w')" and a: "a \<in> set as" for h w as w' a
  proof -
    have "cache_ok (Rep_vetted_cache (fst w))" using Rep_vetted_cache by blast
    moreover obtain r c where r: "Resolve (dns (snd w)) ''ip4'' (clock (snd w)) h (Rep_vetted_cache (fst w)) = (r, c)"
      by (metis prod.exhaust)
    moreover from r g have "r = Inr as" by (cases r) (auto simp: guarded_resolve_def)
    ultimately show ?thesis
      using a Resolve_ok [of "Rep_vetted_cache (fst w)" "dns (snd w)" "''ip4''" "clock (snd w)" h] by simp
  qed
  with r show ?thesis by (auto simp: resolves_to_def)
qed

text \<open>
  C8. A session over the guarded resolver dials only addresses the guard lets through, whatever DNS
  answers and however the rest of the environment behaves.
\<close>

theorem session_dials_vetted:
  "filter (\<lambda>e. case e of Dialled a \<Rightarrow> Blocked a \<noteq> None | _ \<Rightarrow> False)
     (log (snd (session (op\<lparr>resolve_op := guarded_resolve dns clock\<rparr>) o1 req groups grouped
        \<lparr>env = w, unread = u, fallen = f, log = []\<rparr>))) = []"
proof -
  let ?es = "log (snd (session (op\<lparr>resolve_op := guarded_resolve dns clock\<rparr>) o1 req groups grouped
        \<lparr>env = w, unread = u, fallen = f, log = []\<rparr>))"
  have "idle (\<lambda>a. Blocked a = None) (\<lambda>_. True) ?es"
    by (rule idle_session [OF _ guarded_resolve_vets]) (simp_all add: idle_def speaks_def)
  then have "Blocked a = None" if "Dialled a \<in> set ?es" for a
    using split_list [OF that] by (auto simp: idle_def watch_all_append split: bind_splits dest: watch_dialled)
  then show ?thesis by (auto simp: filter_empty_conv split: event.splits)
qed

end
