(* ===== verification/Verdict.thy ===== *)
theory Verdict
  imports Conduct
begin

text \<open>
  What the results of a session say. \<open>res_ok\<close> is the promise about one result: it says whether there was an
  answer, it accepts or rejects exactly when its class is a verdict, and a verdict is backed by the
  log: the reply it was read from follows the RCPT of that very address. The lemmas carry the promise
  through the loops of the session; the log only grows, so what backed a result once backs it at the end.
\<close>


section \<open>What a result says\<close>

text \<open>A verdict is the class of the reply to the address's own RCPT, and that reply stands in the log right
  after the command.\<close>

definition backed :: "identity \<Rightarrow> event list \<Rightarrow> string \<Rightarrow> result \<Rightarrow> bool" where
  "backed i es a r \<longleftrightarrow> RClass r \<in> {ClassValid, ClassInvalid} \<longrightarrow>
     Connected r = Some True \<and> ClassifyAs (SMTPCode r) (RReply r) i = RClass r \<and>
     (\<exists>pre post. es = pre @ [Said (rcpt_cmd a), Heard (SMTPCode r) (RReply r)] @ post)"

definition res_ok :: "identity \<Rightarrow> event list \<Rightarrow> string \<Rightarrow> result \<Rightarrow> bool" where
  "res_ok i es a r \<longleftrightarrow> (Connected r = Some True \<or> Connected r = Some False) \<and> backed i es a r \<and>
     Accepted r = (if RClass r = ClassValid then Some True else if RClass r = ClassInvalid then Some False else None)"

definition all_ok :: "identity \<Rightarrow> event list \<Rightarrow> results \<Rightarrow> bool" where
  "all_ok i es m \<longleftrightarrow> (\<forall>a r. m a = Some r \<longrightarrow> res_ok i es a r)"

lemma backed_append: "backed i es a r \<Longrightarrow> backed i (es @ fs) a r"
  unfolding backed_def by (metis append.assoc)

lemma all_ok_append: "all_ok i es m \<Longrightarrow> all_ok i (es @ fs) m"
  by (auto simp: all_ok_def res_ok_def intro: backed_append)

lemma all_ok_prefix: "all_ok i es m \<Longrightarrow> prefix es fs \<Longrightarrow> all_ok i fs m"
  by (auto simp: prefix_def intro: all_ok_append)

lemma all_ok_empty [simp]: "all_ok i es Map.empty"
  by (simp add: all_ok_def)

lemma all_ok_upd: "all_ok i es m \<Longrightarrow> res_ok i es a r \<Longrightarrow> all_ok i es (m(a \<mapsto> r))"
  by (simp add: all_ok_def)

lemma all_ok_map: "all_ok i es m \<Longrightarrow> (\<And>a r. res_ok i es a r \<Longrightarrow> res_ok i es a (f r)) \<Longrightarrow> all_ok i es (\<lambda>a. map_option f (m a))"
  by (auto simp: all_ok_def)

lemma give_all_dom [simp]: "dom (give_all as r m) = set as \<union> dom m"
  unfolding give_all_def by (induction as arbitrary: m) auto

lemma give_all_ok: "all_ok i es m \<Longrightarrow> (\<And>a. res_ok i es a r) \<Longrightarrow> all_ok i es (give_all as r m)"
  unfolding give_all_def by (induction as arbitrary: m) (auto intro: all_ok_upd)

definition not_verdict :: "reply_class \<Rightarrow> bool" where
  "not_verdict c \<longleftrightarrow> c \<notin> {ClassValid, ClassInvalid}"

lemma not_verdict_classes [simp]:
  "not_verdict (classifyNetErr e)" "not_verdict (budgetClass b)" "not_verdict (beforeRCPT o1 code reply)"
  "not_verdict ClassPolicy" "not_verdict ClassGuarded" "not_verdict ClassIPBurned" "not_verdict ClassTLSFailed"
  "not_verdict ClassSuppressed"
  by (auto simp: not_verdict_def classifyNetErr_def budgetClass_def beforeRCPT_def Let_def split: pacer_error.split)

lemma no_answer_ok: "not_verdict c \<Longrightarrow> res_ok i es a (no_answer c e)"
  by (auto simp: res_ok_def no_answer_def not_verdict_def backed_def)

lemma refused_result_ok: "not_verdict c \<Longrightarrow> res_ok i es a (refused_result o1 c code reply e)"
  by (auto simp: res_ok_def refused_result_def no_answer_def not_verdict_def backed_def)

section \<open>The log only grows\<close>

named_theorems growing

lemma grow_emit [growing]: "prefix es (log st) \<Longrightarrow> prefix es (log (emit e st))"
  by (simp add: prefix_append)

lemma grow_tell [growing]: "prefix es (log st) \<Longrightarrow> prefix es (log (tell g st))"
  by simp

lemma grow_call: "call f st = (r, st') \<Longrightarrow> prefix es (log st) \<Longrightarrow> prefix es (log st')"
  by (metis log_simps(2) snd_conv)

lemma grow_step: "step op cmd st = (r, st') \<Longrightarrow> prefix es (log st) \<Longrightarrow> prefix es (log st')"
  by (auto dest!: step_log simp: prefix_def)

lemma grow_acquire: "acquire op o1 req st = (r, st') \<Longrightarrow> prefix es (log st) \<Longrightarrow> prefix es (log st')"
  using acquire_log [of op o1 req st] by (auto simp: prefix_def)

lemma grow_observe [growing]: "prefix es (log st) \<Longrightarrow> prefix es (log (observe op o1 h c st))"
  by (simp add: observe_def prefix_append)

lemma grow_refused [growing]: "prefix es (log st) \<Longrightarrow> prefix es (log (refused op h c t st))"
  by (simp add: refused_def prefix_append)

lemma grow_teardown [growing]: "prefix es (log st) \<Longrightarrow> prefix es (log (teardown op st))"
  by (auto simp: teardown_def Let_def prefix_def)

lemma grow_fallBack [growing]: "prefix es (log st) \<Longrightarrow> prefix es (log (fallBack o1 h r t st))"
  by (auto simp: fallBack_def Let_def prefix_def)

lemma grow_release [growing]: "prefix es (log st) \<Longrightarrow> prefix es (log (release op o1 st))"
  by (simp add: release_def prefix_append)

lemma grow_bogus: "bogusAddress op d st = (r, st') \<Longrightarrow> prefix es (log st) \<Longrightarrow> prefix es (log st')"
  by (auto simp: bogusAddress_def split: if_splits prod.splits sum.splits dest!: grow_call)

lemma grow_catch_loop:
  "catch_loop op o1 req d audit n x y st = (r, st') \<Longrightarrow> prefix es (log st) \<Longrightarrow> prefix es (log st')"
proof (induction n arbitrary: x y st)
  case (Suc n)
  obtain b s1 where b: "bogusAddress op d st = (b, s1)" by (metis prod.exhaust)
  obtain e s2 where a: "acquire op o1 req s1 = (e, s2)" by (metis prod.exhaust)
  have s1: "prefix es (log s1)" using grow_bogus [OF b Suc.prems(2)] .
  have s2: "prefix es (log s2)" using grow_acquire [OF a s1] .
  show ?case
  proof (cases "b = None \<or> e \<noteq> None")
    case True
    then show ?thesis using s1 s2 Suc.prems(1) a b by (auto split: option.splits)
  next
    case False
    then obtain bogus where bo: "b = Some bogus" and e: "e = None" by auto
    obtain q s3 where q: "step op (rcpt_cmd bogus) s2 = (q, s3)" by (metis prod.exhaust)
    have "prefix es (log s3)" using grow_step [OF q s2] .
    with Suc.IH [of _ _ s3] Suc.prems(1) b bo a e q show ?thesis by (auto split: sum.splits prod.splits if_splits)
  qed
qed simp

lemma grow_askCatchAll: "askCatchAll op o1 req d as out st = (v, st') \<Longrightarrow> prefix es (log st) \<Longrightarrow> prefix es (log st')"
  by (auto simp: askCatchAll_def auditDrawn_def Let_def prefix_append split: if_splits prod.splits
      dest!: grow_call dest: grow_catch_loop)

lemma grow_rcpt_answer:
  "rcpt_answer op o1 req relay code reply st = (r, st') \<Longrightarrow> prefix es (log st) \<Longrightarrow> prefix es (log st')"
  by (auto simp: rcpt_answer_def Let_def intro!: growing split: if_splits)

section \<open>The results of the transactions\<close>

lemma rcpt_answer_ok:
  assumes "rcpt_answer op o1 req relay code reply st = (r, st')"
    and "prefix (es @ [Said (rcpt_cmd a), Heard code reply]) (log st')"
  shows "res_ok (own_identity o1) (log st') a r"
proof -
  have "\<exists>pre post. log st' = pre @ [Said (rcpt_cmd a), Heard code reply] @ post" using assms(2) by (auto simp: prefix_def)
  moreover have "SMTPCode r = code" "RReply r = reply" "Connected r = Some True"
    "RClass r \<in> {ClassValid, ClassInvalid} \<Longrightarrow> ClassifyAs code reply (own_identity o1) = RClass r"
    "Accepted r = (if RClass r = ClassValid then Some True else if RClass r = ClassInvalid then Some False else None)"
    using assms(1) by (auto simp: rcpt_answer_def rcptResult_def Let_def split: if_splits)
  ultimately show ?thesis by (auto simp: res_ok_def backed_def)
qed

text \<open>An outcome about these addresses: each of them has a result or is handed back.\<close>

definition answers :: "identity \<Rightarrow> event list \<Rightarrow> string list \<Rightarrow> outcome \<Rightarrow> bool" where
  "answers i es as x \<longleftrightarrow> (case x of (out, vs, rest) \<Rightarrow> dom out = set as \<and> rest = [] \<and> all_ok i es out)"

lemma answers_fail [simp]: "(\<And>a. res_ok i es a r) \<Longrightarrow> answers i es as (fail_all as r)"
  by (simp add: answers_def fail_all_def give_all_ok)

lemma answers_net [simp]: "answers i es as (net_fail o1 as e)"
  by (simp add: net_fail_def refused_result_ok)

lemma answers_budget [simp]: "answers i es as (budget_fail o1 as e)"
proof -
  have "dom (applyRetryAfter m n) = dom m" for m n by (auto simp: applyRetryAfter_def dom_def)
  moreover have "all_ok i es m \<Longrightarrow> all_ok i es (applyRetryAfter m n)" for m n
    by (simp add: applyRetryAfter_def) (auto simp: res_ok_def backed_def intro!: all_ok_map)
  ultimately show ?thesis
    by (simp add: answers_def budget_fail_def fail_all_def give_all_ok refused_result_ok)
qed

lemma expect_answers: "expect op o1 req as cmd want st = (Inl x, st') \<Longrightarrow> answers i es as x"
  by (auto simp: expect_def Let_def refused_result_ok split: prod.splits sum.splits if_splits)

definition hands_back :: "identity \<Rightarrow> event list \<Rightarrow> results \<Rightarrow> string list \<Rightarrow> string list \<Rightarrow> outcome \<Rightarrow> bool" where
  "hands_back i es m as may x \<longleftrightarrow> (case x of (out, vs, rest) \<Rightarrow>
     dom out \<union> set rest = dom m \<union> set as \<and> all_ok i es out \<and> suffix rest may)"

lemma answers_hands: "answers i es as x \<Longrightarrow> hands_back i es Map.empty as may x"
  by (auto simp: answers_def hands_back_def split: prod.splits)

lemma hands_back_prefix: "hands_back i es m as may x \<Longrightarrow> prefix es fs \<Longrightarrow> hands_back i fs m as may x"
  by (auto simp: hands_back_def intro: all_ok_prefix split: prod.splits)

lemma unattempted_hands:
  "all_ok i es (l_out l) \<Longrightarrow> (\<And>a. res_ok i es a r) \<Longrightarrow> set as = set rest \<Longrightarrow>
    hands_back i es (l_out l) as may (unattempted rest r l)"
  by (auto simp: hands_back_def unattempted_def give_all_ok)

abbreviation fine :: "prober_options \<Rightarrow> 'w pst \<Rightarrow> results \<Rightarrow> bool" where
  "fine o1 st m \<equiv> all_ok (own_identity o1) (log st) m"

abbreviation hands :: "prober_options \<Rightarrow> 'w pst \<Rightarrow> results \<Rightarrow> string list \<Rightarrow> string list \<Rightarrow> outcome \<Rightarrow> bool" where
  "hands o1 st \<equiv> hands_back (own_identity o1) (log st)"

lemma ask_addrs_answers:
  "ask_addrs op o1 req foreign later as l st = (x, st') \<Longrightarrow> fine o1 st (l_out l) \<Longrightarrow>
    (case x of Inl y \<Rightarrow> hands o1 st' (l_out l) (as @ later) (if foreign then as @ later else []) y
     | Inr l' \<Rightarrow> dom (l_out l') = dom (l_out l) \<union> set as \<and> fine o1 st' (l_out l'))"
proof (induction as arbitrary: l st)
  case (Cons a as)
  define first where "first = (if l_asked l > 0 then acquire op o1 req st else (None, st))"
  obtain e s1 where e: "first = (e, s1)" by (cases first)
  have s1: "prefix (log st) (log s1)" using e grow_acquire [of op o1 req st e s1 "log st"] by (auto simp: first_def split: if_splits)
  show ?case
  proof (cases e)
    case (Some y)
    with Cons.prems e s1 unattempted_hands [OF all_ok_prefix [OF Cons.prems(2) s1] no_answer_ok] show ?thesis
      by (auto simp: first_def [symmetric])
  next
    case None
    obtain y s2 where y: "step op (rcpt_cmd a) s1 = (y, s2)" by (metis prod.exhaust)
    have s2: "prefix (log st) (log s2)" using grow_step [OF y s1] .
    show ?thesis
    proof (cases y)
      case (Inl n)
      with Cons.prems e None y unattempted_hands [OF all_ok_prefix [OF Cons.prems(2) s2] no_answer_ok] show ?thesis
        by (auto simp: first_def [symmetric])
    next
      case (Inr cr)
      obtain code reply where cr: "cr = (code, reply)" by (cases cr)
      define relay where "relay \<longleftrightarrow> foreign \<and> relayRefusal code reply"
      obtain res s3 where ra: "rcpt_answer op o1 req relay code reply s2 = (res, s3)" by (metis prod.exhaust)
      have s3: "prefix (log st) (log s3)" using grow_rcpt_answer [OF ra s2] .
      have "prefix (log s1 @ [Said (rcpt_cmd a), Heard code reply]) (log s3)"
        using grow_rcpt_answer [OF ra] step_log [OF y] Inr cr by simp
      note r = rcpt_answer_ok [OF ra this]
      define l' where "l' = l\<lparr>l_out := (l_out l)(a \<mapsto> res),
          l_policyRun := (if RClass res = ClassPolicy then Suc (l_policyRun l) else 0), l_asked := Suc (l_asked l)\<rparr>"
      define stop where "stop \<longleftrightarrow> 0 < policyStopFor o1 req \<and> policyStopFor o1 req \<le> int (l_policyRun l')"
      define why where "why = ''not attempted: '' @ itoa (int (l_policyRun l')) @ '' consecutive policy replies from this server''"
      have eq: "ask_addrs op o1 req foreign later (a # as) l st =
          (if foreign \<and> \<not> relayRefusal code reply \<and> domainLimitRefusal code reply
           then (Inl (l_out l, l_verdicts l, a # as @ later), teardown op (fallBack o1 (MXHost req) FallbackDomainLimit reply s2))
           else if relay
           then (Inl (l_out l', l_verdicts l', as @ later), teardown op (fallBack o1 (MXHost req) FallbackRelay reply s3))
           else if stop then (Inl (unattempted (as @ later) (no_answer ClassPolicy why) l'), teardown op s3)
           else ask_addrs op o1 req foreign later as l' s3)"
        using e None y Inr cr ra
        by (simp add: first_def [symmetric] relay_def [symmetric] l'_def Let_def regroupFrom_def stop_def why_def
            cong: if_cong split del: if_split)
      have ok: "fine o1 s3 (l_out l')" using all_ok_upd [OF all_ok_prefix [OF Cons.prems(2) s3] r] by (simp add: l'_def)
      have d: "dom (l_out l') = insert a (dom (l_out l))" by (auto simp: l'_def)
      have hb: "hands o1 z (l_out l) ((a # as) @ later) (if foreign then (a # as) @ later else []) w"
        if "hands o1 z (l_out l') (as @ later) (if foreign then as @ later else []) w" for z :: "'a pst" and w
        using that d by (auto simp: hands_back_def suffix_Cons split: if_splits)
      have limit: "hands o1 (teardown op (fallBack o1 h reason reply s2)) (l_out l) ((a # as) @ later) ((a # as) @ later)
          (l_out l, l_verdicts l, a # as @ later)" for h reason
        using all_ok_prefix [OF Cons.prems(2) grow_teardown [OF grow_fallBack [OF s2]]] by (auto simp: hands_back_def)
      have refused: "hands o1 (teardown op (fallBack o1 h reason reply s3)) (l_out l) ((a # as) @ later) ((a # as) @ later)
          (l_out l', l_verdicts l', as @ later)" for h reason
        using all_ok_prefix [OF ok grow_teardown [OF grow_fallBack [OF prefix_order.refl]]] d
        by (auto simp: hands_back_def suffix_Cons)
      have stopped: "hands o1 (teardown op s3) (l_out l) ((a # as) @ later) may
          (unattempted (as @ later) (no_answer ClassPolicy why) l')" for may
        using give_all_ok [OF all_ok_prefix [OF ok grow_teardown [OF prefix_order.refl]] no_answer_ok] d
        by (auto simp: hands_back_def unattempted_def)
      have on: ?thesis if "ask_addrs op o1 req foreign later as l' s3 = (x, st')"
      proof (cases x)
        case (Inl z)
        with Cons.IH [OF that ok] hb [of st' z] show ?thesis by simp
      next
        case (Inr l2)
        with Cons.IH [OF that ok] d show ?thesis by auto
      qed
      show ?thesis
        using Cons.prems(1) limit refused stopped [of "if foreign then (a # as) @ later else []"] on
        unfolding eq relay_def by (auto split: if_splits)
    qed
  qed
qed auto

lemma grow_ask_addrs:
  "ask_addrs op o1 req foreign later as l st = (x, st') \<Longrightarrow> prefix es (log st) \<Longrightarrow> prefix es (log st')"
proof (induction as arbitrary: l st)
  case (Cons a as)
  define first where "first = (if l_asked l > 0 then acquire op o1 req st else (None, st))"
  obtain e s1 where e: "first = (e, s1)" by (cases first)
  have s1: "prefix es (log s1)" using e Cons.prems(2) grow_acquire [of op o1 req st e s1 es] by (auto simp: first_def split: if_splits)
  obtain y s2 where y: "step op (rcpt_cmd a) s1 = (y, s2)" by (metis prod.exhaust)
  have s2: "prefix es (log s2)" using grow_step [OF y s1] .
  have s3: "prefix es (log s3)" if "rcpt_answer op o1 req relay code reply s2 = (res, s3)" for relay code reply res s3
    using grow_rcpt_answer [OF that s2] .
  show ?case
    using Cons.prems(1) e y s1 s2 s3 Cons.IH
    by (auto simp: first_def [symmetric] Let_def regroupFrom_def split: option.splits sum.splits prod.splits if_splits
        intro!: grow_teardown grow_fallBack)
qed simp


lemma next_transaction_answers:
  "next_transaction op o1 req rest cmds l st = (x, st') \<Longrightarrow> fine o1 st (l_out l) \<Longrightarrow>
    prefix (log st) (log st') \<and> (case x of None \<Rightarrow> True | Some y \<Rightarrow> hands o1 st' (l_out l) rest rest y)"
proof (induction cmds arbitrary: st)
  case (Cons cmd cmds)
  obtain r s1 where r: "step op cmd st = (r, s1)" by (metis prod.exhaust)
  have s1: "prefix (log st) (log s1)" using grow_step [OF r prefix_order.refl] .
  note ok = all_ok_prefix [OF Cons.prems(2)]
  have IH: ?case if "next_transaction op o1 req rest cmds l s1 = (x, st')"
    using Cons.IH [OF that ok [OF s1]] s1 prefix_order.trans by blast
  have un: "hands o1 z (l_out l) rest rest (unattempted rest w l)"
    if "prefix (log st) (log z)" "\<And>a. res_ok (own_identity o1) (log z) a w" for z :: "'a pst" and w
    using unattempted_hands [OF ok [OF that(1)]] that(2) by blast
  have re: "hands o1 z (l_out l) rest rest (l_out l, l_verdicts l, rest)" if "prefix (log st) (log z)" for z :: "'a pst"
    using ok [OF that] by (auto simp: hands_back_def)
  show ?case
  proof (cases r)
    case (Inl e)
    with Cons.prems(1) r un [OF s1 no_answer_ok] s1 show ?thesis by auto
  next
    case (Inr cr)
    obtain code reply where cr: "cr = (code, reply)" by (cases cr)
    have g: "prefix (log st) (log (observe op o1 (MXHost req) (beforeRCPT o1 code reply) s1))"
      "prefix (log st) (log (teardown op (fallBack o1 (MXHost req) FallbackMailFrom reply s1)))"
      by (intro growing s1)+
    show ?thesis
      using Cons.prems(1) r Inr cr IH un [OF g(1) refused_result_ok] re [OF g(2)] g
      by (auto simp: Let_def regroupFrom_def split: if_splits)
  qed
qed simp

lemma hands_back_more:
  assumes "hands_back i es m' as may w" "dom m' = dom m \<union> set bs" "suffix may may'"
  shows "hands_back i es m (bs @ as) may' w"
  using assms by (auto simp: hands_back_def intro: suffix_order.trans)

lemma ask_groups_answers:
  "ask_groups op o1 req grouped further gs l st = (y, st') \<Longrightarrow> fine o1 st (l_out l) \<Longrightarrow>
    hands o1 st' (l_out l) (concat (map g_addrs gs)) (concat (map g_addrs (if further then gs else tl gs))) y"
proof (induction gs arbitrary: further l st)
  case Nil
  then show ?case using all_ok_prefix [OF Nil.prems(2) grow_teardown [OF prefix_order.refl]] by (auto simp: hands_back_def)
next
  case (Cons g gs)
  let ?later = "concat (map g_addrs gs)"
  define start where "start = (if further
      then next_transaction op o1 req (g_addrs g @ ?later) [''RSET'', mail_cmd o1 req] l st else (None, st))"
  obtain x s1 where x: "start = (x, s1)" by (cases start)
  have start: "fine o1 s1 (l_out l)" "x = Some o2 \<Longrightarrow> further \<and> hands o1 s1 (l_out l) (g_addrs g @ ?later) (g_addrs g @ ?later) o2" for o2
    using x next_transaction_answers [of op o1 req "g_addrs g @ ?later" "[''RSET'', mail_cmd o1 req]" l st x s1] Cons.prems(2)
    by (auto simp: start_def simp del: next_transaction.simps intro: all_ok_prefix split: if_splits)
  obtain z s2 where z: "ask_addrs op o1 req (grouped \<and> further) ?later (g_addrs g) l s1 = (z, s2)" by (metis prod.exhaust)
  note A = ask_addrs_answers [OF z start(1)]
  have may: "suffix ?later (concat (map g_addrs (if further then g # gs else tl (g # gs))))" by (simp add: suffix_appendI)
  show ?case
  proof (cases x)
    case (Some o2)
    with x Cons.prems(1) have "y = o2" "st' = s1"
      by (simp_all add: Let_def start_def [symmetric] del: next_transaction.simps)
    with start(2) Some show ?thesis by simp
  next
    case None
    show ?thesis
    proof (cases z)
      case (Inl o2)
      with A may have "hands o1 s2 (l_out l) (g_addrs g @ ?later) (concat (map g_addrs (if further then g # gs else tl (g # gs)))) o2"
        by (auto simp: hands_back_def split: if_splits)
      with Inl x None z Cons.prems(1) show ?thesis by (simp add: start_def [symmetric] del: next_transaction.simps)
    next
      case (Inr l')
      with A have l': "dom (l_out l') = dom (l_out l) \<union> set (g_addrs g)" "fine o1 s2 (l_out l')" by auto
      obtain v s3 where v: "askCatchAll op o1 req (g_domain g) (g_addrs g) (l_out l') s2 = (v, s3)" by (metis prod.exhaust)
      have s3: "fine o1 s3 (l_out l')" using all_ok_prefix [OF l'(2) grow_askCatchAll [OF v prefix_order.refl]] .
      have "hands o1 st' (l_out l') ?later ?later y"
        using Cons.prems(1) x None z Inr v l'(2) s3
          Cons.IH [of True "l'\<lparr>l_verdicts := (l_verdicts l')(g_domain g \<mapsto> v)\<rparr>" s3] Cons.IH [of True l' s2]
        by (auto simp: start_def [symmetric] simp del: next_transaction.simps split: if_splits)
      from hands_back_more [OF this l'(1) may] show ?thesis by simp
    qed
  qed
qed

definition session_ok :: "prober_options \<Rightarrow> group list \<Rightarrow> outcome \<times> 'w pst \<Rightarrow> bool" where
  "session_ok o1 gs x \<longleftrightarrow> hands o1 (snd x) Map.empty (concat (map g_addrs gs)) (concat (map g_addrs (tl gs))) (fst x)"

lemma transact_ok: "session_ok o1 groups (transact op o1 req groups grouped st)"
proof (cases "expect op o1 req (concat (map g_addrs groups)) (mail_cmd o1 req) 250 st")
  case (Pair x s1)
  show ?thesis
  proof (cases x)
    case (Inl o2)
    with Pair show ?thesis by (auto simp: transact_def session_ok_def intro!: answers_hands expect_answers)
  next
    case (Inr t)
    obtain y s2 where y: "ask_groups op o1 req grouped False groups
        \<lparr>l_out = Map.empty, l_verdicts = Map.empty, l_policyRun = 0, l_asked = 0\<rparr> s1 = (y, s2)" by (metis prod.exhaust)
    from ask_groups_answers [OF y] Pair Inr y show ?thesis by (simp add: transact_def session_ok_def)
  qed
qed

section \<open>The whole session\<close>

lemma session_ok_fail:
  "(\<And>i es. answers i es (concat (map g_addrs gs)) x) \<Longrightarrow> session_ok o1 gs (x, st)"
  by (simp add: session_ok_def answers_hands)

lemma session_ok_map:
  assumes "session_ok o1 gs ((out, vs, rest), st)" "prefix (log st) (log st')"
    "\<And>i es a r. res_ok i es a r \<Longrightarrow> res_ok i es a (f r)"
  shows "session_ok o1 gs (((\<lambda>a. map_option f (out a)), vs, rest), st')"
proof -
  have "dom (\<lambda>a. map_option f (out a)) = dom out" by (auto simp: dom_def)
  then show ?thesis
    using assms all_ok_prefix [of _ "log st" out "log st'"] by (auto simp: session_ok_def hands_back_def intro!: all_ok_map)
qed

lemma leave_ok: "session_ok o1 gs x \<Longrightarrow> session_ok o1 gs (leave op o2 x)"
  by (auto simp: leave_def session_ok_def intro!: growing split: prod.split elim!: hands_back_prefix)

lemma stamp_ok: "session_ok o1 gs x \<Longrightarrow> session_ok o1 gs (stamp tls n x)"
  by (auto simp: stamp_def res_ok_def backed_def prefix_def intro!: session_ok_map split: prod.splits)

lemma relabel_ok: "res_ok i es a r \<Longrightarrow> res_ok i es a (if rerun_failed r then tls_failed_result o1 e r else r)"
  by (auto simp: res_ok_def rerun_failed_def tls_failed_result_def backed_def)

lemma greet_answers: "greet op o1 req as st = (Inl x, st') \<Longrightarrow> answers i es as x"
  by (auto simp: greet_def split: prod.splits sum.splits dest: expect_answers)

lemma secure_answers: "secure op o1 req as reply st = (TLSFail tls x, st') \<Longrightarrow> answers i es as x"
  by (auto simp: secure_def Let_def split: if_splits prod.splits bool.splits sum.splits dest: expect_answers)

lemma converse_ok:
  assumes "skipTLS req \<or> (\<forall>rq s. skipTLS rq \<longrightarrow> session_ok o1 groups (again rq s))"
  shows "session_ok o1 groups (converse op o1 again req groups grouped st)"
proof -
  let ?as = "concat (map g_addrs groups)"
  obtain x s1 where x: "greet op o1 req ?as st = (x, s1)" by (metis prod.exhaust)
  show ?thesis
  proof (cases x)
    case (Inl o2)
    with x show ?thesis by (auto simp: converse_def intro!: leave_ok session_ok_fail greet_answers)
  next
    case (Inr reply)
    obtain y s2 where y: "secure op o1 req ?as reply s1 = (y, s2)" by (metis prod.exhaust)
    show ?thesis
    proof (cases y)
      case (Carry tls)
      with x Inr y show ?thesis by (auto simp: converse_def intro!: stamp_ok leave_ok transact_ok)
    next
      case (TLSFail tls o2)
      with x Inr y show ?thesis by (auto simp: converse_def intro!: stamp_ok leave_ok session_ok_fail secure_answers)
    next
      case (Rerun e)
      then have "\<not> skipTLS req" using y by (auto simp: secure_def split: if_splits)
      with assms have again: "skipTLS rq \<Longrightarrow> session_ok o1 groups (again rq s)" for rq s by blast
      let ?s = "release op o1 (emit Closed (tell (markTLSBroken_op op (MXHost req)) s2))"
      obtain out vs rest s3 where a: "again (req\<lparr>skipTLS := True\<rparr>) ?s = ((out, vs, rest), s3)"
        by (metis prod.exhaust)
      have ok: "session_ok o1 groups ((out, vs, rest), s3)" using again [of "req\<lparr>skipTLS := True\<rparr>" ?s] a by simp
      have "session_ok o1 groups ((relabel o1 e out, vs, rest), s3)"
        "session_ok o1 groups ((relabel o1 e out, vs, rest), emit (TLSSession ''failed'') s3)"
        unfolding relabel_def by (rule session_ok_map [OF ok]; simp add: relabel_ok)+
      with x Inr y Rerun a show ?thesis by (simp add: converse_def)
    qed
  qed
qed

lemma session_with_ok:
  assumes "skipTLS req \<or> (\<forall>rq s. skipTLS rq \<longrightarrow> session_ok o1 groups (again rq s))"
  shows "session_ok o1 groups (session_with op o1 again req groups grouped st)"
  using converse_ok [OF assms, of op grouped]
  by (auto simp: session_with_def Let_def refused_result_ok intro!: session_ok_fail
      split: prod.split option.split sum.split resolve_fail.split)

lemma session_is_ok: "session_ok o1 groups (session op o1 req groups grouped st)"
  unfolding session_def by (rule session_with_ok) (simp add: plain_session_def session_with_ok)

section \<open>A session only adds to the log\<close>

lemma grow_expect: "expect op o1 req as cmd want st = (r, st') \<Longrightarrow> prefix es (log st) \<Longrightarrow> prefix es (log st')"
  by (auto simp: expect_def Let_def intro!: growing dest!: grow_step [of op cmd st _ _ es]
      split: prod.splits sum.splits if_splits)

lemma grow_greet: "greet op o1 req as st = (r, st') \<Longrightarrow> prefix es (log st) \<Longrightarrow> prefix es (log st')"
  by (auto simp: greet_def split: prod.splits sum.splits dest!: grow_expect)

lemma grow_secure:
  assumes "secure op o1 req as reply st = (r, st')" "prefix es (log st)"
  shows "prefix es (log st')"
proof (cases "skipTLS req \<or> \<not> startTLS o1 \<or> \<not> advertisesSTARTTLS reply")
  case True
  with assms show ?thesis by (auto simp: secure_def split: if_splits)
next
  case False
  obtain t s1 where t: "call (tlsBroken_op op (MXHost req)) st = (t, s1)" by (metis prod.exhaust)
  obtain x s2 where x: "step op ''STARTTLS'' s1 = (x, s2)" by (metis prod.exhaust)
  obtain u s3 where u: "call (upgrade_op op (MXHost req)) s2 = (u, s3)" by (metis prod.exhaust)
  obtain y s4 where y: "expect op o1 req as (ehlo o1 req) 250 (emit Encrypted (s3\<lparr>unread := []\<rparr>)) = (y, s4)"
    by (metis prod.exhaust)
  have s1: "prefix es (log s1)" using grow_call [OF t assms(2)] .
  have s2: "prefix es (log s2)" using grow_step [OF x s1] .
  have s3: "prefix es (log s3)" using grow_call [OF u s2] .
  then have "prefix es (log s4)" using grow_expect [OF y] by (simp add: prefix_append)
  with False assms(1) t x u y s1 s2 s3 show ?thesis
    by (auto simp: secure_def Let_def split: bool.splits sum.splits prod.splits if_splits)
qed

lemma grow_next_transaction:
  "next_transaction op o1 req rest cmds l st = (x, st') \<Longrightarrow> prefix es (log st) \<Longrightarrow> prefix es (log st')"
proof (induction cmds arbitrary: st)
  case (Cons cmd cmds)
  obtain r s1 where r: "step op cmd st = (r, s1)" by (metis prod.exhaust)
  have s1: "prefix es (log s1)" using grow_step [OF r Cons.prems(2)] .
  with Cons.prems(1) r Cons.IH [of s1] show ?case
    by (auto simp: Let_def regroupFrom_def intro!: growing split: sum.splits prod.splits if_splits)
qed simp

lemma grow_ask_groups:
  "ask_groups op o1 req grouped further gs l st = (y, st') \<Longrightarrow> prefix es (log st) \<Longrightarrow> prefix es (log st')"
proof (induction gs arbitrary: further l st)
  case Nil
  then show ?case by (auto intro: growing)
next
  case (Cons g gs)
  let ?later = "concat (map g_addrs gs)"
  define start where "start = (if further
      then next_transaction op o1 req (g_addrs g @ ?later) [''RSET'', mail_cmd o1 req] l st else (None, st))"
  obtain x s1 where x: "start = (x, s1)" by (cases start)
  have s1: "prefix es (log s1)" using x Cons.prems(2) grow_next_transaction [of op o1 req _ _ l st x s1 es]
    by (auto simp: start_def simp del: next_transaction.simps split: if_splits)
  obtain z s2 where z: "ask_addrs op o1 req (grouped \<and> further) ?later (g_addrs g) l s1 = (z, s2)" by (metis prod.exhaust)
  have s2: "prefix es (log s2)" using grow_ask_addrs [OF z s1] .
  have s3: "prefix es (log s3)" if "askCatchAll op o1 req d as out s2 = (v, s3)" for d as out v s3
    using grow_askCatchAll [OF that s2] .
  show ?case
    using Cons.prems(1) x z s1 s2 s3 Cons.IH
    by (auto simp: Let_def start_def [symmetric] simp del: next_transaction.simps split: option.splits sum.splits prod.splits if_splits)
qed

lemma grow_transact: "prefix es (log st) \<Longrightarrow> prefix es (log (snd (transact op o1 req groups grouped st)))"
  by (auto simp: transact_def split: prod.split sum.split dest!: grow_expect intro: grow_ask_groups [OF surjective_pairing])

lemma grow_leave: "prefix es (log (snd x)) \<Longrightarrow> prefix es (log (snd (leave op o1 x)))"
  by (auto simp: leave_def intro!: growing split: prod.split)

lemma grow_stamp: "prefix es (log (snd x)) \<Longrightarrow> prefix es (log (snd (stamp t n x)))"
  by (auto simp: stamp_def intro!: growing split: prod.split)

lemma grow_dial_each: "dial_each op e as st = (r, st') \<Longrightarrow> prefix es (log st) \<Longrightarrow> prefix es (log st')"
proof (induction as arbitrary: e st)
  case (Cons a as)
  obtain x s1 where x: "call (dial_op op a) (emit (Dialled a) st) = (x, s1)" by (metis prod.exhaust)
  have "prefix es (log s1)" using grow_call [OF x grow_emit [OF Cons.prems(2)]] .
  with Cons x show ?case by (auto split: option.splits)
qed simp

lemma grow_leaseSession: "leaseSession op o1 req st = (r, st') \<Longrightarrow> prefix es (log st) \<Longrightarrow> prefix es (log st')"
  by (auto simp: leaseSession_def intro!: growing dest!: grow_call [of _ _ _ _ es] split: if_splits prod.splits option.splits)

lemma grow_converse:
  assumes "prefix es (log st)" "\<And>rq s. prefix es (log s) \<Longrightarrow> prefix es (log (snd (again rq s)))"
  shows "prefix es (log (snd (converse op o1 again req groups grouped st)))"
proof -
  let ?as = "concat (map g_addrs groups)"
  obtain x s1 where x: "greet op o1 req ?as st = (x, s1)" by (metis prod.exhaust)
  have s1: "prefix es (log s1)" using grow_greet [OF x assms(1)] .
  show ?thesis
  proof (cases x)
    case (Inl o2)
    with x s1 grow_leave [of es "(o2, s1)"] show ?thesis by (simp add: converse_def)
  next
    case (Inr reply)
    obtain y s2 where y: "secure op o1 req ?as reply s1 = (y, s2)" by (metis prod.exhaust)
    have s2: "prefix es (log s2)" using grow_secure [OF y s1] .
    let ?s = "release op o1 (emit Closed (tell (markTLSBroken_op op (MXHost req)) s2))"
    obtain out vs rest s3 where a: "again (req\<lparr>skipTLS := True\<rparr>) ?s = ((out, vs, rest), s3)" by (metis prod.exhaust)
    have "prefix es (log s3)" using assms(2) [of ?s "req\<lparr>skipTLS := True\<rparr>"] a s2 by (simp add: prefix_append)
    with x Inr y s2 a show ?thesis
      by (cases y) (simp_all add: converse_def grow_stamp grow_leave grow_transact prefix_append)
  qed
qed

lemma grow_session_with:
  assumes "prefix es (log st)" "\<And>rq s. prefix es (log s) \<Longrightarrow> prefix es (log (snd (again rq s)))"
  shows "prefix es (log (snd (session_with op o1 again req groups grouped st)))"
proof -
  obtain b s1 where b: "call (burned_op op) st = (b, s1)" by (metis prod.exhaust)
  obtain r s2 where r: "call (resolve_op op (MXHost req)) s1 = (r, s2)" by (metis prod.exhaust)
  obtain le s3 where le: "leaseSession op o1 req s2 = (le, s3)" by (metis prod.exhaust)
  obtain e s4 where e: "acquire op o1 req s3 = (e, s4)" by (metis prod.exhaust)
  have s1: "prefix es (log s1)" using grow_call [OF b assms(1)] .
  have s2: "prefix es (log s2)" using grow_call [OF r s1] .
  have s3: "prefix es (log s3)" using grow_leaseSession [OF le s2] .
  have s4: "prefix es (log s4)" using grow_acquire [OF e s3] .
  have s5: "prefix es (log s5)" if "dialAny op ips s4 = (d, s5)" for ips d s5
    using grow_dial_each [OF that [unfolded dialAny_def] s4] .
  show ?thesis
    using b r le e s1 s2 s3 s4 s5 grow_converse [where again = again, OF _ assms(2)]
    by (auto simp: session_with_def Let_def prefix_append split: option.splits sum.splits resolve_fail.splits prod.splits)
qed

lemma grow_session: "prefix es (log st) \<Longrightarrow> prefix es (log (snd (session op o1 req groups grouped st)))"
  unfolding session_def by (rule grow_session_with) (auto simp: plain_session_def intro!: grow_session_with)

end
