(* ===== verification/Probe.thy ===== *)
theory Probe
  imports Verdict
begin

text \<open>
  A whole request: \<open>Probe\<close>, \<open>probe\<close> and \<open>probeDomains\<close> of \<open>internal/prober/prober.go\<close>, over the sessions
  of the session model.

  Suppression and the profiles of servers are operations on the environment, beside those of a
  session. The queue of a multi-domain request may run again what a receiver refused to group, so its
  loop is a partial function: that it returns is a theorem, not an assumption. Where the source ranges
  over a Go map (to report the results, to find a randomiser among the verdicts) the order is not
  specified there; the model takes the order of the request.
\<close>

section \<open>Services and reports\<close>

text \<open>\<open>enforcing\<close> says that a suppression list is set and enforces, \<open>profiled\<close> that profiles are set.\<close>

record 'w services =
  enforcing :: bool
  suppressed_op :: "string \<Rightarrow> 'w \<Rightarrow> (string + bool \<times> string) \<times> 'w"
  profiled :: bool
  isRandomiser_op :: "string \<Rightarrow> 'w \<Rightarrow> bool \<times> 'w"
  markRandomiser_op :: "string \<Rightarrow> 'w \<Rightarrow> 'w"

datatype probe_error = MXHostRequired | EmailsEmpty

record response =
  Results :: results
  RPaceKey :: string
  RMultiDomain :: bool

definition explain :: "prober_options \<Rightarrow> string \<Rightarrow> result \<Rightarrow> 'w pst \<Rightarrow> 'w pst" where
  "explain o1 mxHost r st =
     (if \<not> explains (RClass r) then st
      else let limit = (if o_replyMaxChars o1 = 0 then DefaultReplyMaxChars else o_replyMaxChars o1)
           in emit (Explained mxHost (RClass r) (SMTPCode r) (ECode r) (redactReply (RReply r) limit)
                (redactReply (RErr r) limit) (TLS r)) st)"

definition blocked_reason :: "result \<Rightarrow> string option" where
  "blocked_reason r =
     (if RClass r \<in> {ClassGuarded, ClassNoBudget, ClassPaused, ClassIPBurned, ClassSuppressed} then Some (class_name (RClass r))
      else if RClass r = ClassPolicy \<and> has_prefix (RErr r) ''not attempted:'' then Some ''policy_stop''
      else None)"

definition record_result :: "prober_options \<Rightarrow> string \<Rightarrow> result \<Rightarrow> 'w pst \<Rightarrow> 'w pst" where
  "record_result o1 mxHost r st = emit (Counted (RClass r) (SMTPCode r) (blocked_reason r)) (explain o1 mxHost r st)"

definition record_all :: "prober_options \<Rightarrow> string \<Rightarrow> string list \<Rightarrow> results \<Rightarrow> 'w pst \<Rightarrow> 'w pst" where
  "record_all o1 mxHost as out st =
     fold (\<lambda>a st. case out a of None \<Rightarrow> st | Some r \<Rightarrow> record_result o1 mxHost r st) (remdups as) st"

section \<open>Suppression\<close>

fun unsuppressed_loop ::
  "'w services \<Rightarrow> string list \<Rightarrow> results \<Rightarrow> 'w pst \<Rightarrow> (string list \<times> results) \<times> 'w pst" where
  "unsuppressed_loop sv [] into st = (([], into), st)"
| "unsuppressed_loop sv (a # as) into st =
     (case call (suppressed_op sv a) st of
        (Inl e, st) \<Rightarrow>
          (case unsuppressed_loop sv as into (emit (SuppressionUnread e) st) of ((allowed, into), st) \<Rightarrow> ((a # allowed, into), st))
      | (Inr (hit, reason), st) \<Rightarrow>
          if hit then unsuppressed_loop sv as (into(a \<mapsto> no_answer ClassSuppressed reason)) st
          else (case unsuppressed_loop sv as into st of ((allowed, into), st) \<Rightarrow> ((a # allowed, into), st)))"

definition unsuppressed ::
  "'w services \<Rightarrow> string list \<Rightarrow> results \<Rightarrow> 'w pst \<Rightarrow> (string list \<times> results) \<times> 'w pst" where
  "unsuppressed sv emails into st =
     (if \<not> enforcing sv then ((emails, into), st) else unsuppressed_loop sv emails into st)"

section \<open>One domain\<close>

text \<open>\<open>maxRCPT\<close> is positive, so the loop of \<open>chunks\<close> ends.\<close>

function chunks :: "'a list \<Rightarrow> nat \<Rightarrow> 'a list list" where
  "chunks s n = (if 0 < n \<and> n < length s then take n s # chunks (drop n s) n else [s])"
  by pat_completeness auto

termination
  by (relation "measure (\<lambda>(s, n). length s)") auto

declare chunks.simps [simp del]

definition undecided :: verdict where
  "undecided = \<lparr>v_catchAll = None, v_randomiser = None\<rparr>"

definition randomises :: verdict where
  "randomises = \<lparr>v_catchAll = Some True, v_randomiser = Some True\<rparr>"

definition decided :: "verdict \<Rightarrow> bool" where
  "decided v \<longleftrightarrow> v_catchAll v \<noteq> None \<or> v_randomiser v \<noteq> None"

definition set_verdict :: "verdict \<Rightarrow> result \<Rightarrow> result" where
  "set_verdict v r = r\<lparr>CatchAll := v_catchAll v, Randomiser := v_randomiser v\<rparr>"

fun ask_chunks ::
  "'w ops \<Rightarrow> prober_options \<Rightarrow> request \<Rightarrow> string list list \<Rightarrow> bool \<Rightarrow> verdict \<Rightarrow> results \<Rightarrow> 'w pst \<Rightarrow> (verdict \<times> results) \<times> 'w pst" where
  "ask_chunks op o1 req [] settled verdict out st = ((verdict, out), st)"
| "ask_chunks op o1 req (chunk # cs) settled verdict out st =
     (let probeCatchAll = (NeedCatchAll req \<and> \<not> settled)
      in case session op o1 req [\<lparr>g_domain = Domain req, g_addrs = chunk, g_askCatchAll = probeCatchAll\<rparr>] False st of
           ((results, vs, _), st) \<Rightarrow>
             (let v = (case vs (Domain req) of None \<Rightarrow> undecided | Some v \<Rightarrow> v)
              in if probeCatchAll \<and> decided v
                 then ask_chunks op o1 req cs True v (out ++ results) st
                 else ask_chunks op o1 req cs settled verdict (out ++ results) st))"

definition known_randomiser :: "'w services \<Rightarrow> string \<Rightarrow> 'w pst \<Rightarrow> bool \<times> 'w pst" where
  "known_randomiser sv mxHost st = (if profiled sv then call (isRandomiser_op sv mxHost) st else (False, st))"

definition probe_single ::
  "'w ops \<Rightarrow> 'w services \<Rightarrow> prober_options \<Rightarrow> request \<Rightarrow> 'w pst \<Rightarrow> (probe_error + results) \<times> 'w pst" where
  "probe_single op sv o1 req st =
     (if Emails req = [] then (Inl EmailsEmpty, st)
      else case unsuppressed sv (Emails req) Map.empty st of
        ((emails, out), st) \<Rightarrow>
          if emails = [] then (Inr out, record_all o1 (MXHost req) (Emails req) out st)
          else case known_randomiser sv (MXHost req) st of
            (known, st) \<Rightarrow>
              (case ask_chunks op o1 req (chunks emails (maxRCPT o1)) known (if known then randomises else undecided) out st of
                 ((v, out), st) \<Rightarrow>
                   (let st = (if v_randomiser v = Some True \<and> \<not> known \<and> profiled sv
                              then tell (markRandomiser_op sv (MXHost req)) st else st);
                        out = (if decided v then (\<lambda>a. map_option (set_verdict v) (out a)) else out)
                    in (Inr out, record_all o1 (MXHost req) (Emails req) out st))))"

section \<open>Several domains\<close>

text \<open>\<open>mergeGroups\<close>: the groups under their normalised domain, and the addresses seen.\<close>

definition group_key :: "domain_group \<Rightarrow> string" where
  "group_key g = to_lower (trim_suffix (trim_space (dg_domain g)) ''.'')"

fun fresh :: "string list \<Rightarrow> string list \<Rightarrow> string list \<times> string list" where
  "fresh seen [] = ([], seen)"
| "fresh seen (e # es) =
     (if e \<in> set seen then fresh seen es
      else case fresh (e # seen) es of (new, seen) \<Rightarrow> (e # new, seen))"

definition merge_step ::
  "domain_group \<Rightarrow> (string \<times> domain_group) list \<times> string list \<Rightarrow> (string \<times> domain_group) list \<times> string list" where
  "merge_step g acc =
     (case acc of (out, seen) \<Rightarrow>
        let d = group_key g;
            out = (if d \<in> set (map fst out) then out
                   else out @ [(d, \<lparr>dg_domain = dg_domain g, dg_emails = [], dg_need = False\<rparr>)])
        in case fresh seen (dg_emails g) of
             (new, seen) \<Rightarrow>
               (map (\<lambda>(k, h). if k = d then (k, h\<lparr>dg_need := dg_need h \<or> dg_need g, dg_emails := dg_emails h @ new\<rparr>)
                              else (k, h)) out, seen))"

definition mergeGroups :: "domain_group list \<Rightarrow> domain_group list" where
  "mergeGroups gs = map snd (fst (fold merge_step gs ([], [])))"

fun take_more :: "nat \<Rightarrow> nat \<Rightarrow> group list \<Rightarrow> group list \<times> group list" where
  "take_more limit filled [] = ([], [])"
| "take_more limit filled (g # gs) =
     (if filled + length (g_addrs g) \<le> limit
      then case take_more limit (filled + length (g_addrs g)) gs of (batch, rest) \<Rightarrow> (g # batch, rest)
      else ([], g # gs))"

text \<open>The queue is not empty when it is called.\<close>

fun takeSession :: "group list \<Rightarrow> nat \<Rightarrow> bool \<Rightarrow> group list \<times> group list" where
  "takeSession [] limit grouped = ([], [])"
| "takeSession (first # queue) limit grouped =
     (if limit < length (g_addrs first)
      then ([\<lparr>g_domain = g_domain first, g_addrs = take limit (g_addrs first), g_askCatchAll = False\<rparr>],
            \<lparr>g_domain = g_domain first, g_addrs = drop limit (g_addrs first), g_askCatchAll = False\<rparr> # queue)
      else if grouped
      then case take_more limit (length (g_addrs first)) queue of (batch, rest) \<Rightarrow> (first # batch, rest)
      else ([first], queue))"

definition regroup_step :: "(string \<Rightarrow> string) \<Rightarrow> string \<Rightarrow> group list \<Rightarrow> group list" where
  "regroup_step domainOf a out =
     (if out \<noteq> [] \<and> g_domain (last out) = domainOf a
      then butlast out @ [(last out)\<lparr>g_addrs := g_addrs (last out) @ [a]\<rparr>]
      else out @ [\<lparr>g_domain = domainOf a, g_addrs = [a], g_askCatchAll = False\<rparr>])"

definition regroup :: "string list \<Rightarrow> (string \<Rightarrow> string) \<Rightarrow> group list" where
  "regroup as domainOf = fold (regroup_step domainOf) as []"

definition domain_of :: "domain_group list \<Rightarrow> string \<Rightarrow> string" where
  "domain_of gs a = fold (\<lambda>g d. if a \<in> set (dg_emails g) then dg_domain g else d) gs []"

definition need_of :: "domain_group list \<Rightarrow> string \<Rightarrow> bool" where
  "need_of gs d = fold (\<lambda>g b. if dg_domain g = d then dg_need g else b) gs False"

fun enqueue ::
  "'w services \<Rightarrow> domain_group list \<Rightarrow> results \<Rightarrow> 'w pst \<Rightarrow> (group list \<times> results) \<times> 'w pst" where
  "enqueue sv [] out st = (([], out), st)"
| "enqueue sv (g # gs) out st =
     (case unsuppressed sv (dg_emails g) out st of
        ((allowed, out), st) \<Rightarrow>
          (case enqueue sv gs out st of
             ((queue, out), st) \<Rightarrow>
               ((if allowed = [] then queue
                 else \<lparr>g_domain = dg_domain g, g_addrs = allowed, g_askCatchAll = False\<rparr> # queue, out), st)))"

text \<open>One round of the queue: the next session, and what it leaves to be asked again.\<close>

type_synonym 'w queue_state = "bool \<times> group list \<times> (string \<rightharpoonup> verdict) \<times> results \<times> 'w pst"

definition domains_round ::
  "'w ops \<Rightarrow> prober_options \<Rightarrow> request \<Rightarrow> domain_group list \<Rightarrow> bool \<Rightarrow> 'w queue_state \<Rightarrow> 'w queue_state" where
  "domains_round op o1 req gs known q =
     (case q of (ungroup, queue, verdicts, out, st) \<Rightarrow>
        let grouped = (snd (grouping o1 (fallen st) (MXHost req)) \<and> \<not> ungroup)
        in case takeSession queue (maxRCPT o1) grouped of
             (batch, queue) \<Rightarrow>
               (let batch = map (\<lambda>g. g\<lparr>g_askCatchAll := need_of gs (g_domain g) \<and> \<not> known \<and> verdicts (g_domain g) = None\<rparr>) batch
                in case session op o1 (req\<lparr>Domain := g_domain (hd batch), Domains := []\<rparr>) batch (1 < length batch) st of
                     ((results, vs, rest), st) \<Rightarrow>
                       (ungroup \<or> rest \<noteq> [], regroup rest (domain_of gs) @ queue,
                        (\<lambda>d. case vs d of Some v \<Rightarrow> if decided v then Some v else verdicts d | None \<Rightarrow> verdicts d),
                        out ++ results, st)))"

partial_function (option) domains_loop ::
  "'w ops \<Rightarrow> prober_options \<Rightarrow> request \<Rightarrow> domain_group list \<Rightarrow> bool \<Rightarrow> 'w queue_state \<Rightarrow> 'w queue_state option" where
  "domains_loop op o1 req gs known q =
     (if fst (snd q) = [] then Some q else domains_loop op o1 req gs known (domains_round op o1 req gs known q))"

text \<open>The verdict that condemns the server, and the results it leaves.\<close>

definition condemned :: "bool \<Rightarrow> domain_group list \<Rightarrow> (string \<rightharpoonup> verdict) \<Rightarrow> verdict option" where
  "condemned known gs verdicts =
     (case find (\<lambda>g. case verdicts (dg_domain g) of Some v \<Rightarrow> v_randomiser v = Some True | None \<Rightarrow> False) gs of
        Some g \<Rightarrow> verdicts (dg_domain g)
      | None \<Rightarrow> if known then Some randomises else None)"

definition settle_results ::
  "bool \<Rightarrow> domain_group list \<Rightarrow> (string \<rightharpoonup> verdict) \<Rightarrow> results \<Rightarrow> results" where
  "settle_results known gs verdicts out =
     (\<lambda>a. map_option (\<lambda>r. case condemned known gs verdicts of
                        Some v \<Rightarrow> set_verdict v r
                      | None \<Rightarrow> (case verdicts (domain_of gs a) of Some v \<Rightarrow> set_verdict v r | None \<Rightarrow> r)) (out a))"

definition probeDomains ::
  "'w ops \<Rightarrow> 'w services \<Rightarrow> prober_options \<Rightarrow> request \<Rightarrow> 'w pst \<Rightarrow> ((probe_error + results) \<times> 'w pst) option" where
  "probeDomains op sv o1 req st =
     (let gs = mergeGroups (Domains req); emails = concat (map dg_emails gs)
      in case enqueue sv gs Map.empty st of
        ((queue, out), st) \<Rightarrow>
          if queue = []
          then if \<forall>a \<in> set emails. out a = None then Some (Inl EmailsEmpty, st)
               else Some (Inr out, record_all o1 (MXHost req) emails out st)
          else case known_randomiser sv (MXHost req) st of
            (known, st) \<Rightarrow>
              (case domains_loop op o1 req gs known (False, queue, Map.empty, out, st) of
                 None \<Rightarrow> None
               | Some (_, _, verdicts, out, st) \<Rightarrow>
                   (let found = (\<exists>g \<in> set gs. case verdicts (dg_domain g) of Some v \<Rightarrow> v_randomiser v = Some True | None \<Rightarrow> False);
                        st = (if found \<and> \<not> known \<and> profiled sv then tell (markRandomiser_op sv (MXHost req)) st else st);
                        out = settle_results known gs verdicts out
                    in Some (Inr out, record_all o1 (MXHost req) emails out st))))"

section \<open>The request\<close>

definition probe ::
  "'w ops \<Rightarrow> 'w services \<Rightarrow> prober_options \<Rightarrow> request \<Rightarrow> 'w pst \<Rightarrow> ((probe_error + results) \<times> 'w pst) option" where
  "probe op sv o1 req st =
     (if MXHost req = [] then Some (Inl MXHostRequired, st)
      else if Domains req \<noteq> [] then probeDomains op sv o1 req st
      else Some (probe_single op sv o1 req st))"

definition Probe ::
  "'w ops \<Rightarrow> 'w services \<Rightarrow> prober_options \<Rightarrow> request \<Rightarrow> 'w pst \<Rightarrow> ((probe_error + response) \<times> 'w pst) option" where
  "Probe op sv o1 req st =
     map_option (\<lambda>(r, st). (map_sum id (\<lambda>out. case grouping o1 (fallen st) (MXHost req) of
        (k, multi) \<Rightarrow> \<lparr>Results = out, RPaceKey = k, RMultiDomain = multi\<rparr>) r, st)) (probe op sv o1 req st)"

end
