(* ===== verification/Requests.thy ===== *)
theory Requests
  imports Probe
begin

text \<open>
  What a whole request promises: it returns, every address it names has a result, no verdict is made
  up, a suppressed address is never asked about, the sessions it is split into fit the limit and ask
  every address once.
\<close>

section \<open>Splitting and merging\<close>

abbreviation addresses :: "group list \<Rightarrow> string list" where
  "addresses gs \<equiv> concat (map g_addrs gs)"

lemma maxRCPT_pos [simp]: "0 < maxRCPT o1"
  by (simp add: maxRCPT_def)

lemma chunks_concat [simp]: "concat (chunks s n) = s"
proof (induction s n rule: chunks.induct)
  case (1 s n)
  then show ?case using chunks.simps [of s n] by (cases "0 < n \<and> n < length s") simp_all
qed

lemma chunks_fit: "0 < n \<Longrightarrow> c \<in> set (chunks s n) \<Longrightarrow> length c \<le> n"
proof (induction s n rule: chunks.induct)
  case (1 s n)
  then show ?case using chunks.simps [of s n] by (cases "n < length s") auto
qed

lemma fresh_spec:
  "set (fst (fresh seen es)) = set es - set seen \<and> set (snd (fresh seen es)) = set seen \<union> set es \<and>
    distinct (fst (fresh seen es))"
proof (induction es arbitrary: seen)
  case (Cons e es)
  show ?case
  proof (cases "e \<in> set seen")
    case True
    with Cons.IH [of seen] show ?thesis by (simp add: insert_absorb)
  next
    case False
    obtain n s where n: "fresh (e # seen) es = (n, s)" by (metis prod.exhaust)
    from Cons.IH [of "e # seen"] n False show ?thesis by simp blast
  qed
qed simp

text \<open>What \<open>mergeGroups\<close> has built after the groups \<open>gs\<close>: one entry per normalised domain, which needs the
  catch-all question if one of its groups does and holds addresses of its groups only; all addresses,
  once each.\<close>

definition entry_of :: "domain_group list \<Rightarrow> string \<Rightarrow> domain_group \<Rightarrow> bool" where
  "entry_of gs k h \<longleftrightarrow> group_key h = k \<and> (dg_need h \<longleftrightarrow> (\<exists>g \<in> set gs. group_key g = k \<and> dg_need g)) \<and>
     (\<forall>e \<in> set (dg_emails h). \<exists>g \<in> set gs. group_key g = k \<and> e \<in> set (dg_emails g))"

definition merge_inv :: "domain_group list \<Rightarrow> (string \<times> domain_group) list \<Rightarrow> string list \<Rightarrow> bool" where
  "merge_inv gs out seen \<longleftrightarrow>
     distinct (map fst out) \<and> set (map fst out) = set (map group_key gs) \<and>
     (\<forall>k h. (k, h) \<in> set out \<longrightarrow> entry_of gs k h) \<and>
     set seen = set (concat (map dg_emails gs)) \<and> set (concat (map (dg_emails \<circ> snd) out)) = set seen \<and>
     distinct (concat (map (dg_emails \<circ> snd) out))"

lemma group_key_upd [simp]:
  "group_key (h\<lparr>dg_need := b\<rparr>) = group_key h" "group_key (h\<lparr>dg_emails := es\<rparr>) = group_key h"
  by (simp_all add: group_key_def)

lemma map_at:
  assumes "d \<notin> fst ` set xs" "d \<notin> fst ` set ys"
  shows "map (\<lambda>(k, h). if k = d then (k, f h) else (k, h)) (xs @ (d, h) # ys) = xs @ (d, f h) # ys"
proof -
  have "map (\<lambda>(k, h). if k = d then (k, f h) else (k, h)) zs = zs" if "d \<notin> fst ` set zs" for zs
    using that by (intro map_idI) (force split: prod.split)
  with assms show ?thesis by simp
qed

lemma merge_step_inv:
  assumes "merge_inv gs out seen" "merge_step g (out, seen) = (out', seen')"
  shows "merge_inv (gs @ [g]) out' seen'"
proof -
  define d where "d = group_key g"
  define out1 where "out1 = (if d \<in> set (map fst out) then out
     else out @ [(d, \<lparr>dg_domain = dg_domain g, dg_emails = [], dg_need = False\<rparr>)])"
  have keys: "distinct (map fst out1)" "set (map fst out1) = insert d (set (map group_key gs))"
    and emails: "concat (map (dg_emails \<circ> snd) out1) = concat (map (dg_emails \<circ> snd) out)"
    using assms(1) by (auto simp: out1_def merge_inv_def)
  have entries: "entry_of gs k h" if "(k, h) \<in> set out1" for k h
  proof (cases "(k, h) \<in> set out")
    case True
    with assms(1) show ?thesis by (simp add: merge_inv_def)
  next
    case False
    with that have new: "k = d" "h = \<lparr>dg_domain = dg_domain g, dg_emails = [], dg_need = False\<rparr>" "d \<notin> set (map fst out)"
      by (auto simp: out1_def split: if_splits)
    have "d \<notin> set (map group_key gs)" using new(3) assms(1) by (metis merge_inv_def)
    then have "\<not> (\<exists>g \<in> set gs. group_key g = d \<and> dg_need g)" by auto
    moreover have "group_key h = d" using new(2) by (simp add: d_def group_key_def)
    ultimately show ?thesis using new(1,2) by (simp add: entry_of_def)
  qed
  obtain xs h ys where o1: "out1 = xs @ (d, h) # ys"
    using keys(2) split_list [of d "map fst out1"] by (auto simp: map_eq_append_conv)
  then have notin: "d \<notin> fst ` set xs" "d \<notin> fst ` set ys" using keys(1) by auto
  define ext where "ext new h = h\<lparr>dg_need := dg_need h \<or> dg_need g, dg_emails := dg_emails h @ new\<rparr>" for new and h :: domain_group
  obtain new s where n: "fresh seen (dg_emails g) = (new, s)" by (metis prod.exhaust)
  have "merge_step g (out, seen) = (map (\<lambda>(k, h). if k = d then (k, ext new h) else (k, h)) out1, s)"
    by (simp add: merge_step_def d_def out1_def ext_def n Let_def split_beta)
  with assms(2) map_at [OF notin, of "ext new" h] have out': "out' = xs @ (d, ext new h) # ys" and s: "s = seen'"
    by (simp_all add: o1)
  have new: "set new = set (dg_emails g) - set seen" "set seen' = set seen \<union> set (dg_emails g)" "distinct new"
    using fresh_spec [of seen "dg_emails g"] by (simp_all add: n s)
  have dist: "distinct (concat (map (dg_emails \<circ> snd) out1))" "set (concat (map (dg_emails \<circ> snd) out1)) = set seen"
    using assms(1) by (simp_all add: merge_inv_def emails)
  have "distinct (concat (map (dg_emails \<circ> snd) out'))" "set (concat (map (dg_emails \<circ> snd) out')) = set seen'"
    using dist new by (auto simp: o1 out' ext_def)
  moreover have "entry_of (gs @ [g]) k h'" if "(k, h') \<in> set out'" for k h'
  proof (cases "k = d")
    case True
    with that notin have "h' = ext new h" by (force simp: out')
    moreover have "entry_of gs d h" by (rule entries) (simp add: o1)
    ultimately show ?thesis using True new(1) by (auto simp: entry_of_def ext_def d_def)
  next
    case False
    with that have "entry_of gs k h'" by (intro entries) (auto simp: out' o1)
    with False show ?thesis by (auto simp: entry_of_def d_def)
  qed
  moreover have "distinct (map fst out')" "set (map fst out') = set (map group_key (gs @ [g]))"
    using keys by (auto simp: o1 out' d_def)
  ultimately show ?thesis using assms(1) new(2) by (auto simp: merge_inv_def)
qed

lemma merge_fold_inv: "case fold merge_step gs ([], []) of (out, seen) \<Rightarrow> merge_inv gs out seen"
proof (induction gs rule: rev_induct)
  case Nil
  then show ?case by (simp add: merge_inv_def)
next
  case (snoc g gs)
  then show ?case by (auto simp: merge_step_inv split: prod.splits)
qed

lemma merged_emails:
  "distinct (concat (map dg_emails (mergeGroups gs)))"
  "set (concat (map dg_emails (mergeGroups gs))) = set (concat (map dg_emails gs))"
  using merge_fold_inv [of gs] by (auto simp: mergeGroups_def merge_inv_def o_def split: prod.splits)

text \<open>
  Merging loses nothing and asks nothing twice: the merged groups hold exactly the addresses of the
  request, each once; their domains are different after normalisation and are those of the request;
  and a domain is asked the catch-all question when one of its groups asks for it.
\<close>

theorem mergeGroups_exact:
  "distinct (concat (map dg_emails (mergeGroups gs))) \<and>
   set (concat (map dg_emails (mergeGroups gs))) = set (concat (map dg_emails gs)) \<and>
   distinct (map group_key (mergeGroups gs)) \<and> set (map group_key (mergeGroups gs)) = set (map group_key gs) \<and>
   filter (\<lambda>h. dg_need h \<noteq> list_ex (\<lambda>g. group_key g = group_key h \<and> dg_need g) gs) (mergeGroups gs) = []"
proof -
  obtain out seen where f: "fold merge_step gs ([], []) = (out, seen)" by (metis prod.exhaust)
  with merge_fold_inv [of gs] have inv: "merge_inv gs out seen" by simp
  have m: "mergeGroups gs = map snd out" by (simp add: mergeGroups_def f)
  have keys: "map group_key (map snd out) = map fst out"
    using inv by (auto simp: merge_inv_def entry_of_def)
  have "filter (\<lambda>h. dg_need h \<noteq> list_ex (\<lambda>g. group_key g = group_key h \<and> dg_need g) gs) (map snd out) = []"
    using inv by (auto simp: merge_inv_def entry_of_def filter_empty_conv list_ex_iff)
  with inv show ?thesis unfolding m keys by (simp add: merge_inv_def o_def)
qed

section \<open>Sessions of the queue\<close>

definition full :: "group list \<Rightarrow> bool" where
  "full gs \<longleftrightarrow> (\<forall>g \<in> set gs. g_addrs g \<noteq> [])"

lemma take_more_split:
  "take_more limit n gs = (batch, rest) \<Longrightarrow>
    gs = batch @ rest \<and> (n \<le> limit \<longrightarrow> n + length (addresses batch) \<le> limit)"
proof (induction limit n gs arbitrary: batch rest rule: take_more.induct)
  case (2 limit n g gs)
  then show ?case by (auto split: if_splits prod.splits)
qed simp

lemma takeSession_split:
  assumes "takeSession queue limit grouped = (batch, rest)" "queue \<noteq> []" "0 < limit" "full queue"
  shows "addresses batch @ addresses rest = addresses queue \<and> length (addresses batch) \<le> limit \<and> batch \<noteq> [] \<and>
    full batch \<and> full rest \<and> (\<not> grouped \<longrightarrow> length batch = 1) \<and>
    map g_domain batch = take (length batch) (map g_domain queue)"
proof -
  obtain g gs where q: "queue = g # gs" using assms(2) by (cases queue) auto
  obtain more left where m: "take_more limit (length (g_addrs g)) gs = (more, left)" by (metis prod.exhaust)
  have gs: "gs = more @ left" using take_more_split [OF m] by blast
  consider "limit < length (g_addrs g)" | "length (g_addrs g) \<le> limit" "grouped" "batch = g # more" "rest = left"
    | "length (g_addrs g) \<le> limit" "\<not> grouped" "batch = [g]" "rest = gs"
    using assms(1) m by (auto simp: q split: if_splits)
  then show ?thesis
  proof cases
    case 1
    with assms show ?thesis by (auto simp: q full_def)
  next
    case 2
    with take_more_split [OF m] assms(4) show ?thesis by (auto simp: q full_def)
  next
    case 3
    with assms(4) show ?thesis by (auto simp: q full_def)
  qed
qed

lemma regroup_spec: "addresses (regroup as domainOf) = as \<and> full (regroup as domainOf)"
proof (induction as rule: rev_induct)
  case (snoc a as)
  define out where "out = regroup as domainOf"
  have step: "regroup (as @ [a]) domainOf = regroup_step domainOf a out" by (simp add: regroup_def out_def)
  show ?case
  proof (cases "out \<noteq> [] \<and> g_domain (last out) = domainOf a")
    case True
    then obtain b l where o: "out = b @ [l]" by (cases out rule: rev_cases) auto
    with True have "regroup (as @ [a]) domainOf = b @ [l\<lparr>g_addrs := g_addrs l @ [a]\<rparr>]" by (simp add: step regroup_step_def)
    with snoc o show ?thesis by (auto simp: out_def [symmetric] full_def)
  next
    case False
    with snoc show ?thesis by (auto simp: step regroup_step_def out_def [symmetric] full_def)
  qed
qed (simp add: regroup_def full_def)

text \<open>
  The sessions of a request fit: the next session of the queue takes at least one address and at
  most \<open>maxRCPT\<close>, in the order of the queue, leaving the others; without grouping it is one domain.
  What a receiver refused to group comes back per domain in the same order.
\<close>

theorem takeSession_exact:
  assumes "queue \<noteq> []" "\<forall>g \<in> set queue. g_addrs g \<noteq> []"
  shows "case takeSession queue (maxRCPT o1) grouped of (batch, rest) \<Rightarrow>
    concat (map g_addrs batch) @ concat (map g_addrs rest) = concat (map g_addrs queue) \<and>
    0 < length (concat (map g_addrs batch)) \<and> length (concat (map g_addrs batch)) \<le> maxRCPT o1 \<and>
    (grouped \<or> length batch = 1) \<and> map g_domain batch = take (length batch) (map g_domain queue) \<and>
    concat (map g_addrs (regroup as domainOf)) = as"
proof (cases "takeSession queue (maxRCPT o1) grouped")
  case (Pair batch rest)
  have "full queue" using assms(2) by (simp add: full_def)
  from takeSession_split [OF Pair assms(1) maxRCPT_pos this] regroup_spec show ?thesis
    by (cases batch) (auto simp: Pair full_def)
qed

theorem takeSession_exact_witness:
  "case takeSession [\<lparr>g_domain = ''a.org'', g_addrs = [''x@a.org'', ''y@a.org''], g_askCatchAll = False\<rparr>]
      (maxRCPT example_options) True of (batch, rest) \<Rightarrow> length (concat (map g_addrs batch)) \<le> 50"
  using takeSession_exact [of "[\<lparr>g_domain = ''a.org'', g_addrs = [''x@a.org'', ''y@a.org''], g_askCatchAll = False\<rparr>]"
      example_options True "[]" id]
  by (simp add: maxRCPT_def example_options_def split: prod.splits)

section \<open>Reports and suppression\<close>

text \<open>Reports say nothing on the wire and touch no limit.\<close>

fun is_report :: "event \<Rightarrow> bool" where
  "is_report (SuppressionUnread _) = True"
| "is_report (Counted _ _ _) = True"
| "is_report (Explained _ _ _ _ _ _ _) = True"
| "is_report _ = False"

definition reports :: "'w pst \<Rightarrow> 'w pst \<Rightarrow> bool" where
  "reports st st' \<longleftrightarrow> (\<exists>es. log st' = log st @ es \<and> list_all is_report es)"

lemma watch_reports: "list_all is_report es \<Longrightarrow> watch_all safe say p es = Some p"
proof (induction es)
  case (Cons e es)
  then show ?case by (cases e) (auto split: phase.split)
qed simp

lemma reports_refl [simp]: "reports st st"
  unfolding reports_def by (rule exI [of _ "[]"]) simp

lemma reports_trans: "reports s1 s2 \<Longrightarrow> reports s2 s3 \<Longrightarrow> reports s1 s3"
  by (force simp: reports_def)

lemma reports_emit [simp]: "is_report e \<Longrightarrow> reports st (emit e st)"
  by (simp add: reports_def)

lemma reports_idle: "reports st st' \<Longrightarrow> idle safe say (log st) \<Longrightarrow> idle safe say (log st')"
  by (auto simp: reports_def idle_def watch_all_append watch_reports)

lemma reports_fine: "reports st st' \<Longrightarrow> fine o1 st m \<Longrightarrow> fine o1 st' m"
  by (auto simp: reports_def intro: all_ok_append)

lemma reports_same_log: "log st' = log st \<Longrightarrow> reports st st'"
  by (simp add: reports_def)

lemma record_all_reports: "reports st (record_all o1 h as out st)"
proof -
  have one: "reports s (record_result o1 h r s)" for r and s :: "'a pst"
    by (auto simp: record_result_def explain_def Let_def intro: reports_trans [OF reports_emit reports_emit])
  have "reports s (fold (\<lambda>a st. case out a of None \<Rightarrow> st | Some r \<Rightarrow> record_result o1 h r st) as s)" for as and s :: "'a pst"
  proof (induction as arbitrary: s)
    case (Cons a as)
    show ?case
    proof (cases "out a")
      case None
      with Cons show ?thesis by simp
    next
      case (Some r)
      with Cons [of "record_result o1 h r s"] one [of s r] show ?thesis by (auto intro: reports_trans)
    qed
  qed simp
  then show ?thesis by (simp add: record_all_def)
qed

text \<open>An address the list reports in every state, and a result that says so.\<close>

definition always_hit :: "'w services \<Rightarrow> string \<Rightarrow> bool" where
  "always_hit sv a \<longleftrightarrow> enforcing sv \<and> (\<forall>w. \<exists>reason w'. suppressed_op sv a w = (Inr (True, reason), w'))"

definition is_suppressed :: "result \<Rightarrow> bool" where
  "is_suppressed r \<longleftrightarrow> RClass r = ClassSuppressed \<and> Connected r = Some False \<and> Accepted r = None"

definition sifted :: "'w services \<Rightarrow> string list \<Rightarrow> results \<Rightarrow> string list \<Rightarrow> results \<Rightarrow> bool" where
  "sifted sv as m al m' \<longleftrightarrow> dom m' \<union> set al = dom m \<union> set as \<and> set al \<subseteq> set as \<and> (\<forall>x. x \<notin> set as \<longrightarrow> m' x = m x) \<and>
     (\<forall>i es. all_ok i es m \<longrightarrow> all_ok i es m') \<and>
     (\<forall>x \<in> set as. always_hit sv x \<longrightarrow> x \<notin> set al \<and> (\<exists>r. m' x = Some r \<and> is_suppressed r))"

lemma unsuppressed_loop_spec:
  "unsuppressed_loop sv as m st = ((al, m'), st') \<Longrightarrow> enforcing sv \<Longrightarrow> sifted sv as m al m' \<and> reports st st'"
proof (induction as arbitrary: m st al)
  case Nil
  then show ?case by (simp add: sifted_def)
next
  case (Cons a as)
  obtain r s1 where r: "call (suppressed_op sv a) st = (r, s1)" by (metis prod.exhaust)
  have s1: "reports st s1" by (rule reports_same_log) (metis log_simps(2) r snd_conv)
  have hit: "\<exists>reason. r = Inr (True, reason)" if "always_hit sv a"
    using that r by (auto simp: always_hit_def call_def split: prod.splits) (metis fst_conv)
  show ?case
  proof (cases "\<exists>reason. r = Inr (True, reason)")
    case True
    then obtain reason where rr: "r = Inr (True, reason)" by blast
    with Cons.prems r have "unsuppressed_loop sv as (m(a \<mapsto> no_answer ClassSuppressed reason)) s1 = ((al, m'), st')" by simp
    from Cons.IH [OF this Cons.prems(2)] have IH: "sifted sv as (m(a \<mapsto> no_answer ClassSuppressed reason)) al m'" "reports s1 st'"
      by blast+
    have "is_suppressed (no_answer ClassSuppressed reason)" by (simp add: is_suppressed_def no_answer_def)
    moreover have "all_ok i es (m(a \<mapsto> no_answer ClassSuppressed reason))" if "all_ok i es m" for i es
      using that by (intro all_ok_upd no_answer_ok) simp_all
    ultimately have "sifted sv (a # as) m al m'"
      using IH(1) unfolding sifted_def by (cases "a \<in> set as") auto
    with reports_trans [OF s1 IH(2)] show ?thesis by blast
  next
    case False
    with hit have nohit: "\<not> always_hit sv a" by blast
    obtain s2 al' where l: "unsuppressed_loop sv as m s2 = ((al', m'), st')" "reports s1 s2" "al = a # al'"
      using Cons.prems r False by (cases r) (auto split: prod.splits if_splits)
    from Cons.IH [OF l(1) Cons.prems(2)] have IH: "sifted sv as m al' m'" "reports s2 st'" by auto
    have "sifted sv (a # as) m al m'" using IH(1) nohit unfolding sifted_def l(3) by auto
    with reports_trans [OF s1 reports_trans [OF l(2) IH(2)]] show ?thesis by blast
  qed
qed

lemma unsuppressed_spec:
  "unsuppressed sv as m st = ((al, m'), st') \<Longrightarrow> sifted sv as m al m' \<and> reports st st'"
  by (auto simp: unsuppressed_def unsuppressed_loop_spec split: if_splits) (auto simp: sifted_def always_hit_def)

section \<open>The sessions of a request\<close>

text \<open>The commands a request about the addresses \<open>A\<close> may write.\<close>

definition may_say :: "(string \<Rightarrow> bool) \<Rightarrow> prober_options \<Rightarrow> request \<Rightarrow> string set \<Rightarrow> bool" where
  "may_say say o1 req A \<longleftrightarrow> say ''STARTTLS'' \<and> say ''RSET'' \<and> say ''QUIT'' \<and> say (ehlo o1 req) \<and> say (mail_cmd o1 req) \<and>
     (\<forall>a \<in> A. say (rcpt_cmd a)) \<and> (\<forall>bs d. say (rcpt_cmd (concat (map hex_byte bs) @ ''@'' @ d)))"

lemma may_say_speaks:
  "may_say say o1 req A \<Longrightarrow> set (addresses gs) \<subseteq> A \<Longrightarrow> speaks say o1 req gs"
  by (auto simp: may_say_def speaks_def)

lemma may_say_upd [simp]: "may_say say o1 (req\<lparr>Domain := d, Domains := ds\<rparr>) A = may_say say o1 req A"
  by (simp add: may_say_def ehlo_def mail_cmd_def)

text \<open>One more session, in a request that has gathered \<open>out\<close>.\<close>

lemma one_session:
  assumes "session op o1 req gs grouped st = ((results, vs, rest), st')"
    and "may_say say o1 req A" "resolves_to safe op" "set (addresses gs) \<subseteq> A"
    and "idle safe say (log st)" "fine o1 st out"
  shows "idle safe say (log st') \<and> fine o1 st' (out ++ results) \<and> dom results \<union> set rest = set (addresses gs) \<and>
    suffix rest (addresses (tl gs)) \<and> (\<forall>x. x \<notin> A \<longrightarrow> (out ++ results) x = out x)"
proof -
  have ok: "dom results \<union> set rest = set (addresses gs)" "suffix rest (addresses (tl gs))" "fine o1 st' results"
    using session_is_ok [of o1 gs op req grouped st] assms(1) by (simp_all add: session_ok_def hands_back_def)
  have "prefix (log st) (log st')" using grow_session [of "log st" st op o1 req gs grouped] assms(1) by simp
  from all_ok_prefix [OF assms(6) this] ok(3) have "fine o1 st' (out ++ results)"
    by (auto simp: all_ok_def map_add_Some_iff)
  moreover have "idle safe say (log st')"
    using idle_session [OF assms(5,3) may_say_speaks [OF assms(2,4)], of grouped] assms(1) by simp
  moreover have "(out ++ results) x = out x" if "x \<notin> A" for x
    using that ok(1) assms(4) by (metis UnCI domIff map_add_dom_app_simps(3) subsetD)
  ultimately show ?thesis using ok by blast
qed

lemma ask_chunks_spec:
  assumes "ask_chunks op o1 req cs settled v out st = ((v', out'), st')"
    and "may_say say o1 req A" "resolves_to safe op" "set (concat cs) \<subseteq> A" "idle safe say (log st)" "fine o1 st out"
  shows "idle safe say (log st') \<and> fine o1 st' out' \<and> dom out' = dom out \<union> set (concat cs) \<and> (\<forall>x. x \<notin> A \<longrightarrow> out' x = out x)"
  using assms
proof (induction cs arbitrary: settled v out st)
  case (Cons c cs)
  let ?ask = "NeedCatchAll req \<and> \<not> settled"
  let ?gs = "[\<lparr>g_domain = Domain req, g_addrs = c, g_askCatchAll = ?ask\<rparr>]"
  obtain results vs rest s1 where S: "session op o1 req ?gs False st = ((results, vs, rest), s1)" by (metis prod.exhaust)
  have c: "set (addresses ?gs) \<subseteq> A" using Cons.prems(4) by simp
  note one = one_session [OF S Cons.prems(2,3) c Cons.prems(5,6)]
  then have d: "dom results = set c" by (auto simp: suffix_def)
  obtain settled' v1 where "ask_chunks op o1 req cs settled' v1 (out ++ results) s1 = ((v', out'), st')"
    using Cons.prems(1) S by (auto simp: Let_def split: if_splits)
  from Cons.IH [OF this Cons.prems(2,3)] one Cons.prems(4) d show ?case by auto
qed simp

definition loop_inv ::
  "prober_options \<Rightarrow> (addr \<Rightarrow> bool) \<Rightarrow> (string \<Rightarrow> bool) \<Rightarrow> string set \<Rightarrow> string set \<Rightarrow> results \<Rightarrow> 'w queue_state \<Rightarrow> bool" where
  "loop_inv o1 safe say A D m0 q \<longleftrightarrow> (case q of (u, queue, verdicts, out, st) \<Rightarrow>
     full queue \<and> set (addresses queue) \<subseteq> A \<and> dom out \<union> set (addresses queue) = D \<and> fine o1 st out \<and>
     idle safe say (log st) \<and> (\<forall>x. x \<notin> A \<longrightarrow> out x = m0 x))"

lemma domains_round_spec:
  assumes "loop_inv o1 safe say A D m0 q" "fst (snd q) \<noteq> []" "may_say say o1 req A" "resolves_to safe op"
  shows "loop_inv o1 safe say A D m0 (domains_round op o1 req gs known q) \<and>
    length (addresses (fst (snd (domains_round op o1 req gs known q)))) < length (addresses (fst (snd q)))"
proof -
  obtain u queue verdicts out st where q: "q = (u, queue, verdicts, out, st)" by (metis prod.exhaust)
  have inv: "full queue" "set (addresses queue) \<subseteq> A" "dom out \<union> set (addresses queue) = D" "fine o1 st out"
    "idle safe say (log st)" "\<And>x. x \<notin> A \<Longrightarrow> out x = m0 x" and ne: "queue \<noteq> []"
    using assms(1,2) by (auto simp: loop_inv_def q)
  define grouped where "grouped = (snd (grouping o1 (fallen st) (MXHost req)) \<and> \<not> u)"
  obtain batch0 left where t: "takeSession queue (maxRCPT o1) grouped = (batch0, left)" by (metis prod.exhaust)
  note T = takeSession_split [OF t ne maxRCPT_pos inv(1)]
  define batch where "batch = map (\<lambda>g. g\<lparr>g_askCatchAll := need_of gs (g_domain g) \<and> \<not> known \<and> verdicts (g_domain g) = None\<rparr>) batch0"
  have ab: "addresses batch = addresses batch0" "addresses (tl batch) = addresses (tl batch0)"
    by (simp_all add: batch_def o_def map_tl [symmetric])
  have len: "length batch = length batch0" by (simp add: batch_def)
  obtain results vs rest st' where S: "session op o1 (req\<lparr>Domain := g_domain (hd batch), Domains := []\<rparr>) batch (1 < length batch) st =
      ((results, vs, rest), st')" by (metis prod.exhaust)
  have qs: "set (addresses queue) = set (addresses batch) \<union> set (addresses left)"
    using T ab(1) by (metis set_append)
  then have "set (addresses batch) \<subseteq> A" using inv(2) by auto
  from one_session [OF S _ assms(4) this inv(5,4)] assms(3)
  have one: "idle safe say (log st')" "fine o1 st' (out ++ results)" "dom results \<union> set rest = set (addresses batch)"
    "suffix rest (addresses (tl batch))" "\<And>x. x \<notin> A \<Longrightarrow> (out ++ results) x = out x" by auto
  have round: "domains_round op o1 req gs known q = (u \<or> rest \<noteq> [], regroup rest (domain_of gs) @ left,
      (\<lambda>d. case vs d of Some v \<Rightarrow> if decided v then Some v else verdicts d | None \<Rightarrow> verdicts d), out ++ results, st')"
    using t S len by (simp add: domains_round_def q grouped_def [symmetric] batch_def [symmetric] Let_def)
  have R: "addresses (regroup rest (domain_of gs)) = rest" "full (regroup rest (domain_of gs))"
    using regroup_spec by blast+
  have "length rest \<le> length (addresses (tl batch0))" using one(4) ab(2) by (metis suffix_length_le)
  moreover have "length (addresses batch0) = length (g_addrs (hd batch0)) + length (addresses (tl batch0))" "0 < length (g_addrs (hd batch0))"
    using T by (cases batch0; auto simp: full_def)+
  moreover have "length (addresses queue) = length (addresses batch0) + length (addresses left)"
    using T by (metis length_append)
  ultimately have "length (addresses (regroup rest (domain_of gs) @ left)) < length (addresses queue)"
    unfolding R(1) concat_append map_append length_append by linarith
  moreover have "loop_inv o1 safe say A D m0 (domains_round op o1 req gs known q)"
  proof -
    have qa: "set (addresses (regroup rest (domain_of gs) @ left)) = set rest \<union> set (addresses left)"
      unfolding map_append concat_append set_append R(1) ..
    have "full (regroup rest (domain_of gs) @ left)" using R(2) T by (auto simp: full_def)
    moreover have "set rest \<union> set (addresses left) \<subseteq> A" using one(3) qs inv(2) by blast
    moreover have "dom (out ++ results) \<union> (set rest \<union> set (addresses left)) = D"
      using one(3) qs inv(3) unfolding dom_map_add by blast
    moreover have "(out ++ results) x = m0 x" if "x \<notin> A" for x using that one(5) inv(6) by metis
    ultimately show ?thesis using one(1,2) unfolding round loop_inv_def prod.case qa by blast
  qed
  ultimately show ?thesis unfolding round by (simp add: q)
qed

lemma domains_loop_spec:
  assumes "loop_inv o1 safe say A D m0 q" "may_say say o1 req A" "resolves_to safe op"
  shows "\<exists>q'. domains_loop op o1 req gs known q = Some q' \<and> loop_inv o1 safe say A D m0 q' \<and> fst (snd q') = []"
  using assms(1)
proof (induction "length (addresses (fst (snd q)))" arbitrary: q rule: less_induct)
  case less
  show ?case
  proof (cases "fst (snd q) = []")
    case True
    with less.prems show ?thesis by (subst domains_loop.simps) auto
  next
    case False
    from domains_round_spec [OF less.prems False assms(2,3), of gs known] less.hyps [of "domains_round op o1 req gs known q"]
      False show ?thesis by (subst domains_loop.simps) auto
  qed
qed

section \<open>The whole request\<close>

definition requested :: "request \<Rightarrow> string list" where
  "requested req = (if Domains req \<noteq> [] then concat (map dg_emails (Domains req)) else Emails req)"

lemma set_verdict_ok: "res_ok i es a r \<Longrightarrow> res_ok i es a (set_verdict v r)"
  by (simp add: res_ok_def backed_def set_verdict_def)

lemma set_verdict_suppressed [simp]: "is_suppressed (set_verdict v r) = is_suppressed r"
  by (simp add: is_suppressed_def set_verdict_def)

lemma known_reports: "known_randomiser sv h st = (k, st') \<Longrightarrow> reports st st'"
  by (auto simp: known_randomiser_def split: if_splits intro!: reports_same_log dest!: arg_cong [where f = snd])

text \<open>What a request that ends with these results has done.\<close>

definition request_ok ::
  "prober_options \<Rightarrow> 'w services \<Rightarrow> (addr \<Rightarrow> bool) \<Rightarrow> (string \<Rightarrow> bool) \<Rightarrow> string list \<Rightarrow> results \<Rightarrow> 'w pst \<Rightarrow> bool" where
  "request_ok o1 sv safe say as out st \<longleftrightarrow> dom out = set as \<and> fine o1 st out \<and> idle safe say (log st) \<and>
     (\<forall>a \<in> set as. always_hit sv a \<longrightarrow> (\<exists>r. out a = Some r \<and> is_suppressed r))"

lemma request_ok_reports: "request_ok o1 sv safe say as out st \<Longrightarrow> reports st st' \<Longrightarrow> request_ok o1 sv safe say as out st'"
  by (auto simp: request_ok_def intro: reports_idle reports_fine)

lemma request_ok_map:
  assumes "request_ok o1 sv safe say as out st" "\<And>a r. \<exists>v. f a r = set_verdict v r \<or> f a r = r"
  shows "request_ok o1 sv safe say as (\<lambda>a. map_option (f a) (out a)) st"
proof -
  have "res_ok i es a (f a r)" if "res_ok i es a r" for i es a r
    using that assms(2) [of a r] by (auto simp: set_verdict_ok)
  moreover have "is_suppressed (f a r) = is_suppressed r" for a r
    using assms(2) [of a r] by auto
  moreover have "dom (\<lambda>a. map_option (f a) (out a)) = dom out" by (auto simp: dom_def)
  ultimately show ?thesis using assms(1) by (auto simp: request_ok_def all_ok_def) 
qed

lemma probe_single_spec:
  assumes "may_say say o1 req A" "resolves_to safe op" "idle safe say (log st)"
    and "\<And>a. a \<in> set (Emails req) \<Longrightarrow> a \<in> A \<or> always_hit sv a" "\<And>a. a \<in> A \<Longrightarrow> \<not> always_hit sv a" "Emails req \<noteq> []"
  shows "\<exists>out st'. probe_single op sv o1 req st = (Inr out, st') \<and> request_ok o1 sv safe say (Emails req) out st'"
proof -
  obtain al m s1 where u: "unsuppressed sv (Emails req) Map.empty st = ((al, m), s1)" by (metis prod.exhaust)
  from unsuppressed_spec [OF u] have sift: "sifted sv (Emails req) Map.empty al m" and r1: "reports st s1" by auto
  have al: "set al \<subseteq> A" using sift assms(4) unfolding sifted_def by blast
  have m: "all_ok i es m" for i es using sift by (simp add: sifted_def)
  show ?thesis
  proof (cases "al = []")
    case True
    with sift m reports_idle [OF r1 assms(3)] have "request_ok o1 sv safe say (Emails req) m s1"
      by (auto simp: request_ok_def sifted_def)
    with True u assms(6) request_ok_reports [OF _ record_all_reports] show ?thesis
      by (auto simp: probe_single_def)
  next
    case False
    obtain known s2 where k: "known_randomiser sv (MXHost req) s1 = (known, s2)" by (metis prod.exhaust)
    let ?v0 = "if known then randomises else undecided"
    obtain v out s3 where c: "ask_chunks op o1 req (chunks al (maxRCPT o1)) known ?v0 m s2 = ((v, out), s3)" by (metis prod.exhaust)
    have "idle safe say (log s2)" using reports_idle [OF reports_trans [OF r1 known_reports [OF k]] assms(3)] .
    from ask_chunks_spec [OF c assms(1,2) _ this m] al have C: "idle safe say (log s3)" "fine o1 s3 out"
      "dom out = dom m \<union> set al" "\<And>x. x \<notin> A \<Longrightarrow> out x = m x" by simp_all
    have "out a = m a" if "always_hit sv a" for a using that C(4) assms(5) by metis
    with C(1-3) sift have ok: "request_ok o1 sv safe say (Emails req) out s3"
      by (auto simp: request_ok_def sifted_def)
    let ?s4 = "if v_randomiser v = Some True \<and> \<not> known \<and> profiled sv then tell (markRandomiser_op sv (MXHost req)) s3 else s3"
    let ?out = "if decided v then (\<lambda>a. map_option (set_verdict v) (out a)) else out"
    have "request_ok o1 sv safe say (Emails req) ?out s3" using ok request_ok_map [OF ok, of "\<lambda>_. set_verdict v"] by auto
    then have "request_ok o1 sv safe say (Emails req) ?out ?s4" by (rule request_ok_reports) (simp add: reports_same_log)
    from False u k c assms(6) request_ok_reports [OF this record_all_reports] show ?thesis
      by (simp add: probe_single_def Let_def)
  qed
qed

definition enqueued :: "'w services \<Rightarrow> domain_group list \<Rightarrow> results \<Rightarrow> group list \<Rightarrow> results \<Rightarrow> bool" where
  "enqueued sv gs m queue m' \<longleftrightarrow> full queue \<and> sifted sv (concat (map dg_emails gs)) m (addresses queue) m'"

lemma sifted_append:
  assumes "sifted sv as m al m1" "sifted sv bs m1 bl m2" "set as \<inter> set bs = {}"
  shows "sifted sv (as @ bs) m (al @ bl) m2"
  unfolding sifted_def
proof (intro conjI allI impI ballI)
  have d: "dom m1 \<union> set al = dom m \<union> set as" "dom m2 \<union> set bl = dom m1 \<union> set bs" "set al \<subseteq> set as" "set bl \<subseteq> set bs"
    using assms(1,2) by (simp_all add: sifted_def)
  show "dom m2 \<union> set (al @ bl) = dom m \<union> set (as @ bs)" "set (al @ bl) \<subseteq> set (as @ bs)"
    using d unfolding set_append by blast+
  show "m2 x = m x" if "x \<notin> set (as @ bs)" for x using that assms(1,2) by (simp add: sifted_def)
  show "all_ok i es m2" if "all_ok i es m" for i es using that assms(1,2) by (simp add: sifted_def)
  show "x \<notin> set (al @ bl)" "\<exists>r. m2 x = Some r \<and> is_suppressed r" if "x \<in> set (as @ bs)" "always_hit sv x" for x
    using that assms d(3,4) unfolding sifted_def by (cases "x \<in> set as"; force)+
qed

lemma enqueue_spec:
  "enqueue sv gs m st = ((queue, m'), st') \<Longrightarrow> distinct (concat (map dg_emails gs)) \<Longrightarrow>
    enqueued sv gs m queue m' \<and> reports st st'"
proof (induction gs arbitrary: m st queue m' st')
  case Nil
  then show ?case by (simp add: enqueued_def full_def sifted_def)
next
  case (Cons g gs)
  obtain al m1 s1 where u: "unsuppressed sv (dg_emails g) m st = ((al, m1), s1)" by (metis prod.exhaust)
  obtain q1 m2 s2 where e: "enqueue sv gs m1 s1 = ((q1, m2), s2)" by (metis prod.exhaust)
  have *: "queue = (if al = [] then q1 else \<lparr>g_domain = dg_domain g, g_addrs = al, g_askCatchAll = False\<rparr> # q1)" "m' = m2" "st' = s2"
    using Cons.prems(1) u e by auto
  from Cons.IH [OF e] Cons.prems(2) have IH: "enqueued sv gs m1 q1 m2" "reports s1 s2" by auto
  have disj: "set (dg_emails g) \<inter> set (concat (map dg_emails gs)) = {}" using Cons.prems(2) by auto
  have "addresses queue = al @ addresses q1" "full queue" using IH(1) by (auto simp: * enqueued_def full_def)
  moreover have "sifted sv (dg_emails g @ concat (map dg_emails gs)) m (al @ addresses q1) m2"
    using unsuppressed_spec [OF u] IH(1) disj by (intro sifted_append) (auto simp: enqueued_def)
  ultimately show ?case
    using unsuppressed_spec [OF u] IH(2) by (auto simp: enqueued_def * intro: reports_trans)
qed

lemma settle_results_map:
  "settle_results known gs verdicts out = (\<lambda>a. map_option (\<lambda>r. case condemned known gs verdicts of
      Some v \<Rightarrow> set_verdict v r
    | None \<Rightarrow> (case verdicts (domain_of gs a) of Some v \<Rightarrow> set_verdict v r | None \<Rightarrow> r)) (out a))"
  by (simp add: settle_results_def)

lemma probeDomains_spec:
  assumes "may_say say o1 req A" "resolves_to safe op" "idle safe say (log st)"
    and "\<And>a. a \<in> set (concat (map dg_emails (Domains req))) \<Longrightarrow> a \<in> A \<or> always_hit sv a" "\<And>a. a \<in> A \<Longrightarrow> \<not> always_hit sv a"
  shows "\<exists>x st'. probeDomains op sv o1 req st = Some (x, st') \<and>
    (if concat (map dg_emails (Domains req)) = [] then x = Inl EmailsEmpty \<and> idle safe say (log st')
     else \<exists>out. x = Inr out \<and> request_ok o1 sv safe say (concat (map dg_emails (Domains req))) out st')"
proof -
  define gs where "gs = mergeGroups (Domains req)"
  define emails where "emails = concat (map dg_emails gs)"
  have merged: "distinct emails" "set emails = set (concat (map dg_emails (Domains req)))"
    using merged_emails [of "Domains req"] by (simp_all add: emails_def gs_def)
  then have empty: "concat (map dg_emails (Domains req)) = [] \<longleftrightarrow> emails = []" by (metis set_empty)
  obtain queue m s1 where e: "enqueue sv gs Map.empty st = ((queue, m), s1)" by (metis prod.exhaust)
  from enqueue_spec [OF e] merged(1) have q: "full queue" "sifted sv emails Map.empty (addresses queue) m" "reports st s1"
    by (auto simp: enqueued_def emails_def)
  have al: "set (addresses queue) \<subseteq> A" using q(2) assms(4) unfolding sifted_def merged(2) by blast
  have m: "all_ok i es m" for i es using q(2) by (simp add: sifted_def)
  have d: "dom m \<union> set (addresses queue) = set emails" using q(2) by (simp add: sifted_def)
  have idle1: "idle safe say (log s1)" using reports_idle [OF q(3) assms(3)] .
  have swap: "request_ok o1 sv safe say emails out s \<Longrightarrow> request_ok o1 sv safe say (concat (map dg_emails (Domains req))) out s" for out s
    using merged(2) by (simp add: request_ok_def)
  show ?thesis
  proof (cases "queue = []")
    case True
    with d have dm: "dom m = set emails" by simp
    have "request_ok o1 sv safe say emails m s1"
      using True q(2) m idle1 dm by (auto simp: request_ok_def sifted_def)
    note ok = swap [OF request_ok_reports [OF this record_all_reports]]
    have "(\<forall>a \<in> set emails. m a = None) \<longleftrightarrow> emails = []" using dm by (cases emails) auto
    with ok True e idle1 empty show ?thesis
      by (simp add: probeDomains_def gs_def [symmetric] emails_def [symmetric] Let_def)
  next
    case False
    then have ne: "emails \<noteq> []" using d q(1) by (cases queue) (auto simp: full_def)
    obtain known s2 where k: "known_randomiser sv (MXHost req) s1 = (known, s2)" by (metis prod.exhaust)
    have "loop_inv o1 safe say A (set emails) m (False, queue, Map.empty, m, s2)"
      using q(1) al d m reports_idle [OF known_reports [OF k] idle1] by (simp add: loop_inv_def)
    from domains_loop_spec [OF this assms(1,2), of gs known] obtain u q' verdicts out s3 where
      L: "domains_loop op o1 req gs known (False, queue, Map.empty, m, s2) = Some (u, [], verdicts, out, s3)"
      and I: "loop_inv o1 safe say A (set emails) m (u, [], verdicts, out, s3)" by (metis fst_conv snd_conv surj_pair)
    have "out a = m a" if "always_hit sv a" for a using that I assms(5) unfolding loop_inv_def by blast
    with I q(2) have ok: "request_ok o1 sv safe say emails out s3"
      by (auto simp: request_ok_def loop_inv_def sifted_def)
    have "request_ok o1 sv safe say emails (settle_results known gs verdicts out) s3"
      unfolding settle_results_map by (rule request_ok_map [OF ok]) (auto split: option.split)
    then have fin: "request_ok o1 sv safe say emails (settle_results known gs verdicts out) s"
      if "log s = log s3" for s using that by (blast intro: request_ok_reports reports_same_log)
    show ?thesis
      using False e k L ne empty swap [OF request_ok_reports [OF fin record_all_reports]]
      by (simp add: probeDomains_def gs_def [symmetric] emails_def [symmetric] Let_def)
  qed
qed

text \<open>How a request ends.\<close>

definition served ::
  "prober_options \<Rightarrow> 'w services \<Rightarrow> (addr \<Rightarrow> bool) \<Rightarrow> (string \<Rightarrow> bool) \<Rightarrow> request \<Rightarrow> probe_error + results \<Rightarrow> 'w pst \<Rightarrow> bool" where
  "served o1 sv safe say req x st \<longleftrightarrow> idle safe say (log st) \<and>
     (case x of
        Inl e \<Rightarrow> e = (if MXHost req = [] then MXHostRequired else EmailsEmpty) \<and> (MXHost req = [] \<or> requested req = [])
      | Inr out \<Rightarrow> MXHost req \<noteq> [] \<and> requested req \<noteq> [] \<and> request_ok o1 sv safe say (requested req) out st)"

lemma served_result:
  "request_ok o1 sv safe say (requested req) out st \<Longrightarrow> MXHost req \<noteq> [] \<Longrightarrow> requested req \<noteq> [] \<Longrightarrow> served o1 sv safe say req (Inr out) st"
  by (simp add: served_def request_ok_def)

lemma probe_spec:
  assumes "may_say say o1 req A" "resolves_to safe op" "idle safe say (log st)"
    and "\<And>a. a \<in> set (requested req) \<Longrightarrow> a \<in> A \<or> always_hit sv a" "\<And>a. a \<in> A \<Longrightarrow> \<not> always_hit sv a"
  shows "\<exists>x st'. probe op sv o1 req st = Some (x, st') \<and> served o1 sv safe say req x st'"
proof (cases "MXHost req = []")
  case True
  with assms(3) show ?thesis by (simp add: probe_def served_def)
next
  case host: False
  show ?thesis
  proof (cases "Domains req = []")
    case False
    then have r: "requested req = concat (map dg_emails (Domains req))" by (simp add: requested_def)
    from probeDomains_spec [OF assms(1-3), of sv] assms(4,5) obtain x st' where
      P: "probeDomains op sv o1 req st = Some (x, st')" and
      x: "if requested req = [] then x = Inl EmailsEmpty \<and> idle safe say (log st')
          else \<exists>out. x = Inr out \<and> request_ok o1 sv safe say (requested req) out st'"
      unfolding r by metis
    have "served o1 sv safe say req x st'"
    proof (cases "requested req = []")
      case True
      with x host show ?thesis by (simp add: served_def)
    next
      case False
      with x host show ?thesis by (auto intro: served_result)
    qed
    with P False host show ?thesis by (simp add: probe_def)
  next
    case True
    then have r: "requested req = Emails req" by (simp add: requested_def)
    show ?thesis
    proof (cases "Emails req = []")
      case True
      with \<open>Domains req = []\<close> host assms(3) show ?thesis by (simp add: probe_def probe_single_def served_def r)
    next
      case False
      from probe_single_spec [OF assms(1-3), of sv] assms(4,5) False obtain out st' where
        P: "probe_single op sv o1 req st = (Inr out, st')" "request_ok o1 sv safe say (requested req) out st'"
        unfolding r by metis
      with True host False show ?thesis by (auto simp: probe_def r intro!: served_result)
    qed
  qed
qed

text \<open>The same of \<open>Probe\<close>, for a prober whose log begins.\<close>

lemma Probe_spec:
  assumes "may_say say o1 req {a. \<not> always_hit sv a}" "resolves_to safe op"
  shows "\<exists>x st'. Probe op sv o1 req \<lparr>env = w, unread = u, fallen = f, log = []\<rparr> = Some (x, st') \<and>
    served o1 sv safe say req (map_sum id Results x) st'"
proof -
  have "idle safe say (log \<lparr>env = w, unread = u, fallen = f, log = []\<rparr>)" by (simp add: idle_def)
  then have "\<exists>x st'. probe op sv o1 req \<lparr>env = w, unread = u, fallen = f, log = []\<rparr> = Some (x, st') \<and> served o1 sv safe say req x st'"
    by (rule probe_spec [OF assms]) auto
  then obtain x st' where
    P: "probe op sv o1 req \<lparr>env = w, unread = u, fallen = f, log = []\<rparr> = Some (x, st')" "served o1 sv safe say req x st'" by blast
  obtain k multi where g: "grouping o1 (fallen st') (MXHost req) = (k, multi)" by (metis prod.exhaust)
  have "map_sum id Results (map_sum id (\<lambda>out. \<lparr>Results = out, RPaceKey = k, RMultiDomain = multi\<rparr>) x) = x" by (cases x) auto
  with P g show ?thesis by (simp add: Probe_def)
qed

lemma any_command: "may_say (\<lambda>_. True) o1 req A"
  by (simp add: may_say_def)

lemma any_address: "resolves_to (\<lambda>_. True) op"
  by (simp add: resolves_to_def)

lemma Probe_any:
  "\<exists>x st'. Probe op sv o1 req \<lparr>env = w, unread = u, fallen = f, log = []\<rparr> = Some (x, st') \<and>
    served o1 sv (\<lambda>_. True) (\<lambda>_. True) req (map_sum id Results x) st'"
  by (rule Probe_spec [OF any_command any_address])

text \<open>Requests for the witnesses: one over the scripted server, one about a suppressed address.\<close>

definition no_services :: "'w services" where
  "no_services = \<lparr>enforcing = False, suppressed_op = (\<lambda>a w. (Inl [], w)), profiled = False,
     isRandomiser_op = (\<lambda>h w. (False, w)), markRandomiser_op = (\<lambda>h w. w)\<rparr>"

definition example_probe :: "string list services \<Rightarrow> (probe_error + response) \<times> string list pst" where
  "example_probe sv = the (Probe scripted sv example_options (example_request [''jo@example.org''])
     \<lparr>env = refusing, unread = [], fallen = [], log = []\<rparr>)"

lemma example_probe_run:
  "Probe scripted no_services example_options (example_request [''jo@example.org''])
     \<lparr>env = refusing, unread = [], fallen = [], log = []\<rparr> =
   Some (Inr \<lparr>Results = [''jo@example.org'' \<mapsto> refused_answer], RPaceKey = ''mx.example.org'', RMultiDomain = False\<rparr>,
     (snd (example_session [''jo@example.org''] refusing))\<lparr>log :=
        log (snd (example_session [''jo@example.org''] refusing)) @ [Counted ClassInvalid 550 None]\<rparr>)"
proof -
  have g: "grouping example_options [] ''mx.example.org'' = (''mx.example.org'', False)"
    unfolding grouping_def example_options_def by code_simp
  have c: "chunks [''jo@example.org''] (maxRCPT example_options) = [[''jo@example.org'']]"
    by (simp add: chunks.simps maxRCPT_def example_options_def)
  have s: "session scripted example_options (example_request [''jo@example.org''])
      [\<lparr>g_domain = ''example.org'', g_addrs = [''jo@example.org''], g_askCatchAll = True\<rparr>] False
      \<lparr>env = refusing, unread = [], fallen = [], log = []\<rparr> = example_session [''jo@example.org''] refusing"
    by (simp add: example_session_def example_groups_def)
  show ?thesis
    unfolding Probe_def probe_def probe_single_def
    by (simp add: unsuppressed_def no_services_def known_randomiser_def c s example_run
        example_request_def [THEN arg_cong [where f = Domains]] example_request_def [THEN arg_cong [where f = Emails]]
        example_request_def [THEN arg_cong [where f = MXHost]] example_request_def [THEN arg_cong [where f = NeedCatchAll]]
        example_request_def [THEN arg_cong [where f = Domain]] undecided_def decided_def record_all_def record_result_def
        explain_def explains_def blocked_reason_def emit_def refused_answer_def g)
qed

text \<open>
  C2. A request always ends, whatever the servers, the store, the resolver and the suppression list
  answer, and says something about every address it names and about no other: it is an error exactly
  when it names no MX or no address. This is so for one domain and for several, grouped or not, and when
  receivers refuse the grouping.
\<close>

theorem Probe_answers_all:
  "\<exists>x st'. Probe op sv o1 req \<lparr>env = w, unread = u, fallen = f, log = []\<rparr> = Some (x, st') \<and>
     (case x of
        Inl e \<Rightarrow> e = (if MXHost req = [] then MXHostRequired else EmailsEmpty) \<and> (MXHost req = [] \<or> requested req = [])
      | Inr resp \<Rightarrow> MXHost req \<noteq> [] \<and> requested req \<noteq> [] \<and> dom (Results resp) = set (requested req))"
proof -
  obtain x st' where P: "Probe op sv o1 req \<lparr>env = w, unread = u, fallen = f, log = []\<rparr> = Some (x, st')"
    "served o1 sv (\<lambda>_. True) (\<lambda>_. True) req (map_sum id Results x) st'"
    using Probe_any [of op sv o1 req w u f] by blast
  then show ?thesis by (cases x) (auto simp: served_def request_ok_def)
qed

text \<open>
  C1. No verdict of a request is made up: whenever it says of an address that it is accepted or rejected,
  the server answered the RCPT for that very address in one of its sessions, the result carries that
  reply, and the classifier reads it as exactly this verdict.
\<close>

theorem Probe_verdict_is_the_servers:
  assumes "Probe op sv o1 req \<lparr>env = w, unread = u, fallen = f, log = []\<rparr> = Some (Inr resp, st')"
    and "Results resp a = Some r" and "Accepted r = Some b"
  shows "Connected r = Some True \<and> RClass r = (if b then ClassValid else ClassInvalid) \<and>
    ClassifyAs (SMTPCode r) (RReply r) (own_identity o1) = RClass r \<and>
    (\<exists>pre post. log st' = pre @ [Said (rcpt_cmd a), Heard (SMTPCode r) (RReply r)] @ post)"
proof -
  have "fine o1 st' (Results resp)"
    using Probe_any [of op sv o1 req w u f] assms(1) by (auto simp: served_def request_ok_def)
  with assms(2) have "res_ok (own_identity o1) (log st') a r" by (simp add: all_ok_def)
  with assms(3) show ?thesis by (auto simp: res_ok_def backed_def split: if_splits)
qed

definition bogus_shaped :: "string \<Rightarrow> bool" where
  "bogus_shaped a \<longleftrightarrow> (\<exists>bs d. a = concat (map hex_byte bs) @ ''@'' @ d)"

theorem Probe_verdict_is_the_servers_witness:
  "\<exists>pre post. log (snd (example_probe no_services)) =
     pre @ [Said (rcpt_cmd ''jo@example.org''), Heard 550 ''550 5.1.1 no such user''] @ post"
  using Probe_verdict_is_the_servers [OF example_probe_run, of "''jo@example.org''" refused_answer False]
  by (simp add: example_probe_def example_probe_run refused_answer_def)

text \<open>
  A suppressed address is never asked about: when the list is enforced and reports an address, no
  session of the request writes an RCPT for it and its result is a refusal of ours. (The address is
  not of the shape of the made-up addresses of the catch-all question, which are not looked up.)
\<close>

lemma hit_never_asked:
  assumes "Probe op sv o1 req \<lparr>env = w, unread = u, fallen = f, log = []\<rparr> = Some (Inr resp, st')"
    and "enforcing sv" and "\<And>w. \<exists>reason w'. suppressed_op sv a w = (Inr (True, reason), w')"
    and "a \<in> set (requested req)" and "\<not> bogus_shaped a"
  shows "Said (rcpt_cmd a) \<notin> set (log st') \<and>
    (\<exists>r. Results resp a = Some r \<and> RClass r = ClassSuppressed \<and> Connected r = Some False \<and> Accepted r = None)"
proof -
  have hit: "always_hit sv a" using assms(2,3) by (simp add: always_hit_def)
  have inj: "rcpt_cmd x = rcpt_cmd y \<longleftrightarrow> x = y" for x y by (simp add: rcpt_cmd_def)
  have "may_say (\<lambda>c. c \<noteq> rcpt_cmd a) o1 req {a. \<not> always_hit sv a}"
    using hit assms(5) unfolding may_say_def inj bogus_shaped_def
    by (auto simp: rcpt_cmd_def ehlo_def mail_cmd_def)
  from Probe_spec [OF this any_address, of op w u f] assms(1)
  have "idle (\<lambda>_. True) (\<lambda>c. c \<noteq> rcpt_cmd a) (log st')" "request_ok o1 sv (\<lambda>_. True) (\<lambda>c. c \<noteq> rcpt_cmd a) (requested req) (Results resp) st'"
    by (auto simp: served_def)
  with hit assms(4) show ?thesis
    by (auto simp: idle_def request_ok_def is_suppressed_def dest: watch_all_said)
qed

text \<open>A request for an address that any list reports.\<close>

lemma example_hit:
  fixes sv :: "string list services"
  assumes "enforcing sv" "\<And>w. suppressed_op sv ''jo@example.org'' w = (Inr (True, reason), w)"
  shows "Probe scripted sv example_options (example_request [''jo@example.org''])
     \<lparr>env = refusing, unread = [], fallen = [], log = []\<rparr> =
   Some (Inr \<lparr>Results = [''jo@example.org'' \<mapsto> no_answer ClassSuppressed reason], RPaceKey = ''mx.example.org'', RMultiDomain = False\<rparr>,
     snd (example_probe sv))"
proof -
  have g: "grouping example_options [] ''mx.example.org'' = (''mx.example.org'', False)"
    unfolding grouping_def example_options_def by code_simp
  have e: "MXHost (example_request as) = ''mx.example.org''" "Domains (example_request as) = []" "Emails (example_request as) = as" for as
    by (simp_all add: example_request_def)
  show ?thesis
    unfolding example_probe_def Probe_def probe_def probe_single_def
    by (simp add: unsuppressed_def assms e call_def record_all_def record_result_def explain_def Let_def
        explains_def emit_def no_answer_def g)
qed

lemma hex_digit_not_j: "hex_digit (n mod 16) \<noteq> CHR ''j''"
proof -
  have "n mod 16 < 16" by simp
  then have "of_char (hex_digit (n mod 16)) \<noteq> (106 :: nat)" by (auto simp: hex_digit_def of_char_of)
  then show ?thesis by auto
qed

lemma jo_not_bogus: "\<not> bogus_shaped ''jo@example.org''"
proof
  assume "bogus_shaped ''jo@example.org''"
  then obtain bs d where "''jo@example.org'' = concat (map hex_byte bs) @ ''@'' @ d" by (auto simp: bogus_shaped_def)
  then show False by (cases bs) (auto simp: hex_byte_def hex_digit_not_j [THEN not_sym])
qed

text \<open>
  C3. Every question of a request is paid for, over all its sessions: at every moment no more RCPTs were
  written than tokens were drawn, nothing was dialled without a lease and a token, at most one lease is
  held, and none when the request has ended. (Without a pacer, or without leases, the code asks for none and each counts as granted.)
\<close>

theorem request_pays:
  assumes "Probe op sv o1 req \<lparr>env = w, unread = u, fallen = f, log = []\<rparr> = Some (x, st')"
    and "log st' = xs @ ys"
  shows "rcpts_in xs \<le> tokens_in xs \<and> releases_in xs \<le> leases_in xs \<and> leases_in xs \<le> releases_in xs + 1 \<and>
    leases_in (xs @ ys) = releases_in (xs @ ys) \<and>
    (\<forall>a zs. ys = Dialled a # zs \<longrightarrow> 0 < tokens_in xs \<and> leases_in xs = releases_in xs + 1)"
proof -
  have "watch_all (\<lambda>_. True) (\<lambda>_. True) Out (log st') = Some Out"
    using Probe_any [of op sv o1 req w u f] assms(1) by (auto simp: served_def idle_def)
  then obtain p where p: "watch_all (\<lambda>_. True) (\<lambda>_. True) Out xs = Some p" "watch_all (\<lambda>_. True) (\<lambda>_. True) Out (xs @ ys) = Some Out"
      "watch_all (\<lambda>_. True) (\<lambda>_. True) p ys = Some Out"
    using assms(2) watch_all_prefix [of "\<lambda>_. True" "\<lambda>_. True" Out xs ys Out] by auto
  have "0 < tokens_in xs \<and> leases_in xs = releases_in xs + 1" if "ys = Dialled a # zs" for a zs
  proof -
    from p(3) that obtain q where "watch (\<lambda>_. True) (\<lambda>_. True) p (Dialled a) = Some q" by (auto split: bind_splits)
    from watch_dialled [OF this] watch_all_counts [OF p(1)] show ?thesis by auto
  qed
  with watch_all_counts [OF p(1)] watch_all_counts [OF p(2)] show ?thesis by (auto split: if_splits)
qed

theorem request_pays_witness:
  "rcpts_in (log (snd (example_probe no_services))) \<le> tokens_in (log (snd (example_probe no_services)))"
  using request_pays [OF example_probe_run, where ys = "[]"] by (simp add: example_probe_def example_probe_run)

end
