(* ===== verification/Api.thy ===== *)
theory Api
  imports Requests Relay Standdown Iphealth
begin

text \<open>
  \<open>internal/api\<close>: the HTTP boundary. A handler decodes a request, checks it, makes one call of an engine and
  maps the result to a status; the router puts the credential check in front of every handler but the two
  health probes. The engines are the interfaces the package declares: operations on an arbitrary state
  \<open>'w\<close>. Handlers return an option because a probe may not return.
\<close>

section \<open>Requests and responses\<close>

record http_request =
  q_method :: string
  q_path :: string
  q_header :: "string \<Rightarrow> string"
  q_body :: string

record band_row =
  row_host :: string
  row_rate :: rat
  row_maxRate :: rat
  row_state :: pace_state
  row_proposal :: "proposal option"

datatype body =
    ErrorBody string string
  | ProbeBody string instant results string bool
  | SendBody string instant
  | StatusBody suppress_status
  | HealthBody bool string
  | FieldsBody "(string \<times> string) list"
  | BandsBody "band_row list"
  | PromotedBody proposal
  | TextBody string
  | RedirectBody string

record http_response =
  rsp_status :: int
  rsp_headers :: "(string \<times> string) list"
  rsp_body :: body

definition writeJSON :: "int \<Rightarrow> body \<Rightarrow> http_response" where
  "writeJSON st b = \<lparr>rsp_status = st, rsp_headers = [(''Content-Type'', ''application/json; charset=utf-8'')], rsp_body = b\<rparr>"

definition WriteError :: "int \<Rightarrow> string \<Rightarrow> string \<Rightarrow> http_response" where
  "WriteError st kind msg = writeJSON st (ErrorBody kind msg)"

type_synonym 'w handler = "http_request \<Rightarrow> 'w \<Rightarrow> (http_response \<times> 'w) option"

text \<open>
  The decoder of the library reads one JSON value of at most so many bytes into a struct and refuses
  unknown fields; it is a parameter, from a limit and a body to the struct or an error.
\<close>

type_synonym 'a decoder = "int \<Rightarrow> string \<Rightarrow> string + 'a"

definition decoded :: "'a decoder \<Rightarrow> int \<Rightarrow> ('a \<Rightarrow> 'w handler) \<Rightarrow> 'w handler" where
  "decoded dec limit h req w =
     (case dec limit (q_body req) of
        Inl e \<Rightarrow> Some (WriteError 400 ''bad_request'' (''malformed JSON body: '' @ e), w)
      | Inr x \<Rightarrow> h x req w)"

section \<open>Probing\<close>

record probe_domain =
  pd_domain :: string
  pd_emails :: "string list"
  pd_need :: bool

text \<open>\<open>None\<close> is a list that is absent from the body.\<close>

record probe_request =
  pr_mxHost :: string
  pr_domain :: string
  pr_emails :: "string list option"
  pr_need :: bool
  pr_helo :: string
  pr_mailFrom :: string
  pr_policyStop :: int
  pr_domains :: "probe_domain list option"

definition maxBodyBytes :: int where "maxBodyBytes = 2 ^ 20"

definition equal_fold :: "string \<Rightarrow> string \<Rightarrow> bool" where
  "equal_fold s t \<longleftrightarrow> to_lower s = to_lower t"

definition at_domain :: "string \<Rightarrow> string \<Rightarrow> bool" where
  "at_domain d e \<longleftrightarrow> CHR ''@'' \<in> set e \<and> equal_fold (trim_suffix (after_first (CHR ''@'') e) ''.'') d"

fun domains_total :: "probe_domain list \<Rightarrow> int \<Rightarrow> string + int" where
  "domains_total [] sofar = Inr sofar"
| "domains_total (d # ds) sofar =
     (let domain = trim_suffix (trim_space (pd_domain d)) ''.''
      in if domain = [] then Inl ''every entry in domains needs a domain''
         else if pd_emails d = [] then Inl ''every entry in domains needs emails''
         else if \<not> list_all (at_domain domain) (pd_emails d) then Inl ''every address in a domains entry must be at that domain''
         else domains_total ds (sofar + int (length (pd_emails d))))"

definition validateDomains :: "int \<Rightarrow> probe_request \<Rightarrow> probe_domain list \<Rightarrow> string option" where
  "validateDomains maxEmails r ds =
     (if trim_space (pr_mxHost r) = [] then Some ''mx_host is required''
      else if pr_domain r \<noteq> [] \<or> pr_emails r \<noteq> None \<or> pr_need r then Some ''domains replaces domain, emails and need_catch_all; send one shape''
      else if ds = [] then Some ''domains must not be empty''
      else if pr_policyStop r < 0 then Some ''policy_stop must not be negative''
      else case domains_total ds 0 of
        Inl e \<Rightarrow> Some e
      | Inr sofar \<Rightarrow> if sofar > maxEmails then Some ''emails exceeds the per-request limit'' else None)"

definition emails_of :: "probe_request \<Rightarrow> string list" where
  "emails_of r = (case pr_emails r of None \<Rightarrow> [] | Some es \<Rightarrow> es)"

definition probe_validate :: "int \<Rightarrow> probe_request \<Rightarrow> string option" where
  "probe_validate maxEmails r =
     (case pr_domains r of
        Some ds \<Rightarrow> validateDomains maxEmails r ds
      | None \<Rightarrow>
          if trim_space (pr_mxHost r) = [] then Some ''mx_host is required''
          else if emails_of r = [] then Some ''emails must not be empty''
          else if int (length (emails_of r)) > maxEmails then Some ''emails exceeds the per-request limit''
          else if pr_need r \<and> trim_space (pr_domain r) = [] then Some ''domain is required when need_catch_all is set''
          else if pr_policyStop r < 0 then Some ''policy_stop must not be negative''
          else if \<not> list_all (\<lambda>e. CHR ''@'' \<in> set e) (emails_of r) then Some ''every entry in emails must be an address''
          else None)"

definition to_request :: "probe_request \<Rightarrow> request" where
  "to_request r = \<lparr>MXHost = pr_mxHost r, Domain = pr_domain r, Emails = emails_of r, NeedCatchAll = pr_need r,
     ReqHelo = pr_helo r, ReqMailFrom = pr_mailFrom r, skipTLS = False, ReqPolicyStop = pr_policyStop r,
     Domains = map (\<lambda>d. \<lparr>dg_domain = pd_domain d, dg_emails = pd_emails d, dg_need = pd_need d\<rparr>)
       (case pr_domains r of None \<Rightarrow> [] | Some ds \<Rightarrow> ds)\<rparr>"

type_synonym 'w prober = "request \<Rightarrow> 'w \<Rightarrow> ((string + response) \<times> 'w) option"

definition handleProbe :: "probe_request decoder \<Rightarrow> ('w \<Rightarrow> instant) \<Rightarrow> 'w prober \<Rightarrow> string \<Rightarrow> int \<Rightarrow> 'w handler" where
  "handleProbe dec now p sourceIP maxEmails = decoded dec maxBodyBytes (\<lambda>r _ w.
     case probe_validate maxEmails r of
       Some e \<Rightarrow> Some (WriteError 400 ''bad_request'' e, w)
     | None \<Rightarrow>
         map_option (\<lambda>(x, w).
           ((case x of
               Inl e \<Rightarrow> WriteError 502 ''probe_failed'' e
             | Inr resp \<Rightarrow> writeJSON 200 (ProbeBody sourceIP (now w) (Results resp) (RPaceKey resp) (RMultiDomain resp))), w))
           (p (to_request r) w))"

section \<open>Sending\<close>

record send_request =
  sr_from :: string
  sr_to :: string
  sr_subject :: string
  sr_text :: string
  sr_html :: string
  sr_headers :: "header list"

definition maxSendBytes :: int where "maxSendBytes = 2 * 2 ^ 20"

text \<open>The text of an error is the engine's; \<open>error_of\<close> prints it.\<close>

definition handleSend ::
  "send_request decoder \<Rightarrow> ('w \<Rightarrow> instant) \<Rightarrow> (relay_error \<Rightarrow> string) \<Rightarrow> (message \<Rightarrow> 'w \<Rightarrow> (relay_error + string) \<times> 'w) \<Rightarrow> 'w handler" where
  "handleSend dec now error_of accept = decoded dec maxSendBytes (\<lambda>b _ w.
     case accept \<lparr>From = sr_from b, To = sr_to b, Subject = sr_subject b, Text = sr_text b, HTML = sr_html b, Extra = sr_headers b\<rparr> w of
       (Inr mid, w) \<Rightarrow> Some (writeJSON 202 (SendBody mid (now w)), w)
     | (Inl (NotSending why), w) \<Rightarrow> Some (WriteError 503 ''not_sending'' (error_of (NotSending why)), w)
     | (Inl e, w) \<Rightarrow> Some (WriteError 400 ''bad_request'' (error_of e), w))"

section \<open>Suppression list\<close>

record suppress_import_request =
  ir_version :: string
  ir_hashes :: "string list"
  ir_mode :: string

record 'w suppression_admin =
  sa_import :: "string \<Rightarrow> string list \<Rightarrow> bool \<Rightarrow> 'w \<Rightarrow> string option \<times> 'w"
  sa_status :: "'w \<Rightarrow> suppress_status \<times> 'w"

definition handleSuppressStatus :: "'w suppression_admin \<Rightarrow> 'w handler" where
  "handleSuppressStatus a req w = (case sa_status a w of (st, w) \<Rightarrow> Some (writeJSON 200 (StatusBody st), w))"

definition handleSuppressImport :: "suppress_import_request decoder \<Rightarrow> 'w suppression_admin \<Rightarrow> int \<Rightarrow> 'w handler" where
  "handleSuppressImport dec a maxHashes = decoded dec (32 * 2 ^ 20) (\<lambda>r _ w.
     if ir_version r = [] then Some (WriteError 400 ''bad_request'' ''version is required'', w)
     else if ir_mode r \<noteq> ''replace'' \<and> ir_mode r \<noteq> ''add'' then Some (WriteError 400 ''bad_request'' ''mode must be replace or add'', w)
     else if int (length (ir_hashes r)) > maxHashes then Some (WriteError 400 ''bad_request'' ''hashes exceeds the per-request limit'', w)
     else case sa_import a (ir_version r) (ir_hashes r) (ir_mode r = ''replace'') w of
       (Some e, w) \<Rightarrow> Some (WriteError 502 ''import_failed'' e, w)
     | (None, w) \<Rightarrow> (case sa_status a w of (st, w) \<Rightarrow> Some (writeJSON 200 (StatusBody st), w)))"

section \<open>Bands\<close>

record 'w bands =
  bs_snapshot :: "'w \<Rightarrow> band_row list \<times> 'w"
  bs_promote :: "string \<Rightarrow> 'w \<Rightarrow> (string + proposal) \<times> 'w"
  bs_resume :: "string \<Rightarrow> 'w \<Rightarrow> string option \<times> 'w"

definition handleBands :: "'w bands \<Rightarrow> 'w handler" where
  "handleBands b req w = (case bs_snapshot b w of (rows, w) \<Rightarrow> Some (writeJSON 200 (BandsBody rows), w))"

definition handleBandPromote :: "string decoder \<Rightarrow> 'w bands \<Rightarrow> 'w handler" where
  "handleBandPromote dec b = decoded dec (2 ^ 16) (\<lambda>host _ w.
     if host = [] then Some (WriteError 400 ''bad_request'' ''mx_host is required'', w)
     else case bs_promote b host w of
       (Inl e, w) \<Rightarrow> Some (WriteError 409 ''no_proposal'' e, w)
     | (Inr applied, w) \<Rightarrow> Some (writeJSON 200 (PromotedBody applied), w))"

definition handleBandResume :: "string decoder \<Rightarrow> 'w bands \<Rightarrow> 'w handler" where
  "handleBandResume dec b = decoded dec (2 ^ 16) (\<lambda>host _ w.
     if host = [] then Some (WriteError 400 ''bad_request'' ''mx_host is required'', w)
     else case bs_resume b host w of
       (Some e, w) \<Rightarrow> Some (WriteError 503 ''resume_failed'' e, w)
     | (None, w) \<Rightarrow> Some (writeJSON 200 (FieldsBody [(''resumed'', host)]), w))"

section \<open>Health\<close>

record 'w health_override =
  ho_burned :: "'w \<Rightarrow> bool \<times> string"
  ho_resume :: "'w \<Rightarrow> 'w"
  ho_complaint :: "'w \<Rightarrow> 'w"

definition handleIPHealth :: "'w health_override \<Rightarrow> 'w handler" where
  "handleIPHealth h req w = (case ho_burned h w of (b, why) \<Rightarrow> Some (writeJSON 200 (HealthBody b why), w))"

definition handleIPHealthResume :: "'w health_override \<Rightarrow> 'w handler" where
  "handleIPHealthResume h req w = handleIPHealth h req (ho_resume h w)"

definition handleComplaint :: "'w health_override \<Rightarrow> ('w \<Rightarrow> 'w) option \<Rightarrow> 'w handler" where
  "handleComplaint h m req w =
     (let w = ho_complaint h w; w = (case m of None \<Rightarrow> w | Some f \<Rightarrow> f w)
      in Some (writeJSON 200 (FieldsBody [(''status'', ''recorded'')]), w))"

definition handleHealthz :: "'w handler" where
  "handleHealthz req w = Some (writeJSON 200 (FieldsBody [(''status'', ''ok'')]), w)"

type_synonym 'w readiness = "'w \<Rightarrow> string option \<times> 'w"

definition StoreReachable :: "('w \<Rightarrow> string option \<times> 'w) \<Rightarrow> 'w readiness" where
  "StoreReachable ping = ping"

definition handleReadyz :: "'w readiness option \<Rightarrow> 'w handler" where
  "handleReadyz ready req w =
     (case ready of
        None \<Rightarrow> Some (writeJSON 200 (FieldsBody [(''status'', ''ready'')]), w)
      | Some f \<Rightarrow>
          (case f w of
             (Some e, w) \<Rightarrow> Some (writeJSON 503 (FieldsBody [(''status'', ''not ready''), (''reason'', e)]), w)
           | (None, w) \<Rightarrow> Some (writeJSON 200 (FieldsBody [(''status'', ''ready'')]), w)))"

section \<open>Metrics\<close>

text \<open>\<open>m_elapsed\<close> is the time between two readings of the clock; \<open>m_complaint\<close> is there when the registry
  counts complaints.\<close>

record 'w api_metrics =
  m_observe :: "rat \<Rightarrow> 'w \<Rightarrow> 'w"
  m_render :: "'w \<Rightarrow> string"
  m_complaint :: "('w \<Rightarrow> 'w) option"
  m_elapsed :: "'w \<Rightarrow> 'w \<Rightarrow> rat"

definition handleMetrics :: "'w api_metrics \<Rightarrow> 'w handler" where
  "handleMetrics m req w = Some (\<lparr>rsp_status = 200,
     rsp_headers = [(''Content-Type'', ''text/plain; version=0.0.4; charset=utf-8'')], rsp_body = TextBody (m_render m w)\<rparr>, w)"

definition timed :: "'w api_metrics \<Rightarrow> 'w handler \<Rightarrow> 'w handler" where
  "timed m h req w = map_option (\<lambda>(rsp, w'). (rsp, m_observe m (m_elapsed m w w') w')) (h req w)"

definition complaintRecorderOrNil :: "'w api_metrics option \<Rightarrow> ('w \<Rightarrow> 'w) option" where
  "complaintRecorderOrNil m = Option.bind m m_complaint"

section \<open>Middleware\<close>

definition requireAPIKey :: "string \<Rightarrow> 'w handler \<Rightarrow> 'w handler" where
  "requireAPIKey key h req w =
     (let a = q_header req ''Authorization''
      in if \<not> (has_prefix a ''Bearer '' \<and> drop 7 a = key)
         then Some ((WriteError 401 ''unauthorized'' ''valid credentials are required'')
           \<lparr>rsp_headers := [(''WWW-Authenticate'', ''Bearer realm=\"verifierd\"''), (''Content-Type'', ''application/json; charset=utf-8'')]\<rparr>, w)
         else h req w)"

record log_line =
  lg_id :: string
  lg_method :: string
  lg_path :: string
  lg_status :: int

text \<open>\<open>new_id\<close> is what the random generator gave, \<open>record_line\<close> writes to the log.\<close>

definition newRequestID :: "nat list option \<Rightarrow> string" where
  "newRequestID bytes = (case bytes of None \<Rightarrow> ''unknown'' | Some bs \<Rightarrow> hex_encode bs)"

definition withRequestID :: "('w \<Rightarrow> nat list option) \<Rightarrow> (log_line \<Rightarrow> 'w \<Rightarrow> 'w) \<Rightarrow> 'w handler \<Rightarrow> 'w handler" where
  "withRequestID entropy record_line h req w =
     (let given = q_header req ''X-Request-Id'';
          mid = (if given = [] then newRequestID (entropy w) else given)
      in map_option (\<lambda>(rsp, w).
           (rsp\<lparr>rsp_headers := (''X-Request-Id'', mid) # rsp_headers rsp\<rparr>,
            record_line \<lparr>lg_id = mid, lg_method = q_method req, lg_path = q_path req, lg_status = rsp_status rsp\<rparr> w)) (h req w))"

section \<open>Router\<close>

record decoders =
  dec_probe :: "probe_request decoder"
  dec_send :: "send_request decoder"
  dec_import :: "suppress_import_request decoder"
  dec_host :: "string decoder"

record 'w api_options =
  ao_ready :: "'w readiness option"
  ao_prober :: "'w prober option"
  ao_sourceIP :: string
  ao_maxEmails :: int
  ao_authEnabled :: bool
  ao_apiKey :: string
  ao_metrics :: "'w api_metrics option"
  ao_logger :: "(log_line \<Rightarrow> 'w \<Rightarrow> 'w) option"
  ao_health :: "'w health_override option"
  ao_suppression :: "'w suppression_admin option"
  ao_relay :: "(message \<Rightarrow> 'w \<Rightarrow> (relay_error + string) \<times> 'w) option"
  ao_maxHashes :: int
  ao_bands :: "'w bands option"
  ao_now :: "'w \<Rightarrow> instant"
  ao_entropy :: "'w \<Rightarrow> nat list option"
  ao_error :: "relay_error \<Rightarrow> string"
  ao_decoders :: decoders

definition Authenticated :: "'w api_options \<Rightarrow> 'w handler \<Rightarrow> 'w handler" where
  "Authenticated ao h = (if \<not> ao_authEnabled ao then h else requireAPIKey (ao_apiKey ao) h)"

type_synonym 'w route = "(string \<times> string) \<times> 'w handler"

definition when_set :: "'a option \<Rightarrow> ('a \<Rightarrow> 'b list) \<Rightarrow> 'b list" where
  "when_set x f = (case x of None \<Rightarrow> [] | Some y \<Rightarrow> f y)"

definition routes :: "'w api_options \<Rightarrow> 'w route list" where
  "routes ao = (let guard = Authenticated ao; dec = ao_decoders ao; now = ao_now ao in
     [((''GET'', ''/healthz''), handleHealthz), ((''GET'', ''/readyz''), handleReadyz (ao_ready ao))] @
     when_set (ao_metrics ao) (\<lambda>m. [((''GET'', ''/metrics''), guard (handleMetrics m))]) @
     when_set (ao_health ao) (\<lambda>h.
       [((''GET'', ''/admin/ip-health''), guard (handleIPHealth h)),
        ((''POST'', ''/admin/ip-health/resume''), guard (handleIPHealthResume h)),
        ((''POST'', ''/admin/ip-health/complaint''), guard (handleComplaint h (complaintRecorderOrNil (ao_metrics ao))))]) @
     when_set (ao_suppression ao) (\<lambda>a. let limit = (if ao_maxHashes ao \<le> 0 then 200000 else ao_maxHashes ao) in
       [((''GET'', ''/admin/suppress''), guard (handleSuppressStatus a)),
        ((''POST'', ''/admin/suppress''), guard (handleSuppressImport (dec_import dec) a limit))]) @
     when_set (ao_relay ao) (\<lambda>r. [((''POST'', ''/send''), guard (handleSend (dec_send dec) now (ao_error ao) r))]) @
     when_set (ao_bands ao) (\<lambda>b.
       [((''GET'', ''/admin/bands''), guard (handleBands b)),
        ((''POST'', ''/admin/bands/promote''), guard (handleBandPromote (dec_host dec) b)),
        ((''POST'', ''/admin/bands/resume''), guard (handleBandResume (dec_host dec) b))]) @
     when_set (ao_prober ao) (\<lambda>p. let limit = (if ao_maxEmails ao \<le> 0 then 500 else ao_maxEmails ao);
         h = handleProbe (dec_probe dec) now p (ao_sourceIP ao) limit;
         h = (case ao_metrics ao of None \<Rightarrow> h | Some m \<Rightarrow> timed m h)
       in [((''POST'', ''/probe''), guard h)]))"

text \<open>
  \<open>http.ServeMux\<close>: a path that is not in canonical form is redirected; otherwise the route with the method
  and the path is served, where a GET route serves HEAD as well, and everything else goes to the pattern
  \<open>/\<close>. Paths are taken with their percent-escapes undone.
\<close>

definition clean_segment :: "string \<Rightarrow> string list \<Rightarrow> string list" where
  "clean_segment seg acc = (if seg = [] \<or> seg = ''.'' then acc else if seg = ''..'' then tl acc else seg # acc)"

definition clean_path :: "string \<Rightarrow> string" where
  "clean_path p =
     (let p = (if p = [] \<or> hd p \<noteq> CHR ''/'' then CHR ''/'' # p else p);
          np = CHR ''/'' # join_with ''/'' (rev (fold clean_segment (split_on (CHR ''/'') p) []))
      in if last p = CHR ''/'' \<and> np \<noteq> ''/'' then np @ ''/'' else np)"

definition notFound :: "'w handler" where
  "notFound req w = Some (WriteError 404 ''not_found'' ''no such endpoint'', w)"

definition find_route :: "'w route list \<Rightarrow> http_request \<Rightarrow> 'w handler" where
  "find_route rs req =
     (case map_of rs (q_method req, q_path req) of
        Some h \<Rightarrow> h
      | None \<Rightarrow>
          (case if q_method req = ''HEAD'' then map_of rs (''GET'', q_path req) else None of
             Some h \<Rightarrow> h
           | None \<Rightarrow> notFound))"

definition serve_mux :: "'w route list \<Rightarrow> 'w handler" where
  "serve_mux rs req w =
     (if q_method req \<noteq> ''CONNECT'' \<and> clean_path (q_path req) \<noteq> q_path req
      then Some (\<lparr>rsp_status = 301, rsp_headers = [(''Location'', clean_path (q_path req))], rsp_body = RedirectBody (clean_path (q_path req))\<rparr>, w)
      else find_route rs req req w)"

definition NewRouter :: "'w api_options \<Rightarrow> 'w handler" where
  "NewRouter ao =
     (let mux = serve_mux (routes ao)
      in case ao_logger ao of None \<Rightarrow> mux | Some rl \<Rightarrow> withRequestID (ao_entropy ao) rl mux)"

section \<open>The credential check\<close>

definition presents_key :: "'w api_options \<Rightarrow> http_request \<Rightarrow> bool" where
  "presents_key ao req \<longleftrightarrow> q_header req ''Authorization'' = ''Bearer '' @ ao_apiKey ao"

lemma prefix_drop_iff: "has_prefix a p \<and> drop (length p) a = key \<longleftrightarrow> a = p @ key"
  unfolding has_prefix_def by (metis append_eq_conv_conj)

lemma bearer_iff: "has_prefix a ''Bearer '' \<and> drop 7 a = key \<longleftrightarrow> a = ''Bearer '' @ key"
proof -
  have "length ''Bearer '' = 7" by simp
  from prefix_drop_iff [of a "''Bearer ''" key, unfolded this] show ?thesis .
qed

lemma requireAPIKey_refuses:
  assumes "q_header req ''Authorization'' \<noteq> ''Bearer '' @ key"
  obtains rsp where "rsp_status rsp = 401" "\<And>w. requireAPIKey key h req w = Some (rsp, w)"
proof -
  let ?rsp = "(WriteError 401 ''unauthorized'' ''valid credentials are required'')
    \<lparr>rsp_headers := [(''WWW-Authenticate'', ''Bearer realm=\"verifierd\"''), (''Content-Type'', ''application/json; charset=utf-8'')]\<rparr>"
  have "requireAPIKey key h req w = Some (?rsp, w)" for w
    unfolding requireAPIKey_def Let_def bearer_iff using assms by (simp only: not_False_eq_True if_True)
  moreover have "rsp_status ?rsp = 401" by (simp add: WriteError_def writeJSON_def)
  ultimately show thesis using that by blast
qed

lemma requireAPIKey_passes: "q_header req ''Authorization'' = ''Bearer '' @ key \<Longrightarrow> requireAPIKey key h req w = h req w"
  unfolding requireAPIKey_def Let_def bearer_iff by (simp only: simp_thms if_False)

text \<open>A handler refuses a request: it answers 401 or 404 and calls nothing.\<close>

definition refuses :: "'w handler \<Rightarrow> http_request \<Rightarrow> bool" where
  "refuses h req \<longleftrightarrow> (\<forall>w. \<exists>rsp. h req w = Some (rsp, w) \<and> rsp_status rsp \<in> {401, 404})"

lemma refuses_guarded:
  assumes "ao_authEnabled ao" "\<not> presents_key ao req"
  shows "refuses (Authenticated ao h) req"
proof -
  from assms(2) obtain rsp where "rsp_status rsp = 401" "\<And>w. requireAPIKey (ao_apiKey ao) h req w = Some (rsp, w)"
    using requireAPIKey_refuses [of req "ao_apiKey ao" h] unfolding presents_key_def by metis
  then show ?thesis using assms(1) by (simp add: refuses_def Authenticated_def)
qed

lemma refuses_notFound: "refuses notFound req"
  by (simp add: refuses_def notFound_def WriteError_def writeJSON_def)

definition route_ok :: "'w api_options \<Rightarrow> 'w route \<Rightarrow> bool" where
  "route_ok ao r \<longleftrightarrow> snd (fst r) = ''/healthz'' \<or> snd (fst r) = ''/readyz'' \<or> (\<exists>h. snd r = Authenticated ao h)"

lemma route_ok_simps: "route_ok ao ((m, p), Authenticated ao h)" "route_ok ao ((m, ''/healthz''), h)" "route_ok ao ((m, ''/readyz''), h)"
  by (auto simp: route_ok_def)

lemma list_all_when_set: "(\<And>y. list_all P (f y)) \<Longrightarrow> list_all P (when_set x f)"
  by (cases x) (auto simp: when_set_def)

lemma routes_guarded: "list_all (route_ok ao) (routes ao)"
  unfolding routes_def Let_def list_all_append list.pred_inject
  by (intro conjI TrueI list_all_when_set route_ok_simps list.pred_inject(1) list.pred_inject(2) [THEN iffD2])

lemma find_route_refuses:
  assumes "ao_authEnabled ao" "\<not> presents_key ao req" "q_path req \<noteq> ''/healthz''" "q_path req \<noteq> ''/readyz''"
  shows "refuses (find_route (routes ao) req) req"
proof -
  have "refuses h req" if "map_of (routes ao) (m, q_path req) = Some h" for m h
  proof -
    have "route_ok ao ((m, q_path req), h)" using map_of_SomeD [OF that] routes_guarded [of ao] by (simp add: list_all_iff)
    then show ?thesis using assms(3,4) refuses_guarded [OF assms(1,2)] by (auto simp: route_ok_def)
  qed
  then show ?thesis by (auto simp: find_route_def refuses_notFound split: option.splits)
qed

lemma router_refuses:
  assumes "ao_authEnabled ao" "\<not> presents_key ao req" "q_path req \<noteq> ''/healthz''" "q_path req \<noteq> ''/readyz''"
  shows "\<exists>rsp w'. NewRouter ao req w = Some (rsp, w') \<and> rsp_status rsp \<in> {301, 401, 404} \<and>
    (w' = w \<or> (\<exists>write line. ao_logger ao = Some write \<and> w' = write line w \<and>
       lg_method line = q_method req \<and> lg_path line = q_path req \<and> lg_status line = rsp_status rsp))"
proof -
  obtain r where "find_route (routes ao) req req w = Some (r, w)" "rsp_status r \<in> {401, 404}"
    using find_route_refuses [OF assms] unfolding refuses_def by blast
  then obtain rsp where mux: "serve_mux (routes ao) req w = Some (rsp, w)" "rsp_status rsp \<in> {301, 401, 404}"
    by (cases "q_method req \<noteq> ''CONNECT'' \<and> clean_path (q_path req) \<noteq> q_path req") (auto simp: serve_mux_def)
  show ?thesis
  proof (cases "ao_logger ao")
    case None
    with mux show ?thesis by (simp add: NewRouter_def Let_def)
  next
    case (Some rl)
    with mux show ?thesis by (simp add: NewRouter_def Let_def withRequestID_def) fastforce
  qed
qed

text \<open>
  Nothing but the two health probes is open: with the credential check on, a request for any other path
  that does not carry the key is redirected, refused or not found, by whatever method, and reaches no
  engine: the state is what it was, but for one line in the log of its method, path and status.
\<close>

theorem closed_without_key:
  assumes "ao_authEnabled ao" "\<not> presents_key ao req" "q_path req \<noteq> ''/healthz''" "q_path req \<noteq> ''/readyz''"
  shows "\<exists>rsp w'. NewRouter ao req w = Some (rsp, w') \<and> rsp_status rsp \<in> {301, 401, 404} \<and>
    (w' = w \<or> (\<exists>write line. ao_logger ao = Some write \<and> w' = write line w \<and>
       lg_method line = q_method req \<and> lg_path line = q_path req \<and> lg_status line = rsp_status rsp))"
  by (rule router_refuses [OF assms])

section \<open>What a probe is asked\<close>

text \<open>The reference: the requests the interface is documented to take.\<close>

definition entry_ok :: "probe_domain \<Rightarrow> bool" where
  "entry_ok d \<longleftrightarrow> (let domain = trim_suffix (trim_space (pd_domain d)) ''.''
     in domain \<noteq> [] \<and> pd_emails d \<noteq> [] \<and> (\<forall>e\<in>set (pd_emails d). at_domain domain e))"

definition well_formed :: "int \<Rightarrow> probe_request \<Rightarrow> bool" where
  "well_formed limit r \<longleftrightarrow>
     trim_space (pr_mxHost r) \<noteq> [] \<and> 0 \<le> pr_policyStop r \<and> requested (to_request r) \<noteq> [] \<and>
     int (length (requested (to_request r))) \<le> limit \<and> (\<forall>e\<in>set (requested (to_request r)). CHR ''@'' \<in> set e) \<and>
     (case pr_domains r of
        None \<Rightarrow> pr_need r \<longrightarrow> trim_space (pr_domain r) \<noteq> []
      | Some ds \<Rightarrow> pr_domain r = [] \<and> pr_emails r = None \<and> \<not> pr_need r \<and> (\<forall>d\<in>set ds. entry_ok d))"

lemma domains_total_Inr:
  "domains_total ds n = Inr k \<longleftrightarrow> (\<forall>d\<in>set ds. entry_ok d) \<and> k = n + int (length (concat (map pd_emails ds)))"
  by (induction ds arbitrary: n) (auto simp: entry_ok_def Let_def list_all_iff)

lemma requested_domains:
  "pr_domains r = Some ds \<Longrightarrow> requested (to_request r) = (if ds = [] then emails_of r else concat (map pd_emails ds))"
  "pr_domains r = None \<Longrightarrow> requested (to_request r) = emails_of r"
  by (auto simp: requested_def to_request_def o_def)

lemma entries_nonempty: "ds \<noteq> [] \<Longrightarrow> (\<forall>d\<in>set ds. entry_ok d) \<Longrightarrow> concat (map pd_emails ds) \<noteq> []"
  by (cases ds) (auto simp: entry_ok_def Let_def)

lemma entries_at: "(\<forall>d\<in>set ds. entry_ok d) \<Longrightarrow> e \<in> set (concat (map pd_emails ds)) \<Longrightarrow> CHR ''@'' \<in> set e"
  by (auto simp: entry_ok_def Let_def at_domain_def)

lemma validateDomains_None:
  assumes "pr_domains r = Some ds"
  shows "validateDomains limit r ds = None \<longleftrightarrow> well_formed limit r"
proof (cases "ds = []")
  case True
  then show ?thesis using assms by (auto simp: validateDomains_def well_formed_def requested_domains emails_of_def)
next
  case False
  show ?thesis
  proof (cases "\<forall>d\<in>set ds. entry_ok d")
    case True
    then have "domains_total ds 0 = Inr (int (length (concat (map pd_emails ds))))" by (simp add: domains_total_Inr)
    with False True assms entries_nonempty [OF False True] entries_at [OF True] show ?thesis
      by (auto simp: validateDomains_def well_formed_def requested_domains)
  next
    case no: False
    then have "\<exists>e. domains_total ds 0 = Inl e" using domains_total_Inr [of ds 0] by (cases "domains_total ds 0") auto
    with no False assms show ?thesis by (auto simp: validateDomains_def well_formed_def)
  qed
qed

lemma probe_validate_well_formed: "probe_validate limit r = None \<longleftrightarrow> well_formed limit r"
proof (cases "pr_domains r")
  case None
  then show ?thesis by (auto simp: probe_validate_def well_formed_def requested_domains list_all_iff)
qed (simp add: probe_validate_def validateDomains_None)

section \<open>From the request to the answers\<close>

text \<open>The engine: the state between requests is the environment and the receivers that refused grouping.\<close>

primrec probe_error_text :: "probe_error \<Rightarrow> string" where
  "probe_error_text MXHostRequired = ''prober: mx_host is required''"
| "probe_error_text EmailsEmpty = ''prober: emails is empty''"

definition prober_of :: "'w ops \<Rightarrow> 'w services \<Rightarrow> prober_options \<Rightarrow> ('w \<times> string list) prober" where
  "prober_of op sv o1 req x = (case x of (w, f) \<Rightarrow>
     map_option (\<lambda>(r, st). (map_sum probe_error_text id r, (env st, fallen st)))
       (Probe op sv o1 req \<lparr>env = w, unread = [], fallen = f, log = []\<rparr>))"

lemma prober_of_answers:
  assumes "trim_space (MXHost req) \<noteq> []" "requested req \<noteq> []"
  shows "\<exists>resp x'. prober_of op sv o1 req x = Some (Inr resp, x') \<and> dom (Results resp) = set (requested req)"
proof -
  obtain w f where x: "x = (w, f)" by fastforce
  obtain r st' where P: "Probe op sv o1 req \<lparr>env = w, unread = [], fallen = f, log = []\<rparr> = Some (r, st')"
    "served o1 sv (\<lambda>_. True) (\<lambda>_. True) req (map_sum id Results r) st'"
    using Probe_any [of op sv o1 req w "[]" f] by blast
  have "MXHost req \<noteq> []" using assms(1) by (auto simp: trim_space_def trim_left_def trim_right_def)
  with P assms(2) show ?thesis by (cases r) (auto simp: prober_of_def x served_def request_ok_def)
qed

definition email_limit :: "'w api_options \<Rightarrow> int" where
  "email_limit ao = (if ao_maxEmails ao \<le> 0 then 500 else ao_maxEmails ao)"

definition served_probe :: "http_response \<Rightarrow> string list \<Rightarrow> bool" where
  "served_probe rsp as \<longleftrightarrow> rsp_status rsp = 200 \<and>
     (\<exists>src t res k multi. rsp_body rsp = ProbeBody src t res k multi \<and> dom res = set as)"

lemma handleProbe_outcome:
  shows "\<exists>rsp x'. handleProbe dec now (prober_of op sv o1) src limit req x = Some (rsp, x') \<and>
    (case dec maxBodyBytes (q_body req) of
       Inl e \<Rightarrow> rsp_status rsp = 400 \<and> x' = x
     | Inr r \<Rightarrow> if well_formed limit r then served_probe rsp (requested (to_request r)) else rsp_status rsp = 400 \<and> x' = x)"
proof (cases "dec maxBodyBytes (q_body req)")
  case (Inl e)
  then show ?thesis by (simp add: handleProbe_def decoded_def WriteError_def writeJSON_def)
next
  case (Inr r)
  show ?thesis
  proof (cases "well_formed limit r")
    case True
    then have "trim_space (MXHost (to_request r)) \<noteq> []" "requested (to_request r) \<noteq> []"
      by (simp_all add: well_formed_def) (simp add: to_request_def)
    from prober_of_answers [OF this, of op sv o1 x] obtain resp x' where
      "prober_of op sv o1 (to_request r) x = Some (Inr resp, x')" "dom (Results resp) = set (requested (to_request r))" by blast
    with Inr True probe_validate_well_formed [of limit r] show ?thesis
      by (simp add: handleProbe_def decoded_def writeJSON_def served_probe_def)
  next
    case False
    then obtain e where "probe_validate limit r = Some e" using probe_validate_well_formed [of limit r] by fastforce
    with Inr False show ?thesis by (simp add: handleProbe_def decoded_def WriteError_def writeJSON_def)
  qed
qed

lemma map_of_skip: "k \<notin> fst ` set xs \<Longrightarrow> map_of (xs @ ys) k = map_of ys k"
  by (simp add: map_of_append map_add_def map_of_eq_None_iff [THEN iffD2] split: option.splits)

lemma when_set_keys: "(\<And>y. k \<notin> fst ` set (f y)) \<Longrightarrow> k \<notin> fst ` set (when_set x f)"
  by (cases x) (auto simp: when_set_def)

lemma probe_route:
  assumes "ao_prober ao = Some p"
  shows "map_of (routes ao) (''POST'', ''/probe'') = Some (Authenticated ao
    (let h = handleProbe (dec_probe (ao_decoders ao)) (ao_now ao) p (ao_sourceIP ao) (email_limit ao)
     in case ao_metrics ao of None \<Rightarrow> h | Some m \<Rightarrow> timed m h))"
proof -
  have "map_of (when_set (ao_prober ao) f) k = map_of (f p) k" for f :: "('a prober \<Rightarrow> 'a route list)" and k
    by (simp add: assms when_set_def)
  then show ?thesis
    unfolding routes_def Let_def email_limit_def
    by (simp del: map_of_append append_Cons add: map_of_skip when_set_keys)
qed

lemma clean_probe_path: "clean_path ''/probe'' = ''/probe''"
  by (simp add: clean_path_def clean_segment_def Let_def)

lemma NewRouter_mux:
  assumes "serve_mux (routes ao) req x = Some (rsp, x')"
  shows "\<exists>rsp' x''. NewRouter ao req x = Some (rsp', x'') \<and> rsp_status rsp' = rsp_status rsp \<and> rsp_body rsp' = rsp_body rsp"
  using assms by (cases "ao_logger ao") (auto simp: NewRouter_def Let_def withRequestID_def)

lemma timed_outcome:
  assumes "h req x = Some (rsp, x')"
  shows "\<exists>x''. (case m of None \<Rightarrow> h | Some m \<Rightarrow> timed m h) req x = Some (rsp, x'')"
  using assms by (cases m) (auto simp: timed_def)

lemma Authenticated_passes: "ao_authEnabled ao \<longrightarrow> presents_key ao req \<Longrightarrow> Authenticated ao h req x = h req x"
  by (cases "ao_authEnabled ao") (simp_all only: Authenticated_def presents_key_def requireAPIKey_passes simp_thms if_True if_False)

text \<open>
  C34. A probe over HTTP is always answered, and about every address: a POST of \<open>/probe\<close> by a caller that holds
  the key ends, whatever the mail servers, the store and the resolver do. When the body is a request the
  interface takes, the answer is 200 with a result for every address named and for no other; when it is
  not, or is no JSON, the answer is 400. The status of a failing engine is never sent.
\<close>

theorem probe_is_answered:
  assumes "ao_prober ao = Some (prober_of op sv o1)" "ao_authEnabled ao \<longrightarrow> presents_key ao req"
    and "q_method req = ''POST''" "q_path req = ''/probe''"
  shows "\<exists>rsp x'. NewRouter ao req x = Some (rsp, x') \<and>
    (case dec_probe (ao_decoders ao) maxBodyBytes (q_body req) of
       Inl e \<Rightarrow> rsp_status rsp = 400
     | Inr r \<Rightarrow> if well_formed (email_limit ao) r then served_probe rsp (requested (to_request r)) else rsp_status rsp = 400)"
proof -
  let ?h = "handleProbe (dec_probe (ao_decoders ao)) (ao_now ao) (prober_of op sv o1) (ao_sourceIP ao) (email_limit ao)"
  obtain rsp x1 where h: "?h req x = Some (rsp, x1)"
    "case dec_probe (ao_decoders ao) maxBodyBytes (q_body req) of
       Inl e \<Rightarrow> rsp_status rsp = 400 \<and> x1 = x
     | Inr r \<Rightarrow> if well_formed (email_limit ao) r then served_probe rsp (requested (to_request r)) else rsp_status rsp = 400 \<and> x1 = x"
    using handleProbe_outcome [of "dec_probe (ao_decoders ao)" "ao_now ao" op sv o1 "ao_sourceIP ao" "email_limit ao" req x] by blast
  from timed_outcome [of ?h req x rsp x1 "ao_metrics ao"] h(1) obtain x2 where
    "(case ao_metrics ao of None \<Rightarrow> ?h | Some m \<Rightarrow> timed m ?h) req x = Some (rsp, x2)" by blast
  then have "serve_mux (routes ao) req x = Some (rsp, x2)"
    using probe_route [OF assms(1)] assms(3,4) Authenticated_passes [OF assms(2)] clean_probe_path
    by (simp add: serve_mux_def find_route_def Let_def)
  from NewRouter_mux [OF this] obtain rsp' x' where
    r: "NewRouter ao req x = Some (rsp', x')" "rsp_status rsp' = rsp_status rsp" "rsp_body rsp' = rsp_body rsp" by blast
  show ?thesis
    by (intro exI [of _ rsp'] exI [of _ x'] conjI r(1)) (use h(2) r(2,3) in \<open>auto simp: served_probe_def split: sum.splits if_splits\<close>)
qed

text \<open>A router for the witnesses, over the scripted server and a decoder that takes one body.\<close>

definition example_body :: probe_request where
  "example_body = \<lparr>pr_mxHost = ''mx.example.org'', pr_domain = [], pr_emails = Some [''jo@example.org''], pr_need = False,
     pr_helo = [], pr_mailFrom = [], pr_policyStop = 0, pr_domains = None\<rparr>"

definition example_router :: "(string list \<times> string list) api_options" where
  "example_router = \<lparr>ao_ready = None, ao_prober = Some (prober_of Conduct.scripted no_services example_options), ao_sourceIP = ''192.0.2.1'',
     ao_maxEmails = 500, ao_authEnabled = True, ao_apiKey = ''secret'', ao_metrics = None, ao_logger = None, ao_health = None,
     ao_suppression = None, ao_relay = None, ao_maxHashes = 0, ao_bands = None, ao_now = (\<lambda>_. 0), ao_entropy = (\<lambda>_. None),
     ao_error = (\<lambda>_. []), ao_decoders = \<lparr>dec_probe = (\<lambda>_ b. if b = ''{}'' then Inr example_body else Inl ''EOF''),
       dec_send = (\<lambda>_ _. Inl []), dec_import = (\<lambda>_ _. Inl []), dec_host = (\<lambda>_ _. Inl [])\<rparr>\<rparr>"

definition example_post :: "string \<Rightarrow> http_request" where
  "example_post key = \<lparr>q_method = ''POST'', q_path = ''/probe'',
     q_header = (\<lambda>h. if h = ''Authorization'' then ''Bearer '' @ key else []), q_body = ''{}''\<rparr>"

lemma example_well_formed: "well_formed 500 example_body"
  by (simp add: well_formed_def example_body_def to_request_def requested_def emails_of_def trim_space_def trim_left_def trim_right_def is_space_def)

theorem probe_is_answered_witness:
  "\<exists>rsp x'. NewRouter example_router (example_post ''secret'') ([], []) = Some (rsp, x') \<and> served_probe rsp [''jo@example.org'']"
proof -
  have key: "presents_key example_router (example_post ''secret'')"
    by (simp add: presents_key_def example_router_def example_post_def)
  have r: "requested (to_request example_body) = [''jo@example.org'']"
    by (simp add: example_body_def to_request_def requested_def emails_of_def)
  show ?thesis
    using probe_is_answered [of example_router Conduct.scripted no_services example_options "example_post ''secret''" "([], [])"] key
      example_well_formed r by (simp add: example_router_def example_post_def email_limit_def)
qed

theorem closed_without_key_witness:
  "\<exists>rsp. NewRouter example_router (example_post ''guess'') ([], []) = Some (rsp, ([], []))"
proof -
  have "\<not> presents_key example_router (example_post ''guess'')" "ao_authEnabled example_router" "ao_logger example_router = None"
    by (simp_all add: presents_key_def example_router_def example_post_def)
  with closed_without_key [of example_router "example_post ''guess''" "([], [])"] show ?thesis
    by (auto simp: example_post_def)
qed

text \<open>
  Every error of the relay but one is called the caller's fault: when the store is down while a message is
  queued, the answer is 400, which tells the caller not to try again.
\<close>

theorem store_failure_is_bad_request:
  assumes "dec maxSendBytes (q_body req) = Inr b" "\<And>m. accept m w = (Inl (QueueError e), w')"
  shows "\<exists>rsp. handleSend dec now error_of accept req w = Some (rsp, w') \<and> rsp_status rsp = 400"
  using assms by (simp add: handleSend_def decoded_def WriteError_def writeJSON_def)

end
