(* ===== verification/Service.thy ===== *)
theory Service
  imports Config Api Metrics Relay Standdown Iphealth Suppress Mxprofile
begin

text \<open>
  \<open>cmd/verifierd\<close>: how the service is put together from its configuration, started and stopped, and the loop that
  empties the outbound queue.
\<close>

section \<open>The parts, from the configuration\<close>

datatype log_level = Debug | Info | Warn | Error

definition newLogger :: "log_conf \<Rightarrow> log_level \<times> bool" where
  "newLogger c =
     (if l_level c = ''debug'' then Debug else if l_level c = ''warn'' then Warn else if l_level c = ''error'' then Error else Info,
      l_format c \<noteq> ''text'')"




fun dial_first :: "(string \<Rightarrow> 'w \<Rightarrow> (string + 'c) \<times> 'w) \<Rightarrow> string list \<Rightarrow> string \<Rightarrow> 'w \<Rightarrow> (string + 'c) \<times> 'w" where
  "dial_first dial [] lastErr w = (Inl lastErr, w)"
| "dial_first dial (s # ss) lastErr w =
     (case dial s w of (Inr c, w) \<Rightarrow> (Inr c, w) | (Inl e, w) \<Rightarrow> dial_first dial ss e w)"






text \<open>The hooks that write the journal of what was asked; all three have one switch.\<close>

definition replyLogger :: "bool \<Rightarrow> (string \<times> string \<times> int \<times> string \<times> string \<times> string \<times> string \<Rightarrow> (string \<times> string) list) option" where
  "replyLogger enabled = (if \<not> enabled then None
     else Some (\<lambda>(host, cls, n, enhanced, reply, tls, err).
       [(''mx_host'', host), (''pace_key'', PaceKey host), (''class'', cls), (''smtp_code'', itoa n), (''enhanced_code'', enhanced),
        (''reply'', reply), (''tls'', tls), (''err'', err)]))"

definition pacedLogger :: "bool \<Rightarrow> (string \<Rightarrow> (string \<times> string) list) option" where
  "pacedLogger enabled = (if \<not> enabled then None else Some (\<lambda>host. [(''mx_host'', host), (''pace_key'', PaceKey host)]))"

definition leaseLogger :: "bool \<Rightarrow> (string \<Rightarrow> duration \<Rightarrow> (string \<times> string) list) option" where
  "leaseLogger enabled = (if \<not> enabled then None
     else Some (\<lambda>host waited. [(''mx_host'', host), (''pace_key'', PaceKey host), (''lease_wait_ms'', itoa (waited div millisecond))]))"

text \<open>\<open>bandsView\<close>: the rows of the pacer with the proposal that stands for each.\<close>

fun band_rows :: "(string \<times> rat \<times> rat \<times> int \<times> pace_state \<times> int) list \<Rightarrow> pstore \<Rightarrow> band_row list \<times> pstore" where
  "band_rows [] s = ([], s)"
| "band_rows ((h, r, mr, _, st, _) # rows) s =
     (let (pr, s) = Proposal h s; (rest, s) = band_rows rows s
      in (\<lparr>row_host = h, row_rate = r, row_maxRate = mr, row_state = st, row_proposal = pr\<rparr> # rest, s))"

definition bandsView_Snapshot :: "pacer \<Rightarrow> pstore \<Rightarrow> band_row list \<times> pstore" where
  "bandsView_Snapshot p s = band_rows (Snapshot p) s"

section \<open>TLS\<close>




section \<open>Assembly\<close>














text \<open>\<open>sdNotify\<close>: the socket the manager is told at; a leading \<open>@\<close> is the abstract namespace.\<close>

definition sdNotify :: "string \<Rightarrow> string \<Rightarrow> (string \<times> string) option" where
  "sdNotify sock told = (case sock of
     [] \<Rightarrow> None
   | ch # rest \<Rightarrow> Some (if ch = CHR ''@'' then CHR 0x00 # rest else sock, told))"

section \<open>The outbound queue\<close>

text \<open>
  \<open>drain\<close>: one message after the other; after an error, or when there was nothing to do, a pause. \<open>quit\<close> says whether the
  service was stopped during a pause. The fuel counts deliveries: the loop has no end of its own.
\<close>

datatype drain_event = Attempted bool "relay_error option" | Logged relay_error | Waited duration

definition drain_interval :: "duration \<Rightarrow> duration" where
  "drain_interval d = (if d \<le> 0 then 10 * second else d)"

definition drain_log :: "bool \<Rightarrow> relay_error option \<Rightarrow> drain_event list" where
  "drain_log did problem = Attempted did problem # (case problem of None \<Rightarrow> [] | Some (NotSending _) \<Rightarrow> [] | Some e \<Rightarrow> [Logged e])"

fun drain :: "nat \<Rightarrow> ('w rstate \<Rightarrow> ((bool \<times> relay_error option) \<times> 'w rstate) option) \<Rightarrow> ('w \<Rightarrow> bool) \<Rightarrow> duration \<Rightarrow> 'w rstate \<Rightarrow> drain_event list \<times> 'w rstate" where
  "drain 0 deliver quit d st = ([], st)"
| "drain (Suc n) deliver quit d st =
     (case deliver st of
        None \<Rightarrow> ([], st)
      | Some ((did, problem), st) \<Rightarrow>
          if did \<and> problem = None then (case drain n deliver quit d st of (es, st) \<Rightarrow> (drain_log did problem @ es, st))
          else let es0 = drain_log did problem @ [Waited (drain_interval d)]
               in if quit (rw st) then (es0, st)
                  else case drain n deliver quit d st of (es, st) \<Rightarrow> (es0 @ es, st))"

section \<open>What a service that is ready has\<close>













section \<open>The drain does not spin\<close>

definition idle :: "drain_event \<Rightarrow> bool" where
  "idle e \<longleftrightarrow> (\<exists>did problem. e = Attempted did problem \<and> \<not> (did \<and> problem = None))"

definition paced_log :: "duration \<Rightarrow> drain_event list \<Rightarrow> bool" where
  "paced_log d es \<longleftrightarrow> filter (\<lambda>e. idle e \<or> (\<exists>t. e = Waited t)) es = concat (map (\<lambda>e. [e, Waited d]) (filter idle es)) \<and>
     (\<forall>why. Logged (NotSending why) \<notin> set es)"

lemma paced_log_append: "paced_log d es \<Longrightarrow> paced_log d es' \<Longrightarrow> paced_log d (es @ es')"
  by (auto simp: paced_log_def)

lemma paced_log_turn:
  "paced_log d (drain_log True None)"
  "\<not> (did \<and> problem = None) \<Longrightarrow> paced_log d (drain_log did problem @ [Waited d])"
  by (auto simp: paced_log_def drain_log_def idle_def split: option.split relay_error.split)

lemma drain_paced: "drain n deliver quit d st = (es, st') \<Longrightarrow> paced_log (drain_interval d) es"
proof (induction n deliver quit d st arbitrary: es st' rule: drain.induct)
  case (2 n deliver quit d st)
  show ?case
  proof (cases "deliver st")
    case None
    with 2(3) show ?thesis by (simp add: paced_log_def)
  next
    case (Some x)
    obtain did problem st1 where x: "x = ((did, problem), st1)" by (metis prod.collapse)
    obtain es1 st2 where r: "drain n deliver quit d st1 = (es1, st2)" by fastforce
    show ?thesis
    proof (cases "did \<and> problem = None")
      case True
      with 2(3) Some x r have "es = drain_log True None @ es1" by simp
      moreover have "paced_log (drain_interval d) es1" using 2(1) [OF Some x [symmetric] refl _ r] True by simp
      ultimately show ?thesis by (simp only: paced_log_append paced_log_turn(1))
    next
      case False
      let ?es0 = "drain_log did problem @ [Waited (drain_interval d)]"
      have "quit (rw st1) \<and> es = ?es0 \<or> \<not> quit (rw st1) \<and> es = ?es0 @ es1"
        using 2(3) Some x r False by (auto simp: Let_def split: if_splits)
      moreover have "paced_log (drain_interval d) es1" if "\<not> quit (rw st1)" using 2(2) [OF Some x [symmetric] refl False refl that r] .
      ultimately show ?thesis using paced_log_turn(2) [OF False] paced_log_append by blast
    qed
  qed
qed (simp add: paced_log_def)

text \<open>
  Every attempt that found nothing to do or failed is followed by a pause of the interval, which is never zero: a store that
  is down is not asked in a loop. A state in which nothing may be sent is not logged as an error.
\<close>

theorem drain_pauses:
  assumes "drain n deliver quit d st = (es, st')"
  shows "filter (\<lambda>e. idle e \<or> (\<exists>t. e = Waited t)) es = concat (map (\<lambda>e. [e, Waited (drain_interval d)]) (filter idle es)) \<and>
    0 < drain_interval d \<and> (\<forall>why. Logged (NotSending why) \<notin> set es)"
  using drain_paced [OF assms] by (simp add: paced_log_def drain_interval_def)

theorem drain_pauses_witness:
  "filter (\<lambda>e. idle e \<or> (\<exists>t. e = Waited t)) (fst (drain 1 (\<lambda>st. Some ((False, None), st)) (\<lambda>_. True) 0 \<lparr>rw = (), events = []\<rparr>)) =
    [Attempted False None, Waited (10 * second)]"
proof -
  have d: "drain 1 (\<lambda>st. Some ((False, None), st)) (\<lambda>_. True) 0 \<lparr>rw = (), events = []\<rparr> =
      ([Attempted False None, Waited (10 * second)], \<lparr>rw = (), events = []\<rparr>)"
    by (simp add: drain_log_def drain_interval_def Let_def)
  have i: "idle (Attempted False None)" "\<not> idle (Waited t)" for t by (auto simp: idle_def)
  show ?thesis using drain_pauses [OF d] unfolding d fst_conv by (simp add: i drain_interval_def)
qed



end
