(* ===== verification/Simengine.thy ===== *)
theory Simengine
  imports Prelude Complex_Main "HOL-Library.Multiset"
begin

text \<open>
  \<open>internal/mxsim/policy\<close> and \<open>clock\<close>: the receiver the service is tested against. A profile says how the
  simulated server behaves, the engine keeps what it has seen per address and decides every connection and
  every RCPT, and the counters are what the tests of the service are judged by.
\<close>

section \<open>Profiles\<close>

record rate_rule =
  rr_count :: int
  rr_window :: duration
  rr_onExceed :: string

definition rule_enabled :: "rate_rule \<Rightarrow> bool" where
  "rule_enabled r \<longleftrightarrow> rr_count r > 0 \<and> rr_window r > 0"

record limits =
  li_maxConns :: int
  li_connRate :: rate_rule
  li_rcptRate :: rate_rule
  li_rcptPerConn :: int
  li_cooldown :: duration
  li_tooManyConns :: string

record behaviour =
  be_tarpitBanner :: duration
  be_tarpitRcpt :: duration
  be_greylist :: bool
  be_greylistDelay :: duration
  be_greylistReply :: string
  be_catchAll :: bool
  be_rejectUnknown :: string
  be_accept :: string
  be_catchAllDomains :: "string list"
  be_relayDenied :: string
  be_domainsPerTransaction :: int
  be_domainLimitReply :: string
  be_transactionsPerConnection :: int
  be_transactionLimitReply :: string
  be_timeoutHold :: duration
  be_idleTimeout :: duration

record recipients =
  re_exists :: "string list"
  re_bounce :: "string list"
  re_timeout :: "string list"
  re_drop :: "string list"

record chaos =
  ch_tempErrorRate :: rat
  ch_tempErrorReply :: string
  ch_dropRate :: rat
  ch_seed :: int

record profile =
  pf_name :: string
  pf_domains :: "string list"
  pf_listen :: "string list"
  pf_banner :: string
  pf_ehloCaps :: "string list"
  pf_startTLS :: string
  pf_limits :: limits
  pf_behaviour :: behaviour
  pf_recipients :: recipients
  pf_chaos :: chaos

definition normalizeLocals :: "string list \<Rightarrow> string set" where
  "normalizeLocals ins = set (map (\<lambda>s. to_lower (trim_suffix (trim_space s) ''@'')) ins) - {[]}"

definition or_else :: "string \<Rightarrow> string \<Rightarrow> string" where
  "or_else s d = (if s = [] then d else s)"

definition default_limits :: "limits \<Rightarrow> limits" where
  "default_limits l = l
     \<lparr>li_tooManyConns := or_else (li_tooManyConns l) ''421 4.7.0 Too many concurrent connections from this IP'',
      li_connRate := (li_connRate l)\<lparr>rr_onExceed := (if rule_enabled (li_connRate l)
         then or_else (rr_onExceed (li_connRate l)) ''421 4.7.0 Too many connections, try again later'' else rr_onExceed (li_connRate l))\<rparr>,
      li_rcptRate := (li_rcptRate l)\<lparr>rr_onExceed := (if rule_enabled (li_rcptRate l)
         then or_else (rr_onExceed (li_rcptRate l)) ''421 4.7.0 Too many requests, try again later'' else rr_onExceed (li_rcptRate l))\<rparr>\<rparr>"

definition default_behaviour :: "behaviour \<Rightarrow> behaviour" where
  "default_behaviour b = b
     \<lparr>be_accept := or_else (be_accept b) ''250 2.1.5 OK'',
      be_rejectUnknown := or_else (be_rejectUnknown b) ''550 5.1.1 <%s>: Recipient address rejected: User unknown'',
      be_greylistReply := or_else (be_greylistReply b) ''450 4.2.0 Greylisted, try again later'',
      be_timeoutHold := (if be_timeoutHold b = 0 then 60 * second else be_timeoutHold b),
      be_idleTimeout := (if be_idleTimeout b = 0 then 120 * second else be_idleTimeout b),
      be_greylistDelay := (if be_greylist b \<and> be_greylistDelay b = 0 then 5 * minute else be_greylistDelay b),
      be_catchAllDomains := map (\<lambda>d. to_lower (trim_space d)) (be_catchAllDomains b)\<rparr>"

definition ApplyDefaults :: "profile \<Rightarrow> profile" where
  "ApplyDefaults p = p
     \<lparr>pf_banner := or_else (pf_banner p) (''220 mx.'' @ pf_name p @ ''.test ESMTP mxsim''),
      pf_ehloCaps := (if pf_ehloCaps p = [] then [''PIPELINING'', ''SIZE 35882577'', ''8BITMIME''] else pf_ehloCaps p),
      pf_behaviour := default_behaviour (pf_behaviour p),
      pf_limits := default_limits (pf_limits p),
      pf_chaos := (pf_chaos p)\<lparr>ch_tempErrorReply := or_else (ch_tempErrorReply (pf_chaos p)) ''451 4.3.0 Temporary server error, try again later'',
        ch_seed := (if ch_seed (pf_chaos p) = 0 then 1337 else ch_seed (pf_chaos p))\<rparr>,
      pf_domains := sort_strings (map (\<lambda>d. to_lower (trim_space d)) (pf_domains p))\<rparr>"

definition rate_ok :: "rat \<Rightarrow> bool" where "rate_ok r \<longleftrightarrow> 0 \<le> r \<and> r \<le> 1"

text \<open>The errors, with what their messages name.\<close>

datatype profile_error =
    NoName
  | NoListen string
  | BadTempErrorRate string
  | BadDropRate string
  | BadStartTLS string string
  | Undecodable string
  | InFile string profile_error
  | Unreadable string
  | BadPattern string
  | NoProfiles string
  | DuplicateName string string string

definition Validate_profile :: "profile \<Rightarrow> profile_error option" where
  "Validate_profile p =
     (if pf_name p = [] then Some NoName
      else if pf_listen p = [] then Some (NoListen (pf_name p))
      else if \<not> rate_ok (ch_tempErrorRate (pf_chaos p)) then Some (BadTempErrorRate (pf_name p))
      else if \<not> rate_ok (ch_dropRate (pf_chaos p)) then Some (BadDropRate (pf_name p))
      else if pf_startTLS p \<notin> set [[], ''absent'', ''offered'', ''required'', ''broken'']
        then Some (BadStartTLS (pf_name p) (pf_startTLS p))
      else None)"

text \<open>The YAML decoder is a parameter.\<close>

definition ParseProfile :: "(string \<Rightarrow> string + profile) \<Rightarrow> string \<Rightarrow> string \<Rightarrow> profile_error + profile" where
  "ParseProfile decode b defaultName =
     (case decode b of
        Inl e \<Rightarrow> Inl (Undecodable e)
      | Inr p \<Rightarrow> Inr (ApplyDefaults (p\<lparr>pf_name := or_else (pf_name p) defaultName\<rparr>)))"

text \<open>
  \<open>read_file\<close> reads a file; the name of a profile is that of its file without directory and without its
  ending, if it has one.
\<close>

definition base_name :: "string \<Rightarrow> string" where
  "base_name path =
     (let f = (case after_last (CHR ''/'') path of None \<Rightarrow> path | Some f \<Rightarrow> f)
      in case after_last (CHR ''.'') f of None \<Rightarrow> f | Some x \<Rightarrow> take (length f - length x - 1) f)"

definition LoadProfile :: "(string \<Rightarrow> string + string) \<Rightarrow> (string \<Rightarrow> string + profile) \<Rightarrow> string \<Rightarrow> profile_error + profile" where
  "LoadProfile read_file decode path =
     (case read_file path of
        Inl e \<Rightarrow> Inl (Unreadable e)
      | Inr b \<Rightarrow>
          (case ParseProfile decode b (base_name path) of
             Inl e \<Rightarrow> Inl (InFile path e)
           | Inr p \<Rightarrow> (case Validate_profile p of Some e \<Rightarrow> Inl e | None \<Rightarrow> Inr p)))"

fun load_all :: "(string \<Rightarrow> profile_error + profile) \<Rightarrow> string list \<Rightarrow> (string \<rightharpoonup> string) \<Rightarrow> profile_error + profile list" where
  "load_all ld [] seen = Inr []"
| "load_all ld (path # paths) seen =
     (case ld path of
        Inl e \<Rightarrow> Inl e
      | Inr p \<Rightarrow>
          (case seen (pf_name p) of
             Some prev \<Rightarrow> Inl (DuplicateName (pf_name p) prev path)
           | None \<Rightarrow> (case load_all ld paths (seen(pf_name p \<mapsto> path)) of Inl e \<Rightarrow> Inl e | Inr ps \<Rightarrow> Inr (p # ps))))"

text \<open>\<open>glob\<close> lists the files of the directory that match a pattern.\<close>

definition LoadDir :: "(string \<Rightarrow> string + string list) \<Rightarrow> (string \<Rightarrow> profile_error + profile) \<Rightarrow> string \<Rightarrow> profile_error + profile list" where
  "LoadDir glob ld dir =
     (case glob (dir @ ''/*.yaml'') of
        Inl e \<Rightarrow> Inl (BadPattern e)
      | Inr ys \<Rightarrow>
          (case glob (dir @ ''/*.yml'') of
             Inl e \<Rightarrow> Inl (BadPattern e)
           | Inr zs \<Rightarrow>
               (let paths = sort_strings (ys @ zs)
                in if paths = [] then Inl (NoProfiles dir) else load_all ld paths Map.empty)))"

lemma load_all_names: "load_all ld paths seen = Inr ps \<Longrightarrow>
    distinct (map pf_name ps) \<and> (\<forall>p \<in> set ps. seen (pf_name p) = None) \<and> list_all2 (\<lambda>path p. ld path = Inr p) paths ps"
  by (induction ld paths seen arbitrary: ps rule: load_all.induct) (fastforce split: sum.splits option.splits if_splits)+

text \<open>
  The profiles that are started: one for each file, all valid, no two of the same name.
\<close>

lemma LoadDir_distinct:
  assumes "LoadDir glob (LoadProfile read_file decode) dir = Inr ps"
  shows "distinct (map pf_name ps) \<and> ps \<noteq> [] \<and> list_all (\<lambda>p. Validate_profile p = None) ps"
proof -
  have "Validate_profile p = None" if "LoadProfile read_file decode path = Inr p" for path p
    using that by (auto simp: LoadProfile_def split: sum.splits option.splits)
  then have "list_all (\<lambda>p. Validate_profile p = None) qs"
    if "list_all2 (\<lambda>path p. LoadProfile read_file decode path = Inr p) paths qs" for paths qs
    using that by (auto simp: list_all_length list_all2_conv_all_nth)
  with assms load_all_names [of "LoadProfile read_file decode" _ Map.empty ps] show ?thesis
    by (auto simp: LoadDir_def Let_def split: sum.splits if_splits)
qed

section \<open>The clock\<close>

definition Advance :: "duration \<Rightarrow> duration \<Rightarrow> duration" where
  "Advance off d = off + max 0 d"

section \<open>Verdicts, counters, transcript\<close>

datatype action = ActionReply | ActionClose | ActionDrop | ActionTimeout

record sim_verdict =
  vd_action :: action
  vd_reply :: string
  vd_reason :: string

definition verdict_of :: "action \<Rightarrow> string \<Rightarrow> string \<Rightarrow> sim_verdict" where
  "verdict_of a r why = \<lparr>vd_action = a, vd_reply = r, vd_reason = why\<rparr>"

definition verdict_code :: "sim_verdict \<Rightarrow> int" where
  "verdict_code v =
     (let d = take 3 (vd_reply v) in if length d = 3 \<and> list_all is_digit d then int (digits_value 0 d) else 0)"

record sim_stats =
  ss_profile :: string
  ss_conns :: int
  ss_connsRejected :: int
  ss_rcpt :: int
  ss_accepted :: int
  ss_rejected :: int
  ss_relayDenied :: int
  ss_domainLimited :: int
  ss_mailRefused :: int
  ss_throttled :: int
  ss_tempErrors :: int
  ss_greylisted :: int
  ss_drops :: int
  ss_timeouts :: int
  ss_badSequence :: int
  ss_maxConcurrentSeen :: int
  ss_currentConcurrent :: int
  ss_peakRatePerMin :: int
  ss_cooldowns :: int
  ss_firstThrottleAt :: "instant option"
  ss_lastThrottleAt :: "instant option"
  ss_codeCounts :: "string \<Rightarrow> int"

definition zero_stats :: "string \<Rightarrow> sim_stats" where
  "zero_stats name = \<lparr>ss_profile = name, ss_conns = 0, ss_connsRejected = 0, ss_rcpt = 0, ss_accepted = 0, ss_rejected = 0,
     ss_relayDenied = 0, ss_domainLimited = 0, ss_mailRefused = 0, ss_throttled = 0, ss_tempErrors = 0, ss_greylisted = 0,
     ss_drops = 0, ss_timeouts = 0, ss_badSequence = 0, ss_maxConcurrentSeen = 0, ss_currentConcurrent = 0,
     ss_peakRatePerMin = 0, ss_cooldowns = 0, ss_firstThrottleAt = None, ss_lastThrottleAt = None, ss_codeCounts = (\<lambda>_. 0)\<rparr>"

record transcript_line =
  tl_time :: instant
  tl_ip :: string
  tl_conn :: int
  tl_dir :: string
  tl_text :: string

record 'a ring =
  rg_buf :: "'a list"
  rg_next :: nat
  rg_full :: bool

definition newRing :: "nat \<Rightarrow> 'a \<Rightarrow> 'a ring" where
  "newRing n z = \<lparr>rg_buf = replicate n z, rg_next = 0, rg_full = False\<rparr>"

definition ring_add :: "'a \<Rightarrow> 'a ring \<Rightarrow> 'a ring" where
  "ring_add l r = (let next' = (rg_next r + 1) mod length (rg_buf r)
     in \<lparr>rg_buf = (rg_buf r)[rg_next r := l], rg_next = next', rg_full = rg_full r \<or> next' = 0\<rparr>)"

definition ring_last :: "nat \<Rightarrow> 'a ring \<Rightarrow> 'a list" where
  "ring_last n r =
     (let size = (if rg_full r then length (rg_buf r) else rg_next r); n = min n size
      in map (\<lambda>i. rg_buf r ! (if rg_full r then (rg_next r + i) mod length (rg_buf r) else i)) [size - n..<size])"

definition ring_reset :: "'a ring \<Rightarrow> 'a ring" where
  "ring_reset r = r\<lparr>rg_next := 0, rg_full := False\<rparr>"

section \<open>The engine\<close>

text \<open>A zero time is \<open>None\<close>; it is before every other.\<close>

record ip_state =
  is_connTimes :: "instant list"
  is_rcptTimes :: "instant list"
  is_rcptMinute :: "instant list"
  is_active :: int
  is_cooldownUntil :: "instant option"
  is_greylist :: "string \<rightharpoonup> instant"

definition new_ip :: ip_state where
  "new_ip = \<lparr>is_connTimes = [], is_rcptTimes = [], is_rcptMinute = [], is_active = 0, is_cooldownUntil = None, is_greylist = Map.empty\<rparr>"

text \<open>The seeded generator of the library is a sequence per seed: \<open>en_drawn\<close> numbers of it are used up.\<close>

record engine =
  en_prof :: profile
  en_ips :: "string \<rightharpoonup> ip_state"
  en_st :: sim_stats
  en_drawn :: nat
  en_tr :: "transcript_line ring"
  en_connNo :: int

type_synonym generator = "int \<Rightarrow> nat \<Rightarrow> rat"

definition no_line :: transcript_line where
  "no_line = \<lparr>tl_time = 0, tl_ip = [], tl_conn = 0, tl_dir = [], tl_text = []\<rparr>"

definition NewEngine :: "profile \<Rightarrow> engine" where
  "NewEngine p = \<lparr>en_prof = p, en_ips = Map.empty, en_st = zero_stats (pf_name p), en_drawn = 0,
     en_tr = newRing 2000 no_line, en_connNo = 0\<rparr>"

definition SetProfile :: "profile \<Rightarrow> engine \<Rightarrow> engine" where
  "SetProfile p e = e\<lparr>en_prof := p\<lparr>pf_listen := pf_listen (en_prof e)\<rparr>, en_drawn := 0,
     en_ips := (\<lambda>ip. map_option (\<lambda>s. s\<lparr>is_cooldownUntil := None\<rparr>) (en_ips e ip))\<rparr>"

definition SetChaos :: "chaos \<Rightarrow> engine \<Rightarrow> engine" where
  "SetChaos c e = (let old = pf_chaos (en_prof e) in
     e\<lparr>en_prof := (en_prof e)\<lparr>pf_chaos := c\<lparr>ch_tempErrorReply := or_else (ch_tempErrorReply c) (ch_tempErrorReply old),
         ch_seed := (if ch_seed c = 0 then ch_seed old else ch_seed c)\<rparr>\<rparr>, en_drawn := 0\<rparr>)"

definition Reset_engine :: "engine \<Rightarrow> engine" where
  "Reset_engine e = e\<lparr>en_ips := Map.empty,
     en_st := (zero_stats (pf_name (en_prof e)))\<lparr>ss_currentConcurrent := ss_currentConcurrent (en_st e)\<rparr>,
     en_drawn := 0, en_tr := ring_reset (en_tr e)\<rparr>"

definition Log_line :: "instant \<Rightarrow> string \<Rightarrow> int \<Rightarrow> string \<Rightarrow> string \<Rightarrow> engine \<Rightarrow> engine" where
  "Log_line now ip conn dir txt e = e\<lparr>en_tr := ring_add \<lparr>tl_time = now, tl_ip = ip, tl_conn = conn, tl_dir = dir, tl_text = txt\<rparr> (en_tr e)\<rparr>"

definition Transcript :: "nat \<Rightarrow> engine \<Rightarrow> transcript_line list" where
  "Transcript n e = ring_last n (en_tr e)"

definition NextConnID :: "engine \<Rightarrow> int \<times> engine" where
  "NextConnID e = (en_connNo e + 1, e\<lparr>en_connNo := en_connNo e + 1\<rparr>)"

definition ActiveCooldowns :: "instant \<Rightarrow> engine \<Rightarrow> string \<rightharpoonup> duration" where
  "ActiveCooldowns now e ip = (case en_ips e ip of
     None \<Rightarrow> None
   | Some s \<Rightarrow> (case is_cooldownUntil s of None \<Rightarrow> None | Some t \<Rightarrow> if now < t then Some (t - now) else None))"

definition prune :: "instant list \<Rightarrow> instant \<Rightarrow> duration \<Rightarrow> instant list" where
  "prune ts now window = dropWhile (\<lambda>t. \<not> now - window < t) ts"

definition ip_of :: "string \<Rightarrow> engine \<Rightarrow> ip_state" where
  "ip_of ip e = (case en_ips e ip of None \<Rightarrow> new_ip | Some s \<Rightarrow> s)"

definition put_ip :: "string \<Rightarrow> ip_state \<Rightarrow> engine \<Rightarrow> engine" where
  "put_ip ip s e = e\<lparr>en_ips := (en_ips e)(ip \<mapsto> s)\<rparr>"

definition tally :: "(sim_stats \<Rightarrow> sim_stats) \<Rightarrow> engine \<Rightarrow> engine" where
  "tally f e = e\<lparr>en_st := f (en_st e)\<rparr>"

definition cooling :: "instant \<Rightarrow> ip_state \<Rightarrow> bool" where
  "cooling now s \<longleftrightarrow> (case is_cooldownUntil s of None \<Rightarrow> False | Some t \<Rightarrow> now < t)"

definition startCooldown :: "string \<Rightarrow> instant \<Rightarrow> engine \<Rightarrow> engine" where
  "startCooldown ip now e =
     (let d = li_cooldown (pf_limits (en_prof e)); s = ip_of ip e
      in if d \<le> 0 then e
         else if (case is_cooldownUntil s of None \<Rightarrow> True | Some t \<Rightarrow> t < now + d)
         then tally (\<lambda>st. st\<lparr>ss_cooldowns := ss_cooldowns st + 1\<rparr>) (put_ip ip (s\<lparr>is_cooldownUntil := Some (now + d)\<rparr>) e)
         else e)"

definition countThrottle :: "instant \<Rightarrow> engine \<Rightarrow> engine" where
  "countThrottle now = tally (\<lambda>st. st\<lparr>ss_throttled := ss_throttled st + 1,
     ss_firstThrottleAt := (case ss_firstThrottleAt st of None \<Rightarrow> Some now | t \<Rightarrow> t), ss_lastThrottleAt := Some now\<rparr>)"

definition countCode :: "sim_verdict \<Rightarrow> engine \<Rightarrow> engine" where
  "countCode v e = (let c = verdict_code v in
     if c > 0 then tally (\<lambda>st. st\<lparr>ss_codeCounts := (ss_codeCounts st)(itoa c := ss_codeCounts st (itoa c) + 1)\<rparr>) e else e)"

definition answer :: "sim_verdict \<Rightarrow> engine \<Rightarrow> sim_verdict \<times> engine" where
  "answer v e = (v, countCode v e)"

definition unavailable :: string where
  "unavailable = ''421 4.7.0 Service temporarily unavailable, try again later''"

definition reject_conn :: "string \<Rightarrow> instant \<Rightarrow> bool \<Rightarrow> string \<Rightarrow> string \<Rightarrow> engine \<Rightarrow> (sim_verdict \<times> bool) \<times> engine" where
  "reject_conn ip now cool txt why e =
     (let e = tally (\<lambda>st. st\<lparr>ss_connsRejected := ss_connsRejected st + 1\<rparr>) e; e = countThrottle now e;
          e = (if cool then startCooldown ip now e else e);
          (v, e) = answer (verdict_of ActionClose txt why) e
      in ((v, False), e))"

definition admit :: "string \<Rightarrow> engine \<Rightarrow> (sim_verdict \<times> bool) \<times> engine" where
  "admit ip e =
     (let s = ip_of ip e; e = put_ip ip (s\<lparr>is_active := is_active s + 1\<rparr>) e;
          e = tally (\<lambda>st. st\<lparr>ss_currentConcurrent := ss_currentConcurrent st + 1,
            ss_maxConcurrentSeen := max (ss_maxConcurrentSeen st) (ss_currentConcurrent st + 1)\<rparr>) e
      in ((verdict_of ActionReply (pf_banner (en_prof e)) [], True), e))"

definition OnConnect :: "string \<Rightarrow> instant \<Rightarrow> engine \<Rightarrow> (sim_verdict \<times> bool) \<times> engine" where
  "OnConnect ip now e =
     (let s = ip_of ip e; l = pf_limits (en_prof e); r = li_connRate l;
          e = tally (\<lambda>st. st\<lparr>ss_conns := ss_conns st + 1\<rparr>) e;
          s = s\<lparr>is_connTimes := is_connTimes s @ [now]\<rparr>; e = put_ip ip s e
      in if cooling now s then reject_conn ip now False (or_else (rr_onExceed r) unavailable) ''cooldown'' e
         else if li_maxConns l > 0 \<and> is_active s \<ge> li_maxConns l then reject_conn ip now True (li_tooManyConns l) ''max_concurrent'' e
         else if rule_enabled r then
           (let s = s\<lparr>is_connTimes := prune (is_connTimes s) now (rr_window r)\<rparr>; e = put_ip ip s e
            in if int (length (is_connTimes s)) > rr_count r then reject_conn ip now True (rr_onExceed r) ''conn_rate'' e else admit ip e)
         else admit ip e)"

definition OnDisconnect :: "string \<Rightarrow> bool \<Rightarrow> engine \<Rightarrow> engine" where
  "OnDisconnect ip admitted e =
     (if \<not> admitted then e
      else let s = ip_of ip e; e = put_ip ip (s\<lparr>is_active := (if is_active s > 0 then is_active s - 1 else is_active s)\<rparr>) e
           in tally (\<lambda>st. st\<lparr>ss_currentConcurrent := (if ss_currentConcurrent st > 0 then ss_currentConcurrent st - 1 else ss_currentConcurrent st)\<rparr>) e)"

section \<open>Recipients\<close>

text \<open>
  \<open>fmt.Sprintf\<close> with one string: the templates have no directive but \<open>%s\<close> and \<open>%%\<close>. A second \<open>%s\<close> has no
  argument left, and an argument that is not used is reported.
\<close>

fun sprintf_string :: "string \<Rightarrow> bool \<Rightarrow> string \<Rightarrow> string" where
  "sprintf_string a used [] = (if used then [] else ''%!(EXTRA string='' @ a @ '')'')"
| "sprintf_string a used [c] = c # sprintf_string a used []"
| "sprintf_string a used (c # d # t) =
     (if c = CHR ''%'' \<and> d = CHR ''%'' then CHR ''%'' # sprintf_string a used t
      else if c = CHR ''%'' \<and> d = CHR ''s'' then (if used then ''%!s(MISSING)'' else a) @ sprintf_string a True t
      else c # sprintf_string a used (d # t))"

definition rejectFor :: "string \<Rightarrow> string \<Rightarrow> string" where
  "rejectFor tmpl a = (if index_of tmpl ''%s'' \<noteq> None then sprintf_string a False tmpl else tmpl)"

definition split_addr :: "string \<Rightarrow> string \<times> string" where
  "split_addr a = (let a = to_lower (trim_space a) in
     case after_last (CHR ''@'') a of
       None \<Rightarrow> (a, [])
     | Some d \<Rightarrow> (take (length a - length d - 1) a, d))"

definition throttle :: "string \<Rightarrow> instant \<Rightarrow> string \<Rightarrow> string \<Rightarrow> engine \<Rightarrow> sim_verdict \<times> engine" where
  "throttle ip now txt why e = answer (verdict_of ActionClose txt why) (startCooldown ip now (countThrottle now e))"

text \<open>The mailbox: what the tests expect a verdict to tell.\<close>

definition decide :: "string \<Rightarrow> engine \<Rightarrow> sim_verdict \<times> engine" where
  "decide a e =
     (let p = en_prof e; b = pf_behaviour p; (local, domain) = split_addr a;
          known = local \<in> normalizeLocals (re_exists (pf_recipients p));
          bounce = local \<in> normalizeLocals (re_bounce (pf_recipients p));
          catchAll = be_catchAll b \<or> domain \<in> set (be_catchAllDomains b)
      in if bounce then answer (verdict_of ActionReply (rejectFor (be_rejectUnknown b) a) ''bounce_list'') (tally (\<lambda>st. st\<lparr>ss_rejected := ss_rejected st + 1\<rparr>) e)
         else if known \<or> catchAll then answer (verdict_of ActionReply (be_accept b) (if known then ''accept'' else ''catch_all'')) (tally (\<lambda>st. st\<lparr>ss_accepted := ss_accepted st + 1\<rparr>) e)
         else answer (verdict_of ActionReply (rejectFor (be_rejectUnknown b) a) ''unknown'') (tally (\<lambda>st. st\<lparr>ss_rejected := ss_rejected st + 1\<rparr>) e))"

definition greylist :: "string \<Rightarrow> instant \<Rightarrow> string \<Rightarrow> engine \<Rightarrow> sim_verdict \<times> engine" where
  "greylist ip now a e =
     (let b = pf_behaviour (en_prof e); s = ip_of ip e; key = ip @ ''|'' @ to_lower a;
          again = (\<lambda>why e. answer (verdict_of ActionReply (be_greylistReply b) why) (tally (\<lambda>st. st\<lparr>ss_greylisted := ss_greylisted st + 1\<rparr>) e))
      in if \<not> be_greylist b then decide a e
         else case is_greylist s key of
           None \<Rightarrow> again ''greylist_first'' (put_ip ip (s\<lparr>is_greylist := (is_greylist s)(key \<mapsto> now)\<rparr>) e)
         | Some first \<Rightarrow> if now - first < be_greylistDelay b then again ''greylist_early'' e else decide a e)"

definition recipient_lists :: "string \<Rightarrow> instant \<Rightarrow> string \<Rightarrow> engine \<Rightarrow> sim_verdict \<times> engine" where
  "recipient_lists ip now a e =
     (let r = pf_recipients (en_prof e); local = fst (split_addr a)
      in if local \<in> normalizeLocals (re_drop r) then (verdict_of ActionDrop [] ''recipient_drop'', tally (\<lambda>st. st\<lparr>ss_drops := ss_drops st + 1\<rparr>) e)
         else if local \<in> normalizeLocals (re_timeout r) then (verdict_of ActionTimeout [] ''recipient_timeout'', tally (\<lambda>st. st\<lparr>ss_timeouts := ss_timeouts st + 1\<rparr>) e)
         else greylist ip now a e)"

text \<open>One draw of the generator, when the rate asks for it.\<close>

definition drawn :: "generator \<Rightarrow> rat \<Rightarrow> engine \<Rightarrow> bool \<times> engine" where
  "drawn g rate e = (if rate > 0 then (g (ch_seed (pf_chaos (en_prof e))) (en_drawn e) < rate, e\<lparr>en_drawn := en_drawn e + 1\<rparr>) else (False, e))"

definition disturb :: "generator \<Rightarrow> string \<Rightarrow> instant \<Rightarrow> string \<Rightarrow> engine \<Rightarrow> sim_verdict \<times> engine" where
  "disturb g ip now a e =
     (let c = pf_chaos (en_prof e) in
      case drawn g (ch_dropRate c) e of
        (True, e) \<Rightarrow> (verdict_of ActionDrop [] ''chaos_drop'', tally (\<lambda>st. st\<lparr>ss_drops := ss_drops st + 1\<rparr>) e)
      | (False, e) \<Rightarrow>
          (case drawn g (ch_tempErrorRate c) e of
             (True, e) \<Rightarrow> answer (verdict_of ActionReply (ch_tempErrorReply c) ''chaos_temp'') (tally (\<lambda>st. st\<lparr>ss_tempErrors := ss_tempErrors st + 1\<rparr>) e)
           | (False, e) \<Rightarrow> recipient_lists ip now a e))"

definition relay_check :: "generator \<Rightarrow> string \<Rightarrow> instant \<Rightarrow> string \<Rightarrow> engine \<Rightarrow> sim_verdict \<times> engine" where
  "relay_check g ip now a e =
     (let p = en_prof e; denied = be_relayDenied (pf_behaviour p)
      in if denied \<noteq> [] \<and> pf_domains p \<noteq> [] \<and> snd (split_addr a) \<notin> set (pf_domains p)
         then answer (verdict_of ActionReply (rejectFor denied a) ''relay_denied'') (tally (\<lambda>st. st\<lparr>ss_relayDenied := ss_relayDenied st + 1\<rparr>) e)
         else disturb g ip now a e)"

definition OnRcpt :: "generator \<Rightarrow> string \<Rightarrow> instant \<Rightarrow> string \<Rightarrow> int \<Rightarrow> engine \<Rightarrow> sim_verdict \<times> engine" where
  "OnRcpt g ip now a perConn e =
     (let l = pf_limits (en_prof e); r = li_rcptRate l; s = ip_of ip e;
          s = s\<lparr>is_rcptMinute := prune (is_rcptMinute s @ [now]) now minute\<rparr>;
          e = tally (\<lambda>st. st\<lparr>ss_rcpt := ss_rcpt st + 1, ss_peakRatePerMin := max (ss_peakRatePerMin st) (int (length (is_rcptMinute s)))\<rparr>) e;
          e = put_ip ip s e
      in if cooling now s then throttle ip now (or_else (rr_onExceed r) unavailable) ''cooldown'' e
         else if li_rcptPerConn l > 0 \<and> perConn > li_rcptPerConn l
         then answer (verdict_of ActionReply ''452 4.5.3 Too many recipients'' ''rcpt_per_conn'') (tally (\<lambda>st. st\<lparr>ss_tempErrors := ss_tempErrors st + 1\<rparr>) e)
         else if rule_enabled r then
           (let s = s\<lparr>is_rcptTimes := prune (is_rcptTimes s @ [now]) now (rr_window r)\<rparr>; e = put_ip ip s e
            in if int (length (is_rcptTimes s)) > rr_count r then throttle ip now (rr_onExceed r) ''rcpt_rate'' e else relay_check g ip now a e)
         else relay_check g ip now a e)"

definition DefaultDomainLimitReply :: string where
  "DefaultDomainLimitReply = ''451-4.3.0 Multiple destination domains per transaction is unsupported. Please'' @ [CHR 0x0A] @
     ''451 4.3.0 try again. mxsim - gsmtp''"

definition DefaultTransactionLimitReply :: string where
  "DefaultTransactionLimitReply = ''452 4.3.2 Only one transaction per connection, please reconnect''"

definition OnDomainLimit :: "engine \<Rightarrow> sim_verdict \<times> engine" where
  "OnDomainLimit e = answer (verdict_of ActionReply (or_else (be_domainLimitReply (pf_behaviour (en_prof e))) DefaultDomainLimitReply) ''domain_limit'')
     (tally (\<lambda>st. st\<lparr>ss_rcpt := ss_rcpt st + 1, ss_domainLimited := ss_domainLimited st + 1\<rparr>) e)"

definition OnTransactionLimit :: "engine \<Rightarrow> sim_verdict \<times> engine" where
  "OnTransactionLimit e = answer (verdict_of ActionReply (or_else (be_transactionLimitReply (pf_behaviour (en_prof e))) DefaultTransactionLimitReply) ''transaction_limit'')
     (tally (\<lambda>st. st\<lparr>ss_mailRefused := ss_mailRefused st + 1\<rparr>) e)"

definition CountBadSequence :: "engine \<Rightarrow> engine" where
  "CountBadSequence = tally (\<lambda>st. st\<lparr>ss_badSequence := ss_badSequence st + 1,
     ss_codeCounts := (ss_codeCounts st)(''503'' := ss_codeCounts st ''503'' + 1)\<rparr>)"

section \<open>The transcript is the end of what was said\<close>

definition ring_wf :: "'a ring \<Rightarrow> bool" where
  "ring_wf r \<longleftrightarrow> rg_next r < length (rg_buf r)"

definition ring_contents :: "'a ring \<Rightarrow> 'a list" where
  "ring_contents r = (if rg_full r then drop (rg_next r) (rg_buf r) @ take (rg_next r) (rg_buf r) else take (rg_next r) (rg_buf r))"

definition last_of :: "nat \<Rightarrow> 'a list \<Rightarrow> 'a list" where
  "last_of n xs = drop (length xs - n) xs"

lemma length_ring_contents: "ring_wf r \<Longrightarrow> length (ring_contents r) = (if rg_full r then length (rg_buf r) else rg_next r)"
  by (auto simp: ring_contents_def ring_wf_def)

lemma ring_last_contents:
  assumes "ring_wf r"
  shows "ring_last n r = last_of n (ring_contents r)"
proof (rule nth_equalityI)
  define size where "size = (if rg_full r then length (rg_buf r) else rg_next r)"
  define elem where "elem j = rg_buf r ! (if rg_full r then (rg_next r + j) mod length (rg_buf r) else j)" for j
  have last: "ring_last n r = map elem [size - n..<size]"
    unfolding ring_last_def Let_def size_def [symmetric] elem_def by (cases "n \<le> size") simp_all
  have len: "length (ring_contents r) = size" unfolding size_def by (rule length_ring_contents [OF assms])
  show eq: "length (ring_last n r) = length (last_of n (ring_contents r))" by (simp add: last last_of_def len)
  fix i assume "i < length (ring_last n r)"
  then have i: "size - n + i < size" by (simp add: last)
  have "elem j = ring_contents r ! j" if j: "j < size" for j
  proof (cases "rg_full r")
    case True
    then have "j < length (rg_buf r)" "rg_next r < length (rg_buf r)" using j assms by (simp_all add: size_def ring_wf_def)
    moreover then have "(rg_next r + j) mod length (rg_buf r) =
        (if rg_next r + j < length (rg_buf r) then rg_next r + j else rg_next r + j - length (rg_buf r))"
      by (simp add: le_mod_geq)
    ultimately show ?thesis using True by (auto simp: elem_def ring_contents_def nth_append add.commute)
  qed (use j in \<open>auto simp: elem_def size_def ring_contents_def\<close>)
  from this [OF i] i show "ring_last n r ! i = last_of n (ring_contents r) ! i" by (simp add: last last_of_def len)
qed

lemma ring_add_contents:
  assumes "ring_wf r"
  shows "ring_wf (ring_add l r) \<and> length (rg_buf (ring_add l r)) = length (rg_buf r) \<and>
    ring_contents (ring_add l r) = last_of (length (rg_buf r)) (ring_contents r @ [l])"
proof -
  let ?k = "rg_next r" and ?b = "rg_buf r"
  have k: "?k < length ?b" using assms by (simp add: ring_wf_def)
  show ?thesis
  proof (cases "Suc ?k = length ?b")
    case True
    then have "take ?k ?b @ [l] = ?b[?k := l]" using k by (simp add: upd_conv_take_nth_drop)
    with True k show ?thesis
      by (auto simp: ring_add_def ring_wf_def ring_contents_def last_of_def Let_def)
  next
    case False
    with k have m: "Suc ?k mod length ?b = Suc ?k" "Suc ?k < length ?b" by auto
    have d: "drop ?k ?b = ?b ! ?k # drop (Suc ?k) ?b" using k by (simp add: Cons_nth_drop_Suc)
    have s: "Suc (Suc (length ?b - Suc 0)) - length ?b = Suc 0" using k by simp
    show ?thesis using m k
      by (auto simp: ring_add_def ring_wf_def ring_contents_def last_of_def Let_def take_Suc_conv_app_nth d s)
  qed
qed

lemma last_of_last_of: "last_of n (last_of n xs @ [l]) = last_of n (xs @ [l])"
  by (cases "length xs < n") (auto simp: last_of_def Suc_diff_le)

lemma ring_adds_contents:
  assumes "ring_wf r"
  shows "ring_wf (fold ring_add xs r) \<and> length (rg_buf (fold ring_add xs r)) = length (rg_buf r) \<and>
    ring_contents (fold ring_add xs r) = last_of (length (rg_buf r)) (ring_contents r @ xs)"
proof (induction xs rule: rev_induct)
  case Nil
  then show ?case using assms length_ring_contents [OF assms] by (auto simp: last_of_def ring_wf_def)
next
  case (snoc x xs)
  then show ?case using ring_add_contents [of "fold ring_add xs r" x] last_of_last_of [of "length (rg_buf r)" "ring_contents r @ xs" x]
    by simp
qed

text \<open>
  The ring buffer is a list of the last lines: whatever was logged, and however often the buffer went
  round, the transcript of \<open>n\<close> lines is the last \<open>n\<close> of all the lines since the start, oldest first, up to
  the capacity.
\<close>

theorem transcript_is_the_end:
  assumes "0 < cap"
  shows "ring_last n (fold ring_add xs (newRing cap z)) = last_of (min n cap) xs"
proof -
  have wf: "ring_wf (newRing cap z)" using assms by (simp add: ring_wf_def newRing_def)
  from ring_adds_contents [OF wf, of xs] have
    "ring_wf (fold ring_add xs (newRing cap z))" "ring_contents (fold ring_add xs (newRing cap z)) = last_of cap xs"
    by (simp_all add: newRing_def ring_contents_def)
  with ring_last_contents [of "fold ring_add xs (newRing cap z)" n] show ?thesis
    by (cases "length xs \<le> cap") (auto simp: last_of_def min_def)
qed

theorem transcript_is_the_end_witness:
  "ring_last 2 (fold ring_add [1, 2, 3, 4, 5] (newRing 3 0)) = [4, 5 :: nat]"
  using transcript_is_the_end [of 3 2 "[1, 2, 3, 4, 5]" "0 :: nat"] by (simp add: last_of_def)

lemma rejectFor_example: "rejectFor ''550 <%s> unknown'' ''a@b'' = ''550 <a@b> unknown''" "split_addr '' Jo@Example.org'' = (''jo'', ''example.org'')"
  by code_simp+

section \<open>Every event is counted once\<close>

text \<open>
  What came in, less what it was counted as. A RCPT is accepted, rejected, refused for its domain, deferred,
  greylisted, dropped, left hanging or throttled; a refused connection is throttled.
\<close>

definition balance :: "engine \<Rightarrow> int" where
  "balance e = (let st = en_st e in ss_rcpt st + ss_connsRejected st -
     (ss_accepted st + ss_rejected st + ss_relayDenied st + ss_domainLimited st + ss_tempErrors st + ss_greylisted st +
      ss_drops st + ss_timeouts st + ss_throttled st))"

lemma balance_simps [simp]:
  "balance (put_ip ip s e) = balance e" "balance (countCode v e) = balance e" "balance (startCooldown ip now e) = balance e"
  "balance (countThrottle now e) = balance e - 1" "balance (e\<lparr>en_drawn := n\<rparr>) = balance e"
  "balance (snd (answer v e)) = balance e"
  by (simp_all add: balance_def put_ip_def countCode_def startCooldown_def countThrottle_def tally_def answer_def Let_def)

lemma balance_throttle [simp]: "balance (snd (throttle ip now txt why e)) = balance e - 1"
  by (simp add: throttle_def)

lemma balance_decide [simp]: "balance (snd (decide a e)) = balance e - 1"
  by (simp add: decide_def Let_def split_def) (simp add: balance_def tally_def Let_def)

lemma balance_greylist [simp]: "balance (snd (greylist ip now a e)) = balance e - 1"
  by (auto simp: greylist_def Let_def split: option.splits) (simp_all add: balance_def tally_def put_ip_def Let_def)

lemma balance_recipient_lists [simp]: "balance (snd (recipient_lists ip now a e)) = balance e - 1"
  by (simp add: recipient_lists_def Let_def) (simp add: balance_def tally_def Let_def)

lemma drawn_same: "drawn g r e = (b, e') \<Longrightarrow> e' = e\<lparr>en_drawn := en_drawn e'\<rparr>"
  by (auto simp: drawn_def split: if_splits)

lemma balance_drawn: "drawn g r e = (b, e') \<Longrightarrow> balance e' = balance e"
  by (metis drawn_same balance_simps(5))

lemma balance_tallies [simp]:
  "balance (tally (\<lambda>st. st\<lparr>ss_drops := ss_drops st + 1\<rparr>) e) = balance e - 1"
  "balance (tally (\<lambda>st. st\<lparr>ss_tempErrors := ss_tempErrors st + 1\<rparr>) e) = balance e - 1"
  by (simp_all add: balance_def tally_def Let_def)

lemma balance_disturb [simp]: "balance (snd (disturb g ip now a e)) = balance e - 1"
  unfolding disturb_def Let_def by (auto split: prod.split bool.split dest!: balance_drawn)

lemma balance_relay_check [simp]: "balance (snd (relay_check g ip now a e)) = balance e - 1"
  by (simp add: relay_check_def Let_def) (simp add: balance_def tally_def Let_def)

lemma balance_OnRcpt [simp]: "balance (snd (OnRcpt g ip now a n e)) = balance e"
  by (simp add: OnRcpt_def Let_def) (simp add: balance_def tally_def put_ip_def Let_def)

lemma balance_OnConnect [simp]: "balance (snd (OnConnect ip now e)) = balance e"
  by (simp add: OnConnect_def reject_conn_def admit_def Let_def split_def) (simp add: balance_def tally_def put_ip_def Let_def)

lemma balance_rest [simp]:
  "balance (OnDisconnect ip b e) = balance e" "balance (snd (OnDomainLimit e)) = balance e"
  "balance (snd (OnTransactionLimit e)) = balance e" "balance (CountBadSequence e) = balance e"
  "balance (SetProfile p e) = balance e" "balance (SetChaos c e) = balance e" "balance (Log_line now ip k d txt e) = balance e"
  "balance (snd (NextConnID e)) = balance e" "balance (Reset_engine e) = 0" "balance (NewEngine p) = 0"
  by (simp_all add: OnDisconnect_def OnDomainLimit_def OnTransactionLimit_def CountBadSequence_def SetProfile_def SetChaos_def
      Log_line_def NextConnID_def Reset_engine_def NewEngine_def zero_stats_def Let_def)
    (simp_all add: balance_def tally_def put_ip_def Let_def)

section \<open>Runs of the simulator\<close>

text \<open>
  A run keeps, beside the engine, the connections that were admitted and not yet closed, the times of the
  RCPTs per address that got past the limits, and the clock, which only moves forward. A step is one of the
  connections, or a change of the disturbances or of the profile, as long as its limits stay. The life of an engine, below, has
  \<open>Reset\<close> and a change of the limits too.
\<close>

record sim_run =
  sr_engine :: engine
  sr_open :: "string multiset"
  sr_passed :: "string \<Rightarrow> instant list"
  sr_clock :: instant

definition past_limits :: "sim_verdict \<Rightarrow> bool" where
  "past_limits v \<longleftrightarrow> vd_reason v \<notin> {''cooldown'', ''rcpt_per_conn'', ''rcpt_rate''}"

inductive sim_step :: "generator \<Rightarrow> sim_run \<Rightarrow> sim_run \<Rightarrow> bool" for g where
  connected: "OnConnect ip now (sr_engine r) = ((v, True), e) \<Longrightarrow> sr_clock r \<le> now \<Longrightarrow>
    sim_step g r (r\<lparr>sr_engine := e, sr_open := add_mset ip (sr_open r), sr_clock := now\<rparr>)"
| refused: "OnConnect ip now (sr_engine r) = ((v, False), e) \<Longrightarrow> sr_clock r \<le> now \<Longrightarrow>
    sim_step g r (r\<lparr>sr_engine := e, sr_clock := now\<rparr>)"
| closed: "ip \<in># sr_open r \<Longrightarrow>
    sim_step g r (r\<lparr>sr_engine := OnDisconnect ip True (sr_engine r), sr_open := sr_open r - {#ip#}\<rparr>)"
| asked: "OnRcpt g ip now a n (sr_engine r) = (v, e) \<Longrightarrow> sr_clock r \<le> now \<Longrightarrow>
    sim_step g r (r\<lparr>sr_engine := e, sr_clock := now,
      sr_passed := (if past_limits v then (sr_passed r)(ip := sr_passed r ip @ [now]) else sr_passed r)\<rparr>)"
| limited: "sim_step g r (r\<lparr>sr_engine := snd (OnDomainLimit (sr_engine r))\<rparr>)"
| mail_refused: "sim_step g r (r\<lparr>sr_engine := snd (OnTransactionLimit (sr_engine r))\<rparr>)"
| misordered: "sim_step g r (r\<lparr>sr_engine := CountBadSequence (sr_engine r)\<rparr>)"
| logged: "sim_step g r (r\<lparr>sr_engine := Log_line now ip k d txt (sr_engine r)\<rparr>)"
| numbered: "sim_step g r (r\<lparr>sr_engine := snd (NextConnID (sr_engine r))\<rparr>)"
| disturbed: "sim_step g r (r\<lparr>sr_engine := SetChaos c (sr_engine r)\<rparr>)"
| replaced: "pf_limits p = pf_limits (en_prof (sr_engine r)) \<Longrightarrow> sim_step g r (r\<lparr>sr_engine := SetProfile p (sr_engine r)\<rparr>)"

definition sim_start :: "profile \<Rightarrow> instant \<Rightarrow> sim_run" where
  "sim_start p t = \<lparr>sr_engine = NewEngine p, sr_open = {#}, sr_passed = (\<lambda>_. []), sr_clock = t\<rparr>"

abbreviation sim_reaches :: "generator \<Rightarrow> profile \<Rightarrow> sim_run \<Rightarrow> bool" where
  "sim_reaches g p r \<equiv> \<exists>t. (sim_step g)\<^sup>*\<^sup>* (sim_start p t) r"

text \<open>
  Every RCPT and every refused connection is counted in exactly one way, whatever the profile, the limits and
  the disturbances.
\<close>

lemma balance_step: "sim_step g r r' \<Longrightarrow> balance (sr_engine r) = 0 \<Longrightarrow> balance (sr_engine r') = 0"
proof (induction rule: sim_step.induct)
  case (connected ip now r v e)
  then show ?case using balance_OnConnect [of ip now "sr_engine r"] by simp
next
  case (refused ip now r v e)
  then show ?case using balance_OnConnect [of ip now "sr_engine r"] by simp
next
  case (asked ip now a n r v e)
  then show ?case using balance_OnRcpt [of g ip now a n "sr_engine r"] by simp
qed simp_all

lemma balance_reaches: "sim_reaches g p r \<Longrightarrow> balance (sr_engine r) = 0"
proof (elim exE)
  fix t assume "(sim_step g)\<^sup>*\<^sup>* (sim_start p t) r"
  then show ?thesis by (induction rule: rtranclp_induct) (auto simp: sim_start_def dest: balance_step)
qed

section \<open>Limits\<close>

text \<open>What the limits depend on, kept by everything a decision does after the limits were checked.\<close>

definition calm :: "engine \<Rightarrow> engine \<Rightarrow> bool" where
  "calm e e' \<longleftrightarrow> pf_limits (en_prof e') = pf_limits (en_prof e) \<and>
     (\<forall>i. is_active (ip_of i e') = is_active (ip_of i e) \<and> is_rcptTimes (ip_of i e') = is_rcptTimes (ip_of i e)) \<and>
     ss_currentConcurrent (en_st e') = ss_currentConcurrent (en_st e) \<and> ss_maxConcurrentSeen (en_st e') = ss_maxConcurrentSeen (en_st e)"

lemma calm_refl [simp]: "calm e e" by (simp add: calm_def)

lemma calm_trans: "calm e1 e2 \<Longrightarrow> calm e2 e3 \<Longrightarrow> calm e1 e3" by (simp add: calm_def)

lemma ip_of_simps [simp]:
  "ip_of i (put_ip ip s e) = (if i = ip then s else ip_of i e)" "ip_of i (tally f e) = ip_of i e"
  "en_prof (put_ip ip s e) = en_prof e" "en_prof (tally f e) = en_prof e" "en_st (put_ip ip s e) = en_st e" "en_st (tally f e) = f (en_st e)"
  by (simp_all add: ip_of_def put_ip_def tally_def)

lemma calm_tally:
  "(\<And>st. ss_currentConcurrent (f st) = ss_currentConcurrent st \<and> ss_maxConcurrentSeen (f st) = ss_maxConcurrentSeen st) \<Longrightarrow> calm e (tally f e)"
  by (simp add: calm_def)

lemma calm_tally_after:
  "calm e e1 \<Longrightarrow> (\<And>st. ss_currentConcurrent (f st) = ss_currentConcurrent st \<and> ss_maxConcurrentSeen (f st) = ss_maxConcurrentSeen st) \<Longrightarrow> calm e (tally f e1)"
  using calm_trans calm_tally by blast

lemma calm_put: "is_active s = is_active (ip_of ip e) \<Longrightarrow> is_rcptTimes s = is_rcptTimes (ip_of ip e) \<Longrightarrow> calm e (put_ip ip s e)"
  by (simp add: calm_def)

lemma calm_countCode [simp]: "calm e (countCode v e)"
  by (simp add: countCode_def calm_tally Let_def)

lemma calm_answer [simp]: "calm e e1 \<Longrightarrow> calm e (snd (answer v e1))"
  using calm_trans calm_countCode by (auto simp: answer_def)

lemma calm_countThrottle [simp]: "calm e (countThrottle now e)"
  by (simp add: countThrottle_def calm_tally)

lemma calm_startCooldown [simp]: "calm e (startCooldown ip now e)"
  by (auto simp: startCooldown_def Let_def calm_def)

lemma calm_throttle [simp]: "calm e (snd (throttle ip now txt why e))"
  unfolding throttle_def by (intro calm_answer calm_trans [OF calm_countThrottle calm_startCooldown])

lemma calm_decide [simp]: "calm e (snd (decide a e))"
  by (simp add: decide_def Let_def split_def calm_tally)

lemma calm_greylist [simp]: "calm e (snd (greylist ip now a e))"
  by (auto simp: greylist_def Let_def split: option.splits intro!: calm_answer calm_trans [OF calm_put calm_tally] calm_tally)

lemma calm_recipient_lists [simp]: "calm e (snd (recipient_lists ip now a e))"
  by (simp add: recipient_lists_def Let_def calm_tally)

lemma calm_drawn: "drawn g r e = (b, e') \<Longrightarrow> calm e e'"
  by (auto simp: drawn_def calm_def ip_of_def split: if_splits)

lemma calm_disturb [simp]: "calm e (snd (disturb g ip now a e))"
  unfolding disturb_def Let_def
  by (auto split: prod.split bool.split dest!: calm_drawn intro!: calm_answer calm_tally_after intro: calm_trans)

lemma calm_relay_check [simp]: "calm e (snd (relay_check g ip now a e))"
  by (simp add: relay_check_def Let_def calm_tally)

lemma calm_rest [simp]:
  "calm e (snd (OnDomainLimit e))" "calm e (snd (OnTransactionLimit e))" "calm e (CountBadSequence e)"
  "calm e (Log_line now ip k d txt e)" "calm e (snd (NextConnID e))" "calm e (SetChaos c e)"
  by (simp_all add: OnDomainLimit_def OnTransactionLimit_def CountBadSequence_def calm_tally)
    (simp_all add: Log_line_def NextConnID_def SetChaos_def Let_def calm_def ip_of_def)

lemma calm_SetProfile: "pf_limits p = pf_limits (en_prof e) \<Longrightarrow> calm e (SetProfile p e)"
  by (auto simp: SetProfile_def calm_def ip_of_def new_ip_def split: option.splits)

text \<open>The reasons of what comes after the limits.\<close>

lemma reasons_after [simp]:
  "past_limits (fst (decide a e))" "past_limits (fst (greylist ip now a e))" "past_limits (fst (recipient_lists ip now a e))"
  "past_limits (fst (disturb g ip now a e))" "past_limits (fst (relay_check g ip now a e))"
proof -
  have d: "past_limits (fst (decide a e))" for e
    by (simp add: decide_def Let_def split_def answer_def verdict_of_def past_limits_def)
  have g: "past_limits (fst (greylist ip now a e))" for e
    using d by (auto simp: greylist_def Let_def answer_def verdict_of_def past_limits_def split: option.splits)
  have r: "past_limits (fst (recipient_lists ip now a e))" for e
    using g by (simp add: recipient_lists_def Let_def verdict_of_def past_limits_def)
  have b: "past_limits (fst (disturb g ip now a e))" for e
    unfolding disturb_def Let_def using r
    by (auto split: prod.split bool.split simp: answer_def verdict_of_def) (simp_all add: past_limits_def)
  show "past_limits (fst (decide a e))" "past_limits (fst (greylist ip now a e))" "past_limits (fst (recipient_lists ip now a e))"
    "past_limits (fst (disturb g ip now a e))" "past_limits (fst (relay_check g ip now a e))"
    using d g r b by (simp_all add: relay_check_def Let_def answer_def verdict_of_def) (simp add: past_limits_def)
qed

lemma prune_sorted: "sorted ts \<Longrightarrow> prune ts now w = filter (\<lambda>t. now - w < t) ts"
proof (induction ts)
  case (Cons a ts)
  show ?case
  proof (cases "now - w < a")
    case True
    then have "\<forall>x\<in>set ts. now - w < x" using Cons.prems by force
    with True show ?thesis by (simp add: prune_def filter_id_conv)
  qed (use Cons in \<open>simp add: prune_def\<close>)
qed (simp add: prune_def)

text \<open>A RCPT past the limits was entered in the window and fitted in it; any other kept the window, or entered it too.\<close>

lemma OnRcpt_window:
  fixes e :: engine
  defines "rule \<equiv> li_rcptRate (pf_limits (en_prof e))"
  assumes run: "OnRcpt g ip now a n e = (v, e')"
  shows "pf_limits (en_prof e') = pf_limits (en_prof e)"
    and "is_active (ip_of i e') = is_active (ip_of i e)"
    and "ss_currentConcurrent (en_st e') = ss_currentConcurrent (en_st e) \<and> ss_maxConcurrentSeen (en_st e') = ss_maxConcurrentSeen (en_st e)"
    and "i \<noteq> ip \<Longrightarrow> is_rcptTimes (ip_of i e') = is_rcptTimes (ip_of i e)"
    and "rule_enabled rule \<Longrightarrow>
      is_rcptTimes (ip_of ip e') = prune (is_rcptTimes (ip_of ip e) @ [now]) now (rr_window rule) \<and>
        (past_limits v \<longrightarrow> int (length (is_rcptTimes (ip_of ip e'))) \<le> rr_count rule) \<or>
      is_rcptTimes (ip_of ip e') = is_rcptTimes (ip_of ip e) \<and> \<not> past_limits v"
    and "\<not> rule_enabled rule \<Longrightarrow> is_rcptTimes (ip_of ip e') = is_rcptTimes (ip_of ip e)"
proof -
  define s where "s = (ip_of ip e)\<lparr>is_rcptMinute := prune (is_rcptMinute (ip_of ip e) @ [now]) now minute\<rparr>"
  define e1 where "e1 = put_ip ip s (tally (\<lambda>st. st\<lparr>ss_rcpt := ss_rcpt st + 1,
    ss_peakRatePerMin := max (ss_peakRatePerMin st) (int (length (is_rcptMinute s)))\<rparr>) e)"
  define s2 where "s2 = s\<lparr>is_rcptTimes := prune (is_rcptTimes s @ [now]) now (rr_window rule)\<rparr>"
  have r: "OnRcpt g ip now a n e =
     (if cooling now s then throttle ip now (or_else (rr_onExceed rule) unavailable) ''cooldown'' e1
      else if li_rcptPerConn (pf_limits (en_prof e)) > 0 \<and> n > li_rcptPerConn (pf_limits (en_prof e))
      then answer (verdict_of ActionReply ''452 4.5.3 Too many recipients'' ''rcpt_per_conn'') (tally (\<lambda>st. st\<lparr>ss_tempErrors := ss_tempErrors st + 1\<rparr>) e1)
      else if rule_enabled rule then
        (if int (length (is_rcptTimes s2)) > rr_count rule then throttle ip now (rr_onExceed rule) ''rcpt_rate'' (put_ip ip s2 e1)
         else relay_check g ip now a (put_ip ip s2 e1))
      else relay_check g ip now a e1)"
    unfolding OnRcpt_def Let_def rule_def [symmetric] s_def e1_def s2_def by simp
  have calm1: "calm e e1" by (simp add: e1_def s_def calm_def)
  have unpast: "\<not> past_limits (fst (throttle ip now w ''cooldown'' x))" "\<not> past_limits (fst (throttle ip now w ''rcpt_rate'' x))" for w x
    by (simp_all add: throttle_def answer_def verdict_of_def past_limits_def)
  have "calm e1 e' \<and> (rule_enabled rule \<longrightarrow> \<not> past_limits v) \<or>
      rule_enabled rule \<and> calm (put_ip ip s2 e1) e' \<and> (past_limits v \<longrightarrow> int (length (is_rcptTimes s2)) \<le> rr_count rule)"
  proof (cases "cooling now s")
    case True
    then have "(v, e') = throttle ip now (or_else (rr_onExceed rule) unavailable) ''cooldown'' e1" using run r by simp
    then show ?thesis using calm_throttle unpast(1) by (metis fst_conv snd_conv)
  next
    case cool: False
    show ?thesis
    proof (cases "li_rcptPerConn (pf_limits (en_prof e)) > 0 \<and> n > li_rcptPerConn (pf_limits (en_prof e))")
      case True
      then have "(v, e') = answer (verdict_of ActionReply ''452 4.5.3 Too many recipients'' ''rcpt_per_conn'')
          (tally (\<lambda>st. st\<lparr>ss_tempErrors := ss_tempErrors st + 1\<rparr>) e1)" using run r cool by simp
      moreover have "calm e1 (snd (answer w (tally (\<lambda>st. st\<lparr>ss_tempErrors := ss_tempErrors st + 1\<rparr>) e1)))" for w
        by (rule calm_answer, rule calm_tally) simp
      ultimately show ?thesis by (auto simp: answer_def verdict_of_def past_limits_def)
    next
      case False
      define x where "x = (if rule_enabled rule then
        (if int (length (is_rcptTimes s2)) > rr_count rule then throttle ip now (rr_onExceed rule) ''rcpt_rate'' (put_ip ip s2 e1)
         else relay_check g ip now a (put_ip ip s2 e1)) else relay_check g ip now a e1)"
      from False cool run r have "(v, e') = x" unfolding x_def by auto
      then have x: "v = fst x" "e' = snd x" by (metis fst_conv, metis snd_conv)
      have "rule_enabled rule \<Longrightarrow> calm (put_ip ip s2 e1) (snd x)" "\<not> rule_enabled rule \<Longrightarrow> calm e1 (snd x)"
        "rule_enabled rule \<Longrightarrow> past_limits (fst x) \<Longrightarrow> int (length (is_rcptTimes s2)) \<le> rr_count rule"
        unfolding x_def using unpast(2) by (auto split: if_splits)
      then show ?thesis unfolding x by blast
    qed
  qed
  with calm1 show "pf_limits (en_prof e') = pf_limits (en_prof e)" "is_active (ip_of i e') = is_active (ip_of i e)"
    "ss_currentConcurrent (en_st e') = ss_currentConcurrent (en_st e) \<and> ss_maxConcurrentSeen (en_st e') = ss_maxConcurrentSeen (en_st e)"
    "i \<noteq> ip \<Longrightarrow> is_rcptTimes (ip_of i e') = is_rcptTimes (ip_of i e)"
    "rule_enabled rule \<Longrightarrow> is_rcptTimes (ip_of ip e') = prune (is_rcptTimes (ip_of ip e) @ [now]) now (rr_window rule) \<and>
        (past_limits v \<longrightarrow> int (length (is_rcptTimes (ip_of ip e'))) \<le> rr_count rule) \<or>
      is_rcptTimes (ip_of ip e') = is_rcptTimes (ip_of ip e) \<and> \<not> past_limits v"
    "\<not> rule_enabled rule \<Longrightarrow> is_rcptTimes (ip_of ip e') = is_rcptTimes (ip_of ip e)"
    by (auto simp: calm_def s2_def s_def split: if_splits)
qed

text \<open>The window: what it holds, and that it holds every event that counted.\<close>

definition window_ok :: "duration \<Rightarrow> int \<Rightarrow> instant \<Rightarrow> instant list \<Rightarrow> instant list \<Rightarrow> bool" where
  "window_ok w n c ts ps \<longleftrightarrow> sorted ts \<and> (\<forall>x\<in>set ts. x \<le> c) \<and> (\<forall>x\<in>set ps. x \<le> c) \<and>
     (\<forall>b. c - w \<le> b \<longrightarrow> length (filter (\<lambda>x. b < x) ps) \<le> length (filter (\<lambda>x. b < x) ts)) \<and>
     (\<forall>t. int (length (filter (\<lambda>x. t - w < x \<and> x \<le> t) ps)) \<le> n)"

lemma window_ok_later: "window_ok w n c ts ps \<Longrightarrow> c \<le> now \<Longrightarrow> window_ok w n now ts ps"
  unfolding window_ok_def by (auto intro: order_trans)

lemma length_filter_mono: "(\<And>x. x \<in> set xs \<Longrightarrow> P x \<Longrightarrow> Q x) \<Longrightarrow> length (filter P xs) \<le> length (filter Q xs)"
  by (induction xs) auto

lemma window_ok_entered:
  assumes "window_ok w n c ts ps" "c \<le> now" "0 < w"
  defines "ts' \<equiv> prune (ts @ [now]) now w"
  shows "window_ok w n now ts' ps" and "int (length ts') \<le> n \<Longrightarrow> window_ok w n now ts' (ps @ [now])"
proof -
  note old = window_ok_later [OF assms(1,2), unfolded window_ok_def]
  have srt: "sorted (ts @ [now])" using old by (auto simp: sorted_append)
  have ts': "ts' = filter (\<lambda>x. now - w < x) ts @ [now]"
    unfolding ts'_def prune_sorted [OF srt] using assms(3) by simp
  have sorted': "sorted ts'" unfolding ts' using old by (auto simp: sorted_append sorted_filter [of "\<lambda>x. x", simplified])
  have same: "filter (\<lambda>x. b < x) ts' = filter (\<lambda>x. b < x) ts @ (if b < now then [now] else [])" if "now - w \<le> b" for b
    unfolding ts' using that by (auto intro!: filter_cong)
  have dom: "length (filter (\<lambda>x. b < x) (ps @ [now])) \<le> length (filter (\<lambda>x. b < x) ts')" if "now - w \<le> b" for b
    using old that same [OF that] by simp
  have dom0: "length (filter (\<lambda>x. b < x) ps) \<le> length (filter (\<lambda>x. b < x) ts')" if "now - w \<le> b" for b
    using dom [OF that] by simp
  have upto: "\<forall>x\<in>set ts'. x \<le> now" unfolding ts' using old by auto
  show "window_ok w n now ts' ps"
    unfolding window_ok_def using old sorted' upto dom0 by blast
  assume len: "int (length ts') \<le> n"
  have "int (length (filter (\<lambda>x. t - w < x \<and> x \<le> t) (ps @ [now]))) \<le> n" for t
  proof (cases "now \<le> t")
    case True
    have "length (filter (\<lambda>x. t - w < x \<and> x \<le> t) (ps @ [now])) \<le> length (filter (\<lambda>x. now - w < x) (ps @ [now]))"
      using True by (intro length_filter_mono) auto
    also have "\<dots> \<le> length (filter (\<lambda>x. now - w < x) ts')" by (rule dom) simp
    also have "\<dots> \<le> length ts'" by simp
    finally show ?thesis using len by linarith
  qed (use old in auto)
  moreover have "\<forall>x\<in>set (ps @ [now]). x \<le> now" using old by auto
  ultimately show "window_ok w n now ts' (ps @ [now])" unfolding window_ok_def using sorted' upto dom by blast
qed

text \<open>What holds of the counts of open connections, of the windows, and, when nothing was forgotten, of the limit of connections.\<close>

definition open_ok :: "sim_run \<Rightarrow> bool" where
  "open_ok r \<longleftrightarrow> (\<forall>i. 0 \<le> is_active (ip_of i (sr_engine r)) \<and> is_active (ip_of i (sr_engine r)) \<le> int (count (sr_open r) i)) \<and>
     ss_currentConcurrent (en_st (sr_engine r)) = int (size (sr_open r))"

definition rates_ok :: "sim_run \<Rightarrow> bool" where
  "rates_ok r \<longleftrightarrow> (let e = sr_engine r; rule = li_rcptRate (pf_limits (en_prof e)) in
     (\<forall>i. sorted (is_rcptTimes (ip_of i e)) \<and> (\<forall>x\<in>set (is_rcptTimes (ip_of i e)). x \<le> sr_clock r)) \<and>
     (rule_enabled rule \<longrightarrow>
        (\<forall>i. window_ok (rr_window rule) (rr_count rule) (sr_clock r) (is_rcptTimes (ip_of i e)) (sr_passed r i))))"

definition exact_ok :: "sim_run \<Rightarrow> bool" where
  "exact_ok r \<longleftrightarrow> (let e = sr_engine r; m = li_maxConns (pf_limits (en_prof e)) in
     (\<forall>i. is_active (ip_of i e) = int (count (sr_open r) i)) \<and> (m > 0 \<longrightarrow> (\<forall>i. int (count (sr_open r) i) \<le> m)))"

definition sim_inv :: "limits \<Rightarrow> sim_run \<Rightarrow> bool" where
  "sim_inv l r \<longleftrightarrow> pf_limits (en_prof (sr_engine r)) = l \<and> open_ok r \<and> rates_ok r \<and> exact_ok r"

lemmas sim_inv_defs = sim_inv_def open_ok_def rates_ok_def exact_ok_def Let_def

lemma calm_oks:
  assumes "calm (sr_engine r) e" "sr_clock r \<le> now"
  shows "open_ok r \<Longrightarrow> open_ok (r\<lparr>sr_engine := e, sr_clock := now\<rparr>)" "rates_ok r \<Longrightarrow> rates_ok (r\<lparr>sr_engine := e, sr_clock := now\<rparr>)"
    "exact_ok r \<Longrightarrow> exact_ok (r\<lparr>sr_engine := e, sr_clock := now\<rparr>)"
  using assms by (auto simp: open_ok_def rates_ok_def exact_ok_def calm_def Let_def intro: window_ok_later order_trans)

lemma calm_oks_now:
  assumes "calm (sr_engine r) e"
  shows "open_ok r \<Longrightarrow> open_ok (r\<lparr>sr_engine := e\<rparr>)" "rates_ok r \<Longrightarrow> rates_ok (r\<lparr>sr_engine := e\<rparr>)" "exact_ok r \<Longrightarrow> exact_ok (r\<lparr>sr_engine := e\<rparr>)"
  using assms by (auto simp: open_ok_def rates_ok_def exact_ok_def calm_def Let_def)

lemma OnConnect_effect:
  assumes "OnConnect ip now e = ((v, ok), e')"
  shows "pf_limits (en_prof e') = pf_limits (en_prof e)" "is_rcptTimes (ip_of i e') = is_rcptTimes (ip_of i e)"
    "is_active (ip_of i e') = is_active (ip_of i e) + (if ok \<and> i = ip then 1 else 0)"
    "ss_currentConcurrent (en_st e') = ss_currentConcurrent (en_st e) + (if ok then 1 else 0)"
    "ok \<Longrightarrow> li_maxConns (pf_limits (en_prof e)) > 0 \<Longrightarrow> is_active (ip_of ip e) < li_maxConns (pf_limits (en_prof e))"
proof -
  have rej: "calm x (snd (reject_conn ip now cool w why x))" "\<not> snd (fst (reject_conn ip now cool w why x))" for cool w why x
  proof -
    have "calm x (tally (\<lambda>st. st\<lparr>ss_connsRejected := ss_connsRejected st + 1\<rparr>) x)" by (rule calm_tally) simp
    from calm_trans [OF this calm_countThrottle] have
      "calm x (countThrottle now (tally (\<lambda>st. st\<lparr>ss_connsRejected := ss_connsRejected st + 1\<rparr>) x))" .
    then show "calm x (snd (reject_conn ip now cool w why x))"
      by (auto simp: reject_conn_def Let_def split_def intro!: calm_answer intro: calm_trans [OF _ calm_startCooldown])
  qed (simp add: reject_conn_def Let_def split_def)
  define s where "s = (ip_of ip e)\<lparr>is_connTimes := is_connTimes (ip_of ip e) @ [now]\<rparr>"
  define e1 where "e1 = put_ip ip s (tally (\<lambda>st. st\<lparr>ss_conns := ss_conns st + 1\<rparr>) e)"
  define s2 where "s2 = s\<lparr>is_connTimes := prune (is_connTimes s) now (rr_window (li_connRate (pf_limits (en_prof e))))\<rparr>"
  have c: "calm e e1" "calm e (put_ip ip s2 e1)" by (simp_all add: e1_def s_def s2_def calm_def)
  let ?l = "pf_limits (en_prof e)"
  have "(\<exists>x cool w why. OnConnect ip now e = reject_conn ip now cool w why x \<and> calm e x) \<or>
      (\<exists>x. OnConnect ip now e = admit ip x \<and> calm e x \<and> (li_maxConns ?l > 0 \<longrightarrow> is_active (ip_of ip e) < li_maxConns ?l))"
    unfolding OnConnect_def Let_def s_def [symmetric] e1_def [symmetric]
    unfolding s2_def [symmetric] using c by (auto simp: s_def)
  then consider x cool w why where "((v, ok), e') = reject_conn ip now cool w why x" "calm e x"
    | x where "((v, ok), e') = admit ip x" "calm e x" "li_maxConns ?l > 0 \<longrightarrow> is_active (ip_of ip e) < li_maxConns ?l"
    unfolding assms by metis
  then have "(\<not> ok \<and> calm e e') \<or> (ok \<and> (\<exists>x. ((v, ok), e') = admit ip x \<and> calm e x) \<and> (li_maxConns ?l > 0 \<longrightarrow> is_active (ip_of ip e) < li_maxConns ?l))"
  proof cases
    case 1
    then show ?thesis using rej calm_trans by (metis fst_conv snd_conv)
  next
    case 2
    then show ?thesis by (auto simp: admit_def Let_def)
  qed
  then show "pf_limits (en_prof e') = pf_limits (en_prof e)" "is_rcptTimes (ip_of i e') = is_rcptTimes (ip_of i e)"
    "is_active (ip_of i e') = is_active (ip_of i e) + (if ok \<and> i = ip then 1 else 0)"
    "ss_currentConcurrent (en_st e') = ss_currentConcurrent (en_st e) + (if ok then 1 else 0)"
    "ok \<Longrightarrow> li_maxConns (pf_limits (en_prof e)) > 0 \<Longrightarrow> is_active (ip_of ip e) < li_maxConns (pf_limits (en_prof e))"
    by (auto simp: calm_def admit_def Let_def split: if_splits)
qed

lemma OnDisconnect_effect:
  "pf_limits (en_prof (OnDisconnect ip True e)) = pf_limits (en_prof e)"
  "is_rcptTimes (ip_of i (OnDisconnect ip True e)) = is_rcptTimes (ip_of i e)"
  "0 < is_active (ip_of ip e) \<Longrightarrow> is_active (ip_of i (OnDisconnect ip True e)) = is_active (ip_of i e) - (if i = ip then 1 else 0)"
  "0 < ss_currentConcurrent (en_st e) \<Longrightarrow> ss_currentConcurrent (en_st (OnDisconnect ip True e)) = ss_currentConcurrent (en_st e) - 1"
  by (auto simp: OnDisconnect_def Let_def)

text \<open>
  The engine is a door with a limit: the contract the server relies on. Who is let in is inside until
  it leaves, nobody is let in beyond the room there is, and a visit leaves everything as it was.
\<close>

locale door =
  fixes enter :: "'r \<Rightarrow> 's \<Rightarrow> bool \<times> 's"
    and who :: "'r \<Rightarrow> 'i"
    and leave :: "'i \<Rightarrow> 's \<Rightarrow> 's"
    and inside :: "'i \<Rightarrow> 's \<Rightarrow> int"
    and room :: "'s \<Rightarrow> int"
  assumes enter_inside: "inside j (snd (enter r s)) = inside j s + (if fst (enter r s) \<and> j = who r then 1 else 0)"
    and enter_room: "fst (enter r s) \<Longrightarrow> 0 < room s \<Longrightarrow> inside (who r) s < room s"
    and leave_inside: "0 < inside i s \<Longrightarrow> inside j (leave i s) = inside j s - (if j = i then 1 else 0)"
    and keeps_room: "room (snd (enter r s)) = room s" "room (leave i s) = room s"
begin

definition fits_in :: "'s \<Rightarrow> bool" where
  "fits_in s \<longleftrightarrow> (\<forall>j. 0 \<le> inside j s \<and> (0 < room s \<longrightarrow> inside j s \<le> room s))"

lemma enter_fits: "fits_in s \<Longrightarrow> fits_in (snd (enter r s))"
  using enter_room [of r s] by (auto simp: fits_in_def enter_inside keeps_room)

lemma leave_fits:
  assumes "fits_in s" "0 < inside i s"
  shows "fits_in (leave i s)"
proof -
  have "0 \<le> inside j (leave i s) \<and> (0 < room s \<longrightarrow> inside j (leave i s) \<le> room s)" for j
    using assms(1) [unfolded fits_in_def, rule_format, of j] assms(2) by (auto simp: leave_inside [OF assms(2)])
  then show ?thesis by (simp add: fits_in_def keeps_room)
qed

lemma visit: "fits_in s \<Longrightarrow> fst (enter r s) \<Longrightarrow> inside j (leave (who r) (snd (enter r s))) = inside j s"
proof -
  assume "fits_in s" "fst (enter r s)"
  then have "0 < inside (who r) (snd (enter r s))" by (auto simp: fits_in_def enter_inside)
  from leave_inside [OF this] show ?thesis using \<open>fst (enter r s)\<close> by (simp add: enter_inside)
qed

end

definition knock :: "string \<times> instant \<Rightarrow> engine \<Rightarrow> bool \<times> engine" where
  "knock r e = (case OnConnect (fst r) (snd r) e of ((_, ok), e) \<Rightarrow> (ok, e))"

interpretation engine_door: door knock fst "\<lambda>ip. OnDisconnect ip True" "\<lambda>i e. is_active (ip_of i e)" "\<lambda>e. li_maxConns (pf_limits (en_prof e))"
proof
  fix r e
  obtain v ok e' where c: "OnConnect (fst r) (snd r) e = ((v, ok), e')" by (metis prod.collapse)
  note eff = OnConnect_effect [OF c]
  show "is_active (ip_of j (snd (knock r e))) = is_active (ip_of j e) + (if fst (knock r e) \<and> j = fst r then 1 else 0)" for j
    by (simp add: knock_def c eff(3))
  show "fst (knock r e) \<Longrightarrow> 0 < li_maxConns (pf_limits (en_prof e)) \<Longrightarrow> is_active (ip_of (fst r) e) < li_maxConns (pf_limits (en_prof e))"
    using eff(5) by (simp add: knock_def c)
  show "li_maxConns (pf_limits (en_prof (snd (knock r e)))) = li_maxConns (pf_limits (en_prof e))" by (simp add: knock_def c eff(1))
qed (simp_all add: OnDisconnect_effect)

lemma knocked: "OnConnect ip now e = ((v, ok), e') \<Longrightarrow> knock (ip, now) e = (ok, e')"
  by (simp add: knock_def)

lemma sim_inv_fits: "sim_inv l r \<Longrightarrow> engine_door.fits_in (sr_engine r)"
  by (auto simp: engine_door.fits_in_def sim_inv_defs)

text \<open>The steps one invariant at a time.\<close>

lemma step_limits: "sim_step g r r' \<Longrightarrow> pf_limits (en_prof (sr_engine r')) = pf_limits (en_prof (sr_engine r))"
proof (induction rule: sim_step.induct)
  case (connected ip now r v e)
  then show ?case using OnConnect_effect(1) by simp
next
  case (refused ip now r v e)
  then show ?case using OnConnect_effect(1) by simp
next
  case (closed ip r)
  then show ?case by (simp add: OnDisconnect_effect(1))
next
  case (asked ip now a n r v e)
  then show ?case using OnRcpt_window(1) by simp
next
  case (replaced p r)
  then show ?case using calm_SetProfile by (simp add: calm_def)
qed (use calm_rest in \<open>simp_all add: calm_def\<close>)

lemma OnDisconnect_active:
  "is_active (ip_of i (OnDisconnect ip True e)) =
     (if i = ip \<and> 0 < is_active (ip_of ip e) then is_active (ip_of ip e) - 1 else is_active (ip_of i e))"
  by (auto simp: OnDisconnect_def Let_def)

lemma open_ok_step: "sim_step g r r' \<Longrightarrow> open_ok r \<Longrightarrow> open_ok r'"
proof (induction rule: sim_step.induct)
  case (connected ip now r v e)
  show ?case using connected(3) OnConnect_effect(3,4) [OF connected(1)] by (auto simp: open_ok_def add_increasing2)
next
  case (refused ip now r v e)
  show ?case using refused(3) OnConnect_effect(3,4) [OF refused(1)] by (auto simp: open_ok_def)
next
  case (closed ip r)
  have ne: "sr_open r \<noteq> {#}" using closed(1) by auto
  then have size: "int (size (sr_open r) - Suc 0) = int (size (sr_open r)) - 1" by (cases "size (sr_open r)") auto
  have pos: "0 < ss_currentConcurrent (en_st (sr_engine r))" using closed(2) ne by (simp add: open_ok_def nonempty_has_size)
  have "1 \<le> count (sr_open r) ip" using closed(1) by (simp add: Suc_le_eq)
  then have "int (count (sr_open r) ip - Suc 0) = int (count (sr_open r) ip) - 1" by (simp add: of_nat_diff)
  moreover have "0 \<le> is_active (ip_of i (sr_engine r)) \<and> is_active (ip_of i (sr_engine r)) \<le> int (count (sr_open r) i)" for i
    using closed(2) by (simp add: open_ok_def)
  moreover have "ss_currentConcurrent (en_st (OnDisconnect ip True (sr_engine r))) = int (size (sr_open r)) - 1"
    using OnDisconnect_effect(4) [OF pos] closed(2) by (simp add: open_ok_def)
  moreover have "is_active (ip_of ip (sr_engine r)) - 1 < int (count (sr_open r) ip)" proof -
    have "is_active (ip_of ip (sr_engine r)) \<le> int (count (sr_open r) ip)" using closed(2) by (simp add: open_ok_def)
    then show ?thesis by linarith
  qed
  ultimately show ?case
    using size \<open>1 \<le> count (sr_open r) ip\<close> closed(1) by (auto simp: open_ok_def OnDisconnect_active size_Diff_singleton)
next
  case (asked ip now a n r v e)
  show ?case using asked(3) OnRcpt_window(2,3) [OF asked(1)] by (auto simp: open_ok_def)
next
  case (replaced p r)
  then show ?case using calm_oks_now(1) [OF calm_SetProfile] by blast
qed (auto intro: calm_oks_now(1))

lemma rates_ok_step: "sim_step g r r' \<Longrightarrow> rates_ok r \<Longrightarrow> rates_ok r'"
proof (induction rule: sim_step.induct)
  case (connected ip now r v e)
  show ?case using connected(2,3) OnConnect_effect(1,2) [OF connected(1)] by (auto simp: rates_ok_def Let_def intro: window_ok_later order_trans)
next
  case (refused ip now r v e)
  show ?case using refused(2,3) OnConnect_effect(1,2) [OF refused(1)] by (auto simp: rates_ok_def Let_def intro: window_ok_later order_trans)
next
  case (closed ip r)
  then show ?case by (auto simp: rates_ok_def Let_def OnDisconnect_effect(1,2))
next
  case (asked ip now a n r v e)
  note eff = OnRcpt_window [OF asked(1)]
  let ?rule = "li_rcptRate (pf_limits (en_prof (sr_engine r)))"
  have old: "sorted (is_rcptTimes (ip_of i (sr_engine r)))" "\<forall>x\<in>set (is_rcptTimes (ip_of i (sr_engine r))). x \<le> sr_clock r" for i
    using asked(3) by (simp_all add: rates_ok_def Let_def)
  have win: "window_ok (rr_window ?rule) (rr_count ?rule) now (is_rcptTimes (ip_of i e))
      ((if past_limits v then (sr_passed r)(ip := sr_passed r ip @ [now]) else sr_passed r) i)" if en: "rule_enabled ?rule" for i
  proof (cases "i = ip")
    case False
    then show ?thesis using asked(2,3) eff(4) en by (auto simp: rates_ok_def Let_def intro: window_ok_later)
  next
    case True
    have ok: "window_ok (rr_window ?rule) (rr_count ?rule) (sr_clock r) (is_rcptTimes (ip_of ip (sr_engine r))) (sr_passed r ip)"
      using asked(3) en by (simp add: rates_ok_def Let_def)
    have w: "0 < rr_window ?rule" using en by (simp add: rule_enabled_def)
    show ?thesis
      using eff(5) [OF en] window_ok_entered [OF ok asked(2) w] window_ok_later [OF ok asked(2)] True by auto
  qed
  have "sorted (is_rcptTimes (ip_of i e)) \<and> (\<forall>x\<in>set (is_rcptTimes (ip_of i e)). x \<le> now)" for i
  proof (cases "rule_enabled ?rule")
    case True
    with win [OF True, of i] show ?thesis by (simp add: window_ok_def)
  next
    case False
    have "is_rcptTimes (ip_of i e) = is_rcptTimes (ip_of i (sr_engine r))" using eff(4) eff(6) [OF False] by (cases "i = ip") auto
    with old [of i] asked(2) show ?thesis by auto
  qed
  with win eff(1) show ?case by (auto simp: rates_ok_def Let_def)
next
  case (replaced p r)
  then show ?case using calm_oks_now(2) [OF calm_SetProfile] by blast
qed (auto intro: calm_oks_now(2))

lemma exact_ok_step: "sim_step g r r' \<Longrightarrow> exact_ok r \<Longrightarrow> exact_ok r'"
proof (induction rule: sim_step.induct)
  case (connected ip now r v e)
  let ?m = "li_maxConns (pf_limits (en_prof (sr_engine r)))"
  have "int (count (sr_open r) ip) < ?m" if "?m > 0"
    using connected(3) engine_door.enter_room [of "(ip, now)" "sr_engine r"] knocked [OF connected(1)] that by (auto simp: exact_ok_def Let_def)
  then show ?case using connected(3) OnConnect_effect(1,3) [OF connected(1)] by (auto simp: exact_ok_def Let_def)
next
  case (refused ip now r v e)
  show ?case using refused(3) OnConnect_effect(1,3) [OF refused(1)] by (auto simp: exact_ok_def Let_def)
next
  case (closed ip r)
  have "0 < is_active (ip_of ip (sr_engine r))" using closed by (auto simp: exact_ok_def Let_def)
  note leave = engine_door.leave_inside [OF this]
  have le: "int (count (sr_open r) i) - 1 \<le> m" if "\<forall>i. int (count (sr_open r) i) \<le> m" for i m
    using that [rule_format, of i] by simp
  show ?case using closed OnDisconnect_effect(1) leave by (auto simp: exact_ok_def Let_def of_nat_diff intro!: le)
next
  case (asked ip now a n r v e)
  show ?case using asked(3) OnRcpt_window(1,2) [OF asked(1)] by (auto simp: exact_ok_def Let_def)
next
  case (replaced p r)
  then show ?case using calm_oks_now(3) [OF calm_SetProfile] by blast
qed (auto intro: calm_oks_now(3))

lemma sim_inv_step: "sim_step g r r' \<Longrightarrow> sim_inv l r \<Longrightarrow> sim_inv l r'"
  unfolding sim_inv_def using step_limits open_ok_step rates_ok_step exact_ok_step by metis

lemma sim_inv_reaches: "sim_reaches g p r \<Longrightarrow> sim_inv (pf_limits p) r"
proof (elim exE)
  fix t assume "(sim_step g)\<^sup>*\<^sup>* (sim_start p t) r"
  then show ?thesis
  proof (induction rule: rtranclp_induct)
    case base
    show ?case
      by (simp add: sim_start_def sim_inv_defs NewEngine_def zero_stats_def ip_of_def new_ip_def window_ok_def rule_enabled_def Let_def)
  next
    case (step y z)
    then show ?case using sim_inv_step by blast
  qed
qed

lemma visit_leaves_no_trace:
  assumes "sim_reaches g p r" "OnConnect ip now (sr_engine r) = ((v, True), e)"
  shows "is_active (ip_of j (OnDisconnect ip True e)) = is_active (ip_of j (sr_engine r))"
  using engine_door.visit [OF sim_inv_fits [OF sim_inv_reaches [OF assms(1)]], of "(ip, now)" j] knocked [OF assms(2)] by simp

text \<open>
  The life of an engine: steps, resets and changes of the profile, at any time. A reset forgets, and a change of the limits makes
  irrelevant, what RCPTs passed before. The flag says whether, since the last moment at which no connection
  was open, there was neither.
\<close>

inductive sim_life :: "generator \<Rightarrow> bool \<times> sim_run \<Rightarrow> bool \<times> sim_run \<Rightarrow> bool" for g where
  served: "sim_step g r r' \<Longrightarrow> sim_life g (b, r) (b \<or> sr_open r' = {#}, r')"
| reset: "sim_life g (b, r) (sr_open r = {#}, r\<lparr>sr_engine := Reset_engine (sr_engine r), sr_passed := (\<lambda>_. [])\<rparr>)"
| reprofiled: "sim_life g (b, r) (sr_open r = {#}, r\<lparr>sr_engine := SetProfile p (sr_engine r), sr_passed := (\<lambda>_. [])\<rparr>)"

abbreviation sim_lives :: "generator \<Rightarrow> profile \<Rightarrow> bool \<times> sim_run \<Rightarrow> bool" where
  "sim_lives g p x \<equiv> \<exists>t. (sim_life g)\<^sup>*\<^sup>* (True, sim_start p t) x"

definition life_inv :: "bool \<times> sim_run \<Rightarrow> bool" where
  "life_inv x \<longleftrightarrow> open_ok (snd x) \<and> rates_ok (snd x) \<and> balance (sr_engine (snd x)) = 0 \<and> (fst x \<longrightarrow> exact_ok (snd x))"

lemma exact_when_empty: "open_ok r \<Longrightarrow> sr_open r = {#} \<Longrightarrow> exact_ok r"
  by (auto simp: open_ok_def exact_ok_def Let_def intro: antisym)

lemma window_ok_empty: "sorted ts \<Longrightarrow> \<forall>x\<in>set ts. x \<le> c \<Longrightarrow> 0 \<le> n \<Longrightarrow> window_ok w n c ts []"
  by (simp add: window_ok_def)

lemma open_ok_admin:
  "open_ok r \<Longrightarrow> open_ok (r\<lparr>sr_engine := Reset_engine (sr_engine r), sr_passed := ps\<rparr>)"
  "open_ok r \<Longrightarrow> open_ok (r\<lparr>sr_engine := SetProfile p (sr_engine r), sr_passed := ps\<rparr>)"
  by (auto simp: open_ok_def Reset_engine_def SetProfile_def ip_of_def new_ip_def split: option.splits)

lemma rates_ok_admin:
  assumes "rates_ok r"
  shows "rates_ok (r\<lparr>sr_engine := Reset_engine (sr_engine r), sr_passed := (\<lambda>_. [])\<rparr>)"
    "rates_ok (r\<lparr>sr_engine := SetProfile p (sr_engine r), sr_passed := (\<lambda>_. [])\<rparr>)"
proof -
  have old: "sorted (is_rcptTimes (ip_of i (sr_engine r)))" "\<forall>x\<in>set (is_rcptTimes (ip_of i (sr_engine r))). x \<le> sr_clock r" for i
    using assms by (simp_all add: rates_ok_def Let_def)
  have "is_rcptTimes (ip_of i (Reset_engine e)) = []" "is_rcptTimes (ip_of i (SetProfile p e)) = is_rcptTimes (ip_of i e)" for i e
    by (simp_all add: Reset_engine_def SetProfile_def ip_of_def new_ip_def split: option.split)
  with old show "rates_ok (r\<lparr>sr_engine := Reset_engine (sr_engine r), sr_passed := (\<lambda>_. [])\<rparr>)"
    "rates_ok (r\<lparr>sr_engine := SetProfile p (sr_engine r), sr_passed := (\<lambda>_. [])\<rparr>)"
    by (auto simp: rates_ok_def Let_def rule_enabled_def intro!: window_ok_empty)
qed

lemma life_inv_step:
  assumes "sim_life g x y" "life_inv x"
  shows "life_inv y"
  using assms
proof (induction rule: sim_life.induct)
  case (served r r' b)
  then have "open_ok r'" "rates_ok r'" "balance (sr_engine r') = 0" "b \<Longrightarrow> exact_ok r'"
    using open_ok_step rates_ok_step balance_step exact_ok_step by (auto simp: life_inv_def)
  then show ?case using exact_when_empty by (auto simp: life_inv_def)
next
  case (reset b r)
  then show ?case using open_ok_admin(1) [of r "\<lambda>_. []"] rates_ok_admin(1) [of r]
    by (auto simp: life_inv_def intro!: exact_when_empty)
next
  case (reprofiled b r p)
  then show ?case using open_ok_admin(2) [of r "\<lambda>_. []" p] rates_ok_admin(2) [of r p]
    by (auto simp: life_inv_def intro!: exact_when_empty)
qed

lemma life_inv_lives: "sim_lives g p x \<Longrightarrow> life_inv x"
proof (elim exE)
  fix t assume "(sim_life g)\<^sup>*\<^sup>* (True, sim_start p t) x"
  then show ?thesis
  proof (induction rule: rtranclp_induct)
    case base
    have "sim_inv (pf_limits p) (sim_start p t)" by (rule sim_inv_reaches) blast
    then show ?case by (auto simp: life_inv_def sim_inv_def) (simp add: sim_start_def)
  next
    case (step y z)
    then show ?case using life_inv_step by blast
  qed
qed

text \<open>
  C35. The simulated limits hold: whatever connections come and go, in any order and with resets and changes of the profile
  in between, the engine counts exactly the open connections, and every RCPT and every refused connection since the last reset is
  counted in exactly one way; of the RCPTs of an address since the last reset or change of the profile, in no stretch
  of time as long as the window do more get past the limits than the rate of the profile allows; and no address has more open connections
  than the profile allows, if there was no reset and no change of the profile since the last moment at which no
  connection was open. The clock only moves forward.
\<close>

theorem simulator_keeps_its_limits:
  assumes "sim_lives g p (undisturbed, r)"
  defines "st \<equiv> en_st (sr_engine r)" and "l \<equiv> pf_limits (en_prof (sr_engine r))"
  shows "ss_currentConcurrent st = int (size (sr_open r)) \<and>
    ss_rcpt st + ss_connsRejected st = ss_accepted st + ss_rejected st + ss_relayDenied st + ss_domainLimited st +
      ss_tempErrors st + ss_greylisted st + ss_drops st + ss_timeouts st + ss_throttled st \<and>
    (rule_enabled (li_rcptRate l) \<longrightarrow> (\<forall>ip t.
      int (length (filter (\<lambda>x. t - rr_window (li_rcptRate l) < x \<and> x \<le> t) (sr_passed r ip))) \<le> rr_count (li_rcptRate l))) \<and>
    (undisturbed \<and> li_maxConns l > 0 \<longrightarrow> (\<forall>ip. int (count (sr_open r) ip) \<le> li_maxConns l))"
  using life_inv_lives [OF assms(1)]
  by (auto simp: life_inv_def open_ok_def rates_ok_def exact_ok_def window_ok_def balance_def st_def l_def Let_def)

text \<open>A profile with every limit, and a run against it: a connection, and one RCPT within the rate.\<close>

definition strict_profile :: profile where
  "strict_profile = ApplyDefaults \<lparr>pf_name = ''strict'', pf_domains = [''example.org''], pf_listen = [''127.0.0.1:2525''], pf_banner = [],
     pf_ehloCaps = [], pf_startTLS = [], pf_limits = \<lparr>li_maxConns = 1, li_connRate = \<lparr>rr_count = 0, rr_window = 0, rr_onExceed = []\<rparr>,
       li_rcptRate = \<lparr>rr_count = 1, rr_window = minute, rr_onExceed = []\<rparr>, li_rcptPerConn = 10, li_cooldown = hour, li_tooManyConns = []\<rparr>,
     pf_behaviour = \<lparr>be_tarpitBanner = 0, be_tarpitRcpt = 0, be_greylist = False, be_greylistDelay = 0, be_greylistReply = [],
       be_catchAll = False, be_rejectUnknown = [], be_accept = [], be_catchAllDomains = [], be_relayDenied = [],
       be_domainsPerTransaction = 0, be_domainLimitReply = [], be_transactionsPerConnection = 0, be_transactionLimitReply = [],
       be_timeoutHold = 0, be_idleTimeout = 0\<rparr>,
     pf_recipients = \<lparr>re_exists = [''jo@''], re_bounce = [], re_timeout = [], re_drop = []\<rparr>,
     pf_chaos = \<lparr>ch_tempErrorRate = 0, ch_tempErrorReply = [], ch_dropRate = 0, ch_seed = 0\<rparr>\<rparr>"

definition quiet :: generator where "quiet = (\<lambda>_ _. 1)"

definition first_run :: sim_run where
  "first_run = (let e1 = snd (OnConnect ''192.0.2.1'' 0 (NewEngine strict_profile)); e2 = snd (OnRcpt quiet ''192.0.2.1'' 5 ''jo@example.org'' 1 e1)
     in \<lparr>sr_engine = e2, sr_open = {#''192.0.2.1''#}, sr_passed = (\<lambda>_. [])(''192.0.2.1'' := [5]), sr_clock = 5\<rparr>)"

lemma strict_parts:
  "pf_limits strict_profile = \<lparr>li_maxConns = 1, li_connRate = \<lparr>rr_count = 0, rr_window = 0, rr_onExceed = []\<rparr>,
     li_rcptRate = \<lparr>rr_count = 1, rr_window = minute, rr_onExceed = ''421 4.7.0 Too many requests, try again later''\<rparr>,
     li_rcptPerConn = 10, li_cooldown = hour, li_tooManyConns = ''421 4.7.0 Too many concurrent connections from this IP''\<rparr>"
  "be_relayDenied (pf_behaviour strict_profile) = []" "be_greylist (pf_behaviour strict_profile) = False"
  "ch_dropRate (pf_chaos strict_profile) = 0" "ch_tempErrorRate (pf_chaos strict_profile) = 0"
  "re_drop (pf_recipients strict_profile) = []" "re_timeout (pf_recipients strict_profile) = []"
  by code_simp+

lemmas evaluate_engine = OnConnect_def NewEngine_def ip_of_def new_ip_def put_ip_def tally_def zero_stats_def cooling_def admit_def
  rule_enabled_def verdict_of_def reject_conn_def answer_def countThrottle_def startCooldown_def countCode_def Let_def split_def strict_parts

lemma strict_admits:
  "OnConnect ''192.0.2.1'' now (NewEngine strict_profile) = ((v, b), e) \<Longrightarrow> b \<and> en_prof e = strict_profile \<and> is_rcptMinute (ip_of ''192.0.2.1'' e) = [] \<and>
     is_rcptTimes (ip_of ''192.0.2.1'' e) = [] \<and> is_cooldownUntil (ip_of ''192.0.2.1'' e) = None \<and> is_active (ip_of ''192.0.2.1'' e) = 1 \<and>
     ss_currentConcurrent (en_st e) = 1 \<and> ss_rcpt (en_st e) = 0"
  by (auto simp: evaluate_engine)

lemma first_run_reached: "sim_reaches quiet strict_profile first_run"
proof -
  let ?ip = "''192.0.2.1''"
  obtain v1 b e1 where c: "OnConnect ?ip 0 (NewEngine strict_profile) = ((v1, b), e1)" by (metis prod.collapse)
  note e1 = strict_admits [OF c]
  let ?r1 = "\<lparr>sr_engine = e1, sr_open = {#?ip#}, sr_passed = (\<lambda>_. []), sr_clock = 0\<rparr>"
  have 1: "sim_step quiet (sim_start strict_profile 0) ?r1"
    using sim_step.connected [of ?ip 0 "sim_start strict_profile 0" v1 e1 quiet] c e1 by (simp add: sim_start_def)
  obtain v2 e2 where q: "OnRcpt quiet ?ip 5 ''jo@example.org'' 1 e1 = (v2, e2)" by (metis prod.collapse)
  then have "past_limits v2" using e1
    by (auto simp: OnRcpt_def cooling_def strict_parts rule_enabled_def prune_def relay_check_def disturb_def drawn_def recipient_lists_def
        greylist_def decide_def answer_def past_limits_def verdict_of_def normalizeLocals_def put_ip_def tally_def ip_of_def Let_def split_def split: if_splits)
  then have 2: "sim_step quiet ?r1 first_run"
    using sim_step.asked [of quiet ?ip 5 "''jo@example.org''" 1 ?r1 v2 e2] q c by (simp add: first_run_def Let_def)
  from 1 2 show ?thesis by (blast intro: converse_rtranclp_into_rtranclp r_into_rtranclp)
qed

text \<open>The same run in the life of the engine, and a reset after it.\<close>

lemma first_run_lives: "sim_lives quiet strict_profile (True, first_run)"
proof -
  have step: "(sim_life quiet)\<^sup>*\<^sup>* (True, r) (True, r')" if "(sim_step quiet)\<^sup>*\<^sup>* r r'" for r r'
    using that
  proof (induction rule: rtranclp_induct)
    case (step y z)
    from sim_life.served [OF step(2), of True] step(3) show ?case by (simp add: rtranclp.rtrancl_into_rtrancl)
  qed simp
  show ?thesis using first_run_reached step by blast
qed

theorem simulator_keeps_its_limits_witness:
  "ss_currentConcurrent (en_st (sr_engine first_run)) = 1 \<and>
   (\<forall>ip. int (count (sr_open first_run) ip) \<le> 1) \<and> sr_passed first_run ''192.0.2.1'' = [5] \<and>
   (\<forall>t. int (length (filter (\<lambda>x. t - minute < x \<and> x \<le> t) [5])) \<le> 1)"
proof -
  have r: "sr_open first_run = {#''192.0.2.1''#}" "sr_passed first_run ''192.0.2.1'' = [5]" by (simp_all add: first_run_def Let_def)
  have "pf_limits (en_prof (sr_engine first_run)) = pf_limits strict_profile"
    using sim_inv_reaches [OF first_run_reached] by (simp add: sim_inv_def)
  with r show ?thesis using simulator_keeps_its_limits [OF first_run_lives] by (simp add: strict_parts)
qed

text \<open>
  A reset while connections are open breaks the limit: it forgets the open connections of an address while it keeps their
  sum, so that an address with as many connections as the profile allows is let in once more.
\<close>

theorem reset_forgets_connections:
  "let c = OnConnect ''192.0.2.1'' 0 (NewEngine strict_profile); d = OnConnect ''192.0.2.1'' 1 (Reset_engine (snd c))
   in li_maxConns (pf_limits strict_profile) = 1 \<and> snd (fst c) \<and> \<not> snd (fst (OnConnect ''192.0.2.1'' 1 (snd c))) \<and>
     snd (fst d) \<and> ss_currentConcurrent (en_st (snd d)) = 2"
  by (simp add: evaluate_engine Reset_engine_def)

end
