(* ===== verification/Simserver.thy ===== *)
theory Simserver
  imports Simengine Session
begin

text \<open>
  \<open>internal/mxsim/smtp/server.go\<close>: the SMTP server of the simulated receiver. A session reads command lines,
  keeps where the dialogue is, and asks the engine for every connection, every RCPT and every refusal.
\<close>

section \<open>A connection\<close>

text \<open>
  What a session meets, as sequences by position: the readings of the simulated clock, whether a write_reply
  goes through, whether the server is found to be stopping when that is looked at, and the random
  numbers. The certificate, the handshake and what is read after it are the TLS library's.
\<close>

datatype read_result = Line string | EndOf string | Broken

record sim_env =
  sv_clk :: "nat \<Rightarrow> instant"
  sv_writable :: "nat \<Rightarrow> bool"
  sv_stopped :: "nat \<Rightarrow> bool"
  sv_rng :: generator
  sv_cert :: bool
  sv_handshake :: bool
  sv_tlsReads :: "read_result list"

record wire =
  wr_engine :: engine
  wr_ticks :: nat
  wr_writes :: nat
  wr_looks :: nat
  wr_reads :: "read_result list"
  wr_sent :: "string list"

record sim_session =
  ses_ip :: string
  ses_id :: int
  ses_helo :: bool
  ses_mail :: bool
  ses_rcpts :: int
  ses_tls :: bool
  ses_txDomains :: "string list"
  ses_txns :: int

definition tick :: "sim_env \<Rightarrow> wire \<Rightarrow> instant \<times> wire" where
  "tick ev w = (sv_clk ev (wr_ticks w), w\<lparr>wr_ticks := Suc (wr_ticks w)\<rparr>)"

definition log_text :: "sim_env \<Rightarrow> sim_session \<Rightarrow> string \<Rightarrow> string \<Rightarrow> wire \<Rightarrow> wire" where
  "log_text ev ses dir s w = (case tick ev w of (t, w) \<Rightarrow>
     w\<lparr>wr_engine := Log_line t (ses_ip ses) (ses_id ses) dir s (wr_engine w)\<rparr>)"

definition stopping :: "sim_env \<Rightarrow> wire \<Rightarrow> bool \<times> wire" where
  "stopping ev w = (sv_stopped ev (wr_looks w), w\<lparr>wr_looks := Suc (wr_looks w)\<rparr>)"

text \<open>\<open>sleepCtx\<close>: whether the time passed before the server was stopped.\<close>

definition sleepCtx :: "sim_env \<Rightarrow> duration \<Rightarrow> wire \<Rightarrow> bool \<times> wire" where
  "sleepCtx ev d w = (if d \<le> 0 then (True, w) else (case stopping ev w of (b, w) \<Rightarrow> (\<not> b, w)))"

definition maxLineBytes :: nat where "maxLineBytes = 4096"

text \<open>\<open>None\<close> is any error; past the end of what the client sent every read is one.\<close>

definition readLine :: "wire \<Rightarrow> string option \<times> wire" where
  "readLine w =
     (case wr_reads w of
        [] \<Rightarrow> (None, w)
      | Line l # rs \<Rightarrow> (if length l \<ge> maxLineBytes then None else Some (trim_right is_crlf l), w\<lparr>wr_reads := rs\<rparr>)
      | EndOf l # rs \<Rightarrow> (if l = [] then None else Some (trim_right is_crlf l), w\<lparr>wr_reads := []\<rparr>)
      | Broken # rs \<Rightarrow> (None, w\<lparr>wr_reads := []\<rparr>))"

text \<open>One line, and a reply of several.\<close>

definition write_line :: "sim_env \<Rightarrow> sim_session \<Rightarrow> string \<Rightarrow> wire \<Rightarrow> wire" where
  "write_line ev ses s w =
     (if s = [] then w
      else let ok = sv_writable ev (wr_writes w); w = w\<lparr>wr_writes := Suc (wr_writes w)\<rparr>
           in if ok then log_text ev ses ''S'' s (w\<lparr>wr_sent := wr_sent w @ [s @ CRLF]\<rparr>) else w)"

definition write_reply :: "sim_env \<Rightarrow> sim_session \<Rightarrow> string \<Rightarrow> wire \<Rightarrow> wire" where
  "write_reply ev ses s w = fold (write_line ev ses) (split_on LF s) w"

definition hardClose :: "sim_env \<Rightarrow> sim_session \<Rightarrow> wire \<Rightarrow> wire" where
  "hardClose ev ses w = log_text ev ses ''S'' ''<connection reset>'' w"

section \<open>Commands\<close>

definition is_blank :: "char \<Rightarrow> bool" where
  "is_blank c \<longleftrightarrow> byte_of c = 32 \<or> byte_of c = 9"

definition splitCmd :: "string \<Rightarrow> string \<times> string" where
  "splitCmd line =
     (let line = trim_space line; word = takeWhile (\<lambda>c. \<not> is_blank c) line
      in if line = [] then ([], [])
         else if word = line then (to_upper line, [])
         else (to_upper word, trim_space (drop (length word + 1) line)))"

definition parseAddr :: "string \<Rightarrow> string" where
  "parseAddr s =
     (let s = trim_space s in
      case index_of s ''<'' of
        Some i \<Rightarrow> (case index_of (drop i s) ''>'' of
                     Some j \<Rightarrow> if j > 0 then trim_space (take (j - 1) (drop (i + 1) s)) else []
                   | None \<Rightarrow> [])
      | None \<Rightarrow> takeWhile (\<lambda>c. \<not> is_blank c) s)"

definition hostFromBanner :: "string \<Rightarrow> string \<Rightarrow> string" where
  "hostFromBanner banner fallback =
     (case fields_of banner of _ # h # _ \<Rightarrow> h | _ \<Rightarrow> ''mx.'' @ fallback @ ''.test'')"

definition offersTLS :: "string \<Rightarrow> bool" where
  "offersTLS mode \<longleftrightarrow> mode = ''offered'' \<or> mode = ''required'' \<or> mode = ''broken''"

definition domainOf :: "string \<Rightarrow> string" where
  "domainOf a = (let a = to_lower a in
     trim_suffix (case after_last (CHR ''@'') a of None \<Rightarrow> a | Some d \<Rightarrow> d) ''.'')"

text \<open>A command ends with whether the session goes on, its session and the connection.\<close>

type_synonym turn = "bool \<times> sim_session \<times> wire"

definition respond :: "sim_env \<Rightarrow> string \<Rightarrow> sim_session \<Rightarrow> wire \<Rightarrow> turn" where
  "respond ev s ses w = (True, ses, write_reply ev ses s w)"

definition no_transaction :: "sim_session \<Rightarrow> sim_session" where
  "no_transaction ses = ses\<lparr>ses_mail := False, ses_rcpts := 0, ses_txDomains := []\<rparr>"

definition bad_sequence :: "sim_env \<Rightarrow> string \<Rightarrow> sim_session \<Rightarrow> wire \<Rightarrow> turn" where
  "bad_sequence ev s ses w = respond ev s ses (w\<lparr>wr_engine := CountBadSequence (wr_engine w)\<rparr>)"

text \<open>The lines of the EHLO reply after the first: the last has a space.\<close>

fun capability_lines :: "string list \<Rightarrow> string list" where
  "capability_lines [] = []"
| "capability_lines [c] = [''250 '' @ c]"
| "capability_lines (c # cs) = (''250-'' @ c) # capability_lines cs"

definition on_helo :: "sim_env \<Rightarrow> string \<Rightarrow> string \<Rightarrow> sim_session \<Rightarrow> wire \<Rightarrow> turn" where
  "on_helo ev cmd arg ses w =
     (if arg = [] then respond ev (''501 5.5.4 Syntax: '' @ cmd @ '' hostname'') ses w
      else let p = en_prof (wr_engine w); ses = (no_transaction ses)\<lparr>ses_helo := True\<rparr>;
               host = hostFromBanner (pf_banner p) (pf_name p);
               caps = pf_ehloCaps p @ (if offersTLS (pf_startTLS p) \<and> \<not> ses_tls ses then [''STARTTLS''] else [])
           in if cmd = ''HELO'' then respond ev (''250 '' @ host) ses w
              else (True, ses, fold (write_reply ev ses) ((''250-'' @ host) # capability_lines caps) w))"

definition on_mail :: "sim_env \<Rightarrow> string \<Rightarrow> sim_session \<Rightarrow> wire \<Rightarrow> turn" where
  "on_mail ev arg ses w =
     (let p = en_prof (wr_engine w); l = be_transactionsPerConnection (pf_behaviour p)
      in if \<not> ses_helo ses then bad_sequence ev ''503 5.5.1 Error: send HELO/EHLO first'' ses w
         else if \<not> has_prefix (to_upper arg) ''FROM:'' then respond ev ''501 5.5.4 Syntax: MAIL FROM:<address>'' ses w
         else if pf_startTLS p = ''required'' \<and> \<not> ses_tls ses then respond ev ''530 5.7.0 Must issue a STARTTLS command first'' ses w
         else if l > 0 \<and> ses_txns ses \<ge> l
         then (case OnTransactionLimit (wr_engine w) of (v, e) \<Rightarrow> respond ev (vd_reply v) ses (w\<lparr>wr_engine := e\<rparr>))
         else respond ev ''250 2.1.0 Ok'' ((no_transaction ses)\<lparr>ses_mail := True, ses_txns := ses_txns ses + 1\<rparr>) w)"

text \<open>The engine's verdict on a recipient, and what becomes of the session.\<close>

definition ask_engine :: "sim_env \<Rightarrow> string \<Rightarrow> sim_session \<Rightarrow> wire \<Rightarrow> turn" where
  "ask_engine ev a ses w =
     (let hold = be_timeoutHold (pf_behaviour (en_prof (wr_engine w)));
          (slept, w) = sleepCtx ev (be_tarpitRcpt (pf_behaviour (en_prof (wr_engine w)))) w
      in if \<not> slept then (False, ses, w)
         else let (t, w) = tick ev w;
                  (v, e) = OnRcpt (sv_rng ev) (ses_ip ses) t a (ses_rcpts ses) (wr_engine w);
                  w = w\<lparr>wr_engine := e\<rparr>
              in case vd_action v of
                   ActionDrop \<Rightarrow> (False, ses, hardClose ev ses w)
                 | ActionTimeout \<Rightarrow> (False, ses, snd (sleepCtx ev hold w))
                 | ActionClose \<Rightarrow> (False, ses, write_reply ev ses (vd_reply v) w)
                 | ActionReply \<Rightarrow> (True, ses, write_reply ev ses (vd_reply v) w))"

definition on_rcpt :: "sim_env \<Rightarrow> string \<Rightarrow> sim_session \<Rightarrow> wire \<Rightarrow> turn" where
  "on_rcpt ev arg ses w =
     (if \<not> ses_mail ses then bad_sequence ev ''503 5.5.1 Error: need MAIL command'' ses w
      else if \<not> has_prefix (to_upper arg) ''TO:'' then respond ev ''501 5.5.4 Syntax: RCPT TO:<address>'' ses w
      else let a = parseAddr (drop (length ''TO:'') arg);
               l = be_domainsPerTransaction (pf_behaviour (en_prof (wr_engine w))); d = domainOf a;
               new = (l > 0 \<and> d \<notin> set (ses_txDomains ses))
           in if a = [] then respond ev ''501 5.1.3 Bad recipient address syntax'' ses w
              else if new \<and> int (length (ses_txDomains ses)) \<ge> l
              then (case OnDomainLimit (wr_engine w) of (v, e) \<Rightarrow> respond ev (vd_reply v) ses (w\<lparr>wr_engine := e\<rparr>))
              else ask_engine ev a (ses\<lparr>ses_txDomains := ses_txDomains ses @ (if new then [d] else []), ses_rcpts := ses_rcpts ses + 1\<rparr>) w)"

definition on_starttls :: "sim_env \<Rightarrow> sim_session \<Rightarrow> wire \<Rightarrow> turn" where
  "on_starttls ev ses w =
     (let mode = pf_startTLS (en_prof (wr_engine w))
      in if \<not> offersTLS mode \<or> ses_tls ses then respond ev ''454 4.7.0 TLS not available'' ses w
         else let w = write_reply ev ses ''220 2.0.0 Ready to start TLS'' w
              in if mode = ''broken'' then (False, ses, hardClose ev ses w)
                 else if \<not> sv_cert ev \<or> \<not> sv_handshake ev then (False, ses, w)
                 else (True, (no_transaction ses)\<lparr>ses_tls := True, ses_helo := False\<rparr>, w\<lparr>wr_reads := sv_tlsReads ev\<rparr>))"

lemma readLine_shorter: "readLine w = (Some l, w') \<Longrightarrow> length (wr_reads w') < length (wr_reads w)"
  by (auto simp: readLine_def split: list.splits read_result.splits if_splits)

text \<open>The message is read to its dot and thrown away.\<close>

function read_message :: "wire \<Rightarrow> bool \<times> wire" where
  "read_message w =
     (case readLine w of
        (None, w) \<Rightarrow> (False, w)
      | (Some l, w) \<Rightarrow> if l = ''.'' then (True, w) else read_message w)"
  by pat_completeness auto

termination
  by (relation "measure (\<lambda>w. length (wr_reads w))") (auto dest: readLine_shorter [OF sym])

declare read_message.simps [simp del]

definition on_data :: "sim_env \<Rightarrow> sim_session \<Rightarrow> wire \<Rightarrow> turn" where
  "on_data ev ses w =
     (if \<not> ses_mail ses \<or> ses_rcpts ses = 0 then bad_sequence ev ''503 5.5.1 Error: need RCPT command'' ses w
      else case read_message (write_reply ev ses ''354 End data with <CR><LF>.<CR><LF>'' w) of
             (False, w) \<Rightarrow> (False, ses, w)
           | (True, w) \<Rightarrow> respond ev ''250 2.0.0 Ok: queued as SIMULATED'' (no_transaction ses) w)"

definition dispatch :: "sim_env \<Rightarrow> string \<Rightarrow> sim_session \<Rightarrow> wire \<Rightarrow> turn" where
  "dispatch ev line ses w =
     (let (cmd, arg) = splitCmd line
      in if cmd = ''EHLO'' \<or> cmd = ''HELO'' then on_helo ev cmd arg ses w
         else if cmd = ''MAIL'' then on_mail ev arg ses w
         else if cmd = ''RCPT'' then on_rcpt ev arg ses w
         else if cmd = ''RSET'' then respond ev ''250 2.0.0 Ok'' (no_transaction ses) w
         else if cmd = ''NOOP'' then respond ev ''250 2.0.0 Ok'' ses w
         else if cmd = ''VRFY'' then respond ev ''252 2.5.2 Cannot VRFY user, but will accept message and attempt delivery'' ses w
         else if cmd = ''STARTTLS'' then on_starttls ev ses w
         else if cmd = ''DATA'' then on_data ev ses w
         else if cmd = ''QUIT'' then (False, ses, write_reply ev ses ''221 2.0.0 Bye'' w)
         else if cmd = [] then respond ev ''500 5.5.2 Error: bad syntax'' ses w
         else respond ev ''500 5.5.2 Error: command not recognized'' ses w)"

text \<open>
  The loop ends because every turn uses up a line of what the client sent, before or after the one switch to
  TLS.
\<close>

definition lines_left :: "sim_env \<Rightarrow> sim_session \<Rightarrow> wire \<Rightarrow> nat" where
  "lines_left ev ses w = length (wr_reads w) + (if ses_tls ses then 0 else length (sv_tlsReads ev))"

lemma wr_reads_log [simp]: "wr_reads (log_text ev ses dir s w) = wr_reads w"
  by (simp add: log_text_def tick_def)

lemma wr_reads_write_line [simp]: "wr_reads (write_line ev ses s w) = wr_reads w"
  by (simp add: write_line_def Let_def)

lemma wr_reads_write [simp]: "wr_reads (write_reply ev ses s w) = wr_reads w"
proof -
  have "wr_reads (fold (write_line ev ses) ls w) = wr_reads w" for ls
    by (induction ls arbitrary: w) auto
  then show ?thesis by (simp add: write_reply_def)
qed

lemma wr_reads_writes [simp]: "wr_reads (fold (write_reply ev ses) ls w) = wr_reads w"
  by (induction ls arbitrary: w) auto

lemma read_message_shorter: "length (wr_reads (snd (read_message w))) \<le> length (wr_reads w)"
proof (induction w rule: read_message.induct)
  case (1 w)
  show ?case
  proof (cases "readLine w")
    case (Pair l w')
    have "length (wr_reads w') \<le> length (wr_reads w)"
      using Pair by (auto simp: readLine_def split: list.splits read_result.splits if_splits)
    then show ?thesis using 1 [OF Pair [symmetric]] Pair
      by (subst read_message.simps) (cases l, auto intro: order_trans)
  qed
qed

lemma lines_left_respond: "respond ev s ses w = (c, ses', w') \<Longrightarrow> lines_left ev ses' w' = lines_left ev ses w"
  by (auto simp: respond_def lines_left_def)

lemma lines_left_dispatch:
  assumes "dispatch ev line ses w = (True, ses', w')"
  shows "lines_left ev ses' w' \<le> lines_left ev ses w"
proof -
  have helo: "on_helo ev cmd arg ses w = (True, ses', w') \<Longrightarrow> ?thesis" for cmd arg
    by (auto simp: on_helo_def Let_def no_transaction_def lines_left_def respond_def split: if_splits)
  have mail: "on_mail ev arg ses w = (True, ses', w') \<Longrightarrow> ?thesis" for arg
    by (auto simp: on_mail_def bad_sequence_def Let_def no_transaction_def lines_left_def respond_def split: if_splits prod.splits)
  have rcpt: "on_rcpt ev arg ses w = (True, ses', w') \<Longrightarrow> ?thesis" for arg
    by (auto simp: on_rcpt_def bad_sequence_def ask_engine_def Let_def lines_left_def respond_def sleepCtx_def stopping_def tick_def
        split: if_splits prod.splits action.splits)
  have tls: "on_starttls ev ses w = (True, ses', w') \<Longrightarrow> ?thesis"
    by (auto simp: on_starttls_def Let_def no_transaction_def lines_left_def respond_def split: if_splits)
  have data: "on_data ev ses w = (True, ses', w') \<Longrightarrow> ?thesis"
    using read_message_shorter [of "write_reply ev ses ''354 End data with <CR><LF>.<CR><LF>'' w"]
    by (auto simp: on_data_def bad_sequence_def Let_def no_transaction_def lines_left_def respond_def split: if_splits prod.splits bool.splits)
  show ?thesis using assms helo mail rcpt tls data
    by (auto simp: dispatch_def Let_def respond_def no_transaction_def lines_left_def split: if_splits prod.splits)
qed

lemma lines_left_read: "readLine w = (Some l, w') \<Longrightarrow> lines_left ev ses w' < lines_left ev ses w"
  by (auto simp: lines_left_def dest: readLine_shorter)

lemma lines_left_turn:
  assumes "readLine w = (Some l, w2)" "dispatch ev l ses (log_text ev ses ''C'' l w2) = (True, ses', w')"
  shows "lines_left ev ses' w' < lines_left ev ses w"
  using lines_left_dispatch [OF assms(2)] lines_left_read [OF assms(1), of ev ses] by (simp add: lines_left_def)

function converse_loop :: "sim_env \<Rightarrow> sim_session \<Rightarrow> wire \<Rightarrow> sim_session \<times> wire" where
  "converse_loop ev ses w =
     (case stopping ev w of
        (True, w) \<Rightarrow> (ses, w)
      | (False, w) \<Rightarrow>
          (case readLine w of
             (None, w) \<Rightarrow> (ses, w)
           | (Some l, w) \<Rightarrow>
               (case dispatch ev l ses (log_text ev ses ''C'' l w) of
                  (True, ses, w) \<Rightarrow> converse_loop ev ses w
                | (False, ses, w) \<Rightarrow> (ses, w))))"
  by pat_completeness auto

termination
  by (relation "measure (\<lambda>(ev, ses, w). lines_left ev ses w)")
    (auto simp: stopping_def dest!: lines_left_turn [OF sym sym] simp: lines_left_def)

declare converse_loop.simps [simp del]

definition new_session :: "string \<Rightarrow> int \<Rightarrow> sim_session" where
  "new_session i k = \<lparr>ses_ip = i, ses_id = k, ses_helo = False, ses_mail = False, ses_rcpts = 0, ses_tls = False,
     ses_txDomains = [], ses_txns = 0\<rparr>"

text \<open>
  A connection from its admission to its end; \<open>OnDisconnect\<close> is deferred to every return. A refused
  client is told why. The server runs sessions concurrently on one engine, whose critical sections are the steps of \<open>sim_step\<close>;
  this is one session while no other uses the engine.
\<close>

definition handle :: "sim_env \<Rightarrow> string \<Rightarrow> wire \<Rightarrow> wire" where
  "handle ev i w =
     (let (k, e) = NextConnID (wr_engine w); (t, w) = tick ev (w\<lparr>wr_engine := e\<rparr>);
          ((v, admitted), e) = OnConnect i t (wr_engine w); w = w\<lparr>wr_engine := e\<rparr>;
          (slept, w) = sleepCtx ev (be_tarpitBanner (pf_behaviour (en_prof (wr_engine w)))) w;
          ses = new_session i k;
          w = (if \<not> slept then w
               else if \<not> admitted then write_reply ev ses (vd_reply v) w
               else snd (converse_loop ev ses (write_reply ev ses (vd_reply v) w)))
      in w\<lparr>wr_engine := OnDisconnect i admitted (wr_engine w)\<rparr>)"

section \<open>A session is a run of the engine\<close>

text \<open>
  The engine of \<open>w'\<close> can be reached from that of \<open>w\<close> by the steps of a run that opens and closes no
  connection.
\<close>

definition tracks :: "sim_env \<Rightarrow> sim_run \<Rightarrow> wire \<Rightarrow> bool" where
  "tracks ev r w \<longleftrightarrow> sr_engine r = wr_engine w \<and> sr_clock r \<le> sv_clk ev (wr_ticks w)"

definition runs :: "sim_env \<Rightarrow> wire \<Rightarrow> wire \<Rightarrow> bool" where
  "runs ev w w' \<longleftrightarrow> (\<forall>r. tracks ev r w \<longrightarrow>
     (\<exists>r'. (sim_step (sv_rng ev))\<^sup>*\<^sup>* r r' \<and> tracks ev r' w' \<and> sr_open r' = sr_open r))"

lemma runs_refl [intro!]: "runs ev w w"
  unfolding runs_def by blast

lemma runs_step:
  assumes "runs ev w w1"
    and "\<And>r. tracks ev r w1 \<Longrightarrow> \<exists>r'. sim_step (sv_rng ev) r r' \<and> tracks ev r' w2 \<and> sr_open r' = sr_open r"
  shows "runs ev w w2"
  unfolding runs_def
proof (intro allI impI)
  fix r assume "tracks ev r w"
  with assms(1) obtain r1 where 1: "(sim_step (sv_rng ev))\<^sup>*\<^sup>* r r1" "tracks ev r1 w1" "sr_open r1 = sr_open r"
    unfolding runs_def by blast
  with assms(2) obtain r2 where "sim_step (sv_rng ev) r1 r2" "tracks ev r2 w2" "sr_open r2 = sr_open r1" by blast
  with 1 show "\<exists>r'. (sim_step (sv_rng ev))\<^sup>*\<^sup>* r r' \<and> tracks ev r' w2 \<and> sr_open r' = sr_open r"
    by (metis rtranclp.rtrancl_into_rtrancl)
qed

lemma runs_trans: "runs ev w w1 \<Longrightarrow> runs ev w1 w2 \<Longrightarrow> runs ev w w2"
  unfolding runs_def by (metis rtranclp_trans)

lemma runs_same:
  assumes "mono (sv_clk ev)" "runs ev w w1" "wr_engine w2 = wr_engine w1" "wr_ticks w1 \<le> wr_ticks w2"
  shows "runs ev w w2"
proof -
  have "tracks ev r w2" if "tracks ev r w1" for r
    using that assms monoD [OF assms(1,4)] by (auto simp: tracks_def)
  with assms(2) show ?thesis unfolding runs_def by blast
qed

lemma runs_log: "mono (sv_clk ev) \<Longrightarrow> runs ev w w1 \<Longrightarrow> runs ev w (log_text ev ses dir s w1)"
  by (erule runs_step) (auto simp: tracks_def log_text_def tick_def intro!: exI sim_step.logged dest: monoD [where x = "wr_ticks w1" and y = "Suc (wr_ticks w1)"])

lemma runs_write_line: "mono (sv_clk ev) \<Longrightarrow> runs ev w w1 \<Longrightarrow> runs ev w (write_line ev ses s w1)"
  by (auto simp: write_line_def Let_def intro!: runs_log intro: runs_same)

lemma runs_fold:
  assumes "\<And>x w1. runs ev w w1 \<Longrightarrow> runs ev w (f x w1)"
  shows "runs ev w w1 \<Longrightarrow> runs ev w (fold f xs w1)"
  by (induction xs arbitrary: w1) (auto intro: assms)

lemma runs_write_reply: "mono (sv_clk ev) \<Longrightarrow> runs ev w w1 \<Longrightarrow> runs ev w (write_reply ev ses s w1)"
  unfolding write_reply_def by (intro runs_fold runs_write_line)

lemma runs_bad: "runs ev w w1 \<Longrightarrow> runs ev w (w1\<lparr>wr_engine := CountBadSequence (wr_engine w1)\<rparr>)"
  by (erule runs_step) (auto simp: tracks_def intro!: exI sim_step.misordered)

lemma runs_txn: "OnTransactionLimit (wr_engine w1) = (v, e) \<Longrightarrow> runs ev w w1 \<Longrightarrow> runs ev w (w1\<lparr>wr_engine := e\<rparr>)"
  by (erule runs_step) (auto simp: tracks_def intro!: exI sim_step.mail_refused)

lemma runs_domain: "OnDomainLimit (wr_engine w1) = (v, e) \<Longrightarrow> runs ev w w1 \<Longrightarrow> runs ev w (w1\<lparr>wr_engine := e\<rparr>)"
  by (erule runs_step) (auto simp: tracks_def intro!: exI sim_step.limited)

lemma runs_rcpt:
  assumes "mono (sv_clk ev)" "OnRcpt (sv_rng ev) i (sv_clk ev (wr_ticks w1)) a n (wr_engine w1) = (v, e)" "runs ev w w1"
  shows "runs ev w (w1\<lparr>wr_ticks := Suc (wr_ticks w1), wr_engine := e\<rparr>)"
  using assms(3)
proof (rule runs_step)
  fix r assume r: "tracks ev r w1"
  have "sv_clk ev (wr_ticks w1) \<le> sv_clk ev (Suc (wr_ticks w1))" using assms(1) by (simp add: monoD)
  with sim_step.asked [of "sv_rng ev" i "sv_clk ev (wr_ticks w1)" a n r v e] assms(2) r
  show "\<exists>r'. sim_step (sv_rng ev) r r' \<and> tracks ev r' (w1\<lparr>wr_ticks := Suc (wr_ticks w1), wr_engine := e\<rparr>) \<and> sr_open r' = sr_open r"
    by (auto simp: tracks_def)
qed

lemma runs_sleepCtx: "mono (sv_clk ev) \<Longrightarrow> runs ev w w1 \<Longrightarrow> runs ev w (snd (sleepCtx ev d w1))"
  by (auto simp: sleepCtx_def stopping_def intro: runs_same)

lemma runs_readLine: "mono (sv_clk ev) \<Longrightarrow> runs ev w w1 \<Longrightarrow> runs ev w (snd (readLine w1))"
  by (auto simp: readLine_def intro: runs_same split: list.split read_result.split)

lemma runs_read_message: "mono (sv_clk ev) \<Longrightarrow> runs ev w w1 \<Longrightarrow> runs ev w (snd (read_message w1))"
proof (induction w1 rule: read_message.induct)
  case (1 w1)
  note r = runs_readLine [OF "1.prems"]
  show ?case
  proof (cases "readLine w1")
    case (Pair l w2)
    then show ?thesis using 1(1) [OF Pair [symmetric]] "1.prems" r
      by (subst read_message.simps) (cases l, auto)
  qed
qed

lemma runs_turn:
  assumes m: "mono (sv_clk ev)"
  shows "runs ev w (snd (snd (respond ev s ses w)))" "runs ev w (snd (snd (bad_sequence ev s ses w)))"
    "runs ev w (snd (snd (on_helo ev cmd arg ses w)))" "runs ev w (snd (snd (on_mail ev arg ses w)))"
    "runs ev w (snd (snd (on_starttls ev ses w)))" "runs ev w (snd (snd (on_data ev ses w)))"
proof -
  show respond: "runs ev w (snd (snd (respond ev s ses w)))" and "runs ev w (snd (snd (bad_sequence ev s ses w)))" for s ses w
    by (auto simp: respond_def bad_sequence_def intro!: runs_write_reply [OF m] runs_bad)
  then show "runs ev w (snd (snd (on_mail ev arg ses w)))"
    by (auto simp: on_mail_def Let_def respond_def intro!: runs_write_reply [OF m] runs_txn split: prod.split)
  show "runs ev w (snd (snd (on_helo ev cmd arg ses w)))"
    using respond by (auto simp: on_helo_def Let_def intro!: runs_fold runs_write_reply [OF m])
  show "runs ev w (snd (snd (on_starttls ev ses w)))"
    using respond by (auto simp: on_starttls_def hardClose_def Let_def
        intro!: runs_write_reply [OF m] runs_log [OF m] intro: runs_same [OF m runs_write_reply [OF m runs_refl]])
  show "runs ev w (snd (snd (on_data ev ses w)))"
    using runs_read_message [OF m runs_write_reply [OF m runs_refl]] \<open>\<And>w ses s. runs ev w (snd (snd (bad_sequence ev s ses w)))\<close>
    by (auto simp: on_data_def respond_def intro!: runs_write_reply [OF m] split: prod.split bool.split) (metis snd_conv)+
qed

lemma runs_ask_engine:
  assumes m: "mono (sv_clk ev)"
  shows "runs ev w (snd (snd (ask_engine ev a ses w)))"
proof -
  obtain b w1 where s: "sleepCtx ev (be_tarpitRcpt (pf_behaviour (en_prof (wr_engine w)))) w = (b, w1)" by fastforce
  then have r: "runs ev w w1" using runs_sleepCtx [OF m runs_refl, of w] by (metis snd_conv)
  obtain v e where o: "OnRcpt (sv_rng ev) (ses_ip ses) (sv_clk ev (wr_ticks w1)) a (ses_rcpts ses) (wr_engine w1) = (v, e)" by fastforce
  from runs_rcpt [OF m o r] r show ?thesis
    by (auto simp: ask_engine_def s tick_def o hardClose_def Let_def intro!: runs_write_reply [OF m] runs_log [OF m] runs_sleepCtx [OF m]
        split: action.split)
qed

lemma runs_dispatch:
  assumes m: "mono (sv_clk ev)"
  shows "runs ev w (snd (snd (dispatch ev line ses w)))"
proof -
  have rcpt: "runs ev w (snd (snd (on_rcpt ev arg ses w)))" for arg
    using runs_turn [OF m] runs_ask_engine [OF m]
    by (auto simp: on_rcpt_def Let_def respond_def intro!: runs_write_reply [OF m] runs_domain split: prod.split)
  show ?thesis
    using runs_turn [OF m] rcpt by (auto simp: dispatch_def Let_def split_def intro!: runs_write_reply [OF m])
qed

lemma runs_converse_loop: "mono (sv_clk ev) \<Longrightarrow> runs ev w0 w \<Longrightarrow> runs ev w0 (snd (converse_loop ev ses w))"
proof (induction ev ses w rule: converse_loop.induct)
  case (1 ev ses w)
  note m = "1.prems"(1)
  obtain b w1 where s: "stopping ev w = (b, w1)" by fastforce
  then have r1: "runs ev w0 w1" by (auto simp: stopping_def intro: runs_same [OF m "1.prems"(2)])
  obtain l w2 where l: "readLine w1 = (l, w2)" by fastforce
  have r2: "runs ev w0 w2" using runs_readLine [OF m r1] l by simp
  show ?case
  proof (cases "b \<or> l = None")
    case True
    with r1 r2 show ?thesis by (subst converse_loop.simps) (auto simp: s l split: bool.split)
  next
    case False
    then obtain x where x: "l = Some x" by blast
    obtain c ses' w' where d: "dispatch ev x ses (log_text ev ses ''C'' x w2) = (c, ses', w')" by (metis prod.collapse)
    have r3: "runs ev w0 (log_text ev ses ''C'' x w2)" by (rule runs_log [OF m r2])
    have r: "runs ev w0 w'"
      using runs_trans [OF r3] runs_dispatch [OF m, of "log_text ev ses ''C'' x w2" x ses] d by simp
    show ?thesis
      using False x r 1(1) [OF s [symmetric] _ l [symmetric] x d [symmetric]] m
      by (subst converse_loop.simps) (auto simp: s l d split: bool.split)
  qed
qed

lemma handle_runs:
  assumes m: "mono (sv_clk ev)" and r: "tracks ev r w"
  shows "\<exists>r'. (sim_step (sv_rng ev))\<^sup>*\<^sup>* r r' \<and> sr_engine r' = wr_engine (handle ev i w) \<and> sr_open r' = sr_open r"
proof -
  obtain k e0 where k: "NextConnID (wr_engine w) = (k, e0)" by fastforce
  obtain v b e1 where c: "OnConnect i (sv_clk ev (wr_ticks w)) e0 = ((v, b), e1)" by (metis prod.collapse)
  define w1 where "w1 = w\<lparr>wr_ticks := Suc (wr_ticks w), wr_engine := e1\<rparr>"
  define w3 where "w3 = (let (slept, w2) = sleepCtx ev (be_tarpitBanner (pf_behaviour (en_prof e1))) w1; ses = new_session i k
    in if \<not> slept then w2 else if \<not> b then write_reply ev ses (vd_reply v) w2
       else snd (converse_loop ev ses (write_reply ev ses (vd_reply v) w2)))"
  have h: "wr_engine (handle ev i w) = OnDisconnect i b (wr_engine w3)"
    by (simp add: handle_def k c tick_def w1_def w3_def Let_def split_def)
  have "runs ev w1 w3" unfolding w3_def Let_def split_def
    by (auto intro!: runs_converse_loop [OF m] runs_write_reply [OF m] runs_sleepCtx [OF m])
  then have run: "\<exists>r'. (sim_step (sv_rng ev))\<^sup>*\<^sup>* r1 r' \<and> sr_engine r' = wr_engine w3 \<and> sr_open r' = sr_open r1" if "tracks ev r1 w1" for r1
    using that unfolding runs_def tracks_def by blast
  define r0 where "r0 = r\<lparr>sr_engine := e0\<rparr>"
  have s0: "sim_step (sv_rng ev) r r0" using sim_step.numbered [of "sv_rng ev" r] k r by (simp add: r0_def tracks_def)
  have t: "sv_clk ev (wr_ticks w) \<le> sv_clk ev (Suc (wr_ticks w))" using m by (simp add: monoD)
  let ?t = "sv_clk ev (wr_ticks w)"
  show ?thesis
  proof (cases b)
    case True
    let ?r1 = "r0\<lparr>sr_engine := e1, sr_open := add_mset i (sr_open r0), sr_clock := ?t\<rparr>"
    have s1: "sim_step (sv_rng ev) r0 ?r1"
      using sim_step.connected [of i ?t r0 v e1 "sv_rng ev"] c r True by (simp add: r0_def tracks_def)
    obtain r2 where r2: "(sim_step (sv_rng ev))\<^sup>*\<^sup>* ?r1 r2" "sr_engine r2 = wr_engine w3" "sr_open r2 = add_mset i (sr_open r)"
      using run [of ?r1] t by (auto simp: tracks_def w1_def r0_def)
    have "sim_step (sv_rng ev) r2 (r2\<lparr>sr_engine := OnDisconnect i True (sr_engine r2), sr_open := sr_open r2 - {#i#}\<rparr>)"
      by (rule sim_step.closed) (simp add: r2)
    with s0 s1 r2 have "(sim_step (sv_rng ev))\<^sup>*\<^sup>* r (r2\<lparr>sr_engine := OnDisconnect i True (sr_engine r2), sr_open := sr_open r2 - {#i#}\<rparr>)"
      by (meson converse_rtranclp_into_rtranclp rtranclp.rtrancl_into_rtrancl)
    then show ?thesis by (rule exI [of _ "r2\<lparr>sr_engine := OnDisconnect i True (sr_engine r2), sr_open := sr_open r2 - {#i#}\<rparr>", OF conjI])
        (simp add: h r2 True)
  next
    case False
    let ?r1 = "r0\<lparr>sr_engine := e1, sr_clock := ?t\<rparr>"
    have s1: "sim_step (sv_rng ev) r0 ?r1"
      using sim_step.refused [of i ?t r0 v e1 "sv_rng ev"] c r False by (simp add: r0_def tracks_def)
    obtain r2 where r2: "(sim_step (sv_rng ev))\<^sup>*\<^sup>* ?r1 r2" "sr_engine r2 = wr_engine w3" "sr_open r2 = sr_open r"
      using run [of ?r1] t by (auto simp: tracks_def w1_def r0_def)
    with s0 s1 have "(sim_step (sv_rng ev))\<^sup>*\<^sup>* r r2" by (meson converse_rtranclp_into_rtranclp)
    with r2 show ?thesis by (auto simp: h False OnDisconnect_def)
  qed
qed

text \<open>
  C36. A session of the server is a run of the engine: whatever a client sends, and wherever the connection
  breaks, the session ends in a state the engine reaches by itself, and it leaves no connection
  behind: the counts of open connections, in all and of every address, are what they were.
\<close>

theorem session_is_run:
  fixes i :: string
  assumes "sim_reaches (sv_rng ev) p r" "sr_engine r = wr_engine w" "sr_clock r \<le> sv_clk ev (wr_ticks w)" "mono (sv_clk ev)"
  defines "e \<equiv> wr_engine (handle ev i w)"
  shows "(\<exists>r'. sim_reaches (sv_rng ev) p r' \<and> sr_engine r' = e \<and> sr_open r' = sr_open r) \<and>
    ss_currentConcurrent (en_st e) = ss_currentConcurrent (en_st (wr_engine w)) \<and>
    (\<forall>j. is_active (ip_of j e) = is_active (ip_of j (wr_engine w)))"
proof -
  obtain r' where r': "(sim_step (sv_rng ev))\<^sup>*\<^sup>* r r'" "sr_engine r' = e" "sr_open r' = sr_open r"
    using handle_runs [OF assms(4), of r w i] assms(2,3) unfolding e_def tracks_def by blast
  with assms(1) have reach: "sim_reaches (sv_rng ev) p r'" by (meson rtranclp_trans)
  with sim_inv_reaches [OF this] sim_inv_reaches [OF assms(1)] r' assms(2) show ?thesis
    by (auto simp: sim_inv_defs)
qed

definition example_env :: sim_env where
  "example_env = \<lparr>sv_clk = (\<lambda>n. int n), sv_writable = (\<lambda>_. True), sv_stopped = (\<lambda>_. False), sv_rng = quiet, sv_cert = True,
     sv_handshake = True, sv_tlsReads = []\<rparr>"

definition example_wire :: wire where
  "example_wire = \<lparr>wr_engine = NewEngine strict_profile, wr_ticks = 0, wr_writes = 0, wr_looks = 0,
     wr_reads = [Line (''EHLO x'' @ CRLF), Line (''QUIT'' @ CRLF)], wr_sent = []\<rparr>"

theorem session_is_run_witness:
  "ss_currentConcurrent (en_st (wr_engine (handle example_env ''192.0.2.1'' example_wire))) = 0"
proof -
  have "sim_reaches (sv_rng example_env) strict_profile (sim_start strict_profile 0)" by blast
  from session_is_run [OF this, of example_wire "''192.0.2.1''"] show ?thesis
    by (simp add: sim_start_def example_wire_def example_env_def mono_def) (simp add: NewEngine_def zero_stats_def)
qed

section \<open>The order of a dialogue\<close>

lemma en_prof_steps [simp]:
  "en_prof (put_ip i s e) = en_prof e" "en_prof (tally f e) = en_prof e" "en_prof (countCode v e) = en_prof e"
  "en_prof (snd (answer v e)) = en_prof e" "en_prof (Log_line t i k d x e) = en_prof e" "en_prof (CountBadSequence e) = en_prof e"
  "en_prof (startCooldown i t e) = en_prof e" "en_prof (countThrottle t e) = en_prof e" "en_prof (snd (throttle i t x y e)) = en_prof e"
  "en_prof (snd (OnDomainLimit e)) = en_prof e" "en_prof (snd (OnTransactionLimit e)) = en_prof e"
  by (simp_all add: put_ip_def tally_def countCode_def answer_def Log_line_def CountBadSequence_def startCooldown_def countThrottle_def
      throttle_def OnDomainLimit_def OnTransactionLimit_def Let_def)

lemma en_prof_decide [simp]: "en_prof (snd (decide a e)) = en_prof e"
  by (simp add: decide_def Let_def split_def)

lemma en_prof_greylist [simp]: "en_prof (snd (greylist i t a e)) = en_prof e"
  by (simp add: greylist_def Let_def split: option.split)

lemma en_prof_relay_check [simp]: "en_prof (snd (relay_check g i t a e)) = en_prof e"
  by (auto simp: relay_check_def disturb_def drawn_def recipient_lists_def Let_def split: prod.split bool.split if_splits)

lemma en_prof_OnRcpt [simp]: "en_prof (snd (OnRcpt g i t a n e)) = en_prof e"
  by (simp add: OnRcpt_def Let_def)

lemma wr_engine_log [simp]:
  "en_prof (wr_engine (log_text ev ses d s w)) = en_prof (wr_engine w)" "en_st (wr_engine (log_text ev ses d s w)) = en_st (wr_engine w)"
  by (simp_all add: log_text_def tick_def Log_line_def)

lemma wr_engine_write_line [simp]:
  "en_prof (wr_engine (write_line ev ses s w)) = en_prof (wr_engine w)" "en_st (wr_engine (write_line ev ses s w)) = en_st (wr_engine w)"
  by (simp_all add: write_line_def Let_def)

lemma wr_engine_write [simp]:
  "en_prof (wr_engine (write_reply ev ses s w)) = en_prof (wr_engine w)" "en_st (wr_engine (write_reply ev ses s w)) = en_st (wr_engine w)"
proof -
  have "en_prof (wr_engine (fold (write_line ev ses) ls w)) = en_prof (wr_engine w) \<and> en_st (wr_engine (fold (write_line ev ses) ls w)) = en_st (wr_engine w)" for ls
    by (induction ls arbitrary: w) auto
  then show "en_prof (wr_engine (write_reply ev ses s w)) = en_prof (wr_engine w)" "en_st (wr_engine (write_reply ev ses s w)) = en_st (wr_engine w)"
    by (simp_all add: write_reply_def)
qed

lemma wr_engine_writes [simp]: "en_st (wr_engine (fold (write_reply ev ses) ls w)) = en_st (wr_engine w)"
  by (induction ls arbitrary: w) auto

lemma wr_engine_readLine [simp]: "wr_engine (snd (readLine w)) = wr_engine w"
  by (auto simp: readLine_def split: list.split read_result.split)

lemma wr_engine_read_message [simp]: "wr_engine (snd (read_message w)) = wr_engine w"
proof (induction w rule: read_message.induct)
  case (1 w)
  obtain l w1 where r: "readLine w = (l, w1)" by fastforce
  with 1 wr_engine_readLine [of w] show ?case by (subst read_message.simps) (auto split: option.split)
qed

text \<open>
  The sessions a client can bring about under a profile. Between two commands the engine may change in
  any way that keeps the profile: other sessions run.
\<close>

inductive dialogue :: "sim_env \<Rightarrow> profile \<Rightarrow> sim_session \<Rightarrow> bool" for ev p where
  opened: "dialogue ev p (new_session i k)"
| turn: "dialogue ev p ses \<Longrightarrow> en_prof (wr_engine w) = p \<Longrightarrow> dispatch ev line ses w = (c, ses', w') \<Longrightarrow> dialogue ev p ses'"

definition in_order :: "profile \<Rightarrow> sim_session \<Rightarrow> bool" where
  "in_order p ses \<longleftrightarrow>
     (ses_mail ses \<longrightarrow> ses_helo ses \<and> 0 < ses_txns ses \<and> (pf_startTLS p = ''required'' \<longrightarrow> ses_tls ses)) \<and>
     0 \<le> ses_rcpts ses \<and> 0 \<le> ses_txns ses \<and> (0 < ses_rcpts ses \<longrightarrow> ses_mail ses) \<and>
     (let l = be_transactionsPerConnection (pf_behaviour p) in 0 < l \<longrightarrow> ses_txns ses \<le> l) \<and>
     (let l = be_domainsPerTransaction (pf_behaviour p) in 0 < l \<longrightarrow> distinct (ses_txDomains ses) \<and> int (length (ses_txDomains ses)) \<le> l)"

lemma in_order_no_transaction: "in_order p ses \<Longrightarrow> in_order p ((no_transaction ses)\<lparr>ses_helo := b\<rparr>)"
  by (auto simp: in_order_def no_transaction_def Let_def)

lemma in_order_no_transaction': "in_order p ses \<Longrightarrow> in_order p (no_transaction ses)"
  by (auto simp: in_order_def no_transaction_def Let_def)

lemma ask_engine_session: "fst (snd (ask_engine ev a ses w)) = ses"
  by (auto simp: ask_engine_def Let_def split_def split: action.split)

lemma in_order_dispatch:
  assumes "in_order (en_prof (wr_engine w)) ses" "dispatch ev line ses w = (c, ses', w')"
  shows "in_order (en_prof (wr_engine w)) ses'"
proof -
  let ?p = "en_prof (wr_engine w)"
  have helo: "in_order ?p (fst (snd (on_helo ev cmd arg ses w)))" for cmd arg
    using assms(1) in_order_no_transaction [OF assms(1)] by (simp add: on_helo_def respond_def Let_def)
  have mail: "in_order ?p (fst (snd (on_mail ev arg ses w)))" for arg
    using assms(1) by (auto simp: on_mail_def respond_def bad_sequence_def no_transaction_def in_order_def Let_def split: prod.split)
  have rcpt: "in_order ?p (fst (snd (on_rcpt ev arg ses w)))" for arg
    using assms(1) by (auto simp: on_rcpt_def respond_def bad_sequence_def ask_engine_session in_order_def Let_def split: prod.split)
  have tls: "in_order ?p (fst (snd (on_starttls ev ses w)))"
    using assms(1) by (auto simp: on_starttls_def respond_def no_transaction_def in_order_def Let_def)
  have data: "in_order ?p (fst (snd (on_data ev ses w)))"
    using assms(1) in_order_no_transaction' [OF assms(1)] by (auto simp: on_data_def respond_def bad_sequence_def split: prod.split bool.split)
  have "in_order ?p (fst (snd (dispatch ev line ses w)))"
    using assms(1) in_order_no_transaction' [OF assms(1)] helo mail rcpt tls data by (auto simp: dispatch_def respond_def Let_def split_def)
  with assms(2) show ?thesis by simp
qed

lemma dialogue_in_order: "dialogue ev p ses \<Longrightarrow> in_order p ses"
proof (induction rule: dialogue.induct)
  case (opened i k)
  then show ?case by (auto simp: in_order_def new_session_def Let_def)
next
  case (turn ses w line c ses' w')
  then show ?case using in_order_dispatch by blast
qed

text \<open>Only a RCPT within a transaction counts as one.\<close>

lemma ss_rcpt_unchanged [simp]: "ss_rcpt (en_st (CountBadSequence e)) = ss_rcpt (en_st e)" "ss_rcpt (en_st (snd (OnTransactionLimit e))) = ss_rcpt (en_st e)"
  by (simp_all add: CountBadSequence_def OnTransactionLimit_def answer_def countCode_def tally_def Let_def)

lemma counted_rcpt:
  assumes "dispatch ev line ses w = (c, ses', w')" "ss_rcpt (en_st (wr_engine w')) \<noteq> ss_rcpt (en_st (wr_engine w))"
  shows "fst (splitCmd line) = ''RCPT'' \<and> ses_mail ses"
proof -
  let ?n = "\<lambda>x. ss_rcpt (en_st (wr_engine (snd (snd x))))"
  have "?n (on_helo ev cmd arg ses w) = ss_rcpt (en_st (wr_engine w))" for cmd arg
    by (simp add: on_helo_def respond_def Let_def)
  moreover have "?n (on_mail ev arg ses w) = ss_rcpt (en_st (wr_engine w))" for arg
    by (simp add: on_mail_def respond_def bad_sequence_def Let_def split_def)
  moreover have "?n (on_rcpt ev arg ses w) = ss_rcpt (en_st (wr_engine w))" if "\<not> ses_mail ses" for arg
    using that by (simp add: on_rcpt_def respond_def bad_sequence_def)
  moreover have "?n (on_starttls ev ses w) = ss_rcpt (en_st (wr_engine w))"
    by (simp add: on_starttls_def respond_def hardClose_def Let_def)
  moreover have "?n (on_data ev ses w) = ss_rcpt (en_st (wr_engine w))"
    using wr_engine_read_message by (simp add: on_data_def respond_def bad_sequence_def split_def split: bool.split)
  ultimately have "?n (dispatch ev line ses w) = ss_rcpt (en_st (wr_engine w)) \<or> fst (splitCmd line) = ''RCPT'' \<and> ses_mail ses"
    by (auto simp: dispatch_def respond_def Let_def split_def)
  with assms show ?thesis by simp
qed

text \<open>
  The simulated server keeps the order of SMTP: in whatever way a client leads the dialogue, the engine is asked
  about a recipient only by a RCPT, after a greeting, within a transaction and over TLS where the
  profile requires it; a connection has no more transactions and a transaction no more
  destination domains than the profile allows.
\<close>

theorem transactions_in_order:
  assumes "dialogue ev p ses" "en_prof (wr_engine w) = p" "dispatch ev line ses w = (c, ses', w')"
    and "ss_rcpt (en_st (wr_engine w')) \<noteq> ss_rcpt (en_st (wr_engine w))"
  shows "fst (splitCmd line) = ''RCPT'' \<and> ses_helo ses \<and> ses_mail ses \<and> (pf_startTLS p = ''required'' \<longrightarrow> ses_tls ses) \<and>
    (let l = be_transactionsPerConnection (pf_behaviour p) in 0 < l \<longrightarrow> 0 < ses_txns ses \<and> ses_txns ses \<le> l) \<and>
    (let l = be_domainsPerTransaction (pf_behaviour p) in 0 < l \<longrightarrow> distinct (ses_txDomains ses') \<and> int (length (ses_txDomains ses')) \<le> l)"
proof -
  have "in_order p ses" by (rule dialogue_in_order [OF assms(1)])
  moreover have "in_order p ses'" using dialogue_in_order [OF dialogue.turn [OF assms(1-3)]] .
  moreover note counted_rcpt [OF assms(3,4)]
  ultimately show ?thesis by (auto simp: in_order_def Let_def)
qed

definition small_wire :: wire where
  "small_wire = \<lparr>wr_engine = \<lparr>en_prof = strict_profile, en_ips = Map.empty, en_st = zero_stats ''strict'', en_drawn = 0, en_tr = newRing 3 no_line, en_connNo = 0\<rparr>,
     wr_ticks = 0, wr_writes = 0, wr_looks = 0, wr_reads = [], wr_sent = []\<rparr>"

definition mid_session :: sim_session where
  "mid_session = \<lparr>ses_ip = ''192.0.2.1'', ses_id = 1, ses_helo = True, ses_mail = True, ses_rcpts = 0, ses_tls = False,
     ses_txDomains = [], ses_txns = 1\<rparr>"

lemma dialogue_mid_session: "dialogue example_env strict_profile mid_session"
proof -
  let ?ses = "new_session ''192.0.2.1'' 1" and ?ses' = "(new_session ''192.0.2.1'' 1)\<lparr>ses_helo := True\<rparr>"
  have p: "en_prof (wr_engine small_wire) = strict_profile" by (simp add: small_wire_def)
  have "fst (snd (dispatch example_env ''EHLO x'' ?ses small_wire)) = ?ses'" by code_simp
  then obtain c w where "dispatch example_env ''EHLO x'' ?ses small_wire = (c, ?ses', w)" by (metis prod.collapse)
  from dialogue.turn [OF dialogue.opened p this] have d: "dialogue example_env strict_profile ?ses'" .
  have "fst (snd (dispatch example_env ''MAIL FROM:<>'' ?ses' small_wire)) = mid_session" by code_simp
  then obtain c w where "dispatch example_env ''MAIL FROM:<>'' ?ses' small_wire = (c, mid_session, w)" by (metis prod.collapse)
  from dialogue.turn [OF d p this] show ?thesis .
qed

theorem transactions_in_order_witness:
  "ses_helo mid_session \<and> ss_rcpt (en_st (wr_engine (snd (snd (dispatch example_env ''RCPT TO:<jo@example.org>'' mid_session small_wire))))) = 1"
proof -
  have n: "ss_rcpt (en_st (wr_engine (snd (snd (dispatch example_env ''RCPT TO:<jo@example.org>'' mid_session small_wire))))) = 1"
    "ss_rcpt (en_st (wr_engine small_wire)) = 0" by code_simp+
  obtain c ses w where d: "dispatch example_env ''RCPT TO:<jo@example.org>'' mid_session small_wire = (c, ses, w)" by (metis prod.collapse)
  have "en_prof (wr_engine small_wire) = strict_profile" by (simp add: small_wire_def)
  from transactions_in_order [OF dialogue_mid_session this d] n show ?thesis by (simp add: d)
qed

section \<open>What the service hears\<close>

definition on_wire :: "string list \<Rightarrow> string" where
  "on_wire ls = concat (map (\<lambda>l. l @ CRLF) ls)"

lemma sent_write_line:
  assumes "\<And>n. sv_writable ev n"
  shows "concat (wr_sent (write_line ev ses s w)) = concat (wr_sent w) @ on_wire (filter (\<lambda>l. l \<noteq> []) [s])"
  using assms by (simp add: write_line_def log_text_def tick_def on_wire_def Let_def)

lemma sent_write:
  assumes "\<And>n. sv_writable ev n"
  shows "concat (wr_sent (write_reply ev ses s w)) = concat (wr_sent w) @ on_wire (filter (\<lambda>l. l \<noteq> []) (split_on LF s))"
proof -
  have "concat (wr_sent (fold (write_line ev ses) ls w)) = concat (wr_sent w) @ on_wire (filter (\<lambda>l. l \<noteq> []) ls)" for ls
    by (induction ls arbitrary: w) (simp_all add: sent_write_line [OF assms] on_wire_def)
  then show ?thesis by (simp add: write_reply_def)
qed

lemma sent_writes:
  assumes "\<And>n. sv_writable ev n" "list_all (\<lambda>l. l \<noteq> [] \<and> plain l) ls"
  shows "concat (wr_sent (fold (write_reply ev ses) ls w)) = concat (wr_sent w) @ on_wire ls"
  using assms(2)
proof (induction ls arbitrary: w)
  case (Cons l ls)
  then have "split_on LF l = [l]" by (intro split_on_single) (auto simp: plain_def is_crlf_def list_all_iff)
  with Cons show ?case by (simp add: sent_write [OF assms(1)] on_wire_def)
qed (simp add: on_wire_def)

text \<open>A reply line by line: all but the last continue.\<close>

definition reply_line :: "string \<Rightarrow> bool" where
  "reply_line l \<longleftrightarrow> plain l \<and> 3 \<le> length l \<and> replyCode l \<noteq> None"

lemma readReply_lines:
  assumes "reply_line l" "\<not> continues l"
  shows "list_all (\<lambda>x. reply_line x \<and> continues x) ls \<Longrightarrow>
    readReply eof acc (on_wire (ls @ [l]) @ rest) = (Inr (the (replyCode l), foldl keep_line acc (ls @ [l])), rest)"
proof (induction ls arbitrary: acc)
  case Nil
  have pl: "plain l" using assms(1) by (simp add: reply_line_def)
  from readReply_line [OF read_line_plain [OF pl, of rest] refl, unfolded trim_plain [OF pl]] assms show ?case
    by (auto simp: on_wire_def reply_line_def)
next
  case (Cons x ls)
  then have pl: "plain x" and x: "3 \<le> length x" "replyCode x \<noteq> None" "continues x" by (auto simp: reply_line_def)
  from readReply_line [OF read_line_plain [OF pl, of "on_wire (ls @ [l]) @ rest"] refl, unfolded trim_plain [OF pl]] x
  have "readReply eof acc (x @ CRLF @ (on_wire (ls @ [l]) @ rest)) = readReply eof (keep_line acc x) (on_wire (ls @ [l]) @ rest)"
    by fastforce
  with Cons show ?case by (simp add: on_wire_def)
qed

lemma keep_lines:
  assumes "list_all reply_line ws" "ws \<noteq> []" "length (join_with [LF] ws) \<le> maxReplyBytes"
  shows "foldl keep_line [] ws = join_with [LF] ws"
proof (cases ws)
  case (Cons x xs)
  then have "x \<noteq> []" using assms(1) by (auto simp: reply_line_def)
  moreover have "keep_line [] x = x" by (simp add: keep_line_def maxReplyBytes_def)
  ultimately show ?thesis using foldl_keep_join [of x xs] assms(3) Cons by simp
qed (use assms in simp)

definition configured_reply :: "string \<Rightarrow> bool" where
  "configured_reply s \<longleftrightarrow> (let ls = split_on LF s in
     list_all (\<lambda>l. reply_line l \<and> continues l) (butlast ls) \<and> reply_line (last ls) \<and> \<not> continues (last ls)) \<and> length s \<le> maxReplyBytes"

text \<open>A configured reply is a message on the stream the prober reads.\<close>

definition reply_bytes :: "string \<Rightarrow> string" where
  "reply_bytes s = on_wire (split_on LF s)"

definition reply_code :: "string \<Rightarrow> int" where
  "reply_code s = the (replyCode (last (split_on LF s)))"

lemma configured_lines:
  assumes "configured_reply s"
  shows "list_all reply_line (split_on LF s)" "filter (\<lambda>l. l \<noteq> []) (split_on LF s) = split_on LF s"
    "readReply eof [] (reply_bytes s @ rest) = (Inr (reply_code s, s), rest)"
proof -
  let ?ls = "split_on LF s"
  have split: "?ls = butlast ?ls @ [last ?ls]" by simp
  have ok: "list_all (\<lambda>l. reply_line l \<and> continues l) (butlast ?ls)" "reply_line (last ?ls)" "\<not> continues (last ?ls)"
    "length s \<le> maxReplyBytes" using assms by (simp_all add: configured_reply_def Let_def)
  then have "list_all reply_line (butlast ?ls @ [last ?ls])" by (simp add: list_all_iff del: append_butlast_last_id)
  then show all: "list_all reply_line ?ls" by simp
  then show "filter (\<lambda>l. l \<noteq> []) ?ls = ?ls" by (auto simp: filter_id_conv list_all_iff reply_line_def)
  have "readReply eof [] (on_wire ?ls @ rest) = (Inr (the (replyCode (last ?ls)), foldl keep_line [] ?ls), rest)"
    using readReply_lines [OF ok(2,3,1), of eof "[]" rest] split by simp
  moreover have "foldl keep_line [] ?ls = s" using keep_lines [OF all] ok(4) by (simp add: join_with_split)
  ultimately show "readReply eof [] (reply_bytes s @ rest) = (Inr (reply_code s, s), rest)"
    by (simp add: reply_bytes_def reply_code_def)
qed

interpretation sim_stream: framing reply_bytes "reply_get eof" configured_reply "\<lambda>s. (reply_code s, s)" for eof
  by unfold_locales (simp add: reply_get_def configured_lines)

lemma sent_replies:
  assumes "\<And>n. sv_writable ev n" "list_all configured_reply ss"
  shows "concat (wr_sent (fold (write_reply ev ses) ss w)) = concat (wr_sent w) @ concat (map reply_bytes ss)"
  using assms(2) by (induction ss arbitrary: w) (simp_all add: sent_write [OF assms(1)] configured_lines(2) reply_bytes_def)

text \<open>
  What the simulator answers is what the service hears: configured replies, of one line or of several, are
  read back by the reply reader of the prober one by one, each with exactly the configured text and the
  code of its last line, and nothing is left over, so every answer is matched with its question.
\<close>

theorem configured_replies_are_heard:
  assumes "\<And>n. sv_writable ev n" "list_all configured_reply ss"
  shows "\<exists>bytes. concat (wr_sent (fold (write_reply ev ses) ss w)) = concat (wr_sent w) @ bytes \<and>
    sim_stream.get_many eof (length ss) (bytes @ rest) = (map (\<lambda>s. Some (reply_code s, s)) ss, rest)"
  using sent_replies [OF assms] sim_stream.in_step [OF assms(2)] by blast

theorem configured_replies_are_heard_witness:
  "\<exists>bytes. concat (wr_sent (fold (write_reply example_env mid_session) [DefaultDomainLimitReply, ''250 2.1.5 OK''] small_wire)) = bytes \<and>
    sim_stream.get_many (NetErr False ''EOF'') 2 bytes = ([Some (451, DefaultDomainLimitReply), Some (250, ''250 2.1.5 OK'')], [])"
proof -
  have "list_all configured_reply [DefaultDomainLimitReply, ''250 2.1.5 OK'']" "reply_code DefaultDomainLimitReply = 451"
    "reply_code ''250 2.1.5 OK'' = 250" by code_simp+
  with configured_replies_are_heard [of example_env "[DefaultDomainLimitReply, ''250 2.1.5 OK'']" mid_session small_wire "NetErr False ''EOF''" "[]"]
  show ?thesis by (simp add: example_env_def) (simp add: small_wire_def numeral_2_eq_2)
qed

text \<open>The first line names the host; the service looks for the capability in the others.\<close>

lemma plain_no_LF: "plain l \<Longrightarrow> LF \<notin> set l"
  by (auto simp: plain_def is_crlf_def list_all_iff)

lemma capability_lines_conv: "cs \<noteq> [] \<Longrightarrow> capability_lines cs = map (\<lambda>c. ''250-'' @ c) (butlast cs) @ [''250 '' @ last cs]"
  by (induction cs rule: capability_lines.induct) auto

lemma replyCode_250: "replyCode (''250'' @ x) = Some 250" "continues (''250-'' @ x)" "\<not> continues (''250 '' @ x)"
  by (simp_all add: replyCode_def continues_def)

lemma hostFromBanner_plain: "plain fallback \<Longrightarrow> plain (hostFromBanner banner fallback)"
  using fields_of_chars [of _ banner]
  by (auto simp: hostFromBanner_def plain_def is_crlf_def is_space_def list_all_iff split: list.splits) fastforce+

definition names_starttls :: "string \<Rightarrow> bool" where
  "names_starttls c \<longleftrightarrow> (case fields_of c of [] \<Rightarrow> False | f # _ \<Rightarrow> to_lower f = ''starttls'')"

lemma advertises_lines:
  assumes "plain h" "list_all plain cs" "cs \<noteq> []"
  shows "advertisesSTARTTLS (join_with [LF] ((''250-'' @ h) # capability_lines cs)) \<longleftrightarrow> list_ex names_starttls cs"
proof -
  have join: "split_on LF (join_with [LF] ls) = ls" if "list_all (\<lambda>l. LF \<notin> set l) ls" "ls \<noteq> []" for ls
    using that by (induction ls rule: induct_list012) (auto simp: split_on_append split_on_single)
  have "list_all (\<lambda>l. LF \<notin> set l) ((''250-'' @ h) # capability_lines cs)"
    using assms by (auto simp: capability_lines_conv list_all_iff dest: plain_no_LF in_set_butlastD)
  from join [OF this] have sp: "split_on LF (join_with [LF] ((''250-'' @ h) # capability_lines cs)) = (''250-'' @ h) # capability_lines cs"
    by simp
  define P where "P l \<longleftrightarrow> length l \<ge> 5 \<and> (case fields_of (drop 4 l) of [] \<Rightarrow> False | f # _ \<Rightarrow> to_lower f = ''starttls'')" for l
  have one: "P (''250-'' @ c) \<longleftrightarrow> names_starttls c" "P (''250 '' @ c) \<longleftrightarrow> names_starttls c" for c
    by (cases c; simp add: P_def names_starttls_def fields_of_def)+
  have "advertisesSTARTTLS (join_with [LF] ((''250-'' @ h) # capability_lines cs)) \<longleftrightarrow> list_ex P (capability_lines cs)"
    unfolding advertisesSTARTTLS_def sp list.sel P_def [abs_def] ..
  also have "\<dots> \<longleftrightarrow> list_ex names_starttls (butlast cs @ [last cs])"
    unfolding capability_lines_conv [OF assms(3)] list_ex_iff using one by (auto simp del: append_butlast_last_id)
  finally show ?thesis using assms(3) by simp
qed

definition ehlo_lines :: "profile \<Rightarrow> bool \<Rightarrow> string list" where
  "ehlo_lines p secured = (''250-'' @ hostFromBanner (pf_banner p) (pf_name p)) #
     capability_lines (pf_ehloCaps p @ (if offersTLS (pf_startTLS p) \<and> \<not> secured then [''STARTTLS''] else []))"

text \<open>
  C37. The service finds STARTTLS where the profile offers it: when every write succeeds, the name of the profile and its
  capabilities (of which a profile with its defaults filled in has at least one) have no line break in them, and the
  lines together are no longer than the prober keeps, the answer to EHLO is read as one complete reply
  with code 250, and the prober takes STARTTLS for advertised exactly when the profile offers it and the
  session is not encrypted yet, or one of its configured capabilities is STARTTLS itself.
\<close>

theorem ehlo_is_understood:
  assumes "\<And>n. sv_writable ev n" "en_prof (wr_engine w) = p" "host \<noteq> []" "plain (pf_name p)"
    and "pf_ehloCaps p \<noteq> []" "list_all plain (pf_ehloCaps p)"
    and "length (join_with [LF] (ehlo_lines p (ses_tls ses))) \<le> maxReplyBytes"
  shows "\<exists>bytes reply. concat (wr_sent (snd (snd (on_helo ev ''EHLO'' host ses w)))) = concat (wr_sent w) @ bytes \<and>
    readReply eof [] (bytes @ rest) = (Inr (250, reply), rest) \<and>
    (advertisesSTARTTLS reply \<longleftrightarrow> offersTLS (pf_startTLS p) \<and> \<not> ses_tls ses \<or> list_ex names_starttls (pf_ehloCaps p))"
proof -
  let ?h = "hostFromBanner (pf_banner p) (pf_name p)"
  define caps where "caps = pf_ehloCaps p @ (if offersTLS (pf_startTLS p) \<and> \<not> ses_tls ses then [''STARTTLS''] else [])"
  have tls: "plain ''STARTTLS''" "names_starttls ''STARTTLS''" by code_simp+
  have caps: "caps \<noteq> []" "list_all plain caps" using assms(5,6) tls by (auto simp: caps_def list_all_iff)
  have h: "plain ?h" by (rule hostFromBanner_plain [OF assms(4)])
  let ?front = "(''250-'' @ ?h) # map (\<lambda>c. ''250-'' @ c) (butlast caps)" and ?last = "''250 '' @ last caps"
  have lines: "ehlo_lines p (ses_tls ses) = ?front @ [?last]"
    using caps(1) by (simp add: ehlo_lines_def caps_def [symmetric] capability_lines_conv)
  have front: "list_all (\<lambda>l. reply_line l \<and> continues l) ?front"
    using h caps by (auto simp: reply_line_def list_all_iff replyCode_def continues_def is_crlf_def dest: in_set_butlastD)
  have last: "reply_line ?last" "\<not> continues ?last"
    using caps by (auto simp: reply_line_def list_all_iff replyCode_def continues_def is_crlf_def)
  have all: "list_all reply_line (ehlo_lines p (ses_tls ses))" using front last unfolding lines by (auto simp: list_all_iff)
  then have ne: "list_all (\<lambda>l. l \<noteq> [] \<and> plain l) (ehlo_lines p (ses_tls ses))" by (auto simp: list_all_iff reply_line_def)
  have "snd (snd (on_helo ev ''EHLO'' host ses w)) = fold (write_reply ev ((no_transaction ses)\<lparr>ses_helo := True\<rparr>)) (ehlo_lines p (ses_tls ses)) w"
    using assms(2,3) by (simp add: on_helo_def ehlo_lines_def no_transaction_def Let_def)
  then have "concat (wr_sent (snd (snd (on_helo ev ''EHLO'' host ses w)))) = concat (wr_sent w) @ on_wire (ehlo_lines p (ses_tls ses))"
    using sent_writes [OF assms(1) ne] by simp
  moreover have "readReply eof [] (on_wire (ehlo_lines p (ses_tls ses)) @ rest) = (Inr (250, join_with [LF] (ehlo_lines p (ses_tls ses))), rest)"
    using readReply_lines [OF last front, of eof "[]" rest] keep_lines [OF all] assms(7) lines
    by (simp add: replyCode_def)
  moreover have "advertisesSTARTTLS (join_with [LF] (ehlo_lines p (ses_tls ses))) \<longleftrightarrow>
      offersTLS (pf_startTLS p) \<and> \<not> ses_tls ses \<or> list_ex names_starttls (pf_ehloCaps p)"
    using advertises_lines [OF h caps(2,1)] tls unfolding ehlo_lines_def caps_def [symmetric]
    by (auto simp: caps_def list_ex_iff)
  ultimately show ?thesis by blast
qed

theorem ehlo_is_understood_witness:
  "\<exists>bytes reply. concat (wr_sent (snd (snd (on_helo example_env ''EHLO'' ''x'' mid_session small_wire)))) = bytes \<and>
    readReply (NetErr False ''EOF'') [] bytes = (Inr (250, reply), []) \<and> \<not> advertisesSTARTTLS reply"
proof -
  have "plain (pf_name strict_profile)" "pf_ehloCaps strict_profile \<noteq> []" "\<not> offersTLS (pf_startTLS strict_profile)"
    "list_all plain (pf_ehloCaps strict_profile)" "\<not> list_ex names_starttls (pf_ehloCaps strict_profile)"
    "length (join_with [LF] (ehlo_lines strict_profile (ses_tls mid_session))) \<le> maxReplyBytes" by code_simp+
  with ehlo_is_understood [of example_env small_wire strict_profile "''x''" mid_session "NetErr False ''EOF''" "[]"] show ?thesis
    by (simp add: example_env_def) (simp add: small_wire_def)
qed

text \<open>
  \<open>rcpt_per_conn\<close> is not a limit of the connection: the session hands the engine the number of recipients of
  the transaction, which a new MAIL sets back.
\<close>

theorem mail_resets_rcpt_count:
  "ses_rcpts (fst (snd (dispatch example_env ''MAIL FROM:<>'' (mid_session\<lparr>ses_rcpts := 10\<rparr>) small_wire))) = 0"
  by code_simp

end
