(* ===== verification/Simadmin.thy ===== *)
theory Simadmin
  imports Simengine Reply
begin

text \<open>
  \<open>internal/mxsim/admin\<close>, \<open>internal/mxsim/metrics\<close> and \<open>cmd/mxsim\<close>: the control interface of the simulated
  receiver, what it shows to a scrape, and which profiles it starts.
\<close>

section \<open>The registry\<close>

text \<open>\<open>wall\<close> is the time of the machine; the simulated clock is it plus the offset.\<close>

record registry =
  rg_engines :: "(string \<times> engine) list"
  rg_offset :: duration

definition engine_named :: "registry \<Rightarrow> string \<Rightarrow> engine option" where
  "engine_named r = map_of (rg_engines r)"

definition names :: "registry \<Rightarrow> string list" where
  "names r = sort_strings (map fst (rg_engines r))"

definition update_engine :: "string \<Rightarrow> (engine \<Rightarrow> engine) \<Rightarrow> registry \<Rightarrow> registry" where
  "update_engine n f r = r\<lparr>rg_engines := map (\<lambda>(k, e). (k, if k = n then f e else e)) (rg_engines r)\<rparr>"

datatype admin_error = ErrText string | ErrProfile profile_error

datatype admin_body =
    Healthy "string list"
  | Profiles "profile list"
  | OneProfile profile
  | UnknownProfile string "string list"
  | Failed admin_error
  | ResetOne string
  | ResetAll "string list"
  | OneStats sim_stats "string \<rightharpoonup> duration" duration
  | AllStats "(string \<times> sim_stats \<times> (string \<rightharpoonup> duration) \<times> duration) list"
  | TranscriptLines "transcript_line list"
  | Chaoses "(string \<times> chaos) list"
  | ClockIs duration instant

type_synonym admin_answer = "int \<times> admin_body"

definition failed :: "string \<Rightarrow> admin_answer" where
  "failed s = (400, Failed (ErrText s))"

definition engine_or :: "(engine \<Rightarrow> registry \<Rightarrow> admin_answer \<times> registry) \<Rightarrow> string \<Rightarrow> registry \<Rightarrow> admin_answer \<times> registry" where
  "engine_or h n r = (case engine_named r n of None \<Rightarrow> ((404, UnknownProfile n (names r)), r) | Some e \<Rightarrow> h e r)"

section \<open>Reading\<close>

definition listProfiles :: "registry \<Rightarrow> admin_answer" where
  "listProfiles r = (200, Profiles (map (\<lambda>n. en_prof (the (engine_named r n))) (names r)))"

definition getProfile :: "string \<Rightarrow> registry \<Rightarrow> admin_answer \<times> registry" where
  "getProfile = engine_or (\<lambda>e r. ((200, OneProfile (en_prof e)), r))"

definition stats_of :: "instant \<Rightarrow> registry \<Rightarrow> engine \<Rightarrow> sim_stats \<times> (string \<rightharpoonup> duration) \<times> duration" where
  "stats_of wall r e = (en_st e, ActiveCooldowns (wall + rg_offset r) e, rg_offset r)"

definition stats :: "instant \<Rightarrow> string \<Rightarrow> registry \<Rightarrow> admin_answer \<times> registry" where
  "stats wall n r =
     (if n \<noteq> [] then engine_or (\<lambda>e r. ((200, case stats_of wall r e of (s, c, off) \<Rightarrow> OneStats s c off), r)) n r
      else ((200, AllStats (map (\<lambda>(k, e). (k, stats_of wall r e)) (rg_engines r))), r))"

text \<open>A number that is not positive, or not a number, leaves the default.\<close>

definition transcript :: "string \<Rightarrow> string \<Rightarrow> registry \<Rightarrow> admin_answer \<times> registry" where
  "transcript v n r =
     (let k = (case atoi v of Some i \<Rightarrow> if v \<noteq> [] \<and> i > 0 then nat i else 100 | None \<Rightarrow> 100)
      in if n = [] then (failed ''profile query parameter is required'', r)
         else engine_or (\<lambda>e r. ((200, TranscriptLines (Transcript k e)), r)) n r)"

section \<open>Changing\<close>

text \<open>A body is what can be read of it up to the limit, or the error of reading it.\<close>

definition decoded_body :: "(string \<Rightarrow> string + 'a) \<Rightarrow> nat \<Rightarrow> string + string \<Rightarrow> string + 'a" where
  "decoded_body decode limit body = (case body of Inl err \<Rightarrow> Inl err | Inr b \<Rightarrow> decode (take limit b))"

definition putProfile :: "(string \<Rightarrow> string + profile) \<Rightarrow> string \<Rightarrow> string + string \<Rightarrow> registry \<Rightarrow> admin_answer \<times> registry" where
  "putProfile decode n body = engine_or (\<lambda>e r.
     case body of
       Inl err \<Rightarrow> (failed err, r)
     | Inr b \<Rightarrow>
         (case ParseProfile decode (take (2 ^ 20) b) n of
            Inl err \<Rightarrow> ((400, Failed (ErrProfile err)), r)
          | Inr p \<Rightarrow>
              if pf_name p \<noteq> n then (failed ''profile name in body does not match path'', r)
              else let p = p\<lparr>pf_listen := pf_listen (en_prof e)\<rparr>
                   in case Validate_profile p of
                        Some err \<Rightarrow> ((400, Failed (ErrProfile err)), r)
                      | None \<Rightarrow> ((200, OneProfile (en_prof (SetProfile p e))), update_engine n (SetProfile p) r))) n"

definition resetProfile :: "string \<Rightarrow> registry \<Rightarrow> admin_answer \<times> registry" where
  "resetProfile n = engine_or (\<lambda>e r. ((200, ResetOne (pf_name (en_prof e))), update_engine n Reset_engine r)) n"

definition resetAll :: "registry \<Rightarrow> admin_answer \<times> registry" where
  "resetAll r = ((200, ResetAll (names r)), r\<lparr>rg_engines := map (\<lambda>(k, e). (k, Reset_engine e)) (rg_engines r)\<rparr>)"

record chaos_req =
  cr_profile :: string
  cr_tempErrorRate :: "rat option"
  cr_tempErrorReply :: "string option"
  cr_dropRate :: "rat option"
  cr_seed :: "int option"
  cr_tarpitBanner :: "string option"
  cr_tarpitRcpt :: "string option"

definition new_chaos :: "chaos_req \<Rightarrow> chaos \<Rightarrow> chaos" where
  "new_chaos b c = \<lparr>ch_tempErrorRate = case_option (ch_tempErrorRate c) id (cr_tempErrorRate b),
     ch_tempErrorReply = case_option (ch_tempErrorReply c) id (cr_tempErrorReply b),
     ch_dropRate = case_option (ch_dropRate c) id (cr_dropRate b), ch_seed = case_option (ch_seed c) id (cr_seed b)\<rparr>"

text \<open>The tar pits are set by replacing the profile; a bad duration ends the request where it is.\<close>

definition set_tarpits :: "(string \<Rightarrow> string + duration) \<Rightarrow> chaos_req \<Rightarrow> engine \<Rightarrow> string + engine" where
  "set_tarpits parse b e =
     (if cr_tarpitBanner b = None \<and> cr_tarpitRcpt b = None then Inr e
      else let p = en_prof e; set1 = (\<lambda>d. p\<lparr>pf_behaviour := (pf_behaviour p)\<lparr>be_tarpitBanner := d\<rparr>\<rparr>)
           in case (case cr_tarpitBanner b of None \<Rightarrow> Inr p | Some s \<Rightarrow> (case parse s of Inl err \<Rightarrow> Inl (''tarpit_banner: '' @ err) | Inr d \<Rightarrow> Inr (set1 d))) of
                Inl err \<Rightarrow> Inl err
              | Inr p \<Rightarrow>
                  (case (case cr_tarpitRcpt b of None \<Rightarrow> Inr p
                         | Some s \<Rightarrow> (case parse s of Inl err \<Rightarrow> Inl (''tarpit_rcpt: '' @ err)
                                    | Inr d \<Rightarrow> Inr (p\<lparr>pf_behaviour := (pf_behaviour p)\<lparr>be_tarpitRcpt := d\<rparr>\<rparr>))) of
                     Inl err \<Rightarrow> Inl err
                   | Inr p \<Rightarrow> Inr (SetProfile p e)))"

fun chaos_each :: "(string \<Rightarrow> string + duration) \<Rightarrow> chaos_req \<Rightarrow> string list \<Rightarrow> registry \<Rightarrow> admin_answer option \<times> registry" where
  "chaos_each parse b [] r = (None, r)"
| "chaos_each parse b (n # ns) r =
     (let e = the (engine_named r n); c = new_chaos b (pf_chaos (en_prof e))
      in if \<not> rate_ok (ch_tempErrorRate c) \<or> \<not> rate_ok (ch_dropRate c) then (Some (failed ''rates must be within 0..1''), r)
         else let r = update_engine n (SetChaos c) r
              in case set_tarpits parse b (the (engine_named r n)) of
                   Inl err \<Rightarrow> (Some (failed err), r)
                 | Inr e \<Rightarrow> chaos_each parse b ns (update_engine n (\<lambda>_. e) r))"

definition chaos_targets :: "(string \<Rightarrow> string + duration) \<Rightarrow> chaos_req \<Rightarrow> string list \<Rightarrow> registry \<Rightarrow> admin_answer \<times> registry" where
  "chaos_targets parse b targets r =
     (case chaos_each parse b targets r of
        (Some a, r) \<Rightarrow> (a, r)
      | (None, r) \<Rightarrow> ((200, Chaoses (map (\<lambda>n. (n, pf_chaos (en_prof (the (engine_named r n))))) targets)), r))"

definition chaos_handler :: "(string \<Rightarrow> string + chaos_req) \<Rightarrow> (string \<Rightarrow> string + duration) \<Rightarrow> string + string \<Rightarrow> registry \<Rightarrow> admin_answer \<times> registry" where
  "chaos_handler decode parse body r =
     (case decoded_body decode (2 ^ 20) body of
        Inl err \<Rightarrow> (failed err, r)
      | Inr b \<Rightarrow>
          if cr_profile b \<noteq> [] then engine_or (\<lambda>_. chaos_targets parse b [cr_profile b]) (cr_profile b) r
          else chaos_targets parse b (names r) r)"

definition advance :: "(string \<Rightarrow> string + string) \<Rightarrow> (string \<Rightarrow> string + duration) \<Rightarrow> instant \<Rightarrow> string + string \<Rightarrow> registry \<Rightarrow> admin_answer \<times> registry" where
  "advance decode parse wall body r =
     (case decoded_body decode (2 ^ 16) body of
        Inl err \<Rightarrow> (failed err, r)
      | Inr s \<Rightarrow>
          (case parse s of
             Inl err \<Rightarrow> (failed (''d: '' @ err), r)
           | Inr d \<Rightarrow>
               if d < 0 then (failed ''the clock only moves forward'', r)
               else let off = Advance (rg_offset r) d in ((200, ClockIs off (wall + off)), r\<lparr>rg_offset := off\<rparr>)))"

section \<open>The routes\<close>

record admin_codecs =
  ac_profile :: "string \<Rightarrow> string + profile"
  ac_chaos :: "string \<Rightarrow> string + chaos_req"
  ac_advance :: "string \<Rightarrow> string + string"
  ac_duration :: "string \<Rightarrow> string + duration"

record admin_request =
  ar_method :: string
  ar_path :: string
  ar_profile :: string
  ar_n :: string
  ar_body :: "string + string"

text \<open>
  The patterns of \<open>http.ServeMux\<close> on the segments of a clean path; GET serves HEAD. \<open>None\<close> is the answer of the
  mux itself: not found, method not allowed or a redirect.
\<close>

definition admin_routes :: "admin_codecs \<Rightarrow> instant \<Rightarrow> admin_request \<Rightarrow> registry \<Rightarrow> (admin_answer \<times> registry) option" where
  "admin_routes ac wall q r =
     (let m = (if ar_method q = ''HEAD'' then ''GET'' else ar_method q)
      in case (m, split_on (CHR ''/'') (ar_path q)) of
           (_, [s0, s1]) \<Rightarrow>
             if s0 \<noteq> [] then None
             else if m = ''GET'' \<and> s1 = ''healthz'' then Some ((200, Healthy (names r)), r)
             else if m = ''GET'' \<and> s1 = ''profiles'' then Some (listProfiles r, r)
             else if m = ''POST'' \<and> s1 = ''reset'' then Some (resetAll r)
             else if m = ''GET'' \<and> s1 = ''stats'' then Some (stats wall (ar_profile q) r)
             else if m = ''GET'' \<and> s1 = ''transcript'' then Some (transcript (ar_n q) (ar_profile q) r)
             else if m = ''POST'' \<and> s1 = ''chaos'' then Some (chaos_handler (ac_chaos ac) (ac_duration ac) (ar_body q) r)
             else None
         | (_, [s0, s1, s2]) \<Rightarrow>
             if s0 \<noteq> [] then None
             else if m = ''GET'' \<and> s1 = ''profiles'' \<and> s2 \<noteq> [] then Some (getProfile s2 r)
             else if m = ''PUT'' \<and> s1 = ''profiles'' \<and> s2 \<noteq> [] then Some (putProfile (ac_profile ac) s2 (ar_body q) r)
             else if m = ''POST'' \<and> s1 = ''clock'' \<and> s2 = ''advance'' then Some (advance (ac_advance ac) (ac_duration ac) wall (ar_body q) r)
             else None
         | (_, [s0, s1, s2, s3]) \<Rightarrow>
             if s0 = [] \<and> m = ''POST'' \<and> s1 = ''profiles'' \<and> s2 \<noteq> [] \<and> s3 = ''reset'' then Some (resetProfile s2 r) else None
         | _ \<Rightarrow> None)"

section \<open>The scrape\<close>

definition metric_head :: "string \<Rightarrow> string \<Rightarrow> string \<Rightarrow> string" where
  "metric_head name typ help = ''# HELP '' @ name @ '' '' @ help @ [LF] @ ''# TYPE '' @ name @ '' '' @ typ @ [LF]"

definition per_profile :: "string \<Rightarrow> string \<Rightarrow> string \<Rightarrow> (sim_stats \<Rightarrow> int) \<Rightarrow> registry \<Rightarrow> string" where
  "per_profile name typ help f r = metric_head name typ help @
     concat (map (\<lambda>n. name @ ''{profile='' @ go_quote n @ ''} '' @ itoa (f (en_st (the (engine_named r n)))) @ [LF]) (names r))"

text \<open>The reply codes that were counted, as strings in their order: a count is there once it is not zero.\<close>

definition counted_codes :: "sim_stats \<Rightarrow> string list" where
  "counted_codes st = sort_strings (filter (\<lambda>c. ss_codeCounts st c \<noteq> 0) (map (\<lambda>i. itoa (int i)) [1..<1000]))"

definition code_lines :: "registry \<Rightarrow> string" where
  "code_lines r = concat (map (\<lambda>n. let st = en_st (the (engine_named r n)) in
     concat (map (\<lambda>c. ''mxsim_rcpt_total{profile='' @ go_quote n @ '',code='' @ go_quote c @ ''} '' @ itoa (ss_codeCounts st c) @ [LF])
       (counted_codes st))) (names r))"

definition metrics_handler :: "registry \<Rightarrow> string" where
  "metrics_handler r =
     per_profile ''mxsim_conns_total'' ''counter'' ''Connections accepted by the simulator.'' ss_conns r @
     per_profile ''mxsim_conns_rejected_total'' ''counter'' ''Connections refused by policy.'' ss_connsRejected r @
     per_profile ''mxsim_conns_active'' ''gauge'' ''Currently open connections.'' ss_currentConcurrent r @
     per_profile ''mxsim_conns_active_max'' ''gauge'' ''High-water mark of concurrent connections.'' ss_maxConcurrentSeen r @
     metric_head ''mxsim_rcpt_total'' ''counter'' ''RCPT TO commands by reply code.'' @ code_lines r @
     per_profile ''mxsim_throttle_total'' ''counter'' ''Throttling events (421/cooldown).'' ss_throttled r @
     per_profile ''mxsim_cooldowns_total'' ''counter'' ''Cooldown periods started.'' ss_cooldowns r @
     per_profile ''mxsim_rcpt_peak_per_min'' ''gauge'' ''Peak observed RCPT rate per minute, per profile.'' ss_peakRatePerMin r @
     per_profile ''mxsim_bad_sequence_total'' ''counter'' ''Out-of-sequence commands (client bugs).'' ss_badSequence r"

section \<open>Start-up\<close>

text \<open>One \<open>-listen name=addr\<close>; a later one for the same profile replaces it.\<close>

definition kvFlag_Set :: "string \<Rightarrow> (string \<times> string) list \<Rightarrow> string + (string \<times> string) list" where
  "kvFlag_Set v k =
     (let name = takeWhile (\<lambda>c. c \<noteq> CHR ''='') v; a = drop (length name + 1) v
      in if CHR ''='' \<notin> set v \<or> name = [] \<or> a = [] then Inl (''expected name=addr, got '' @ go_quote v)
         else Inr ((name, a) # filter (\<lambda>(n, _). n \<noteq> name) k))"

text \<open>\<open>-only\<close>: the profiles named, or an error for a name that is not there.\<close>

definition selected :: "string \<Rightarrow> profile list \<Rightarrow> string + profile list" where
  "selected only ps =
     (if only = [] then Inr ps
      else let want = remdups (map trim_space (split_on (CHR '','') only));
               kept = filter (\<lambda>p. pf_name p \<in> set want) ps;
               missing = filter (\<lambda>n. n \<notin> set (map pf_name kept)) want
           in case missing of [] \<Rightarrow> Inr kept | n # _ \<Rightarrow> Inl (''-only '' @ n @ '': no such profile''))"

definition with_listen :: "(string \<times> string) list \<Rightarrow> profile \<Rightarrow> profile" where
  "with_listen over p = (case map_of over (pf_name p) of None \<Rightarrow> p | Some a \<Rightarrow> p\<lparr>pf_listen := split_on (CHR '','') a\<rparr>)"

definition start_engines :: "string \<Rightarrow> (string \<times> string) list \<Rightarrow> profile list \<Rightarrow> string + registry" where
  "start_engines only over ps =
     (case selected only ps of
        Inl err \<Rightarrow> Inl err
      | Inr ps \<Rightarrow>
          let es = map (\<lambda>p. (pf_name p, NewEngine (with_listen over p))) ps
          in case filter (\<lambda>(n, _). n \<notin> set (map fst es)) over of
               [] \<Rightarrow> Inr \<lparr>rg_engines = es, rg_offset = 0\<rparr>
             | (n, _) # _ \<Rightarrow> Inl (''-listen '' @ n @ ''=...: no such profile''))"

section \<open>The profiles stay valid\<close>

definition registry_ok :: "registry \<Rightarrow> bool" where
  "registry_ok r \<longleftrightarrow> distinct (map fst (rg_engines r)) \<and>
     (\<forall>(n, e) \<in> set (rg_engines r). pf_name (en_prof e) = n \<and> Validate_profile (en_prof e) = None)"

definition listening :: "registry \<Rightarrow> (string \<times> string list) list" where
  "listening r = map (\<lambda>(n, e). (n, pf_listen (en_prof e))) (rg_engines r)"

definition good_change :: "(engine \<Rightarrow> engine) \<Rightarrow> engine \<Rightarrow> bool" where
  "good_change f e \<longleftrightarrow> pf_name (en_prof (f e)) = pf_name (en_prof e) \<and> pf_listen (en_prof (f e)) = pf_listen (en_prof e) \<and>
     Validate_profile (en_prof (f e)) = None"

lemma engine_named_ok: "registry_ok r \<Longrightarrow> engine_named r n = Some e \<Longrightarrow>
    (n, e) \<in> set (rg_engines r) \<and> pf_name (en_prof e) = n \<and> Validate_profile (en_prof e) = None"
  by (auto simp: engine_named_def registry_ok_def dest: map_of_SomeD)

lemma engine_named_only: "registry_ok r \<Longrightarrow> engine_named r n = Some e \<Longrightarrow> (n, e') \<in> set (rg_engines r) \<Longrightarrow> e' = e"
  by (auto simp: engine_named_def registry_ok_def)

lemma engine_named_update [simp]:
  "engine_named (update_engine n f r) m = map_option (\<lambda>e. if m = n then f e else e) (engine_named r m)"
proof -
  have "map_of (map (\<lambda>(k, e). (k, if k = n then f e else e)) xs) m = map_option (\<lambda>e. if m = n then f e else e) (map_of xs m)" for xs :: "(string \<times> engine) list"
    by (induction xs) auto
  then show ?thesis by (simp add: engine_named_def update_engine_def)
qed

lemma update_engine_ok:
  assumes "registry_ok r" "engine_named r n = Some e" "good_change f e"
  shows "registry_ok (update_engine n f r)" "listening (update_engine n f r) = listening r" "names (update_engine n f r) = names r"
    "rg_offset (update_engine n f r) = rg_offset r"
proof -
  have k: "map fst (rg_engines (update_engine n f r)) = map fst (rg_engines r)" by (simp add: update_engine_def split_def)
  show "names (update_engine n f r) = names r" by (simp add: names_def k)
  have 1: "e' = e" if "(n, e') \<in> set (rg_engines r)" for e' using engine_named_only [OF assms(1,2) that] .
  have "pf_name (en_prof x) = m \<and> Validate_profile (en_prof x) = None" if mx: "(m, x) \<in> set (rg_engines (update_engine n f r))" for m x
  proof -
    from mx obtain e' where e': "(m, e') \<in> set (rg_engines r)" "x = (if m = n then f e' else e')" by (auto simp: update_engine_def)
    with assms(1) have "pf_name (en_prof e') = m" "Validate_profile (en_prof e') = None" by (auto simp: registry_ok_def)
    with e' 1 assms(3) show ?thesis by (auto simp: good_change_def)
  qed
  with assms(1) k show "registry_ok (update_engine n f r)" unfolding registry_ok_def by auto
  have "pf_listen (en_prof (if m = n then f x else x)) = pf_listen (en_prof x)" if "(m, x) \<in> set (rg_engines r)" for m x
    using that 1 assms(3) by (auto simp: good_change_def)
  then show "listening (update_engine n f r) = listening r" by (auto simp: listening_def update_engine_def)
qed (simp add: update_engine_def)

lemma good_Reset: "Validate_profile (en_prof e) = None \<Longrightarrow> good_change Reset_engine e"
  by (simp add: good_change_def Reset_engine_def)

lemma good_SetProfile:
  assumes "pf_name p = pf_name (en_prof e)" "Validate_profile (p\<lparr>pf_listen := pf_listen (en_prof e)\<rparr>) = None"
  shows "good_change (SetProfile p) e"
  using assms by (simp add: good_change_def SetProfile_def)

lemma Validate_chaos:
  "Validate_profile p = None \<Longrightarrow> rate_ok (ch_tempErrorRate c) \<Longrightarrow> rate_ok (ch_dropRate c) \<Longrightarrow> Validate_profile (p\<lparr>pf_chaos := c\<rparr>) = None"
  by (auto simp: Validate_profile_def split: if_splits)

lemma good_SetChaos:
  assumes "Validate_profile (en_prof e) = None" "rate_ok (ch_tempErrorRate c)" "rate_ok (ch_dropRate c)"
  shows "good_change (SetChaos c) e"
  using Validate_chaos [OF assms(1)] assms(2,3) by (simp add: good_change_def SetChaos_def Let_def)

lemma good_set_tarpits:
  assumes "Validate_profile (en_prof e) = None" "set_tarpits parse b e = Inr e'"
  shows "good_change (\<lambda>_. e') e"
proof -
  have "Validate_profile ((en_prof e)\<lparr>pf_behaviour := x\<rparr>) = None" for x
    using assms(1) by (simp add: Validate_profile_def split: if_splits)
  then show ?thesis using assms
    by (auto simp: set_tarpits_def good_change_def SetProfile_def Let_def split: if_splits option.splits sum.splits)
qed

abbreviation kept :: "registry \<Rightarrow> registry \<Rightarrow> bool" where
  "kept r r' \<equiv> registry_ok r' \<and> listening r' = listening r \<and> rg_offset r \<le> rg_offset r'"

lemma kept_update:
  assumes "registry_ok r" "engine_named r n = Some e" "good_change f e"
  shows "kept r (update_engine n f r)"
  using update_engine_ok [OF assms] by simp

lemma chaos_each_keeps:
  "registry_ok r \<Longrightarrow> \<forall>n\<in>set ns. engine_named r n \<noteq> None \<Longrightarrow> chaos_each parse b ns r = (a, r') \<Longrightarrow> kept r r'"
proof (induction parse b ns r arbitrary: a r' rule: chaos_each.induct)
  case (2 parse b n ns r)
  define e where "e = the (engine_named r n)"
  define c where "c = new_chaos b (pf_chaos (en_prof e))"
  have e: "engine_named r n = Some e" using 2(3) by (simp add: e_def)
  have v: "Validate_profile (en_prof e) = None" using engine_named_ok [OF 2(2) e] by simp
  show ?case
  proof (cases "rate_ok (ch_tempErrorRate c) \<and> rate_ok (ch_dropRate c)")
    case False
    with 2(2,4) show ?thesis by (auto simp: Let_def e_def [symmetric] c_def [symmetric])
  next
    case True
    let ?r1 = "update_engine n (SetChaos c) r" and ?e1 = "SetChaos c e"
    have g1: "good_change (SetChaos c) e" using good_SetChaos v True by simp
    note u1 = update_engine_ok [OF 2(2) e g1]
    have e1: "engine_named ?r1 n = Some ?e1" using e by simp
    have v1: "Validate_profile (en_prof ?e1) = None" using g1 by (simp add: good_change_def)
    show ?thesis
    proof (cases "set_tarpits parse b ?e1")
      case (Inl err)
      with 2(4) True u1 show ?thesis using e by (auto simp: Let_def e_def [symmetric] c_def [symmetric])
    next
      case (Inr e2)
      note u2 = update_engine_ok [OF u1(1) e1 good_set_tarpits [OF v1 Inr]]
      let ?r2 = "update_engine n (\<lambda>_. e2) ?r1"
      have named: "\<forall>m\<in>set ns. engine_named ?r2 m \<noteq> None" using 2(3) by simp
      have "chaos_each parse b ns ?r2 = (a, r')" using 2(4) True Inr e by (auto simp: Let_def e_def [symmetric] c_def [symmetric])
      from 2(1) [OF e_def c_def _ refl _ u2(1) named this] True Inr e u1 u2 show ?thesis by auto
    qed
  qed
qed simp

lemma names_named: "n \<in> set (names r) \<longleftrightarrow> engine_named r n \<noteq> None"
  by (auto simp: names_def engine_named_def map_of_eq_None_iff)

lemma engine_or_keeps:
  assumes "registry_ok r" "\<And>e. engine_named r n = Some e \<Longrightarrow> kept r (snd (h e r))"
  shows "kept r (snd (engine_or h n r))"
  using assms by (cases "engine_named r n") (simp_all add: engine_or_def)

lemma putProfile_keeps: "registry_ok r \<Longrightarrow> kept r (snd (putProfile decode n body r))"
  unfolding putProfile_def
proof (rule engine_or_keeps)
  fix e assume r: "registry_ok r" and e: "engine_named r n = Some e"
  show "kept r (snd ((\<lambda>e r. case body of Inl err \<Rightarrow> (failed err, r) | Inr b \<Rightarrow>
      (case ParseProfile decode (take (2 ^ 20) b) n of Inl err \<Rightarrow> ((400, Failed (ErrProfile err)), r) | Inr p \<Rightarrow>
         if pf_name p \<noteq> n then (failed ''profile name in body does not match path'', r)
         else let p = p\<lparr>pf_listen := pf_listen (en_prof e)\<rparr> in case Validate_profile p of
           Some err \<Rightarrow> ((400, Failed (ErrProfile err)), r)
         | None \<Rightarrow> ((200, OneProfile (en_prof (SetProfile p e))), update_engine n (SetProfile p) r))) e r))"
    using r kept_update [OF r e good_SetProfile] engine_named_ok [OF r e]
    by (auto simp: Let_def split: sum.split option.split)
qed

lemma chaos_targets_keeps:
  assumes "registry_ok r" "\<forall>n\<in>set ns. engine_named r n \<noteq> None"
  shows "kept r (snd (chaos_targets parse b ns r))"
proof -
  obtain a r' where c: "chaos_each parse b ns r = (a, r')" by fastforce
  from chaos_each_keeps [OF assms c] show ?thesis by (simp add: chaos_targets_def c split: option.split)
qed

lemma chaos_handler_keeps: "registry_ok r \<Longrightarrow> kept r (snd (chaos_handler decode parse body r))"
  by (auto simp: chaos_handler_def names_named split: sum.split intro!: engine_or_keeps chaos_targets_keeps)

lemma resetAll_keeps: "registry_ok r \<Longrightarrow> kept r (snd (resetAll r))"
proof -
  assume r: "registry_ok r"
  have "fst \<circ> (\<lambda>(k :: string, e). (k, Reset_engine e)) = fst" by auto
  moreover have "en_prof (Reset_engine e) = en_prof e" for e by (simp add: Reset_engine_def)
  ultimately show ?thesis using r by (auto simp: resetAll_def registry_ok_def listening_def)
qed

text \<open>
  The control interface cannot break the simulator: whatever is asked of it, every engine keeps its name, the
  addresses it listens at and a profile that is valid, and the clock only moves forward.
\<close>

theorem admin_keeps_profiles:
  assumes "registry_ok r" "admin_routes ac wall q r = Some (a, r')"
  shows "registry_ok r' \<and> listening r' = listening r \<and> rg_offset r \<le> rg_offset r'"
proof -
  have get: "kept r (snd (getProfile n r))" for n
    unfolding getProfile_def by (rule engine_or_keeps [OF assms(1)]) (simp add: assms(1))
  have stats: "kept r (snd (stats wall n r))" for n
    unfolding stats_def using assms(1) by (auto intro!: engine_or_keeps)
  have transcript: "kept r (snd (transcript v n r))" for v n
    unfolding transcript_def Let_def using assms(1) by (auto intro!: engine_or_keeps)
  have reset: "kept r (snd (resetProfile n r))" for n
    unfolding resetProfile_def using kept_update [OF assms(1) _ good_Reset] engine_named_ok [OF assms(1)]
    by (intro engine_or_keeps [OF assms(1)]) auto
  have advance: "kept r (snd (advance d parse wall body r))" for d parse body
    using assms(1) by (auto simp: advance_def Advance_def Let_def registry_ok_def listening_def split: sum.split)
  from assms(2) have "r' = r \<or> r' = snd (resetAll r) \<or> (\<exists>n. r' = snd (stats wall n r)) \<or> (\<exists>v n. r' = snd (transcript v n r)) \<or>
      (\<exists>d p b. r' = snd (chaos_handler d p b r)) \<or> (\<exists>n. r' = snd (getProfile n r)) \<or> (\<exists>d n b. r' = snd (putProfile d n b r)) \<or>
      (\<exists>d p b. r' = snd (advance d p wall b r)) \<or> (\<exists>n. r' = snd (resetProfile n r))"
    by (auto simp: admin_routes_def Let_def split: list.splits if_splits) (metis snd_conv)+
  then show ?thesis
    using assms(1) get stats transcript reset advance resetAll_keeps [OF assms(1)] chaos_handler_keeps [OF assms(1)]
      putProfile_keeps [OF assms(1)] by (elim disjE exE) simp_all
qed

text \<open>And they are so from the start.\<close>

lemma start_engines_ok:
  assumes "start_engines only over ps = Inr r" "distinct (map pf_name ps)" "list_all (\<lambda>p. Validate_profile p = None) ps"
  shows "registry_ok r"
proof -
  obtain qs where q: "selected only ps = Inr qs" using assms(1) by (auto simp: start_engines_def split: sum.splits)
  then have "distinct (map pf_name qs)" "list_all (\<lambda>p. Validate_profile p = None) qs"
    using assms(2,3) by (auto simp: selected_def Let_def list_all_iff distinct_map inj_on_def split: if_splits list.splits)
  moreover have "rg_engines r = map (\<lambda>p. (pf_name p, NewEngine (with_listen over p))) qs"
    using assms(1) q by (auto simp: start_engines_def Let_def split: list.splits)
  moreover have "pf_name (with_listen over p) = pf_name p" "Validate_profile p = None \<Longrightarrow> Validate_profile (with_listen over p) = None" for p
    by (auto simp: with_listen_def Validate_profile_def split: option.split if_splits)
  ultimately show ?thesis by (auto simp: registry_ok_def NewEngine_def list_all_iff comp_def)
qed

definition example_registry :: registry where
  "example_registry = \<lparr>rg_engines = [(''strict'', NewEngine strict_profile)], rg_offset = 0\<rparr>"

lemma example_registry_ok: "registry_ok example_registry"
proof -
  have "pf_name strict_profile = ''strict''" "Validate_profile strict_profile = None" by code_simp+
  then show ?thesis by (simp add: registry_ok_def example_registry_def NewEngine_def)
qed

definition example_codecs :: admin_codecs where
  "example_codecs = \<lparr>ac_profile = (\<lambda>_. Inl ''no profile''), ac_chaos = (\<lambda>_. Inr \<lparr>cr_profile = ''strict'', cr_tempErrorRate = Some 1,
     cr_tempErrorReply = None, cr_dropRate = None, cr_seed = None, cr_tarpitBanner = None, cr_tarpitRcpt = Some ''5x''\<rparr>),
     ac_advance = (\<lambda>s. Inr s), ac_duration = (\<lambda>s. if s = ''5m'' then Inr (5 * minute) else Inl ''time: invalid duration'')\<rparr>"

definition forward_request :: admin_request where
  "forward_request = \<lparr>ar_method = ''POST'', ar_path = ''/clock/advance'', ar_profile = [], ar_n = [], ar_body = Inr ''5m''\<rparr>"

theorem admin_keeps_profiles_witness:
  "\<exists>a r. admin_routes example_codecs 0 forward_request example_registry = Some (a, r) \<and> rg_offset r = 5 * minute \<and> registry_ok r"
proof -
  have "advance (ac_advance example_codecs) (ac_duration example_codecs) 0 (Inr ''5m'') example_registry =
      ((200, ClockIs (5 * minute) (5 * minute)), example_registry\<lparr>rg_offset := 5 * minute\<rparr>)"
    by (simp add: advance_def decoded_body_def example_codecs_def example_registry_def Advance_def Let_def)
  then have "admin_routes example_codecs 0 forward_request example_registry =
      Some ((200, ClockIs (5 * minute) (5 * minute)), example_registry\<lparr>rg_offset := 5 * minute\<rparr>)"
    by (simp add: admin_routes_def forward_request_def Let_def)
  with admin_keeps_profiles [OF example_registry_ok this] show ?thesis by simp
qed

text \<open>A request that is refused may have done half its work: the rate is set although the answer is 400.\<close>

definition chaos_request :: admin_request where
  "chaos_request = \<lparr>ar_method = ''POST'', ar_path = ''/chaos'', ar_profile = [], ar_n = [], ar_body = Inr []\<rparr>"

theorem refused_chaos_is_applied:
  "\<exists>b r. admin_routes example_codecs 0 chaos_request example_registry = Some ((400, b), r) \<and>
    ch_tempErrorRate (pf_chaos (en_prof (the (engine_named r ''strict'')))) = 1 \<and>
    ch_tempErrorRate (pf_chaos (en_prof (the (engine_named example_registry ''strict'')))) = 0"
  by (simp add: admin_routes_def chaos_request_def chaos_handler_def decoded_body_def example_codecs_def example_registry_def engine_or_def
      engine_named_def chaos_targets_def new_chaos_def strict_parts rate_ok_def update_engine_def set_tarpits_def SetChaos_def NewEngine_def
      failed_def Let_def)

end
