(* ===== verification/Spec2Isabelle.thy ===== *)
theory Spec2Isabelle
  imports Classify Reply Retry Resp Client Limiter Band Pacer Resolver Standdown Iphealth Mxprofile Suppress Relay Config Metrics Api Service Simengine Simserver Simadmin Session Conduct Verdict Probe Requests
begin

text \<open>
  Verification of the e-mail verifier: a service that asks a mail server, by RCPT and without ever
  sending a message, whether an address exists, and that can, when configured, send mail of its own.

  \<^bold>\<open>The program.\<close> A request names one MX host and addresses of one or several domains. The prober
  (\<open>internal/prober\<close>) drops suppressed addresses, splits the others into SMTP sessions, and runs each
  session: resolve the host through an SSRF guard (\<open>internal/resolver\<close>), take a session lease and a
  token (\<open>internal/pacer\<close>, on the Lua scripts of \<open>internal/limiter\<close> in Redis, over the client and the wire
  format of \<open>internal/redis\<close>), dial, greet, upgrade to TLS, ask one RCPT per address and per token, and classify
  every reply. What the replies say about our rate moves the pacer; what they say about us stands a pace
  key down (\<open>internal/standdown\<close>) or is kept as the health of our address (\<open>internal/iphealth\<close>); what
  they say about the mailbox is the verdict; what they say about the server is remembered
  (\<open>internal/mxprofile\<close>). Erased addresses come in as digests (\<open>internal/suppress\<close>). The relay
  (\<open>internal/relay\<close>) composes, signs, queues and delivers outgoing mail. The HTTP interface
  (\<open>internal/api\<close>) is the only way in; \<open>cmd/verifierd\<close> reads the configuration (\<open>internal/config\<close>) and puts the
  parts together; \<open>internal/metrics\<close> shows what happened. A simulated mail server (\<open>internal/mxsim\<close>,
  \<open>cmd/mxsim\<close>) is what the service is tested against.

  \<^bold>\<open>The theories,\<close> each after those it needs. Shared:
  \<^item> \<open>Prelude\<close>: Go's strings, digits, sorting and durations as HOL functions, shared lemmas, and what it is to
    be read off a stream one item at a time (locale \<open>framing\<close>, for \<open>Resp\<close>, \<open>Reply\<close> and \<open>Simserver\<close>).
  \<^item> \<open>Regex\<close>: the regular expressions of the sources as a backtracking matcher with a semantics.

  Replies and the store:
  \<^item> \<open>Classify\<close>: \<open>classify.go\<close>, the class of a reply. Which replies can be verdicts, throttles, refusals of us.
  \<^item> \<open>Reply\<close>: \<open>readReply\<close> and \<open>reply.go\<close>. Round trip of multi-line replies, redaction.
  \<^item> \<open>Retry\<close>: \<open>retry.go\<close>. Bounds of the retry hints.
  \<^item> \<open>Resp\<close>, \<open>Client\<close>: \<open>internal/redis\<close>. Round trip of the protocol within its limits; a command gets its own
    answer whatever connections fail; a cached script is the script.

  Pacing:
  \<^item> \<open>Limiter\<close>: \<open>limiter.go\<close>, \<open>lease.go\<close> and the two Lua scripts. The bucket is a rate limit (locale
    \<open>token_source\<close>), the leases bound the open sessions (locale \<open>lease_pool\<close>).
  \<^item> \<open>Band\<close>: \<open>family.go\<close> and \<open>band.go\<close>. Pace keys and sane bands.
  \<^item> \<open>Pacer\<close>: \<open>pacer.go\<close>. Invariant of the AIMD loop over all interleavings of its critical sections,
    progress in both directions, the blocking calls, promotion, pauses.
  \<^item> \<open>Standdown\<close>: what evidence stands a key down, and that it then stops.
  \<^item> \<open>Iphealth\<close>: blocklist rounds, self-tests, complaints. Only a confirmed listing burns the node.

  Probing:
  \<^item> \<open>Resolver\<close>: \<open>guard.go\<close>, \<open>cache.go\<close>, \<open>resolver.go\<close>. The exact guard on IPv4, and that only vetted
    addresses leave the resolver (locale \<open>vetting_resolver\<close>).
  \<^item> \<open>Digest\<close>, \<open>Suppress\<close>, \<open>Mxprofile\<close>: SHA-256, the suppression list over it, the server profiles.
  \<^item> \<open>Session\<close>: one SMTP session of \<open>prober.go\<close>, over a record of operations of an arbitrary environment.
  \<^item> \<open>Conduct\<close>: an automaton that watches the log of a session: tokens, leases, dials, commands.
  \<^item> \<open>Verdict\<close>: every result of a session is backed by the reply to its own RCPT.
  \<^item> \<open>Probe\<close>, \<open>Requests\<close>: whole requests of \<open>prober.go\<close>. A request ends, answers every address, makes up no
    verdict, asks no suppressed address, pays for every question.

  Sending:
  \<^item> \<open>Message\<close>, \<open>Dkim\<close>: \<open>message.go\<close>, \<open>dkim.go\<close>. The message as it is written, and that the canonical
    forms are those of the standard.
  \<^item> \<open>Sender\<close>: \<open>sender.go\<close>, one delivery. What it reports is what the server said.
  \<^item> \<open>Queue\<close>, \<open>Relay\<close>: \<open>queue.go\<close>, \<open>relay.go\<close>. No message is lost or taken twice, a connection comes after
    every check.

  The service:
  \<^item> \<open>Config\<close>: \<open>config.go\<close>. The three layers of the settings; a service starts only on a complete one.
  \<^item> \<open>Metrics\<close>: \<open>metrics.go\<close>. The counters are their history; no label can forge a line of the scrape.
  \<^item> \<open>Api\<close>: the handlers, the credential check, the routes. A probe is always answered.
  \<^item> \<open>Service\<close>: \<open>cmd/verifierd\<close>. What a service that says it is ready has; the drain of the queue.

  The simulated server:
  \<^item> \<open>Simengine\<close>: profiles and the policy engine. Its limits hold over all interleavings of connections
    (relation \<open>sim_step\<close>, and \<open>sim_life\<close> with the resets and changes of profile of its operator; locale \<open>door\<close> for what a visit leaves behind), every event is counted once, the transcript is the end of what was said.
  \<^item> \<open>Simserver\<close>: its SMTP dialogue. A session is a run of the engine and leaks no connection, it keeps the order of SMTP,
    and what it answers is what \<open>readReply\<close> of the prober hears.
  \<^item> \<open>Simadmin\<close>: the control interface, the scrape and the start. The profiles stay valid.

  This theory joins the suppression list to the requests: an erased address is never asked about.

  \<^bold>\<open>How the model corresponds.\<close> Definitions carry the names of the Go functions; a loop or a closure of a
  long function is a definition of its own. Structs are records, errors are values of sum types, nil
  pointers are options, maps are maps or, where they are scanned, association lists. Times are
  nanoseconds since some origin, floats are rationals (there is no NaN), strings are bytes and case and white space are those of ASCII, counters that may wrap are words. Mutexes are not
  modelled: the critical sections are the steps of \<open>pacer_step\<close> and \<open>sim_step\<close>. Environment operations
  (DNS, sockets, TLS, Redis, the clock, randomness, files) and the libraries that are not part of the
  repository (JSON, YAML, RSA and X.509, the flag parser) are arguments; a theorem that needs a law about
  one says so in its hypotheses.

  \<^bold>\<open>Loops.\<close> Loops over data are structural. \<open>take_loop\<close>, \<open>domains_loop\<close> and \<open>readFullReply\<close> may run long and
  are partial functions: \<open>Probe_answers_all\<close> shows that the queue of a request always empties, because every
  session answers at least the first address it is given; \<open>Acquire\<close> waits as long as the bucket says and
  returns what the bucket or the context decides. The loop of a simulated session ends because every turn
  uses up a line of what the client sent. Only \<open>drain\<close>, which has no end of its own, counts its turns with fuel,
  and what is shown of it holds for every number of turns.

  \<^bold>\<open>Not modelled.\<close> Deadlines of connections: a read that times out is an error the environment may return at any
  point. Log messages but for the request log and the journal of replies. The accept loops, goroutines and signals
  of the two programs, and the certificate the simulated server makes for itself: they only call the operating
  system and the libraries. The text form of durations in the statistics of the simulated server.
\<close>

section \<open>Erasure, from the import to the socket\<close>

text \<open>The list behind the operation of a request: it reads the store in the state the import left.\<close>

primrec error_text :: "redis_error \<Rightarrow> string" where
  "error_text (RedisError m) = m"
| "error_text (Transport m) = m"

definition with_list :: "'s redis \<Rightarrow> suppress_list \<Rightarrow> 's \<Rightarrow> 'w services \<Rightarrow> 'w services" where
  "with_list run l s sv = sv\<lparr>enforcing := Enforcing l,
     suppressed_op := (\<lambda>a w. (map_sum error_text id (fst (Suppressed run l a s)), w))\<rparr>"

lemma with_list_hits:
  assumes "keeps_members run members" "Enabled l" "a \<noteq> []" "on_list (Salt l) (members s) a" "fst (Suppressed run l a s) = Inr found"
  shows "\<exists>reason. \<forall>w. suppressed_op (with_list run l s sv) a w = (Inr (True, reason), w)"
proof -
  obtain hit reason s' where h: "Suppressed run l a s = (Inr (hit, reason), s')"
    using assms(5) by (metis prod.collapse)
  from Suppressed_Inr [OF assms(1-3) h] assms(4) have hit by simp
  with h show ?thesis by (simp add: with_list_def)
qed

text \<open>
  C4. Whoever asked to be forgotten is not asked about: when an export that holds the digest of an address
  or of its domain was imported without an error, the list is enforced, and the lookup of this address gets an
  answer from the store, then no session of a request writes an RCPT for the address, in whatever case
  it is written, and its result is a refusal of ours. The lookup is the one after the import: nothing removed the digest in
  between. When it fails the code goes on without the list, so the answer is a
  condition. The address is not empty and not of the shape of the made-up addresses of the catch-all question.
\<close>

theorem erased_never_asked:
  assumes "keeps_members run members" "Enforce l"
    and "Import run now l version digests replace s = (None, s')" "on_list (Salt l) (set digests) a"
    and "fst (Suppressed run l a s') = Inr found"
    and "Probe op (with_list run l s' sv) o1 req \<lparr>env = w, unread = u, fallen = f, log = []\<rparr> = Some (Inr resp, st')"
    and "a \<noteq> []" "a \<in> set (requested req)" "\<not> bogus_shaped a"
  shows "Said (rcpt_cmd a) \<notin> set (log st') \<and>
    (\<exists>r. Results resp a = Some r \<and> RClass r = ClassSuppressed \<and> Connected r = Some False \<and> Accepted r = None)"
proof -
  have en: "Enabled l" using assms(3) by (auto simp: Import_def split: if_splits)
  have "on_list (Salt l) (members s') a"
    using assms(4) Import_members [OF assms(1,3)] unfolding on_list_def Let_def by auto
  from with_list_hits [OF assms(1) en assms(7) this assms(5), of sv]
  have "\<And>w. \<exists>reason w'. suppressed_op (with_list run l s' sv) a w = (Inr (True, reason), w')" by blast
  moreover have "enforcing (with_list run l s' sv)" using en assms(2) by (simp add: with_list_def Enforcing_def)
  ultimately show ?thesis by (intro hit_never_asked [OF assms(6) _ _ assms(8,9)]) auto
qed

theorem erased_never_asked_witness:
  "Said (rcpt_cmd ''jo@example.org'') \<notin> set (log (snd (example_probe (with_list set_server example_list forgotten no_services))))"
proof -
  have e: "to_lower (trim_space ''jo@example.org'') = ''jo@example.org''" "to_lower (trim_space ''Jo@Example.org '') = ''jo@example.org''"
    by code_simp+
  have h: "Hash ''pepper'' ''Jo@Example.org '' = Hash ''pepper'' ''jo@example.org''" by (rule Hash_trims) (simp add: e)
  have on: "on_list (Salt example_list) (set forgotten) ''jo@example.org''"
    by (simp add: on_list_def e forgotten_def h example_list_def New_list_def)
  have r: "fst (Suppressed set_server example_list ''jo@example.org'' forgotten) = Inr (True, ''suppressed by address'')"
    by (simp add: Suppressed_def example_list_def New_list_def Enabled_def e candidates_def suppress_member_def set_server_def forgotten_def h)
  have en: "Enforcing example_list" "Enabled example_list" by (simp_all add: example_list_def New_list_def Enforcing_def Enabled_def)
  from with_list_hits [OF set_server_keeps en(2) _ on r, of "no_services :: string list services"] obtain reason where
    hit: "\<And>w. suppressed_op (with_list set_server example_list forgotten (no_services :: string list services)) ''jo@example.org'' w = (Inr (True, reason), w)" by auto
  have "enforcing (with_list set_server example_list forgotten (no_services :: string list services))" using en by (simp add: with_list_def)
  from erased_never_asked [OF set_server_keeps _ example_import on r example_hit [OF this hit]]
  show ?thesis using jo_not_bogus by (simp add: requested_def example_request_def example_list_def New_list_def)
qed

end
